(* ===== verification/Prelude.thy ===== *)
theory Prelude
  imports Main "HOL-Library.Multiset" "HOL-Library.Word" "HOL-Library.Char_ord"
    "HOL-Library.List_Lexorder" "HOL-Library.Sublist"
begin

text \<open>
  Shared vocabulary of the development: the byte strings of the program, the fixed-width
  signed integers it casts to, the collections of lemmas that the component theories extend,
  and generic facts on lists and maps that several components use.

  C++ strings and the \<^verbatim>\<open>uint8_t\<close> arrays are byte sequences; a HOL \<open>char\<close> is exactly one
  byte, so \<open>bytes\<close> is \<open>string\<close>. Sizes and positions (\<^verbatim>\<open>size_t\<close>) are \<open>nat\<close>; the signed
  64-bit and 32-bit values of the code are \<open>int\<close>, and \<open>wrap64\<close> and \<open>wrap32\<close> are the
  two's-complement reductions, written wherever the code computes or casts a value that can
  leave the range.
\<close>

section \<open>Types and collections\<close>

type_synonym bytes = "string"

named_theorems inv_intro "operations that keep a component's invariant"
named_theorems abs_simps "effect of an operation on a component's abstract value"

section \<open>Fixed-width signed integers\<close>

definition wrap32 :: "int \<Rightarrow> int" where
  "wrap32 x = (x + 2 ^ 31) mod 2 ^ 32 - 2 ^ 31"

definition wrap64 :: "int \<Rightarrow> int" where
  "wrap64 x = (x + 2 ^ 63) mod 2 ^ 64 - 2 ^ 63"

lemma wrap32_id: "- (2 ^ 31) \<le> x \<Longrightarrow> x < 2 ^ 31 \<Longrightarrow> wrap32 x = x"
  by (simp add: wrap32_def)

lemma wrap64_id: "- (2 ^ 63) \<le> x \<Longrightarrow> x < 2 ^ 63 \<Longrightarrow> wrap64 x = x"
  by (simp add: wrap64_def)

lemma wrap32_of_nat [simp]: "n < 2147483648 \<Longrightarrow> wrap32 (int n) = int n"
  by (rule wrap32_id) auto

section \<open>Lists\<close>

definition swap :: "'a list \<Rightarrow> nat \<Rightarrow> nat \<Rightarrow> 'a list" where
  "swap xs i j = xs[i := xs ! j, j := xs ! i]"

lemma length_swap [simp]: "length (swap xs i j) = length xs"
  by (simp add: swap_def)

lemma nth_swap:
  assumes "i < length xs" "j < length xs"
  shows "swap xs i j ! k = (if k = i then xs ! j else if k = j then xs ! i else xs ! k)"
  using assms by (auto simp: swap_def nth_list_update)

lemma mset_swap_eq: "i < length xs \<Longrightarrow> j < length xs \<Longrightarrow> mset (swap xs i j) = mset xs"
  unfolding swap_def by (rule mset_swap)

lemma swap_Nil_iff [simp]: "swap xs i j = [] \<longleftrightarrow> xs = []"
  by (simp add: swap_def)

lemma butlast_swap_last:
  "i < length xs - 1 \<Longrightarrow> butlast (swap xs i (length xs - 1)) = (butlast xs)[i := xs ! (length xs - 1)]"
  by (simp add: swap_def butlast_list_update)

lemma last_conv_nth_butlast:
  "xs \<noteq> [] \<Longrightarrow> xs = butlast xs @ [xs ! (length xs - 1)]"
  by (simp add: last_conv_nth [symmetric] del: One_nat_def)

lemma butlast_eq_Nil: "butlast xs = [] \<longleftrightarrow> length xs \<le> 1"
  by (cases xs) auto

lemma nth_mem_drop: "off \<le> m \<Longrightarrow> m < length xs \<Longrightarrow> xs ! m \<in> set (drop off xs)"
  by (auto simp: in_set_conv_nth intro!: exI [of _ "m - off"])

lemma drop_eq_Cons_nth: "i < length xs \<Longrightarrow> drop i xs = xs ! i # drop (Suc i) xs"
  by (simp add: Cons_nth_drop_Suc)

lemma strict_prefix_append_cases:
  assumes "strict_prefix p (xs @ ys)"
  obtains "strict_prefix p xs" | us where "p = xs @ us" "strict_prefix us ys"
proof -
  from assms have "p = xs \<and> ys \<noteq> [] \<or> strict_prefix p xs \<or> (\<exists>us. p = xs @ us \<and> strict_prefix us ys)"
    by (auto simp: strict_prefix_def prefix_append)
  then show thesis using that by (cases ys) auto
qed

lemma sum_list_list_update_nat:
  fixes f :: "'a \<Rightarrow> nat"
  assumes "i < length xs"
  shows "sum_list (map f (xs[i := y])) + f (xs ! i) = sum_list (map f xs) + f y"
  using assms
proof (induction xs arbitrary: i)
  case (Cons x xs)
  then show ?case by (cases i) auto
qed simp

lemma length_concat_update:
  "i < length xss \<Longrightarrow> length (concat (xss[i := ys])) + length (xss ! i) = length (concat xss) + length ys"
  by (simp add: length_concat sum_list_list_update_nat)

lemma mset_concat_update:
  assumes "i < length xss"
  shows "mset (concat (xss[i := ys])) + mset (xss ! i) = mset (concat xss) + mset ys"
  using assms
proof (induction xss arbitrary: i)
  case (Cons x xss)
  then show ?case by (cases i) (auto simp: add_ac)
qed simp

text \<open>The elements that the range commands select with start and stop: a negative index counts from the end, and the range is
  cut to the list.\<close>

definition redis_range :: "'a list \<Rightarrow> int \<Rightarrow> int \<Rightarrow> 'a list" where
  "redis_range xs start stop =
     (let n = int (length xs);
          lo = (if start < 0 then max 0 (start + n) else start);
          hi = min (n - 1) (if stop < 0 then stop + n else stop)
      in if lo \<le> hi then take (nat (hi - lo + 1)) (drop (nat lo) xs) else [])"

lemma map_nth_upto:
  assumes "0 \<le> lo" "lo \<le> hi" "hi < int (length xs)"
  shows "map (\<lambda>i. xs ! nat i) [lo..hi] = take (nat (hi - lo + 1)) (drop (nat lo) xs)"
proof (rule nth_equalityI)
  show "length (map (\<lambda>i. xs ! nat i) [lo..hi]) = length (take (nat (hi - lo + 1)) (drop (nat lo) xs))"
    using assms by simp
  show "map (\<lambda>i. xs ! nat i) [lo..hi] ! j = take (nat (hi - lo + 1)) (drop (nat lo) xs) ! j"
    if "j < length (map (\<lambda>i. xs ! nat i) [lo..hi])" for j
    using assms that by (simp add: nat_add_distrib)
qed

lemma redis_range_all: "redis_range xs 0 (- 1) = xs"
  by (auto simp: redis_range_def Let_def)

section \<open>Maps\<close>

lemma map_eqI: "(\<And>k v. f k = Some v \<longleftrightarrow> g k = Some v) \<Longrightarrow> f = g"
  by (rule ext) (metis not_None_eq)

lemma restrict_compl_insert: "(m(k := None)) |` (- S) = m |` (- insert k S)"
  by (auto simp: restrict_map_def fun_eq_iff)

end
