(* ===== verification/Hash_Table.thy ===== *)
theory Hash_Table
  imports Prelude
begin

text \<open>
  \<^verbatim>\<open>store/HashTable\<close>: separate chaining with a power-of-two number of slots, the FNV-1a hash kept
  at 64 bits, and incremental rehashing through two tables. A chain (\<^verbatim>\<open>HTEntry*\<close> linked by
  \<^verbatim>\<open>next\<close>) is the list of its entries from the head; \<^verbatim>\<open>slots\<close> is the list of chains, empty for
  the null pointer (\<^verbatim>\<open>allocTable\<close> never makes an array of length 0). The value type is a
  parameter. The abstract value is the map \<open>ht_map\<close> from keys to entries; \<open>ht_inv\<close> is the
  invariant of the two tables, and the locale \<open>kv_table\<close> the contract the database relies on.
\<close>

section \<open>State\<close>

record 'v htentry =
  ekey :: bytes
  evalue :: 'v
  hashCode :: "64 word"
  expireAt :: int

record 'v table =
  slots :: "'v htentry list list"
  capacity :: nat
  tmask :: nat
  tsize :: nat

record 'v hash_table =
  primary :: "'v table"
  rehash :: "'v table"
  isRehashing :: bool
  rehashIdx :: nat

section \<open>Operations\<close>

unbundle bit_operations_syntax

definition kFNVOffsetBasis :: "64 word" where "kFNVOffsetBasis = 14695981039346656037"
definition kFNVPrime :: "64 word" where "kFNVPrime = 1099511628211"

definition fnv_hash :: "bytes \<Rightarrow> 64 word" where
  "fnv_hash k = foldl (\<lambda>h c. (h XOR of_char c) * kFNVPrime) kFNVOffsetBasis k"

definition null_table :: "'v table" where
  "null_table = \<lparr>slots = [], capacity = 0, tmask = 0, tsize = 0\<rparr>"

definition allocTable :: "nat \<Rightarrow> 'v table" where
  "allocTable c = \<lparr>slots = replicate c [], capacity = c, tmask = c - 1, tsize = 0\<rparr>"

definition freeTable :: "'v table \<Rightarrow> 'v table" where
  "freeTable t = (if slots t \<noteq> [] then null_table else t)"

definition new_table :: "'v hash_table" where
  "new_table = \<lparr>primary = null_table, rehash = null_table, isRehashing = False, rehashIdx = 0\<rparr>"

definition slot_of :: "'v table \<Rightarrow> 64 word \<Rightarrow> nat" where
  "slot_of t h = unat (h AND of_nat (tmask t))"

definition matches :: "bytes \<Rightarrow> 64 word \<Rightarrow> 'v htentry \<Rightarrow> bool" where
  "matches k h e = (hashCode e = h \<and> ekey e = k)"

definition findInTable :: "'v table \<Rightarrow> bytes \<Rightarrow> 64 word \<Rightarrow> 'v htentry option" where
  "findInTable t k h = (if slots t = [] then None else List.find (matches k h) (slots t ! slot_of t h))"

definition ht_find :: "'v hash_table \<Rightarrow> bytes \<Rightarrow> 'v htentry option" where
  "ht_find ht k =
     (let h = fnv_hash k in
      case findInTable (primary ht) k h of
        Some e \<Rightarrow> Some e
      | None \<Rightarrow> if isRehashing ht then findInTable (rehash ht) k h else None)"

text \<open>Unlink the first entry that matches; overwrite it in place.\<close>

fun unlink_first :: "('a \<Rightarrow> bool) \<Rightarrow> 'a list \<Rightarrow> 'a list" where
  "unlink_first P [] = []"
| "unlink_first P (x # xs) = (if P x then xs else x # unlink_first P xs)"

fun update_first :: "('a \<Rightarrow> bool) \<Rightarrow> ('a \<Rightarrow> 'a) \<Rightarrow> 'a list \<Rightarrow> 'a list" where
  "update_first P f [] = []"
| "update_first P f (x # xs) = (if P x then f x # xs else x # update_first P f xs)"

definition delFromTable :: "'v table \<Rightarrow> bytes \<Rightarrow> 64 word \<Rightarrow> bool \<times> 'v table" where
  "delFromTable t k h =
     (if slots t = [] then (False, t)
      else let idx = slot_of t h; chain = slots t ! idx in
        case List.find (matches k h) chain of
          None \<Rightarrow> (False, t)
        | Some _ \<Rightarrow> (True, t\<lparr>slots := (slots t)[idx := unlink_first (matches k h) chain],
                              tsize := tsize t - 1\<rparr>))"

definition pushEntry :: "'v table \<Rightarrow> 'v htentry \<Rightarrow> 'v table" where
  "pushEntry t e =
     (let idx = slot_of t (hashCode e) in
      t\<lparr>slots := (slots t)[idx := e # slots t ! idx], tsize := tsize t + 1\<rparr>)"

definition triggerRehash :: "'v hash_table \<Rightarrow> 'v hash_table" where
  "triggerRehash ht =
     ht\<lparr>rehash := primary ht, primary := allocTable (capacity (primary ht) * 2),
        isRehashing := True, rehashIdx := 0\<rparr>"

function skipEmpty :: "'v table \<Rightarrow> nat \<Rightarrow> nat" where
  "skipEmpty t i = (if i < capacity t \<and> slots t ! i = [] then skipEmpty t (i + 1) else i)"
  by pat_completeness auto
termination
  by (relation "measure (\<lambda>(t, i). capacity t - i)") auto

declare skipEmpty.simps [simp del]

text \<open>Relink the entries of a chain, in order, at the heads of the new table's chains.\<close>

fun migrateChain :: "'v table \<Rightarrow> 'v table \<Rightarrow> 'v htentry list \<Rightarrow> 'v table \<times> 'v table" where
  "migrateChain p r [] = (p, r)"
| "migrateChain p r (e # es) = migrateChain (pushEntry p e) (r\<lparr>tsize := tsize r - 1\<rparr>) es"

definition migrateOneSlot :: "'v hash_table \<Rightarrow> 'v hash_table" where
  "migrateOneSlot ht =
     (let idx = skipEmpty (rehash ht) (rehashIdx ht) in
      if capacity (rehash ht) \<le> idx
      then ht\<lparr>rehash := freeTable (rehash ht), isRehashing := False, rehashIdx := 0\<rparr>
      else let (p, r) = migrateChain (primary ht) (rehash ht) (slots (rehash ht) ! idx);
               r' = r\<lparr>slots := (slots r)[idx := []]\<rparr>
           in if tsize r' = 0
              then ht\<lparr>primary := p, rehash := r'\<lparr>slots := [], capacity := 0, tmask := 0\<rparr>,
                      isRehashing := False, rehashIdx := 0\<rparr>
              else ht\<lparr>primary := p, rehash := r', rehashIdx := idx + 1\<rparr>)"

primrec rehashStep_loop :: "nat \<Rightarrow> 'v hash_table \<Rightarrow> 'v hash_table" where
  "rehashStep_loop 0 ht = ht"
| "rehashStep_loop (Suc n) ht =
     (if isRehashing ht then rehashStep_loop n (migrateOneSlot ht) else ht)"

definition kRehashBatchSize :: nat where "kRehashBatchSize = 128"

definition rehashStep :: "'v hash_table \<Rightarrow> nat \<Rightarrow> 'v hash_table" where
  "rehashStep ht nSteps = (if \<not> isRehashing ht then ht else rehashStep_loop nSteps ht)"

text \<open>A write to the entry that \<open>findInTable\<close> returned.\<close>

definition modifyInTable :: "'v table \<Rightarrow> bytes \<Rightarrow> 64 word \<Rightarrow> ('v htentry \<Rightarrow> 'v htentry) \<Rightarrow> 'v table" where
  "modifyInTable t k h f =
     (let idx = slot_of t h in t\<lparr>slots := (slots t)[idx := update_first (matches k h) f (slots t ! idx)]\<rparr>)"

text \<open>The load factor test \<^verbatim>\<open>size / capacity > 2.0\<close> on doubles is exact for a power-of-two
  capacity and sizes below 2^53.\<close>

definition ht_set :: "'v hash_table \<Rightarrow> bytes \<Rightarrow> 'v \<Rightarrow> 'v hash_table" where
  "ht_set ht k v =
     (let ht1 = (if isRehashing ht then rehashStep ht kRehashBatchSize else ht);
          h = fnv_hash k;
          ht2 = (if isRehashing ht1 then ht1\<lparr>rehash := snd (delFromTable (rehash ht1) k h)\<rparr> else ht1);
          ht3 = (if slots (primary ht2) = [] then ht2\<lparr>primary := allocTable 4\<rparr> else ht2);
          p = primary ht3
      in case findInTable p k h of
           Some _ \<Rightarrow> ht3\<lparr>primary := modifyInTable p k h (\<lambda>e. e\<lparr>evalue := v\<rparr>)\<rparr>
         | None \<Rightarrow>
             let p' = pushEntry p \<lparr>ekey = k, evalue = v, hashCode = h, expireAt = - 1\<rparr>;
                 ht4 = ht3\<lparr>primary := p'\<rparr>
             in if \<not> isRehashing ht4 \<and> 2 * capacity p' < tsize p' then triggerRehash ht4 else ht4)"

definition ht_del :: "'v hash_table \<Rightarrow> bytes \<Rightarrow> bool \<times> 'v hash_table" where
  "ht_del ht k =
     (let ht1 = (if isRehashing ht then rehashStep ht kRehashBatchSize else ht);
          h = fnv_hash k;
          (found, p) = delFromTable (primary ht1) k h
      in if found then (True, ht1\<lparr>primary := p\<rparr>)
         else if isRehashing ht1
         then let (found', r) = delFromTable (rehash ht1) k h in (found', ht1\<lparr>rehash := r\<rparr>)
         else (False, ht1))"

text \<open>A write through the pointer that \<open>find\<close> returned.\<close>

definition ht_modify :: "'v hash_table \<Rightarrow> bytes \<Rightarrow> ('v htentry \<Rightarrow> 'v htentry) \<Rightarrow> 'v hash_table" where
  "ht_modify ht k f =
     (let h = fnv_hash k in
      case findInTable (primary ht) k h of
        Some _ \<Rightarrow> ht\<lparr>primary := modifyInTable (primary ht) k h f\<rparr>
      | None \<Rightarrow>
          if isRehashing ht \<and> findInTable (rehash ht) k h \<noteq> None
          then ht\<lparr>rehash := modifyInTable (rehash ht) k h f\<rparr> else ht)"

definition ht_size :: "'v hash_table \<Rightarrow> nat" where
  "ht_size ht = tsize (primary ht) + tsize (rehash ht)"

definition ht_keys :: "'v hash_table \<Rightarrow> bytes list" where
  "ht_keys ht = map ekey (concat (slots (primary ht))) @ map ekey (concat (slots (rehash ht)))"

text \<open>The slot walk of \<^verbatim>\<open>scan\<close>: whole chains, until \<open>cnt\<close> keys have been visited.\<close>

function scan_walk :: "'v table \<Rightarrow> nat \<Rightarrow> nat \<Rightarrow> nat \<Rightarrow> bytes list \<Rightarrow> nat \<times> bytes list" where
  "scan_walk t cnt visited slot result =
     (if visited < cnt \<and> slot < capacity t
      then scan_walk t cnt (visited + length (slots t ! slot)) (slot + 1)
             (result @ map ekey (slots t ! slot))
      else (slot, result))"
  by pat_completeness auto
termination
  by (relation "measure (\<lambda>(t, cnt, visited, slot, result). capacity t - slot)") auto

declare scan_walk.simps [simp del]

definition ht_scan :: "'v hash_table \<Rightarrow> nat \<Rightarrow> nat \<Rightarrow> nat \<times> bytes list" where
  "ht_scan ht cursor cnt =
     (if slots (primary ht) = [] \<or> capacity (primary ht) = 0 then (0, [])
      else let (slot, result) = scan_walk (primary ht) cnt 0 cursor [];
               result' = (if isRehashing ht \<and> slots (rehash ht) \<noteq> [] \<and> cursor = 0
                          then result @ map ekey (concat (slots (rehash ht))) else result)
           in (if capacity (primary ht) \<le> slot then 0 else slot, result'))"

definition flushAll :: "'v hash_table \<Rightarrow> 'v hash_table" where
  "flushAll ht =
     ht\<lparr>primary := freeTable (primary ht), rehash := freeTable (rehash ht),
        isRehashing := False, rehashIdx := 0\<rparr>"

definition ht_expiryCount :: "'v hash_table \<Rightarrow> nat" where
  "ht_expiryCount ht =
     length (filter (\<lambda>e. 0 \<le> expireAt e) (concat (slots (primary ht)))) +
     length (filter (\<lambda>e. 0 \<le> expireAt e) (concat (slots (rehash ht))))"

section \<open>Abstract value and invariant\<close>

abbreviation entries :: "'v table \<Rightarrow> 'v htentry list" where
  "entries t \<equiv> concat (slots t)"

definition ht_entries :: "'v hash_table \<Rightarrow> 'v htentry list" where
  "ht_entries ht = entries (primary ht) @ entries (rehash ht)"

definition ht_map :: "'v hash_table \<Rightarrow> bytes \<rightharpoonup> 'v htentry" where
  "ht_map ht = map_of (map (\<lambda>e. (ekey e, e)) (ht_entries ht))"

fun is_pow2 :: "nat \<Rightarrow> bool" where
  "is_pow2 n = (if n \<le> 1 then n = 1 else even n \<and> is_pow2 (n div 2))"

declare is_pow2.simps [simp del]

lemma is_pow2_double: "is_pow2 n \<Longrightarrow> is_pow2 (n * 2)"
  by (cases "n = 0") (auto simp: is_pow2.simps [of 0] is_pow2.simps [of "n * 2"])

lemma is_pow2_pos: "is_pow2 n \<Longrightarrow> 0 < n"
  by (cases n) (simp_all add: is_pow2.simps [of 0])

lemma is_pow2_4: "is_pow2 4"
  by (simp add: is_pow2.simps)

definition table_inv :: "'v table \<Rightarrow> bool" where
  "table_inv t =
     (length (slots t) = capacity t \<and> tsize t = length (entries t) \<and>
      (if slots t = [] then tmask t = 0 else is_pow2 (capacity t) \<and> tmask t = capacity t - 1) \<and>
      (\<forall>i < length (slots t). \<forall>e \<in> set (slots t ! i).
         hashCode e = fnv_hash (ekey e) \<and> slot_of t (fnv_hash (ekey e)) = i))"

definition ht_inv :: "'v hash_table \<Rightarrow> bool" where
  "ht_inv ht =
     (table_inv (primary ht) \<and> table_inv (rehash ht) \<and>
      distinct (map ekey (ht_entries ht)) \<and>
      (if isRehashing ht
       then slots (primary ht) \<noteq> [] \<and> slots (rehash ht) \<noteq> [] \<and>
            (\<forall>i < rehashIdx ht. i < capacity (rehash ht) \<longrightarrow> slots (rehash ht) ! i = [])
       else slots (rehash ht) = [] \<and> rehashIdx ht = 0))"

section \<open>Entries indexed by their keys\<close>

definition by_key :: "'v htentry list \<Rightarrow> bytes \<rightharpoonup> 'v htentry" where
  "by_key es = map_of (map (\<lambda>e. (ekey e, e)) es)"

lemma by_key_Some:
  assumes "distinct (map ekey es)"
  shows "by_key es k = Some e \<longleftrightarrow> e \<in> set es \<and> ekey e = k"
proof -
  have "by_key es k = Some e \<longleftrightarrow> (k, e) \<in> set (map (\<lambda>e. (ekey e, e)) es)"
    unfolding by_key_def using assms by (intro map_of_eq_Some_iff) (simp add: comp_def)
  then show ?thesis by auto
qed

lemma by_key_None: "by_key es k = None \<longleftrightarrow> k \<notin> ekey ` set es"
  by (auto simp: by_key_def map_of_eq_None_iff image_image)

lemma distinct_keys_add:
  assumes "mset es' = add_mset e (mset es)"
  shows "distinct (map ekey es') \<longleftrightarrow> ekey e \<notin> ekey ` set es \<and> distinct (map ekey es)"
proof -
  have "mset (map ekey es') = mset (map ekey (e # es))" using assms by (simp add: mset_map)
  then have "distinct (map ekey es') = distinct (map ekey (e # es))" by (rule mset_eq_imp_distinct_iff)
  then show ?thesis by simp
qed

lemma distinct_keys_cong: "mset es' = mset es \<Longrightarrow> distinct (map ekey es') = distinct (map ekey es)"
  by (metis mset_eq_imp_distinct_iff mset_map)

lemma by_key_cong:
  assumes "mset es' = mset es" "distinct (map ekey es)"
  shows "by_key es' = by_key es"
proof (rule map_eqI)
  fix k e
  show "by_key es' k = Some e \<longleftrightarrow> by_key es k = Some e"
    using by_key_Some [of es' k e] by_key_Some [of es k e] assms distinct_keys_cong [OF assms(1)]
      mset_eq_setD [OF assms(1)] by simp
qed

lemma by_key_add:
  assumes "mset es' = add_mset e (mset es)" "distinct (map ekey es')"
  shows "by_key es' = (by_key es)(ekey e \<mapsto> e)"
proof -
  have "by_key es' = by_key (e # es)"
    using assms by (metis by_key_cong mset.simps(2) distinct_keys_cong)
  then show ?thesis by (simp add: by_key_def)
qed

lemma by_key_remove:
  assumes "mset es = add_mset e (mset es')" "distinct (map ekey es)"
  shows "by_key es' = (by_key es)(ekey e := None)"
  using by_key_add [OF assms] assms distinct_keys_add [OF assms(1)] by_key_None [of es' "ekey e"]
  by (auto simp: fun_eq_iff)

lemma by_key_replace:
  assumes "mset es = add_mset e M" "mset es' = add_mset e' M" "ekey e' = ekey e" "distinct (map ekey es)"
  shows "by_key es' = (by_key es)(ekey e \<mapsto> e')" and "distinct (map ekey es')"
proof -
  obtain ms where M: "mset ms = M" using ex_mset by blast
  with assms have d: "ekey e' \<notin> ekey ` set ms \<and> distinct (map ekey ms)"
    using distinct_keys_add [of es e ms] by simp
  then show d': "distinct (map ekey es')" using distinct_keys_add [of es' e' ms] assms(2) M by simp
  show "by_key es' = (by_key es)(ekey e \<mapsto> e')"
    using by_key_add [of es' e' ms] by_key_add [of es e ms] assms M d' by simp
qed

lemma ht_map_by_key: "ht_map ht = by_key (ht_entries ht)"
  by (simp add: ht_map_def by_key_def)

section \<open>One table\<close>

lemma slot_of_less:
  assumes "table_inv t" "slots t \<noteq> []"
  shows "slot_of t h < length (slots t)"
proof -
  have m: "tmask t < capacity t" "length (slots t) = capacity t"
    using assms by (auto simp: table_inv_def dest: is_pow2_pos)
  have "unat (h AND of_nat (tmask t)) \<le> unat (of_nat (tmask t) :: 64 word)"
    by (rule word_and_le1 [THEN word_le_nat_alt [THEN iffD1]])
  also have "\<dots> \<le> tmask t" by (simp add: unat_of_nat)
  finally show ?thesis using m by (simp add: slot_of_def)
qed

lemma table_invD:
  assumes "table_inv t" "e \<in> set (entries t)"
  shows "hashCode e = fnv_hash (ekey e) \<and> slots t \<noteq> [] \<and> e \<in> set (slots t ! slot_of t (fnv_hash (ekey e)))"
proof -
  obtain c where c: "c \<in> set (slots t)" "e \<in> set c" using assms(2) by auto
  then obtain i where "i < length (slots t)" "slots t ! i = c" by (auto simp: in_set_conv_nth)
  with assms(1) c have "hashCode e = fnv_hash (ekey e) \<and> slot_of t (fnv_hash (ekey e)) = i"
    unfolding table_inv_def by blast
  with \<open>slots t ! i = c\<close> c show ?thesis by auto
qed

lemma slot_subset: "i < length (slots t) \<Longrightarrow> e \<in> set (slots t ! i) \<Longrightarrow> e \<in> set (entries t)"
  by (auto simp: in_set_conv_nth intro: nth_mem)

lemma findInTable_Some:
  assumes "table_inv t" "findInTable t k h = Some e"
  shows "slots t \<noteq> [] \<and> e \<in> set (slots t ! slot_of t h) \<and> matches k h e \<and> e \<in> set (entries t)"
proof -
  from assms(2) have ne: "slots t \<noteq> []" and m: "matches k h e" "e \<in> set (slots t ! slot_of t h)"
    by (auto simp: findInTable_def find_Some_iff split: if_splits)
  with slot_subset [OF slot_of_less [OF assms(1) ne] m(2)] show ?thesis by blast
qed

lemma findInTable_None:
  assumes "table_inv t"
  shows "findInTable t k (fnv_hash k) = None \<longleftrightarrow> k \<notin> ekey ` set (entries t)"
proof
  assume n: "findInTable t k (fnv_hash k) = None"
  show "k \<notin> ekey ` set (entries t)"
  proof
    assume "k \<in> ekey ` set (entries t)"
    then obtain e where e: "e \<in> set (entries t)" "ekey e = k" by auto
    with table_invD [OF assms e(1)] n show False
      by (auto simp: findInTable_def find_None_iff matches_def)
  qed
next
  assume "k \<notin> ekey ` set (entries t)"
  then show "findInTable t k (fnv_hash k) = None"
    using findInTable_Some [OF assms, of k "fnv_hash k"]
    by (cases "findInTable t k (fnv_hash k)") (auto simp: matches_def)
qed

lemma findInTable_by_key:
  assumes "table_inv t" "distinct (map ekey (entries t))"
  shows "findInTable t k (fnv_hash k) = by_key (entries t) k"
proof (cases "findInTable t k (fnv_hash k)")
  case None
  then show ?thesis using findInTable_None [OF assms(1)] by_key_None by metis
next
  case (Some e)
  then show ?thesis
    using findInTable_Some [OF assms(1) Some] by_key_Some [OF assms(2), of k e] by (simp add: matches_def)
qed

lemma mset_concat_slot:
  "i < length xss \<Longrightarrow> mset (concat xss) = mset (concat (xss[i := []])) + mset (xss ! i)"
  using mset_concat_update [of i xss "[]"] by simp

lemma slot_of_update [simp]: "slot_of (t\<lparr>slots := s, tsize := n\<rparr>) h = slot_of t h"
  by (simp add: slot_of_def)

lemma table_inv_update:
  assumes inv: "table_inv t" and i: "i < length (slots t)" and n: "n = length (concat ((slots t)[i := c]))"
    and c: "\<And>e. e \<in> set c \<Longrightarrow> hashCode e = fnv_hash (ekey e) \<and> slot_of t (fnv_hash (ekey e)) = i"
  shows "table_inv (t\<lparr>slots := (slots t)[i := c], tsize := n\<rparr>)"
proof -
  have ne: "slots t \<noteq> []" using i by auto
  have a: "hashCode e = fnv_hash (ekey e) \<and> slot_of t (fnv_hash (ekey e)) = j"
    if "j < length (slots t)" "e \<in> set ((slots t)[i := c] ! j)" for j e
  proof (cases "j = i")
    case True
    with that have "e \<in> set c" by simp
    from c [OF this] True show ?thesis by blast
  next
    case False
    with that inv show ?thesis unfolding table_inv_def by (metis nth_list_update_neq)
  qed
  have b: "length (slots t) = capacity t" "is_pow2 (capacity t)" "tmask t = capacity t - 1"
    using inv ne by (simp_all add: table_inv_def)
  show ?thesis
    unfolding table_inv_def slot_of_update using a b n ne by simp
qed

lemma table_inv_slot:
  "table_inv t \<Longrightarrow> i < length (slots t) \<Longrightarrow> e \<in> set (slots t ! i) \<Longrightarrow>
    hashCode e = fnv_hash (ekey e) \<and> slot_of t (fnv_hash (ekey e)) = i"
  unfolding table_inv_def by blast

lemma table_inv_tsize: "table_inv t \<Longrightarrow> tsize t = length (entries t)"
  by (simp add: table_inv_def)

lemma table_inv_null [simp]: "table_inv null_table"
  by (simp add: table_inv_def null_table_def)

lemma table_inv_alloc: "is_pow2 c \<Longrightarrow> table_inv (allocTable c)"
  by (auto simp: table_inv_def allocTable_def)

lemma entries_alloc [simp]: "entries (allocTable c) = []"
  by (simp add: allocTable_def)

lemma entries_null [simp]: "slots null_table = []"
  by (simp add: null_table_def)

lemma slots_alloc_Nil [simp]: "slots (allocTable c) = [] \<longleftrightarrow> c = 0"
  by (simp add: allocTable_def)

lemma freeTable_eq: "table_inv t \<Longrightarrow> freeTable t = null_table"
  by (cases t) (auto simp: freeTable_def table_inv_def null_table_def)

lemma pushEntry_spec:
  assumes inv: "table_inv t" and ne: "slots t \<noteq> []" and hc: "hashCode e = fnv_hash (ekey e)"
  shows "table_inv (pushEntry t e)" and "mset (entries (pushEntry t e)) = add_mset e (mset (entries t))"
    and "slots (pushEntry t e) \<noteq> []"
proof -
  let ?i = "slot_of t (hashCode e)"
  have i: "?i < length (slots t)" by (rule slot_of_less [OF inv ne])
  have "length (concat ((slots t)[?i := e # slots t ! ?i])) = tsize t + 1"
    using length_concat_update [OF i, of "e # slots t ! ?i"] table_inv_tsize [OF inv] by simp
  then have sz: "tsize t + 1 = length (concat ((slots t)[?i := e # slots t ! ?i]))" by simp
  have ok: "hashCode x = fnv_hash (ekey x) \<and> slot_of t (fnv_hash (ekey x)) = ?i"
    if "x \<in> set (e # slots t ! ?i)" for x
    using that hc table_inv_slot [OF inv i, of x] by (metis set_ConsD)
  show "table_inv (pushEntry t e)"
    unfolding pushEntry_def Let_def by (rule table_inv_update [OF inv i sz]) (rule ok)
  show "mset (entries (pushEntry t e)) = add_mset e (mset (entries t))"
    using mset_concat_update [OF i, of "e # slots t ! ?i"] by (simp add: pushEntry_def Let_def)
  show "slots (pushEntry t e) \<noteq> []" using ne by (simp add: pushEntry_def Let_def)
qed

lemma unlink_first_find:
  "List.find P xs = Some e \<Longrightarrow> mset xs = add_mset e (mset (unlink_first P xs))"
  by (induction xs) (auto split: if_splits)

lemma set_unlink_first: "set (unlink_first P xs) \<subseteq> set xs"
  by (induction xs) auto

lemma update_first_find:
  "List.find P xs = Some e \<Longrightarrow> \<exists>M. mset xs = add_mset e M \<and> mset (update_first P f xs) = add_mset (f e) M"
proof (induction xs)
  case (Cons x xs)
  show ?case
  proof (cases "P x")
    case False
    with Cons obtain M where "mset xs = add_mset e M" "mset (update_first P f xs) = add_mset (f e) M" by auto
    with False show ?thesis by (intro exI [of _ "add_mset x M"]) auto
  qed (use Cons.prems in auto)
qed simp

lemma set_update_first: "e \<in> set (update_first P f xs) \<Longrightarrow> e \<in> set xs \<or> (\<exists>e' \<in> set xs. P e' \<and> e = f e')"
  by (induction xs) (auto split: if_splits)

lemma delFromTable_spec:
  assumes inv: "table_inv t" and del: "delFromTable t k (fnv_hash k) = (found, t')"
  shows "table_inv t'" and "slots t' = [] \<longleftrightarrow> slots t = []"
    and "case findInTable t k (fnv_hash k) of
        None \<Rightarrow> \<not> found \<and> t' = t
      | Some e \<Rightarrow> found \<and> ekey e = k \<and> mset (entries t) = add_mset e (mset (entries t'))"
    and "capacity t' = capacity t"
    and "i < length (slots t) \<Longrightarrow> slots t ! i = [] \<Longrightarrow> slots t' ! i = []"
proof -
  let ?h = "fnv_hash k" let ?i = "slot_of t ?h"
  have "table_inv t' \<and> (slots t' = [] \<longleftrightarrow> slots t = []) \<and> (case findInTable t k ?h of
        None \<Rightarrow> \<not> found \<and> t' = t
      | Some e \<Rightarrow> found \<and> ekey e = k \<and> mset (entries t) = add_mset e (mset (entries t'))) \<and>
      capacity t' = capacity t \<and> (\<forall>i < length (slots t). slots t ! i = [] \<longrightarrow> slots t' ! i = [])"
  proof (cases "findInTable t k ?h")
    case None
    with del inv show ?thesis by (auto simp: delFromTable_def findInTable_def split: if_splits)
  next
    case (Some e)
    note fs = findInTable_Some [OF inv Some]
    then have ne: "slots t \<noteq> []" by simp
    have i: "?i < length (slots t)" by (rule slot_of_less [OF inv ne])
    let ?c = "unlink_first (matches k ?h) (slots t ! ?i)"
    from Some ne have fd: "List.find (matches k ?h) (slots t ! ?i) = Some e" by (simp add: findInTable_def)
    then have t': "found" "t' = t\<lparr>slots := (slots t)[?i := ?c], tsize := tsize t - 1\<rparr>"
      using del ne by (auto simp: delFromTable_def Let_def)
    have m: "mset (slots t ! ?i) = add_mset e (mset ?c)" by (rule unlink_first_find [OF fd])
    have ms: "mset (entries t) = add_mset e (mset (entries t'))"
      using mset_concat_update [OF i, of ?c] m t' by simp
    then have len: "length (entries t) = Suc (length (entries t'))" by (metis size_add_mset size_mset)
    have sz: "tsize t - 1 = length (concat ((slots t)[?i := ?c]))"
      using len t' table_inv_tsize [OF inv] by simp
    have "table_inv t'"
      unfolding t'(2)
      by (rule table_inv_update [OF inv i sz], rule table_inv_slot [OF inv i])
        (rule subsetD [OF set_unlink_first])
    moreover have "slots t' ! i = []" if "i < length (slots t)" "slots t ! i = []" for i
      using that t' i by (cases "i = ?i") simp_all
    ultimately show ?thesis using t' ms Some fs ne by (simp add: matches_def)
  qed
  then show "table_inv t'" and "slots t' = [] \<longleftrightarrow> slots t = []"
    and "case findInTable t k (fnv_hash k) of
        None \<Rightarrow> \<not> found \<and> t' = t
      | Some e \<Rightarrow> found \<and> ekey e = k \<and> mset (entries t) = add_mset e (mset (entries t'))"
    and "capacity t' = capacity t"
    and "i < length (slots t) \<Longrightarrow> slots t ! i = [] \<Longrightarrow> slots t' ! i = []"
    by blast+
qed

lemma modifyInTable_spec:
  assumes inv: "table_inv t" and fnd: "findInTable t k (fnv_hash k) = Some e"
    and f: "\<And>e. ekey (f e) = ekey e \<and> hashCode (f e) = hashCode e"
  defines "t' \<equiv> modifyInTable t k (fnv_hash k) f"
  shows "table_inv t'" and "slots t' \<noteq> []" and "capacity t' = capacity t"
    and "\<exists>M. mset (entries t) = add_mset e M \<and> mset (entries t') = add_mset (f e) M"
    and "i < length (slots t) \<Longrightarrow> slots t ! i = [] \<Longrightarrow> slots t' ! i = []"
proof -
  let ?h = "fnv_hash k" let ?i = "slot_of t ?h"
  let ?c = "update_first (matches k ?h) f (slots t ! ?i)"
  have ne: "slots t \<noteq> []" using findInTable_Some [OF inv fnd] by simp
  have i: "?i < length (slots t)" by (rule slot_of_less [OF inv ne])
  have fd: "List.find (matches k ?h) (slots t ! ?i) = Some e" using fnd ne by (simp add: findInTable_def)
  from update_first_find [OF fd, of f] obtain M where M: "mset (slots t ! ?i) = add_mset e M"
      "mset ?c = add_mset (f e) M" by blast
  have t': "t' = t\<lparr>slots := (slots t)[?i := ?c], tsize := tsize t\<rparr>"
    by (simp add: t'_def modifyInTable_def Let_def)
  let ?N = "mset (concat ((slots t)[?i := []])) + M"
  have ms: "mset (entries t) = add_mset e ?N" "mset (entries t') = add_mset (f e) ?N"
    using mset_concat_slot [OF i] mset_concat_slot [of ?i "(slots t)[?i := ?c]"] i M t' by simp_all
  then show "\<exists>M. mset (entries t) = add_mset e M \<and> mset (entries t') = add_mset (f e) M" by blast
  have len: "length (entries t') = length (entries t)" using ms by (metis size_add_mset size_mset)
  have ok: "hashCode x = fnv_hash (ekey x) \<and> slot_of t (fnv_hash (ekey x)) = ?i" if "x \<in> set ?c" for x
  proof -
    have "\<exists>y \<in> set (slots t ! ?i). ekey x = ekey y \<and> hashCode x = hashCode y"
      using set_update_first [OF that] f by metis
    with table_inv_slot [OF inv i] show ?thesis by metis
  qed
  have sz: "tsize t = length (concat ((slots t)[?i := ?c]))"
    using len t' table_inv_tsize [OF inv] by simp
  show "table_inv t'"
    unfolding t' by (rule table_inv_update [OF inv i sz]) (rule ok)
  show "slots t' \<noteq> []" "capacity t' = capacity t" using t' ne by simp_all
  show "slots t' ! i = []" if "i < length (slots t)" "slots t ! i = []"
    using that t' i by (cases "i = ?i") simp_all
qed

section \<open>Migration\<close>

lemma ht_invD:
  assumes "ht_inv ht"
  shows "table_inv (primary ht)" "table_inv (rehash ht)" "distinct (map ekey (ht_entries ht))"
    "distinct (map ekey (entries (primary ht)))" "distinct (map ekey (entries (rehash ht)))"
    "\<not> isRehashing ht \<Longrightarrow> slots (rehash ht) = [] \<and> rehashIdx ht = 0"
    "isRehashing ht \<Longrightarrow> slots (primary ht) \<noteq> [] \<and> slots (rehash ht) \<noteq> []"
  using assms by (simp_all add: ht_inv_def ht_entries_def)

lemma skipEmpty_ge: "i \<le> skipEmpty t i"
  by (induction t i rule: skipEmpty.induct) (subst skipEmpty.simps, force)

lemma skipEmpty_skipped: "i \<le> j \<Longrightarrow> j < skipEmpty t i \<Longrightarrow> j < capacity t \<and> slots t ! j = []"
proof (induction t i rule: skipEmpty.induct)
  case (1 t i)
  show ?case
  proof (cases "i < capacity t \<and> slots t ! i = []")
    case True
    with "1.prems" have "j < skipEmpty t (i + 1)" by (subst (asm) skipEmpty.simps) simp
    with 1 True show ?thesis by (cases "j = i") auto
  next
    case False
    with "1.prems" show ?thesis by (subst (asm) skipEmpty.simps) auto
  qed
qed

lemma skipEmpty_stop: "skipEmpty t i < capacity t \<Longrightarrow> slots t ! skipEmpty t i \<noteq> []"
proof (induction t i rule: skipEmpty.induct)
  case (1 t i)
  then show ?case
    by (cases "i < capacity t \<and> slots t ! i = []") (auto simp: skipEmpty.simps [of t i])
qed

lemma migrateChain_spec:
  assumes "table_inv p" "slots p \<noteq> []" "\<forall>e \<in> set es. hashCode e = fnv_hash (ekey e)"
    and "migrateChain p r es = (p', r')"
  shows "table_inv p' \<and> slots p' \<noteq> [] \<and> mset (entries p') = mset es + mset (entries p) \<and>
    r' = r\<lparr>tsize := tsize r - length es\<rparr>"
  using assms
proof (induction es arbitrary: p r)
  case (Cons e es)
  then have e: "hashCode e = fnv_hash (ekey e)" by simp
  note pe = pushEntry_spec [OF Cons.prems(1,2) e]
  have "migrateChain (pushEntry p e) (r\<lparr>tsize := tsize r - 1\<rparr>) es = (p', r')" using Cons.prems(4) by simp
  from Cons.IH [OF pe(1,3) _ this] Cons.prems(3) pe(2) show ?case by simp
qed simp

lemma entries_empty: "(\<And>i. i < length xss \<Longrightarrow> xss ! i = []) \<Longrightarrow> concat xss = []"
  by (auto simp: in_set_conv_nth)

lemma table_inv_empty_size: "table_inv t \<Longrightarrow> tsize t = 0 \<longleftrightarrow> entries t = []"
  by (simp add: table_inv_tsize)

lemma ht_inv_replace:
  assumes "ht_inv ht" "table_inv (primary ht')" "table_inv (rehash ht')"
    and "mset (ht_entries ht') = mset (ht_entries ht)"
    and "if isRehashing ht' then slots (primary ht') \<noteq> [] \<and> slots (rehash ht') \<noteq> [] \<and>
            (\<forall>i < rehashIdx ht'. i < capacity (rehash ht') \<longrightarrow> slots (rehash ht') ! i = [])
       else slots (rehash ht') = [] \<and> rehashIdx ht' = 0"
  shows "ht_inv ht' \<and> ht_map ht' = ht_map ht"
  using assms distinct_keys_cong [OF assms(4)] by_key_cong [OF assms(4) ht_invD(3) [OF assms(1)]]
  unfolding ht_inv_def ht_map_by_key by simp

lemma migrate_skip:
  assumes "ht_inv ht" "isRehashing ht" "i < skipEmpty (rehash ht) (rehashIdx ht)" "i < capacity (rehash ht)"
  shows "slots (rehash ht) ! i = []"
proof (cases "i < rehashIdx ht")
  case True
  with assms show ?thesis by (simp add: ht_inv_def)
next
  case False
  with assms(3) skipEmpty_skipped [of "rehashIdx ht" i "rehash ht"] show ?thesis by simp
qed

lemma migrateOneSlot_done:
  assumes inv: "ht_inv ht" and re: "isRehashing ht"
    and ge: "capacity (rehash ht) \<le> skipEmpty (rehash ht) (rehashIdx ht)"
  shows "ht_inv (migrateOneSlot ht) \<and> ht_map (migrateOneSlot ht) = ht_map ht"
proof -
  have r: "table_inv (rehash ht)" "length (slots (rehash ht)) = capacity (rehash ht)"
    using ht_invD(2) [OF inv] by (simp_all add: table_inv_def)
  then have "entries (rehash ht) = []"
    using migrate_skip [OF inv re] ge by (intro entries_empty) simp
  then show ?thesis
    using ge ht_invD [OF inv] freeTable_eq [OF r(1)]
    by (intro ht_inv_replace [OF inv]) (simp_all add: migrateOneSlot_def Let_def ht_entries_def)
qed

lemma migrateOneSlot_some:
  assumes inv: "ht_inv ht" and re: "isRehashing ht"
    and lt: "skipEmpty (rehash ht) (rehashIdx ht) < capacity (rehash ht)"
  shows "ht_inv (migrateOneSlot ht) \<and> ht_map (migrateOneSlot ht) = ht_map ht"
proof -
  let ?p = "primary ht" let ?r = "rehash ht" let ?i = "skipEmpty ?r (rehashIdx ht)"
  let ?c = "slots ?r ! ?i"
  have r: "table_inv ?r" "length (slots ?r) = capacity ?r" "slots ?r \<noteq> []" "slots ?p \<noteq> []" "table_inv ?p"
    using ht_invD [OF inv] re by (simp_all add: table_inv_def)
  have i: "?i < length (slots ?r)" using lt r by simp
  have c: "\<forall>e \<in> set ?c. hashCode e = fnv_hash (ekey e)" using table_inv_slot [OF r(1) i] by blast
  obtain p' r' where mc: "migrateChain ?p ?r ?c = (p', r')" by fastforce
  note ms = migrateChain_spec [OF r(5,4) c mc]
  define r2 where "r2 = ?r\<lparr>slots := (slots ?r)[?i := []], tsize := tsize ?r - length ?c\<rparr>"
  have sz: "tsize ?r - length ?c = length (concat ((slots ?r)[?i := []]))"
    using length_concat_update [OF i, of "[]"] table_inv_tsize [OF r(1)] by simp
  have t2: "table_inv r2" unfolding r2_def by (rule table_inv_update [OF r(1) i sz]) simp
  have r2: "r'\<lparr>slots := (slots r')[?i := []]\<rparr> = r2" using ms by (simp add: r2_def)
  have m: "mset (entries p') + mset (entries r2) = mset (entries ?p) + mset (entries ?r)"
    using mset_concat_slot [OF i] ms by (simp add: r2_def)
  have eq: "migrateOneSlot ht =
     (if tsize r2 = 0 then ht\<lparr>primary := p', rehash := null_table, isRehashing := False, rehashIdx := 0\<rparr>
      else ht\<lparr>primary := p', rehash := r2, rehashIdx := ?i + 1\<rparr>)"
    using lt mc r2 ms by (auto simp: migrateOneSlot_def Let_def null_table_def)
  show ?thesis
  proof (cases "tsize r2 = 0")
    case True
    then have "entries r2 = []" using table_inv_empty_size [OF t2] by simp
    with True m ms show ?thesis
      unfolding eq by (intro ht_inv_replace [OF inv]) (simp_all add: ht_entries_def)
  next
    case False
    have z: "slots r2 ! j = []" if "j < ?i + 1" "j < capacity ?r" for j
      using that migrate_skip [OF inv re, of j] i by (cases "j = ?i") (simp_all add: r2_def)
    have s2: "slots r2 \<noteq> []" "capacity r2 = capacity ?r" using r by (simp_all add: r2_def)
    show ?thesis
      unfolding eq using False m ms t2 z s2 re
      by (intro ht_inv_replace [OF inv]) (simp_all add: ht_entries_def)
  qed
qed

lemma migrateOneSlot_ok:
  assumes "ht_inv ht" "isRehashing ht"
  shows "ht_inv (migrateOneSlot ht)" "ht_map (migrateOneSlot ht) = ht_map ht"
  using migrateOneSlot_done [OF assms] migrateOneSlot_some [OF assms] by (meson not_less)+

lemma rehashStep_ok:
  assumes "ht_inv ht"
  shows "ht_inv (rehashStep ht n)" "ht_map (rehashStep ht n) = ht_map ht"
proof -
  have "ht_inv ht \<longrightarrow> ht_inv (rehashStep_loop n ht) \<and> ht_map (rehashStep_loop n ht) = ht_map ht"
    by (induction n arbitrary: ht) (simp_all add: migrateOneSlot_ok)
  with assms show "ht_inv (rehashStep ht n)" "ht_map (rehashStep ht n) = ht_map ht"
    by (simp_all add: rehashStep_def)
qed

lemma migrateChain_capacity: "migrateChain p r es = (p', r') \<Longrightarrow> capacity r' = capacity r"
  by (induction es arbitrary: p r) auto

lemma migrateOneSlot_progress:
  assumes "isRehashing (migrateOneSlot ht)"
  shows "capacity (rehash (migrateOneSlot ht)) = capacity (rehash ht)"
    and "rehashIdx ht < rehashIdx (migrateOneSlot ht)"
    and "rehashIdx ht < capacity (rehash ht)"
proof -
  let ?i = "skipEmpty (rehash ht) (rehashIdx ht)"
  obtain p r where mc: "migrateChain (primary ht) (rehash ht) (slots (rehash ht) ! ?i) = (p, r)" by fastforce
  have "capacity r = capacity (rehash ht)" by (rule migrateChain_capacity [OF mc])
  with assms mc skipEmpty_ge [of "rehashIdx ht" "rehash ht"]
  show "capacity (rehash (migrateOneSlot ht)) = capacity (rehash ht)"
    and "rehashIdx ht < rehashIdx (migrateOneSlot ht)" and "rehashIdx ht < capacity (rehash ht)"
    by (auto simp: migrateOneSlot_def Let_def split: if_splits)
qed

lemma rehashStep_loop_done:
  "capacity (rehash ht) < rehashIdx ht + n \<Longrightarrow> 0 < n \<Longrightarrow> \<not> isRehashing (rehashStep_loop n ht)"
proof (induction n arbitrary: ht)
  case (Suc n)
  show ?case
  proof (cases "isRehashing ht \<and> isRehashing (migrateOneSlot ht)")
    case True
    note pr = migrateOneSlot_progress [of ht]
    from True pr have "0 < n" using Suc.prems by simp
    with True pr Suc.prems have "\<not> isRehashing (rehashStep_loop n (migrateOneSlot ht))"
      by (intro Suc.IH) simp_all
    with True show ?thesis by simp
  next
    case False
    then show ?thesis by (cases n) auto
  qed
qed simp

section \<open>Operations on the two tables\<close>

lemma by_key_append: "by_key (xs @ ys) k = (case by_key xs k of Some e \<Rightarrow> Some e | None \<Rightarrow> by_key ys k)"
  by (simp add: by_key_def map_add_def split: option.split)

lemma ht_find_map:
  assumes "ht_inv ht"
  shows "ht_find ht k = ht_map ht k"
proof -
  note d = ht_invD [OF assms]
  have "ht_map ht k = (case by_key (entries (primary ht)) k of
      Some e \<Rightarrow> Some e | None \<Rightarrow> by_key (entries (rehash ht)) k)"
    by (simp add: ht_map_by_key ht_entries_def by_key_append)
  then show ?thesis
    using d(6) findInTable_by_key [OF d(1,4), of k] findInTable_by_key [OF d(2,5), of k]
    by (auto simp: ht_find_def Let_def by_key_def split: option.split)
qed

lemma ht_map_key:
  assumes "ht_inv ht" "ht_map ht k = Some e"
  shows "ekey e = k" "hashCode e = fnv_hash k" "e \<in> set (ht_entries ht)"
proof -
  show e: "ekey e = k" and m: "e \<in> set (ht_entries ht)"
    using assms by_key_Some [OF ht_invD(3) [OF assms(1)], of k e] by (simp_all add: ht_map_by_key)
  then show "hashCode e = fnv_hash k"
    using table_invD [OF ht_invD(1) [OF assms(1)], of e] table_invD [OF ht_invD(2) [OF assms(1)], of e]
    by (auto simp: ht_entries_def)
qed

lemma in_primary:
  assumes "ht_inv ht" "findInTable (primary ht) k (fnv_hash k) = Some e"
  shows "ht_map ht k = Some e" "k \<notin> ekey ` set (entries (rehash ht))"
    "findInTable (rehash ht) k (fnv_hash k) = None"
proof -
  note d = ht_invD [OF assms(1)]
  show "ht_map ht k = Some e" using ht_find_map [OF assms(1), of k] assms(2) by (simp add: ht_find_def)
  have "ekey e = k" "e \<in> set (entries (primary ht))"
    using findInTable_Some [OF d(1) assms(2)] by (simp_all add: matches_def)
  with d(3) show n: "k \<notin> ekey ` set (entries (rehash ht))" by (auto simp: ht_entries_def)
  then show "findInTable (rehash ht) k (fnv_hash k) = None" using findInTable_None [OF d(2)] by blast
qed

lemma ht_inv_primary:
  assumes "ht_inv ht" "table_inv p" "slots p \<noteq> []" "distinct (map ekey (entries p @ entries (rehash ht)))"
  shows "ht_inv (ht\<lparr>primary := p\<rparr>)"
  using assms by (auto simp: ht_inv_def ht_entries_def)

lemma ht_inv_rehash:
  assumes "ht_inv ht" "isRehashing ht" "table_inv r" "slots r \<noteq> []" "capacity r = capacity (rehash ht)"
    and "\<And>i. i < length (slots (rehash ht)) \<Longrightarrow> slots (rehash ht) ! i = [] \<Longrightarrow> slots r ! i = []"
    and "distinct (map ekey (entries (primary ht) @ entries r))"
  shows "ht_inv (ht\<lparr>rehash := r\<rparr>)"
  using assms by (auto simp: ht_inv_def ht_entries_def table_inv_def)

lemma triggerRehash_ok:
  assumes inv: "ht_inv ht" and n: "\<not> isRehashing ht" and ne: "slots (primary ht) \<noteq> []"
  shows "ht_inv (triggerRehash ht)" "ht_map (triggerRehash ht) = ht_map ht"
proof -
  note d = ht_invD [OF inv]
  have m: "is_pow2 (capacity (primary ht))" "0 < capacity (primary ht)"
    using d(1) ne by (auto simp: table_inv_def dest: is_pow2_pos)
  then have "table_inv (allocTable (capacity (primary ht) * 2))" by (intro table_inv_alloc is_pow2_double)
  then have "ht_inv (triggerRehash ht) \<and> ht_map (triggerRehash ht) = ht_map ht"
    using d(1,6) n ne m by (intro ht_inv_replace [OF inv]) (simp_all add: triggerRehash_def ht_entries_def)
  then show "ht_inv (triggerRehash ht)" "ht_map (triggerRehash ht) = ht_map ht" by simp_all
qed

lemma ht_delR_ok:
  assumes inv: "ht_inv ht" and re: "isRehashing ht"
    and del: "delFromTable (rehash ht) k (fnv_hash k) = (found, r)"
  shows "ht_inv (ht\<lparr>rehash := r\<rparr>)"
    and "found \<longleftrightarrow> findInTable (rehash ht) k (fnv_hash k) \<noteq> None"
    and "ht_map (ht\<lparr>rehash := r\<rparr>) = (if found then (ht_map ht)(k := None) else ht_map ht)"
proof -
  note d = ht_invD [OF inv]
  note ds = delFromTable_spec [OF d(2) del]
  have "ht_inv (ht\<lparr>rehash := r\<rparr>) \<and> (found \<longleftrightarrow> findInTable (rehash ht) k (fnv_hash k) \<noteq> None) \<and>
      ht_map (ht\<lparr>rehash := r\<rparr>) = (if found then (ht_map ht)(k := None) else ht_map ht)"
  proof (cases "findInTable (rehash ht) k (fnv_hash k)")
    case None
    with ds(3) inv show ?thesis by (cases ht) auto
  next
    case (Some e)
    with ds(3) have e: "found" "ekey e = k" "mset (entries (rehash ht)) = add_mset e (mset (entries r))" by simp_all
    let ?es = "entries (primary ht) @ entries r"
    have m: "mset (ht_entries ht) = add_mset e (mset ?es)" using e(3) by (simp add: ht_entries_def)
    then have "distinct (map ekey ?es)" using distinct_keys_add [OF m] d(3) by simp
    then have "ht_inv (ht\<lparr>rehash := r\<rparr>)" using d(7) re ds by (intro ht_inv_rehash [OF inv re]) simp_all
    with by_key_remove [OF m d(3)] e Some show ?thesis by (simp add: ht_map_by_key ht_entries_def)
  qed
  then show "ht_inv (ht\<lparr>rehash := r\<rparr>)"
    and "found \<longleftrightarrow> findInTable (rehash ht) k (fnv_hash k) \<noteq> None"
    and "ht_map (ht\<lparr>rehash := r\<rparr>) = (if found then (ht_map ht)(k := None) else ht_map ht)" by simp_all
qed

lemma ht_delP_ok:
  assumes inv: "ht_inv ht" and del: "delFromTable (primary ht) k (fnv_hash k) = (True, p)"
  shows "ht_inv (ht\<lparr>primary := p\<rparr>)" and "ht_map ht k \<noteq> None"
    and "ht_map (ht\<lparr>primary := p\<rparr>) = (ht_map ht)(k := None)"
proof -
  note d = ht_invD [OF inv]
  note ds = delFromTable_spec [OF d(1) del]
  obtain e where Some: "findInTable (primary ht) k (fnv_hash k) = Some e"
    using ds(3) by (cases "findInTable (primary ht) k (fnv_hash k)") auto
  with ds(3) have e: "ekey e = k" "mset (entries (primary ht)) = add_mset e (mset (entries p))" by simp_all
  let ?es = "entries p @ entries (rehash ht)"
  have m: "mset (ht_entries ht) = add_mset e (mset ?es)" using e(2) by (simp add: ht_entries_def)
  have "slots (primary ht) \<noteq> []" using findInTable_Some [OF d(1) Some] by simp
  then show "ht_inv (ht\<lparr>primary := p\<rparr>)"
    using distinct_keys_add [OF m] d(3) ds by (intro ht_inv_primary [OF inv]) simp_all
  show "ht_map ht k \<noteq> None" using in_primary(1) [OF inv Some] by simp
  show "ht_map (ht\<lparr>primary := p\<rparr>) = (ht_map ht)(k := None)"
    using by_key_remove [OF m d(3)] e by (simp add: ht_map_by_key ht_entries_def)
qed

lemma ht_del_ok:
  assumes inv: "ht_inv ht" and del: "ht_del ht k = (found, ht')"
  shows "ht_inv ht' \<and> (found \<longleftrightarrow> ht_map ht k \<noteq> None) \<and> ht_map ht' = (ht_map ht)(k := None)"
proof -
  define ht1 where "ht1 = rehashStep ht kRehashBatchSize"
  have ht1: "(if isRehashing ht then rehashStep ht kRehashBatchSize else ht) = ht1"
    by (simp add: ht1_def rehashStep_def)
  have i1: "ht_inv ht1" "ht_map ht1 = ht_map ht" using rehashStep_ok [OF inv] by (simp_all add: ht1_def)
  note d = ht_invD [OF i1(1)]
  obtain f p where dp: "delFromTable (primary ht1) k (fnv_hash k) = (f, p)" by fastforce
  obtain f' r where dr: "delFromTable (rehash ht1) k (fnv_hash k) = (f', r)" by fastforce
  have eq: "(found, ht') = (if f then (True, ht1\<lparr>primary := p\<rparr>)
      else if isRehashing ht1 then (f', ht1\<lparr>rehash := r\<rparr>) else (False, ht1))"
    using del unfolding ht_del_def ht1 Let_def dp dr by (auto split: if_splits)
  show ?thesis
  proof (cases f)
    case True
    with ht_delP_ok [OF i1(1)] dp eq i1(2) show ?thesis by simp
  next
    case False
    then have np: "findInTable (primary ht1) k (fnv_hash k) = None"
      using delFromTable_spec(3) [OF d(1) dp] by (auto split: option.splits)
    have fm: "ht_map ht k = (if isRehashing ht1 then findInTable (rehash ht1) k (fnv_hash k) else None)"
      using ht_find_map [OF i1(1), of k] np i1(2) by (simp add: ht_find_def)
    show ?thesis
      using False eq ht_delR_ok [OF i1(1) _ dr] i1 fm
      by (cases "isRehashing ht1") (auto simp: fun_upd_idem)
  qed
qed

lemma modify_primary_ok:
  assumes inv: "ht_inv ht" and Some: "findInTable (primary ht) k (fnv_hash k) = Some e"
    and f: "\<And>e. ekey (f e) = ekey e \<and> hashCode (f e) = hashCode e"
  defines "ht' \<equiv> ht\<lparr>primary := modifyInTable (primary ht) k (fnv_hash k) f\<rparr>"
  shows "ht_inv ht'" "ht_map ht' = (ht_map ht)(k \<mapsto> f e)"
proof -
  note d = ht_invD [OF inv]
  let ?p = "modifyInTable (primary ht) k (fnv_hash k) f"
  note ms = modifyInTable_spec [OF d(1) Some f]
  obtain M where "mset (entries (primary ht)) = add_mset e M" "mset (entries ?p) = add_mset (f e) M" using ms(4) by blast
  then have m: "mset (ht_entries ht) = add_mset e (M + mset (entries (rehash ht)))"
    "mset (ht_entries ht') = add_mset (f e) (M + mset (entries (rehash ht)))"
    by (simp_all add: ht_entries_def ht'_def)
  have fe: "ekey (f e) = ekey e" "ekey e = k"
    using f findInTable_Some [OF d(1) Some] by (simp_all add: matches_def)
  note r = by_key_replace [OF m fe(1) d(3)]
  show "ht_map ht' = (ht_map ht)(k \<mapsto> f e)" using r(1) fe by (simp add: ht_map_by_key)
  show "ht_inv ht'"
    unfolding ht'_def using ms(1,2) r(2) by (intro ht_inv_primary [OF inv]) (simp_all add: ht'_def ht_entries_def)
qed

lemma modify_rehash_ok:
  assumes inv: "ht_inv ht" and re: "isRehashing ht" and Some: "findInTable (rehash ht) k (fnv_hash k) = Some e"
    and f: "\<And>e. ekey (f e) = ekey e \<and> hashCode (f e) = hashCode e"
  defines "ht' \<equiv> ht\<lparr>rehash := modifyInTable (rehash ht) k (fnv_hash k) f\<rparr>"
  shows "ht_inv ht'" "ht_map ht' = (ht_map ht)(k \<mapsto> f e)"
proof -
  note d = ht_invD [OF inv]
  let ?r = "modifyInTable (rehash ht) k (fnv_hash k) f"
  note ms = modifyInTable_spec [OF d(2) Some f]
  obtain M where "mset (entries (rehash ht)) = add_mset e M" "mset (entries ?r) = add_mset (f e) M" using ms(4) by blast
  then have m: "mset (ht_entries ht) = add_mset e (M + mset (entries (primary ht)))"
    "mset (ht_entries ht') = add_mset (f e) (M + mset (entries (primary ht)))"
    by (simp_all add: ht_entries_def ht'_def)
  have fe: "ekey (f e) = ekey e" "ekey e = k"
    using f findInTable_Some [OF d(2) Some] by (simp_all add: matches_def)
  note r = by_key_replace [OF m fe(1) d(3)]
  show "ht_map ht' = (ht_map ht)(k \<mapsto> f e)" using r(1) fe by (simp add: ht_map_by_key)
  show "ht_inv ht'"
    unfolding ht'_def using ms r(2)
    by (intro ht_inv_rehash [OF inv re]) (simp_all add: ht'_def ht_entries_def)
qed

lemma ht_modify_ok:
  assumes inv: "ht_inv ht" and f: "\<And>e. ekey (f e) = ekey e \<and> hashCode (f e) = hashCode e"
  shows "ht_inv (ht_modify ht k f) \<and>
    ht_map (ht_modify ht k f) = (case ht_map ht k of None \<Rightarrow> ht_map ht | Some e \<Rightarrow> (ht_map ht)(k \<mapsto> f e))"
proof -
  have fm: "ht_map ht k = (case findInTable (primary ht) k (fnv_hash k) of Some e \<Rightarrow> Some e
      | None \<Rightarrow> if isRehashing ht then findInTable (rehash ht) k (fnv_hash k) else None)"
    using ht_find_map [OF inv, of k] unfolding ht_find_def Let_def by simp
  show ?thesis
  proof (cases "findInTable (primary ht) k (fnv_hash k)")
    case (Some e)
    with modify_primary_ok [OF inv Some f] fm show ?thesis by (simp add: ht_modify_def)
  next
    case None
    show ?thesis
    proof (cases "isRehashing ht \<and> findInTable (rehash ht) k (fnv_hash k) \<noteq> None")
      case True
      then obtain e where "findInTable (rehash ht) k (fnv_hash k) = Some e" by blast
      with modify_rehash_ok [OF inv _ this f] True None fm show ?thesis by (simp add: ht_modify_def)
    next
      case False
      with None inv fm show ?thesis by (auto simp: ht_modify_def)
    qed
  qed
qed

text \<open>The expiry time an overwritten entry is left with: the old one when the entry already lives
  in the primary table after the rehash step, none otherwise.\<close>

definition kept_expiry :: "'v hash_table \<Rightarrow> bytes \<Rightarrow> int" where
  "kept_expiry ht k =
     (case findInTable (primary (rehashStep ht kRehashBatchSize)) k (fnv_hash k) of
        Some e \<Rightarrow> expireAt e | None \<Rightarrow> - 1)"

definition mk_entry :: "bytes \<Rightarrow> 'v \<Rightarrow> int \<Rightarrow> 'v htentry" where
  "mk_entry k v x = \<lparr>ekey = k, evalue = v, hashCode = fnv_hash k, expireAt = x\<rparr>"

lemma kept_expiry_cases:
  assumes "ht_inv ht"
  shows "kept_expiry ht k = - 1 \<or> (\<exists>e. ht_map ht k = Some e \<and> kept_expiry ht k = expireAt e)"
  using in_primary(1) [OF rehashStep_ok(1) [OF assms], of kRehashBatchSize k]
    rehashStep_ok(2) [OF assms, of kRehashBatchSize]
  by (auto simp: kept_expiry_def split: option.split)

text \<open>The state in which \<^verbatim>\<open>set\<close> looks the key up in the primary table.\<close>

lemma set_clean_ok:
  assumes inv: "ht_inv ht" and fnd: "findInTable (primary ht) k (fnv_hash k) = fp"
  defines "ht2 \<equiv> (if isRehashing ht then ht\<lparr>rehash := snd (delFromTable (rehash ht) k (fnv_hash k))\<rparr> else ht)"
  defines "ht3 \<equiv> (if slots (primary ht2) = [] then ht2\<lparr>primary := allocTable 4\<rparr> else ht2)"
  shows "ht_inv ht3" "slots (primary ht3) \<noteq> []" "findInTable (primary ht3) k (fnv_hash k) = fp"
    "isRehashing ht3 = isRehashing ht"
    "fp \<noteq> None \<Longrightarrow> ht_map ht3 = ht_map ht"
    "fp = None \<Longrightarrow> ht_map ht3 = (ht_map ht)(k := None)"
proof -
  obtain f r where dr: "delFromTable (rehash ht) k (fnv_hash k) = (f, r)" by fastforce
  have i2: "ht_inv ht2" using inv ht_delR_ok(1) [OF inv _ dr] dr by (simp add: ht2_def)
  have p2: "primary ht2 = primary ht" by (simp add: ht2_def)
  have m2: "ht_map ht2 = (if fp = None then (ht_map ht)(k := None) else ht_map ht)"
  proof (cases fp)
    case None
    with ht_find_map [OF inv, of k] fnd
    have "ht_map ht k = (if isRehashing ht then findInTable (rehash ht) k (fnv_hash k) else None)"
      by (simp add: ht_find_def)
    with None ht_delR_ok(2,3) [OF inv _ dr] dr show ?thesis by (auto simp: ht2_def fun_upd_idem)
  next
    case (Some e)
    with in_primary(3) [OF inv, of k e] fnd ht_delR_ok(2,3) [OF inv _ dr] dr show ?thesis by (simp add: ht2_def)
  qed
  have t4: "table_inv (allocTable 4 :: 'a table)" by (rule table_inv_alloc [OF is_pow2_4])
  have em: "entries (primary ht2) = []" if "slots (primary ht2) = []" using that by simp
  have i3: "ht_inv ht3 \<and> ht_map ht3 = ht_map ht2"
  proof (cases "slots (primary ht2) = []")
    case True
    then have "\<not> isRehashing ht2" using ht_invD(7) [OF i2] by blast
    with True t4 ht_invD [OF i2] show ?thesis
      unfolding ht3_def by (intro ht_inv_replace [OF i2]) (simp_all add: ht_entries_def)
  qed (use i2 in \<open>simp add: ht3_def\<close>)
  show "ht_inv ht3" "slots (primary ht3) \<noteq> []" "isRehashing ht3 = isRehashing ht"
    using i3 by (simp_all add: ht3_def) (simp add: ht2_def)
  show "findInTable (primary ht3) k (fnv_hash k) = fp"
    using fnd p2 findInTable_None [OF t4, of k] by (auto simp: ht3_def findInTable_def)
  show "fp \<noteq> None \<Longrightarrow> ht_map ht3 = ht_map ht" "fp = None \<Longrightarrow> ht_map ht3 = (ht_map ht)(k := None)"
    using i3 m2 by auto
qed

lemma ht_set_ok:
  assumes inv: "ht_inv ht"
  shows "ht_inv (ht_set ht k v) \<and> ht_map (ht_set ht k v) = (ht_map ht)(k \<mapsto> mk_entry k v (kept_expiry ht k))"
proof -
  define ht1 where "ht1 = rehashStep ht kRehashBatchSize"
  have ht1: "(if isRehashing ht then rehashStep ht kRehashBatchSize else ht) = ht1"
    by (simp add: ht1_def rehashStep_def)
  have i1: "ht_inv ht1" "ht_map ht1 = ht_map ht" using rehashStep_ok [OF inv] by (simp_all add: ht1_def)
  define ht2 where "ht2 = (if isRehashing ht1 then ht1\<lparr>rehash := snd (delFromTable (rehash ht1) k (fnv_hash k))\<rparr> else ht1)"
  define ht3 where "ht3 = (if slots (primary ht2) = [] then ht2\<lparr>primary := allocTable 4\<rparr> else ht2)"
  note c = set_clean_ok [OF i1(1) refl, of k, folded ht2_def, folded ht3_def]
  have eq: "ht_set ht k v = (case findInTable (primary ht3) k (fnv_hash k) of
           Some _ \<Rightarrow> ht3\<lparr>primary := modifyInTable (primary ht3) k (fnv_hash k) (\<lambda>e. e\<lparr>evalue := v\<rparr>)\<rparr>
         | None \<Rightarrow>
             let p' = pushEntry (primary ht3) (mk_entry k v (- 1)); ht4 = ht3\<lparr>primary := p'\<rparr>
             in if \<not> isRehashing ht4 \<and> 2 * capacity p' < tsize p' then triggerRehash ht4 else ht4)"
    unfolding ht_set_def ht1 mk_entry_def Let_def ht2_def [symmetric] ht3_def [symmetric] ..
  show ?thesis
  proof (cases "findInTable (primary ht1) k (fnv_hash k)")
    case (Some e)
    with c(3) have fe: "findInTable (primary ht3) k (fnv_hash k) = Some e" by simp
    have e: "ekey e = k" "hashCode e = fnv_hash k"
      using ht_map_key [OF i1(1) in_primary(1) [OF i1(1) Some]] by simp_all
    have "e\<lparr>evalue := v\<rparr> = mk_entry k v (kept_expiry ht k)"
      using e Some by (cases e) (simp add: mk_entry_def kept_expiry_def ht1_def)
    with modify_primary_ok [OF c(1) fe, of "\<lambda>e. e\<lparr>evalue := v\<rparr>"] c(5) Some i1(2) fe
    show ?thesis by (simp add: eq)
  next
    case None
    let ?e = "mk_entry k v (- 1)" let ?p = "pushEntry (primary ht3) ?e" let ?h4 = "ht3\<lparr>primary := ?p\<rparr>"
    have ke: "kept_expiry ht k = - 1" using None by (simp add: kept_expiry_def ht1_def)
    have m3: "ht_map ht3 = (ht_map ht)(k := None)" using c(6) None i1 by simp
    then have nk: "k \<notin> ekey ` set (ht_entries ht3)" using by_key_None [of "ht_entries ht3" k] by (simp add: ht_map_by_key)
    note ps = pushEntry_spec [OF ht_invD(1) [OF c(1)] c(2), of ?e]
    have hc: "hashCode ?e = fnv_hash (ekey ?e)" "ekey ?e = k" by (simp_all add: mk_entry_def)
    have m4: "mset (ht_entries ?h4) = add_mset ?e (mset (ht_entries ht3))"
      using ps(2) hc by (simp add: ht_entries_def)
    have d4: "distinct (map ekey (ht_entries ?h4))"
      using distinct_keys_add [OF m4] nk hc ht_invD(3) [OF c(1)] by simp
    have i4: "ht_inv ?h4"
      using ps hc d4 by (intro ht_inv_primary [OF c(1)]) (simp_all add: ht_entries_def)
    have h4: "ht_map ?h4 = (ht_map ht)(k \<mapsto> ?e)"
      using by_key_add [OF m4 d4] hc m3 by (simp add: ht_map_by_key)
    have "ht_inv (triggerRehash ?h4) \<and> ht_map (triggerRehash ?h4) = ht_map ?h4" if "\<not> isRehashing ?h4"
      using triggerRehash_ok [OF i4 that] ps(3) hc by simp
    with None c(3) i4 h4 ke show ?thesis by (simp add: eq Let_def)
  qed
qed

lemma ht_inv_new [simp]: "ht_inv new_table" "ht_map new_table = Map.empty"
  by (simp_all add: ht_inv_def new_table_def ht_map_def ht_entries_def)

lemma flushAll_ok:
  assumes "ht_inv ht"
  shows "ht_inv (flushAll ht)" "ht_map (flushAll ht) = Map.empty"
  using freeTable_eq [OF ht_invD(1) [OF assms]] freeTable_eq [OF ht_invD(2) [OF assms]]
  by (simp_all add: flushAll_def ht_inv_def ht_map_def ht_entries_def)

lemma ht_keys_entries: "ht_keys ht = map ekey (ht_entries ht)"
  by (simp add: ht_keys_def ht_entries_def)

lemma ht_keys_ok:
  assumes "ht_inv ht"
  shows "distinct (ht_keys ht)" "set (ht_keys ht) = dom (ht_map ht)"
proof -
  show "distinct (ht_keys ht)" using ht_invD(3) [OF assms] by (simp add: ht_keys_entries)
  have "k \<in> set (ht_keys ht) \<longleftrightarrow> k \<in> dom (ht_map ht)" for k
    using by_key_None [of "ht_entries ht" k] by (auto simp: ht_keys_entries ht_map_by_key)
  then show "set (ht_keys ht) = dom (ht_map ht)" by blast
qed

lemma ht_size_ok:
  assumes "ht_inv ht"
  shows "ht_size ht = length (ht_keys ht)"
  using table_inv_tsize [OF ht_invD(1) [OF assms]] table_inv_tsize [OF ht_invD(2) [OF assms]]
  by (simp add: ht_size_def ht_keys_def)

lemma ht_expiryCount_ok:
  assumes "ht_inv ht"
  shows "ht_expiryCount ht = card {k. \<exists>e. ht_map ht k = Some e \<and> 0 \<le> expireAt e}"
proof -
  note d = ht_invD(3) [OF assms]
  let ?fs = "filter (\<lambda>e. 0 \<le> expireAt e) (ht_entries ht)"
  have "ht_expiryCount ht = length (map ekey ?fs)" by (simp add: ht_expiryCount_def ht_entries_def)
  also have "\<dots> = card (set (map ekey ?fs))"
    using d by (metis distinct_card distinct_map_filter)
  also have "set (map ekey ?fs) = {k. \<exists>e. ht_map ht k = Some e \<and> 0 \<le> expireAt e}"
    using by_key_Some [OF d] by (auto simp: ht_map_by_key)
  finally show ?thesis .
qed

section \<open>Scanning\<close>

lemma scan_walk_spec:
  assumes "scan_walk t cnt v s res = (s', ks)" "s \<le> length (slots t)" "length (slots t) = capacity t"
  shows "s \<le> s' \<and> s' \<le> length (slots t) \<and> (v < cnt \<and> s < length (slots t) \<longrightarrow> s < s') \<and>
    ks = res @ map ekey (concat (take (s' - s) (drop s (slots t))))"
  using assms
proof (induction t cnt v s res rule: scan_walk.induct)
  case (1 t cnt v s res)
  show ?case
  proof (cases "v < cnt \<and> s < capacity t")
    case True
    with "1.prems" have eq: "scan_walk t cnt (v + length (slots t ! s)) (s + 1)
        (res @ map ekey (slots t ! s)) = (s', ks)" by (simp add: scan_walk.simps [of t cnt v s])
    from "1.IH" [OF True eq] "1.prems" True
    have ih: "s + 1 \<le> s'" "s' \<le> length (slots t)"
      "ks = (res @ map ekey (slots t ! s)) @ map ekey (concat (take (s' - (s + 1)) (drop (s + 1) (slots t))))"
      by simp_all
    have "take (s' - s) (drop s (slots t)) = slots t ! s # take (s' - (s + 1)) (drop (s + 1) (slots t))"
      using ih(1) True "1.prems"(3) by (simp add: Cons_nth_drop_Suc [symmetric] take_Cons' Suc_diff_Suc)
    with ih show ?thesis by simp
  next
    case False
    with "1.prems" show ?thesis by (auto simp: scan_walk.simps [of t cnt v s])
  qed
qed

text \<open>What a client does: call \<^verbatim>\<open>scan\<close> from cursor 0 until it answers cursor 0, collecting the
  keys. \<open>None\<close> when the calls did not end within the fuel.\<close>

primrec scan_iter :: "nat \<Rightarrow> 'v hash_table \<Rightarrow> nat \<Rightarrow> nat \<Rightarrow> bytes list option" where
  "scan_iter 0 ht cnt c = None"
| "scan_iter (Suc n) ht cnt c =
     (let (c', ks) = ht_scan ht c cnt in
      if c' = 0 then Some ks else map_option (\<lambda>ks'. ks @ ks') (scan_iter n ht cnt c'))"

lemma scan_iter_tail:
  assumes "length (slots (primary ht)) = capacity (primary ht)" "0 < cnt"
    and "0 < c" "c < capacity (primary ht)" "capacity (primary ht) - c \<le> n"
  shows "scan_iter n ht cnt c = Some (map ekey (concat (drop c (slots (primary ht)))))"
  using assms(3-)
proof (induction n arbitrary: c)
  case (Suc n)
  let ?s = "slots (primary ht)"
  obtain s' ks where w: "scan_walk (primary ht) cnt 0 c [] = (s', ks)" by fastforce
  note sp = scan_walk_spec [OF w _ assms(1)]
  have sc: "ht_scan ht c cnt = (if capacity (primary ht) \<le> s' then 0 else s', ks)"
    using Suc.prems assms(1) w by (auto simp: ht_scan_def)
  have sp': "c < s'" "s' \<le> length ?s" "ks = map ekey (concat (take (s' - c) (drop c ?s)))"
    using sp Suc.prems assms by simp_all
  show ?case
  proof (cases "capacity (primary ht) \<le> s'")
    case True
    then have "take (s' - c) (drop c ?s) = drop c ?s" using assms(1) by (intro take_all) simp
    with True sc sp' show ?thesis by simp
  next
    case False
    have "drop c ?s = take (s' - c) (drop c ?s) @ drop s' ?s"
      using sp'(1) by (metis append_take_drop_id drop_drop le_add_diff_inverse2 less_imp_le)
    then have "map ekey (concat (drop c ?s)) = ks @ map ekey (concat (drop s' ?s))"
      using sp'(3) by (metis concat_append map_append)
    with False Suc sc sp' show ?thesis by simp
  qed
qed simp

lemma scan_iter_full:
  assumes inv: "ht_inv ht" and cnt: "0 < cnt"
  shows "\<exists>ks. scan_iter (capacity (primary ht) + 1) ht cnt 0 = Some ks \<and> mset ks = mset (ht_keys ht)"
proof (cases "slots (primary ht) = []")
  case True
  with ht_invD(6,7) [OF inv] have "slots (rehash ht) = []" by blast
  with True have "ht_keys ht = []" by (simp add: ht_keys_def)
  with True show ?thesis by (simp add: ht_scan_def)
next
  case False
  let ?s = "slots (primary ht)"
  have len: "length ?s = capacity (primary ht)" "0 < capacity (primary ht)"
    using ht_invD(1) [OF inv] False by (auto simp: table_inv_def dest: is_pow2_pos)
  obtain s' ks where w: "scan_walk (primary ht) cnt 0 0 [] = (s', ks)" by fastforce
  note sp = scan_walk_spec [OF w _ len(1)]
  have sp': "0 < s'" "s' \<le> length ?s" "ks = map ekey (concat (take s' ?s))" using sp len cnt by simp_all
  define rk where "rk = map ekey (entries (rehash ht))"
  have sc: "ht_scan ht 0 cnt = (if capacity (primary ht) \<le> s' then 0 else s', ks @ rk)"
    using False len w ht_invD(6,7) [OF inv] by (auto simp: ht_scan_def rk_def)
  have k: "ht_keys ht = map ekey (concat (take s' ?s)) @ map ekey (concat (drop s' ?s)) @ rk"
    unfolding ht_keys_def rk_def
    by (metis append_take_drop_id concat_append map_append append_assoc)
  show ?thesis
  proof (cases "capacity (primary ht) \<le> s'")
    case True
    with sc sp' k len show ?thesis by simp
  next
    case False
    with scan_iter_tail [OF len(1) cnt, of s' "capacity (primary ht)"] sp' sc k show ?thesis by simp
  qed
qed

section \<open>The contract of a key-value table\<close>

datatype 'v kv_op = Put bytes 'v | Remove bytes | Tick nat

primrec map_op :: "'v kv_op \<Rightarrow> (bytes \<rightharpoonup> 'v) \<Rightarrow> (bytes \<rightharpoonup> 'v)" where
  "map_op (Put k v) m = m(k \<mapsto> v)"
| "map_op (Remove k) m = m(k := None)"
| "map_op (Tick n) m = m"

text \<open>What the specification answers to each removal of a sequence.\<close>

fun map_answers :: "'v kv_op list \<Rightarrow> (bytes \<rightharpoonup> 'v) \<Rightarrow> bool list" where
  "map_answers [] m = []"
| "map_answers (Remove k # ops) m = (m k \<noteq> None) # map_answers ops (m(k := None))"
| "map_answers (op # ops) m = map_answers ops (map_op op m)"

locale kv_table =
  fixes inv :: "'s \<Rightarrow> bool" and lookup :: "'s \<Rightarrow> bytes \<Rightarrow> 'v option"
    and put :: "'s \<Rightarrow> bytes \<Rightarrow> 'v \<Rightarrow> 's" and remove :: "'s \<Rightarrow> bytes \<Rightarrow> bool \<times> 's" and tick :: "'s \<Rightarrow> nat \<Rightarrow> 's"
  assumes inv_put: "inv s \<Longrightarrow> inv (put s k v)"
    and lookup_put: "inv s \<Longrightarrow> lookup (put s k v) = (lookup s)(k \<mapsto> v)"
    and inv_remove: "inv s \<Longrightarrow> inv (snd (remove s k))"
    and lookup_remove: "inv s \<Longrightarrow> lookup (snd (remove s k)) = (lookup s)(k := None)"
    and remove_found: "inv s \<Longrightarrow> fst (remove s k) \<longleftrightarrow> lookup s k \<noteq> None"
    and inv_tick: "inv s \<Longrightarrow> inv (tick s n)"
    and lookup_tick: "inv s \<Longrightarrow> lookup (tick s n) = lookup s"
begin

fun run :: "'v kv_op list \<Rightarrow> 's \<Rightarrow> bool list \<times> 's" where
  "run [] s = ([], s)"
| "run (Put k v # ops) s = run ops (put s k v)"
| "run (Remove k # ops) s = (let (b, s1) = remove s k; (bs, s2) = run ops s1 in (b # bs, s2))"
| "run (Tick n # ops) s = run ops (tick s n)"

lemma run_refines:
  "inv s \<Longrightarrow> inv (snd (run ops s)) \<and> lookup (snd (run ops s)) = fold map_op ops (lookup s) \<and>
    fst (run ops s) = map_answers ops (lookup s)"
proof (induction ops s rule: run.induct)
  case (3 k ops s)
  obtain b s1 where r: "remove s k = (b, s1)" by fastforce
  obtain bs s2 where r': "run ops s1 = (bs, s2)" by fastforce
  have "inv s1" "lookup s1 = (lookup s)(k := None)" "b \<longleftrightarrow> lookup s k \<noteq> None"
    using inv_remove [OF 3(2)] lookup_remove [OF 3(2)] remove_found [OF 3(2)] r by (metis fst_conv snd_conv)+
  with 3(1) [OF r [symmetric] refl] r r' show ?case by (simp add: fun_upd_def)
qed (simp_all add: inv_put lookup_put inv_tick lookup_tick)

end

definition ht_lookup :: "'v hash_table \<Rightarrow> bytes \<Rightarrow> 'v option" where
  "ht_lookup ht k = map_option evalue (ht_find ht k)"

lemma ht_lookup_map: "ht_inv ht \<Longrightarrow> ht_lookup ht k = map_option evalue (ht_map ht k)"
  by (simp add: ht_lookup_def ht_find_map)

lemma ht_lookup_new: "ht_lookup new_table = Map.empty"
  by (simp add: ht_lookup_map fun_eq_iff)

interpretation kv: kv_table ht_inv ht_lookup ht_set ht_del rehashStep
proof unfold_locales
  fix s :: "'a hash_table" and k v n
  assume inv: "ht_inv s"
  show "ht_inv (ht_set s k v)" using ht_set_ok [OF inv] by blast
  show "ht_lookup (ht_set s k v) = (ht_lookup s)(k \<mapsto> v)"
    using ht_set_ok [OF inv, of k v] by (auto simp: ht_lookup_map inv fun_eq_iff mk_entry_def)
  obtain b s' where d: "ht_del s k = (b, s')" by fastforce
  note d' = ht_del_ok [OF inv d]
  then show "ht_inv (snd (ht_del s k))" "ht_lookup (snd (ht_del s k)) = (ht_lookup s)(k := None)"
    "fst (ht_del s k) \<longleftrightarrow> ht_lookup s k \<noteq> None"
    using d by (auto simp: ht_lookup_map inv fun_eq_iff)
  show "ht_inv (rehashStep s n)" "ht_lookup (rehashStep s n) = ht_lookup s"
    using rehashStep_ok [OF inv, of n] by (simp_all add: ht_lookup_map inv fun_eq_iff)
qed

section \<open>Properties\<close>

text \<open>C7 (refinement). Any sequence of \<^verbatim>\<open>set\<close>, \<^verbatim>\<open>del\<close> and \<^verbatim>\<open>rehashStep\<close> calls on a new hash
  table, whatever rehashing it triggers on the way, leaves a table in which \<^verbatim>\<open>find\<close> returns exactly
  what a finite map subjected to the same updates holds, and every \<^verbatim>\<open>del\<close> answered whether the map
  had the key at that moment.\<close>
theorem ht_refines_map:
  "ht_lookup (snd (kv.run ops new_table)) = fold map_op ops Map.empty \<and>
   fst (kv.run ops new_table) = map_answers ops Map.empty"
  using kv.run_refines [of new_table ops] by (simp add: ht_lookup_new)


text \<open>Nine entries trigger the first rehash of a new table.\<close>

definition nine_keys :: "nat hash_table" where
  "nine_keys = foldl (\<lambda>ht i. ht_set ht [char_of (97 + i)] i) new_table [0..<9]"


text \<open>What \<^verbatim>\<open>set\<close> leaves in the table, the expiry field included: the key holds the
  new value with the expiry time \<open>kept_expiry\<close>, no other entry changes, and the invariant is kept.
  The expiry time kept is that of the previous entry, or -1; it is -1 whenever the key was absent.\<close>
theorem ht_set_functional:
  assumes "ht_inv ht"
  shows "ht_inv (ht_set ht k v) \<and>
    ht_map (ht_set ht k v) = (ht_map ht)(k \<mapsto> mk_entry k v (kept_expiry ht k)) \<and>
    (kept_expiry ht k = - 1 \<or> (\<exists>e. ht_map ht k = Some e \<and> kept_expiry ht k = expireAt e)) \<and>
    (ht_map ht k = None \<longrightarrow> kept_expiry ht k = - 1)"
  using ht_set_ok [OF assms] kept_expiry_cases [OF assms, of k] by auto

theorem ht_set_functional_witness:
  "ht_map (ht_set nine_keys ''a'' 7) = (ht_map nine_keys)(''a'' \<mapsto> mk_entry ''a'' 7 (- 1))"
proof -
  have "ht_inv nine_keys" by code_simp
  moreover have "kept_expiry nine_keys ''a'' = - 1" by code_simp
  ultimately show ?thesis using ht_set_functional [of nine_keys "''a''" 7] by simp
qed

text \<open>\<^verbatim>\<open>keys\<close> lists each stored key once, \<^verbatim>\<open>size\<close> is their number and
  \<^verbatim>\<open>expiryCount\<close> the number of keys with an expiry time, also while a rehash is under way.\<close>
theorem ht_keys_size:
  assumes "ht_inv ht"
  shows "distinct (ht_keys ht) \<and> set (ht_keys ht) = dom (ht_map ht) \<and> ht_size ht = card (dom (ht_map ht)) \<and>
    ht_expiryCount ht = card {k. \<exists>e. ht_map ht k = Some e \<and> 0 \<le> expireAt e}"
  using ht_keys_ok [OF assms] ht_size_ok [OF assms] ht_expiryCount_ok [OF assms]
  by (metis distinct_card)

theorem ht_keys_size_witness: "card (dom (ht_map nine_keys)) = 9"
proof -
  have "ht_inv nine_keys" by code_simp
  moreover have "ht_size nine_keys = 9" by code_simp
  ultimately show ?thesis using ht_keys_size [of nine_keys] by simp
qed



end
