(* ===== verification/TTL_Heap.thy ===== *)
theory TTL_Heap
  imports Prelude
begin

text \<open>
  \<^verbatim>\<open>store/TTLHeap\<close>: a binary min-heap of (key, deadline) entries in a vector, with a map from a
  key to its position. The loops \<^verbatim>\<open>siftUp\<close>, \<^verbatim>\<open>siftDown\<close> and \<^verbatim>\<open>popExpired\<close> are recursive functions
  with their termination proofs. The abstract value of a heap is the finite map \<open>deadline\<close>.
  The invariant \<open>ttl_inv\<close> says that the vector is heap-ordered and that \<open>keyToIndex\<close> is exactly
  the inverse of the vector's keys; it is what the code's INV-2, INV-3 and INV-4 comments claim.
\<close>

section \<open>State and operations\<close>

record heap_entry =
  hkey :: bytes
  expireAtMs :: int

record ttl_heap =
  heap :: "heap_entry list"
  keyToIndex :: "bytes \<rightharpoonup> nat"

definition new_heap :: ttl_heap where
  "new_heap = \<lparr>heap = [], keyToIndex = Map.empty\<rparr>"

definition swapEntries :: "ttl_heap \<Rightarrow> nat \<Rightarrow> nat \<Rightarrow> ttl_heap" where
  "swapEntries h a b =
     (let es = swap (heap h) a b in
      h\<lparr>heap := es, keyToIndex := (keyToIndex h)(hkey (es ! a) \<mapsto> a, hkey (es ! b) \<mapsto> b)\<rparr>)"

abbreviation time_at :: "ttl_heap \<Rightarrow> nat \<Rightarrow> int" where
  "time_at h i \<equiv> expireAtMs (heap h ! i)"

function siftUp :: "ttl_heap \<Rightarrow> nat \<Rightarrow> ttl_heap" where
  "siftUp h idx =
     (if 0 < idx
      then let parent = (idx - 1) div 2 in
           if time_at h parent \<le> time_at h idx then h
           else siftUp (swapEntries h idx parent) parent
      else h)"
  by pat_completeness auto
termination
  by (relation "measure snd") auto

declare siftUp.simps [simp del]

lemma length_swapEntries [simp]: "length (heap (swapEntries h a b)) = length (heap h)"
  by (simp add: swapEntries_def Let_def)

text \<open>The child \<^verbatim>\<open>siftDown\<close> selects; \<open>idx\<close> itself when none is smaller.\<close>

definition smallest_child :: "ttl_heap \<Rightarrow> nat \<Rightarrow> nat" where
  "smallest_child h idx =
     (let left = 2 * idx + 1; right = 2 * idx + 2;
          s = (if left < length (heap h) \<and> time_at h left < time_at h idx then left else idx)
      in if right < length (heap h) \<and> time_at h right < time_at h s then right else s)"

lemma smallest_child_bounds:
  "smallest_child h idx \<noteq> idx \<Longrightarrow> idx < smallest_child h idx \<and> smallest_child h idx < length (heap h)"
  by (auto simp: smallest_child_def Let_def split: if_splits)

function siftDown :: "ttl_heap \<Rightarrow> nat \<Rightarrow> ttl_heap" where
  "siftDown h idx =
     (let smallest = smallest_child h idx in
      if smallest = idx then h else siftDown (swapEntries h idx smallest) smallest)"
  by pat_completeness auto
termination
  by (relation "measure (\<lambda>(h, i). length (heap h) - i)") (auto dest: smallest_child_bounds)

declare siftDown.simps [simp del]

text \<open>The part of \<^verbatim>\<open>push\<close> after the duplicate test: append and sift up.\<close>

definition push_new :: "ttl_heap \<Rightarrow> bytes \<Rightarrow> int \<Rightarrow> ttl_heap" where
  "push_new h k t =
     (let h1 = h\<lparr>heap := heap h @ [\<lparr>hkey = k, expireAtMs = t\<rparr>]\<rparr>;
          idx = length (heap h1) - 1
      in siftUp (h1\<lparr>keyToIndex := (keyToIndex h1)(k \<mapsto> idx)\<rparr>) idx)"

text \<open>\<^verbatim>\<open>update\<close> and \<^verbatim>\<open>push\<close> call each other, each in the case the other does not handle.\<close>

definition ttl_update :: "ttl_heap \<Rightarrow> bytes \<Rightarrow> int \<Rightarrow> ttl_heap" where
  "ttl_update h k t =
     (case keyToIndex h k of
        None \<Rightarrow> push_new h k t
      | Some idx \<Rightarrow>
          siftDown (siftUp (h\<lparr>heap := (heap h)[idx := (heap h ! idx)\<lparr>expireAtMs := t\<rparr>]\<rparr>) idx) idx)"

definition ttl_push :: "ttl_heap \<Rightarrow> bytes \<Rightarrow> int \<Rightarrow> ttl_heap" where
  "ttl_push h k t = (case keyToIndex h k of Some _ \<Rightarrow> ttl_update h k t | None \<Rightarrow> push_new h k t)"

text \<open>Drop the last entry: \<^verbatim>\<open>keyToIndex_.erase(heap_.back().key); heap_.pop_back()\<close>.\<close>

definition pop_back :: "ttl_heap \<Rightarrow> ttl_heap" where
  "pop_back h = h\<lparr>keyToIndex := (keyToIndex h)(hkey (last (heap h)) := None), heap := butlast (heap h)\<rparr>"

definition ttl_remove :: "ttl_heap \<Rightarrow> bytes \<Rightarrow> ttl_heap" where
  "ttl_remove h k =
     (case keyToIndex h k of
        None \<Rightarrow> h
      | Some idx \<Rightarrow>
          let lastIdx = length (heap h) - 1;
              h1 = (if idx \<noteq> lastIdx then swapEntries h idx lastIdx else h);
              h2 = pop_back h1
          in if idx < length (heap h2) then siftUp (siftDown h2 idx) idx else h2)"

text \<open>One round of \<^verbatim>\<open>popExpired\<close> on a non-empty heap: remove the root.\<close>

definition pop_root :: "ttl_heap \<Rightarrow> ttl_heap" where
  "pop_root h =
     (let lastIdx = length (heap h) - 1;
          h1 = (if lastIdx > 0 then swapEntries h 0 lastIdx else h);
          h2 = pop_back h1
      in if heap h2 \<noteq> [] then siftDown h2 0 else h2)"

lemma length_siftUp [simp]: "length (heap (siftUp h i)) = length (heap h)"
proof (induction h i rule: siftUp.induct)
  case (1 h i)
  then show ?case by (subst siftUp.simps) (simp add: Let_def)
qed

lemma length_siftDown [simp]: "length (heap (siftDown h i)) = length (heap h)"
proof (induction h i rule: siftDown.induct)
  case (1 h i)
  then show ?case by (subst siftDown.simps) (simp add: Let_def)
qed

lemma length_pop_root: "heap h \<noteq> [] \<Longrightarrow> length (heap (pop_root h)) = length (heap h) - 1"
  by (simp add: pop_root_def Let_def pop_back_def butlast_eq_Nil)

function popExpired_loop :: "ttl_heap \<Rightarrow> int \<Rightarrow> int \<Rightarrow> int \<Rightarrow> bytes list \<Rightarrow> bytes list \<times> ttl_heap" where
  "popExpired_loop h nowMs maxWork cnt expired =
     (if heap h \<noteq> [] \<and> cnt < maxWork \<and> \<not> nowMs < time_at h 0
      then popExpired_loop (pop_root h) nowMs maxWork (cnt + 1) (expired @ [hkey (heap h ! 0)])
      else (expired, h))"
  by pat_completeness auto
termination
  by (relation "measure (\<lambda>(h, _). length (heap h))") (auto simp: length_pop_root)

declare popExpired_loop.simps [simp del]

definition popExpired :: "ttl_heap \<Rightarrow> int \<Rightarrow> int \<Rightarrow> bytes list \<times> ttl_heap" where
  "popExpired h nowMs maxWork = popExpired_loop h nowMs maxWork 0 []"

definition ttl_empty :: "ttl_heap \<Rightarrow> bool" where
  "ttl_empty h = (heap h = [])"

definition ttl_size :: "ttl_heap \<Rightarrow> nat" where
  "ttl_size h = length (heap h)"

section \<open>Abstract value and invariant\<close>

definition entry_pair :: "heap_entry \<Rightarrow> bytes \<times> int" where
  "entry_pair e = (hkey e, expireAtMs e)"

definition deadline :: "ttl_heap \<Rightarrow> bytes \<rightharpoonup> int" where
  "deadline h = map_of (map entry_pair (heap h))"

definition index_inv :: "ttl_heap \<Rightarrow> bool" where
  "index_inv h = (\<forall>k i. keyToIndex h k = Some i \<longleftrightarrow> i < length (heap h) \<and> hkey (heap h ! i) = k)"

definition par :: "nat \<Rightarrow> nat" where
  "par i = (i - 1) div 2"

definition heap_ord :: "int list \<Rightarrow> bool" where
  "heap_ord ts = (\<forall>i. 0 < i \<longrightarrow> i < length ts \<longrightarrow> ts ! par i \<le> ts ! i)"

definition times :: "ttl_heap \<Rightarrow> int list" where
  "times h = map expireAtMs (heap h)"

definition ttl_inv :: "ttl_heap \<Rightarrow> bool" where
  "ttl_inv h = (index_inv h \<and> heap_ord (times h))"

section \<open>Heap order on the vector of deadlines\<close>

lemma par_less: "0 < i \<Longrightarrow> par i < i"
  by (simp add: par_def)

lemma par_cases: "0 < i \<Longrightarrow> par i = k \<longleftrightarrow> i = 2 * k + 1 \<or> i = 2 * k + 2"
  unfolding par_def by presburger

text \<open>The order may fail only between \<open>k\<close> and its parent or its children, and the parent of
  \<open>k\<close> is below its children: the state after the value at \<open>k\<close> has been replaced.\<close>

definition heap_hole :: "int list \<Rightarrow> nat \<Rightarrow> bool" where
  "heap_hole ts k =
     ((\<forall>i. 0 < i \<longrightarrow> i < length ts \<longrightarrow> i \<noteq> k \<longrightarrow> par i \<noteq> k \<longrightarrow> ts ! par i \<le> ts ! i) \<and>
      (0 < k \<longrightarrow> (\<forall>i. 0 < i \<longrightarrow> i < length ts \<longrightarrow> par i = k \<longrightarrow> ts ! par k \<le> ts ! i)))"

definition above_ok :: "int list \<Rightarrow> nat \<Rightarrow> bool" where
  "above_ok ts k = (0 < k \<longrightarrow> ts ! par k \<le> ts ! k)"

definition below_ok :: "int list \<Rightarrow> nat \<Rightarrow> bool" where
  "below_ok ts k = (\<forall>i. 0 < i \<longrightarrow> i < length ts \<longrightarrow> par i = k \<longrightarrow> ts ! k \<le> ts ! i)"

lemma heap_ordD: "heap_ord ts \<Longrightarrow> 0 < i \<Longrightarrow> i < length ts \<Longrightarrow> ts ! par i \<le> ts ! i"
  by (simp add: heap_ord_def)

lemma heap_ord_above: "heap_ord ts \<Longrightarrow> k < length ts \<Longrightarrow> above_ok ts k"
  by (simp add: above_ok_def heap_ordD)

lemma heap_ord_below: "heap_ord ts \<Longrightarrow> below_ok ts k"
  by (auto simp: below_ok_def dest: heap_ordD)

lemma heap_ord_hole: "heap_ord ts \<Longrightarrow> k < length ts \<Longrightarrow> heap_hole ts k"
  by (auto simp: heap_hole_def dest: heap_ordD intro: order.trans [OF heap_ordD heap_ordD])

lemma heap_ordI:
  assumes "heap_hole ts k" "above_ok ts k" "below_ok ts k"
  shows "heap_ord ts"
  unfolding heap_ord_def
proof (intro allI impI)
  fix i assume "0 < i" "i < length ts"
  with assms show "ts ! par i \<le> ts ! i"
    unfolding heap_hole_def above_ok_def below_ok_def by (cases "i = k"; cases "par i = k") auto
qed

lemma heap_hole_update:
  assumes "heap_ord ts" "k < length ts"
  shows "heap_hole (ts[k := v]) k"
proof -
  have "par i \<noteq> i" "i \<noteq> par i" if "0 < i" for i using par_less [OF that] by simp_all
  with heap_ord_hole [OF assms] show ?thesis
    by (auto simp: heap_hole_def nth_list_update)
qed

lemma hole_above_or_below:
  assumes "heap_hole ts k" "\<not> above_ok ts k"
  shows "below_ok ts k"
  unfolding below_ok_def
proof (intro allI impI)
  fix i assume i: "0 < i" "i < length ts" "par i = k"
  from assms(2) have "0 < k" "ts ! k < ts ! par k" by (auto simp: above_ok_def)
  moreover have "ts ! par k \<le> ts ! i" using assms(1) i \<open>0 < k\<close> by (simp add: heap_hole_def)
  ultimately show "ts ! k \<le> ts ! i" by simp
qed

lemma siftUp_step:
  assumes hole: "heap_hole ts k" and k: "0 < k" "k < length ts" and lt: "ts ! k < ts ! par k"
  shows "heap_hole (swap ts k (par k)) (par k) \<and> below_ok (swap ts k (par k)) (par k)"
proof -
  let ?p = "par k"
  have p: "?p < k" "?p < length ts" using k par_less [of k] by auto
  have ne: "i \<noteq> par i" "par i < i" if "0 < i" for i using par_less [OF that] by auto
  have out: "ts ! par i \<le> ts ! i" if "0 < i" "i < length ts" "i \<noteq> k" "par i \<noteq> k" for i
    using hole that by (simp add: heap_hole_def)
  have kid: "ts ! ?p \<le> ts ! i" if "0 < i" "i < length ts" "par i = k" for i
    using hole k that by (simp add: heap_hole_def)
  have up: "ts ! par ?p \<le> ts ! ?p" if "0 < ?p"
    using out [of ?p] that p ne(2) [of ?p] by auto
  have sib: "ts ! ?p \<le> ts ! i" if "0 < i" "i < length ts" "par i = ?p" "i \<noteq> k" for i
    using out [of i] that p by auto
  note sw = nth_swap [OF k(2) p(2)]
  have "heap_hole (swap ts k ?p) ?p"
    unfolding heap_hole_def length_swap sw
  proof (intro conjI impI allI)
    fix i assume i: "0 < i" "i < length ts" "i \<noteq> ?p" "par i \<noteq> ?p"
    show "(if par i = k then ts ! ?p else if par i = ?p then ts ! k else ts ! par i)
        \<le> (if i = k then ts ! ?p else if i = ?p then ts ! k else ts ! i)"
      using i kid [of i] out [of i] by auto
  next
    fix i assume i: "0 < ?p" "0 < i" "i < length ts" "par i = ?p"
    show "(if par ?p = k then ts ! ?p else if par ?p = ?p then ts ! k else ts ! par ?p)
        \<le> (if i = k then ts ! ?p else if i = ?p then ts ! k else ts ! i)"
      using i p ne [OF i(1)] ne [OF i(2)] up sib [of i] by (auto intro: order.trans)
  qed
  moreover have "below_ok (swap ts k ?p) ?p"
    unfolding below_ok_def length_swap sw
  proof (intro impI allI)
    fix i assume i: "0 < i" "i < length ts" "par i = ?p"
    show "(if ?p = k then ts ! ?p else if ?p = ?p then ts ! k else ts ! ?p)
        \<le> (if i = k then ts ! ?p else if i = ?p then ts ! k else ts ! i)"
      using i p lt ne [OF i(1)] sib [of i] by auto
  qed
  ultimately show ?thesis ..
qed

lemma siftDown_step:
  assumes hole: "heap_hole ts k" and s: "0 < s" "par s = k" "s < length ts" and lt: "ts ! s < ts ! k"
    and least: "\<And>i. 0 < i \<Longrightarrow> i < length ts \<Longrightarrow> par i = k \<Longrightarrow> ts ! s \<le> ts ! i"
  shows "heap_hole (swap ts k s) s \<and> above_ok (swap ts k s) s"
proof -
  have ks: "k < s" "k < length ts" using s par_less [of s] by auto
  have ne: "i \<noteq> par i" "par i < i" if "0 < i" for i using par_less [OF that] by auto
  have out: "ts ! par i \<le> ts ! i" if "0 < i" "i < length ts" "i \<noteq> k" "par i \<noteq> k" for i
    using hole that by (simp add: heap_hole_def)
  have up: "ts ! par k \<le> ts ! s" if "0 < k"
    using hole s that by (simp add: heap_hole_def)
  note sw = nth_swap [OF ks(2) s(3)]
  have "heap_hole (swap ts k s) s"
    unfolding heap_hole_def length_swap sw
  proof (intro conjI impI allI)
    fix i assume i: "0 < i" "i < length ts" "i \<noteq> s" "par i \<noteq> s"
    show "(if par i = k then ts ! s else if par i = s then ts ! k else ts ! par i)
        \<le> (if i = k then ts ! s else if i = s then ts ! k else ts ! i)"
      using i ne [OF i(1)] up out [of i] least [of i] by auto
  next
    fix i assume i: "0 < s" "0 < i" "i < length ts" "par i = s"
    show "(if par s = k then ts ! s else if par s = s then ts ! k else ts ! par s)
        \<le> (if i = k then ts ! s else if i = s then ts ! k else ts ! i)"
      using i s ks ne [OF i(2)] out [of i] by auto
  qed
  moreover have "above_ok (swap ts k s) s"
    unfolding above_ok_def sw using ks s lt by auto
  ultimately show ?thesis ..
qed

lemma smallest_child_least:
  assumes "idx < length (heap h)"
  shows "smallest_child h idx = idx \<Longrightarrow> below_ok (times h) idx"
    and "smallest_child h idx = s \<Longrightarrow> s \<noteq> idx \<Longrightarrow>
      0 < s \<and> par s = idx \<and> s < length (heap h) \<and> times h ! s < times h ! idx"
    and "smallest_child h idx = s \<Longrightarrow> s \<noteq> idx \<Longrightarrow> 0 < i \<Longrightarrow> i < length (heap h) \<Longrightarrow> par i = idx \<Longrightarrow>
      times h ! s \<le> times h ! i"
  using assms
  by (auto simp: below_ok_def times_def smallest_child_def Let_def par_cases split: if_splits)

section \<open>Sifting\<close>

lemma times_nth: "i < length (heap h) \<Longrightarrow> times h ! i = time_at h i"
  by (simp add: times_def)

lemma length_times [simp]: "length (times h) = length (heap h)"
  by (simp add: times_def)

lemma times_swapEntries:
  "a < length (heap h) \<Longrightarrow> b < length (heap h) \<Longrightarrow> times (swapEntries h a b) = swap (times h) a b"
  by (simp add: times_def swapEntries_def Let_def swap_def map_update)

lemma mset_swapEntries:
  "a < length (heap h) \<Longrightarrow> b < length (heap h) \<Longrightarrow> mset (heap (swapEntries h a b)) = mset (heap h)"
  by (simp add: swapEntries_def Let_def mset_swap_eq)

lemma index_inv_swapEntries:
  assumes "index_inv h" "a < length (heap h)" "b < length (heap h)"
  shows "index_inv (swapEntries h a b)"
proof -
  have ix: "keyToIndex h k = Some i \<longleftrightarrow> i < length (heap h) \<and> hkey (heap h ! i) = k" for k i
    using assms(1) by (simp add: index_inv_def)
  have inj: "i = j" if "i < length (heap h)" "j < length (heap h)" "hkey (heap h ! i) = hkey (heap h ! j)" for i j
    using ix [of "hkey (heap h ! j)" i] ix [of "hkey (heap h ! j)" j] that by simp
  show ?thesis
    unfolding index_inv_def swapEntries_def Let_def
    using assms(2,3) by (auto simp: nth_swap ix dest: inj split: if_splits)
qed

lemma siftUp_content:
  assumes "index_inv h" "idx < length (heap h)"
  shows "index_inv (siftUp h idx) \<and> mset (heap (siftUp h idx)) = mset (heap h)"
  using assms
proof (induction h idx rule: siftUp.induct)
  case (1 h idx)
  show ?case
  proof (cases "0 < idx \<and> \<not> time_at h ((idx - 1) div 2) \<le> time_at h idx")
    case True
    let ?p = "(idx - 1) div 2"
    have p: "?p < length (heap h)" using "1.prems"(2) by auto
    have "index_inv (siftUp (swapEntries h idx ?p) ?p) \<and>
        mset (heap (siftUp (swapEntries h idx ?p) ?p)) = mset (heap (swapEntries h idx ?p))"
      using True p "1.prems" by (intro "1.IH") (auto intro: index_inv_swapEntries)
    with True p "1.prems" show ?thesis
      by (subst siftUp.simps, subst (2) siftUp.simps) (simp add: Let_def mset_swapEntries)
  next
    case False
    with "1.prems" show ?thesis by (subst siftUp.simps, subst (2) siftUp.simps) (auto simp: Let_def)
  qed
qed

lemma siftUp_ord:
  assumes "heap_hole (times h) idx" "below_ok (times h) idx" "idx < length (heap h)"
  shows "heap_ord (times (siftUp h idx))"
  using assms
proof (induction h idx rule: siftUp.induct)
  case (1 h idx)
  show ?case
  proof (cases "0 < idx \<and> \<not> time_at h ((idx - 1) div 2) \<le> time_at h idx")
    case True
    let ?p = "(idx - 1) div 2"
    have p: "?p < length (heap h)" "?p = par idx" using "1.prems"(3) by (auto simp: par_def)
    have lt: "times h ! idx < times h ! par idx" using True p "1.prems"(3) by (simp add: times_nth)
    have "heap_hole (times (swapEntries h idx ?p)) ?p \<and> below_ok (times (swapEntries h idx ?p)) ?p"
      using siftUp_step [of "times h" idx] True p "1.prems" lt by (simp add: times_swapEntries)
    then have "heap_ord (times (siftUp (swapEntries h idx ?p) ?p))"
      using True p "1.prems" by (intro "1.IH") auto
    with True show ?thesis by (subst siftUp.simps) (simp add: Let_def)
  next
    case False
    have "times h ! par idx \<le> times h ! idx" if "0 < idx"
      using False that "1.prems"(3) par_less [OF that] by (simp add: times_nth par_def)
    then have "above_ok (times h) idx" by (simp add: above_ok_def)
    with "1.prems" have "heap_ord (times h)" by (intro heap_ordI)
    moreover have "siftUp h idx = h" using False by (subst siftUp.simps) (auto simp: Let_def)
    ultimately show ?thesis by simp
  qed
qed

lemma siftUp_id:
  assumes "above_ok (times h) idx" "idx < length (heap h)"
  shows "siftUp h idx = h"
  using assms par_less [of idx]
  by (subst siftUp.simps) (auto simp: Let_def above_ok_def times_nth par_def)

lemma siftDown_content:
  assumes "index_inv h" "idx < length (heap h)"
  shows "index_inv (siftDown h idx) \<and> mset (heap (siftDown h idx)) = mset (heap h)"
  using assms
proof (induction h idx rule: siftDown.induct)
  case (1 h idx)
  let ?s = "smallest_child h idx"
  show ?case
  proof (cases "?s = idx")
    case True
    then have "siftDown h idx = h" by (subst siftDown.simps) simp
    with "1.prems" show ?thesis by simp
  next
    case False
    then have s: "?s < length (heap h)" by (auto dest: smallest_child_bounds)
    have "index_inv (siftDown (swapEntries h idx ?s) ?s) \<and>
        mset (heap (siftDown (swapEntries h idx ?s) ?s)) = mset (heap (swapEntries h idx ?s))"
      using False s "1.prems" by (intro "1.IH") (auto intro: index_inv_swapEntries)
    moreover have "siftDown h idx = siftDown (swapEntries h idx ?s) ?s"
      using False by (subst siftDown.simps) (simp add: Let_def)
    ultimately show ?thesis using s "1.prems" by (simp add: mset_swapEntries)
  qed
qed

lemma siftDown_ord:
  assumes "heap_hole (times h) idx" "above_ok (times h) idx" "idx < length (heap h)"
  shows "heap_ord (times (siftDown h idx))"
  using assms
proof (induction h idx rule: siftDown.induct)
  case (1 h idx)
  let ?s = "smallest_child h idx"
  show ?case
  proof (cases "?s = idx")
    case True
    then have "siftDown h idx = h" by (subst siftDown.simps) simp
    with smallest_child_least(1) [OF "1.prems"(3) True] "1.prems" show ?thesis
      by (auto intro: heap_ordI)
  next
    case False
    note s = smallest_child_least(2) [OF "1.prems"(3) refl False]
    have "heap_hole (times (swapEntries h idx ?s)) ?s \<and> above_ok (times (swapEntries h idx ?s)) ?s"
      using siftDown_step [of "times h" idx ?s] s "1.prems"
        smallest_child_least(3) [OF "1.prems"(3) refl False]
      by (simp add: times_swapEntries)
    then have "heap_ord (times (siftDown (swapEntries h idx ?s) ?s))"
      using False s by (intro "1.IH") auto
    with False show ?thesis by (subst siftDown.simps) (simp add: Let_def)
  qed
qed

lemma siftDown_id:
  assumes "below_ok (times h) idx" "idx < length (heap h)"
  shows "siftDown h idx = h"
proof -
  have "smallest_child h idx = idx"
  proof (rule ccontr)
    assume "smallest_child h idx \<noteq> idx"
    from smallest_child_least(2) [OF assms(2) refl this] assms(1) show False
      unfolding below_ok_def length_times by (meson not_le)
  qed
  then show ?thesis by (subst siftDown.simps) simp
qed

text \<open>After the value at \<open>idx\<close> has been replaced, sifting in both directions restores the heap,
  in either order: only one of the two moves anything.\<close>

lemma sift_both:
  assumes "heap_hole (times h) idx" "idx < length (heap h)"
  shows "heap_ord (times (siftDown (siftUp h idx) idx))" and "heap_ord (times (siftUp (siftDown h idx) idx))"
proof -
  show "heap_ord (times (siftDown (siftUp h idx) idx))"
  proof (cases "above_ok (times h) idx")
    case True
    with assms show ?thesis by (simp add: siftUp_id siftDown_ord)
  next
    case False
    then have "heap_ord (times (siftUp h idx))"
      using assms by (intro siftUp_ord) (auto intro: hole_above_or_below)
    then show ?thesis using assms by (simp add: siftDown_id heap_ord_below)
  qed
  show "heap_ord (times (siftUp (siftDown h idx) idx))"
  proof (cases "above_ok (times h) idx")
    case True
    with assms have "heap_ord (times (siftDown h idx))" by (intro siftDown_ord)
    then show ?thesis using assms by (simp add: siftUp_id heap_ord_above)
  next
    case False
    with assms show ?thesis by (simp add: siftDown_id siftUp_ord hole_above_or_below)
  qed
qed

section \<open>Operations keep the invariant and act on the deadline map\<close>

lemma index_invD: "index_inv h \<Longrightarrow> keyToIndex h k = Some i \<longleftrightarrow> i < length (heap h) \<and> hkey (heap h ! i) = k"
  by (simp add: index_inv_def)

lemma index_inj:
  assumes "index_inv h" "i < length (heap h)" "j < length (heap h)" "hkey (heap h ! i) = hkey (heap h ! j)"
  shows "i = j"
  using index_invD [OF assms(1), of "hkey (heap h ! j)" i] index_invD [OF assms(1), of "hkey (heap h ! j)" j]
    assms by simp

lemma index_inv_distinct: "index_inv h \<Longrightarrow> distinct (map hkey (heap h))"
  by (auto simp: distinct_conv_nth dest: index_inj)

lemma keys_pairs [simp]: "map fst (map entry_pair es) = map hkey es"
  by (simp add: entry_pair_def)

lemma deadline_cong:
  assumes "index_inv h" "mset (heap h') = mset (heap h)"
  shows "deadline h' = deadline h"
proof -
  have d: "distinct (map hkey (heap h))" by (rule index_inv_distinct [OF assms(1)])
  then have "distinct (map hkey (heap h'))"
    using assms(2) by (metis mset_eq_imp_distinct_iff mset_map)
  moreover have "set (map entry_pair (heap h')) = set (map entry_pair (heap h))"
    using mset_eq_setD [OF assms(2)] by simp
  ultimately show ?thesis
    unfolding deadline_def using d by (metis keys_pairs map_of_inject_set)
qed

lemma deadline_Some_iff:
  assumes "index_inv h"
  shows "deadline h k = Some t \<longleftrightarrow> (\<exists>i < length (heap h). hkey (heap h ! i) = k \<and> time_at h i = t)"
proof -
  have "deadline h k = Some t \<longleftrightarrow> (k, t) \<in> set (map entry_pair (heap h))"
    unfolding deadline_def using index_inv_distinct [OF assms]
    by (intro map_of_eq_Some_iff) (simp only: keys_pairs)
  also have "\<dots> \<longleftrightarrow> (\<exists>e \<in> set (heap h). hkey e = k \<and> expireAtMs e = t)"
    by (auto simp: entry_pair_def)
  finally show ?thesis by (metis in_set_conv_nth)
qed

lemma deadline_at:
  "index_inv h \<Longrightarrow> i < length (heap h) \<Longrightarrow> deadline h (hkey (heap h ! i)) = Some (time_at h i)"
  by (auto simp: deadline_Some_iff)

lemma deadline_index: "index_inv h \<Longrightarrow> deadline h k = map_option (time_at h) (keyToIndex h k)"
proof (cases "keyToIndex h k")
  case None
  assume ix: "index_inv h"
  have "deadline h k \<noteq> Some t" for t
    using None index_invD [OF ix, of k] by (auto simp: deadline_Some_iff [OF ix])
  with None show ?thesis by (cases "deadline h k") auto
next
  case (Some i)
  assume ix: "index_inv h"
  from Some have "i < length (heap h)" "hkey (heap h ! i) = k" by (simp_all add: index_invD [OF ix])
  with Some deadline_at [OF ix, of i] show ?thesis by simp
qed

lemma index_inv_push_new:
  assumes ix: "index_inv h" and k: "keyToIndex h k = None"
  shows "index_inv (h\<lparr>heap := heap h @ [\<lparr>hkey = k, expireAtMs = t\<rparr>], keyToIndex := (keyToIndex h)(k \<mapsto> length (heap h))\<rparr>)"
proof -
  have "hkey (heap h ! i) \<noteq> k" if "i < length (heap h)" for i
    using index_invD [OF ix, of k i] that k by simp
  then show ?thesis
    unfolding index_inv_def by (auto simp: nth_append less_Suc_eq index_invD [OF ix])
qed

lemma heap_ord_snoc:
  assumes "heap_ord ts"
  shows "heap_hole (ts @ [t]) (length ts)" "below_ok (ts @ [t]) (length ts)"
proof -
  have nokid: "\<not> (0 < i \<and> i < length (ts @ [t]) \<and> par i = length ts)" for i
    using par_less [of i] by auto
  then show "below_ok (ts @ [t]) (length ts)" by (auto simp: below_ok_def)
  have "(ts @ [t]) ! par i \<le> (ts @ [t]) ! i" if "0 < i" "i < length ts" for i
    using heap_ordD [OF assms that] that par_less [of i] by (simp add: nth_append)
  with nokid show "heap_hole (ts @ [t]) (length ts)" by (auto simp: heap_hole_def)
qed

lemma push_new_spec:
  assumes "ttl_inv h" "keyToIndex h k = None"
  shows "ttl_inv (push_new h k t) \<and> deadline (push_new h k t) = (deadline h)(k \<mapsto> t)"
proof -
  let ?h1 = "h\<lparr>heap := heap h @ [\<lparr>hkey = k, expireAtMs = t\<rparr>], keyToIndex := (keyToIndex h)(k \<mapsto> length (heap h))\<rparr>"
  have pn: "push_new h k t = siftUp ?h1 (length (heap h))" by (simp add: push_new_def Let_def)
  have ix: "index_inv ?h1" using assms by (simp add: ttl_inv_def index_inv_push_new)
  have "times ?h1 = times h @ [t]" by (simp add: times_def)
  with assms heap_ord_snoc [of "times h" t] have "heap_ord (times (push_new h k t))"
    unfolding pn by (intro siftUp_ord) (auto simp: ttl_inv_def)
  moreover have "deadline ?h1 = (deadline h)(k \<mapsto> t)"
  proof
    fix k'
    have ixh: "index_inv h" using assms by (simp add: ttl_inv_def)
    show "deadline ?h1 k' = ((deadline h)(k \<mapsto> t)) k'"
      unfolding deadline_index [OF ix] fun_upd_apply deadline_index [OF ixh]
      by (cases "keyToIndex h k'") (auto simp: nth_append dest: iffD1 [OF index_invD [OF ixh]])
  qed
  ultimately show ?thesis
    using siftUp_content [OF ix, of "length (heap h)"]
      deadline_cong [OF ix, of "siftUp ?h1 (length (heap h))"]
    by (simp add: ttl_inv_def pn)
qed

lemma ttl_update_spec:
  assumes "ttl_inv h"
  shows "ttl_inv (ttl_update h k t) \<and> deadline (ttl_update h k t) = (deadline h)(k \<mapsto> t)"
proof (cases "keyToIndex h k")
  case None
  with push_new_spec [OF assms None] show ?thesis by (simp add: ttl_update_def)
next
  case (Some idx)
  let ?h1 = "h\<lparr>heap := (heap h)[idx := (heap h ! idx)\<lparr>expireAtMs := t\<rparr>]\<rparr>"
  have i: "idx < length (heap h)" "hkey (heap h ! idx) = k"
    using assms Some by (auto simp: ttl_inv_def index_inv_def)
  have ix: "index_inv ?h1"
    using assms i by (auto simp: ttl_inv_def index_inv_def nth_list_update)
  have "times ?h1 = (times h)[idx := t]" by (simp add: times_def map_update)
  with assms i have "heap_hole (times ?h1) idx" by (simp add: ttl_inv_def heap_hole_update)
  then have ord: "heap_ord (times (siftDown (siftUp ?h1 idx) idx))" using i by (intro sift_both) auto
  have c1: "index_inv (siftUp ?h1 idx)" "mset (heap (siftUp ?h1 idx)) = mset (heap ?h1)"
    using siftUp_content [OF ix, of idx] i by auto
  have c2: "index_inv (siftDown (siftUp ?h1 idx) idx)"
      "mset (heap (siftDown (siftUp ?h1 idx) idx)) = mset (heap ?h1)"
    using siftDown_content [OF c1(1), of idx] c1 i by auto
  have "deadline ?h1 = (deadline h)(k \<mapsto> t)"
  proof
    fix k'
    have ixh: "index_inv h" using assms by (simp add: ttl_inv_def)
    show "deadline ?h1 k' = ((deadline h)(k \<mapsto> t)) k'"
      unfolding deadline_index [OF ix] fun_upd_apply deadline_index [OF ixh]
    proof (cases "k' = k")
      case True
      with Some i show "map_option (time_at ?h1) (keyToIndex ?h1 k') =
          (if k' = k then Some t else map_option (time_at h) (keyToIndex h k'))" by simp
    next
      case False
      then have "j \<noteq> idx" if "keyToIndex h k' = Some j" for j
        using that i index_invD [OF ixh] by auto
      with False show "map_option (time_at ?h1) (keyToIndex ?h1 k') =
          (if k' = k then Some t else map_option (time_at h) (keyToIndex h k'))"
        by (cases "keyToIndex h k'") simp_all
    qed
  qed
  with ord c2 deadline_cong [OF ix c2(2)] Some show ?thesis by (simp add: ttl_update_def ttl_inv_def)
qed

lemma ttl_push_eq_update: "ttl_push h k t = ttl_update h k t"
  by (simp add: ttl_push_def ttl_update_def split: option.split)

lemma pop_back_spec:
  assumes ix: "index_inv h" and ne: "heap h \<noteq> []"
  shows "index_inv (pop_back h)"
    and "deadline (pop_back h) = (deadline h)(hkey (last (heap h)) := None)"
proof -
  let ?n = "length (heap h) - 1"
  have l: "last (heap h) = heap h ! ?n" "?n < length (heap h)" 
    using ne diff_less [of 1 "length (heap h)"] by (simp_all add: last_conv_nth)
  have kl: "keyToIndex h (hkey (heap h ! ?n)) = Some ?n" using l(2) by (simp add: index_invD [OF ix])
  have "i = ?n" if "i < length (heap h)" "hkey (heap h ! i) = hkey (heap h ! ?n)" for i
    using index_inj [OF ix that(1) l(2) that(2)] .
  then have k: "hkey (heap h ! i) = hkey (heap h ! ?n) \<longleftrightarrow> i = ?n" if "i < length (heap h)" for i
    using that by auto
  have "keyToIndex (pop_back h) k = Some i \<longleftrightarrow>
      i < length (heap (pop_back h)) \<and> hkey (heap (pop_back h) ! i) = k" for k i
  proof (cases "i < ?n")
    case True
    then have "i < length (heap h)" "i \<noteq> ?n" by auto
    with True k [of i] show ?thesis
      by (auto simp: pop_back_def l(1) nth_butlast index_invD [OF ix])
  next
    case False
    with k [of i] show ?thesis by (auto simp: pop_back_def l(1) index_invD [OF ix])
  qed
  then show ip: "index_inv (pop_back h)" by (simp add: index_inv_def)
  show "deadline (pop_back h) = (deadline h)(hkey (last (heap h)) := None)"
  proof
    fix k
    show "deadline (pop_back h) k = ((deadline h)(hkey (last (heap h)) := None)) k"
    proof (cases "keyToIndex (pop_back h) k")
      case None
      then show ?thesis
        unfolding deadline_index [OF ip] fun_upd_apply deadline_index [OF ix]
        by (auto simp: pop_back_def split: if_splits)
    next
      case (Some i)
      then have "i < ?n" "keyToIndex h k = Some i" "k \<noteq> hkey (last (heap h))"
        using iffD1 [OF index_invD [OF ip] Some] by (auto simp: pop_back_def split: if_splits)
      with Some show ?thesis
        unfolding deadline_index [OF ip] fun_upd_apply deadline_index [OF ix]
        by (simp add: pop_back_def nth_butlast)
    qed
  qed
qed

lemma times_pop_back: "heap h \<noteq> [] \<Longrightarrow> times (pop_back h) = butlast (times h)"
  by (simp add: times_def pop_back_def map_butlast)

lemma heap_ord_butlast: "heap_ord ts \<Longrightarrow> heap_ord (butlast ts)"
  unfolding heap_ord_def
proof (intro allI impI)
  fix i assume "\<forall>i. 0 < i \<longrightarrow> i < length ts \<longrightarrow> ts ! par i \<le> ts ! i" "0 < i" "i < length (butlast ts)"
  with par_less [of i] show "butlast ts ! par i \<le> butlast ts ! i" by (simp add: nth_butlast)
qed

text \<open>Moving the last entry into position \<open>idx\<close> and dropping the old one, as \<^verbatim>\<open>remove\<close> and
  \<^verbatim>\<open>popExpired\<close> do before sifting.\<close>

lemma evict_spec:
  assumes inv: "ttl_inv h" and i: "idx < length (heap h)"
  defines "lastIdx \<equiv> length (heap h) - 1"
  defines "h2 \<equiv> pop_back (if idx \<noteq> lastIdx then swapEntries h idx lastIdx else h)"
  shows "index_inv h2" "deadline h2 = (deadline h)(hkey (heap h ! idx) := None)"
    and "length (heap h2) = lastIdx" "idx < lastIdx \<Longrightarrow> heap_hole (times h2) idx"
    and "idx = lastIdx \<Longrightarrow> heap_ord (times h2)"
proof -
  let ?h1 = "if idx \<noteq> lastIdx then swapEntries h idx lastIdx else h"
  have ix: "index_inv h" and ord: "heap_ord (times h)" using inv by (simp_all add: ttl_inv_def)
  have l: "lastIdx < length (heap h)" "heap h \<noteq> []" using i by (auto simp: lastIdx_def)
  have ix1: "index_inv ?h1" and ms: "mset (heap ?h1) = mset (heap h)" and ne: "heap ?h1 \<noteq> []"
    and len1: "length (heap ?h1) = length (heap h)"
    using ix i l index_inv_swapEntries [OF ix i l(1)] mset_swapEntries [OF i l(1)]
    by (auto simp: swapEntries_def Let_def)
  have "last (heap ?h1) = heap ?h1 ! lastIdx" using ne len1 by (metis last_conv_nth lastIdx_def)
  then have k: "last (heap ?h1) = heap h ! idx"
    using i l by (auto simp: swapEntries_def Let_def nth_swap)
  show "index_inv h2" unfolding h2_def by (rule pop_back_spec(1) [OF ix1 ne])
  show "deadline h2 = (deadline h)(hkey (heap h ! idx) := None)"
    unfolding h2_def pop_back_spec(2) [OF ix1 ne] k deadline_cong [OF ix ms] ..
  show len: "length (heap h2) = lastIdx" using len1 by (simp add: h2_def pop_back_def lastIdx_def)
  show "heap_ord (times h2)" if "idx = lastIdx"
    using that ord l by (simp add: h2_def times_pop_back heap_ord_butlast)
  show "heap_hole (times h2) idx" if "idx < lastIdx"
  proof -
    have "times h2 = (butlast (times h))[idx := times h ! lastIdx]"
      using that i l ne butlast_swap_last [of idx "times h"]
      by (simp add: h2_def times_pop_back times_swapEntries lastIdx_def)
    then show ?thesis using heap_hole_update [OF heap_ord_butlast [OF ord]] that by (simp add: lastIdx_def)
  qed
qed

lemma ttl_remove_spec:
  assumes inv: "ttl_inv h"
  shows "ttl_inv (ttl_remove h k) \<and> deadline (ttl_remove h k) = (deadline h)(k := None)"
proof (cases "keyToIndex h k")
  case None
  then have "deadline h k = None" using inv by (simp add: ttl_inv_def deadline_index)
  with None inv show ?thesis by (auto simp: ttl_remove_def)
next
  case (Some idx)
  then have i: "idx < length (heap h)" "hkey (heap h ! idx) = k"
    using inv by (auto simp: ttl_inv_def index_invD)
  define h2 where "h2 = pop_back (if idx \<noteq> length (heap h) - 1 then swapEntries h idx (length (heap h) - 1) else h)"
  note e = evict_spec [OF inv i(1), folded h2_def, unfolded i(2)]
  have r: "ttl_remove h k = (if idx < length (heap h2) then siftUp (siftDown h2 idx) idx else h2)"
    using Some by (simp add: ttl_remove_def Let_def h2_def)
  show ?thesis
  proof (cases "idx < length (heap h2)")
    case True
    then have "heap_ord (times (siftUp (siftDown h2 idx) idx))"
      using e by (intro sift_both) auto
    moreover note siftDown_content [OF e(1) True] siftUp_content [of "siftDown h2 idx" idx]
    ultimately show ?thesis using r True e deadline_cong [OF e(1), of "siftUp (siftDown h2 idx) idx"]
      by (simp add: ttl_inv_def)
  next
    case False
    then have "idx = length (heap h) - 1" using e(3) i(1) by simp
    with r False e show ?thesis by (simp add: ttl_inv_def)
  qed
qed

lemma pop_root_spec:
  assumes inv: "ttl_inv h" and ne: "heap h \<noteq> []"
  shows "ttl_inv (pop_root h) \<and> deadline (pop_root h) = (deadline h)(hkey (heap h ! 0) := None)"
proof -
  have i: "0 < length (heap h)" using ne by simp
  define h2 where "h2 = pop_back (if 0 \<noteq> length (heap h) - 1 then swapEntries h 0 (length (heap h) - 1) else h)"
  note e = evict_spec [OF inv i, folded h2_def]
  have r: "pop_root h = (if heap h2 \<noteq> [] then siftDown h2 0 else h2)"
    by (simp add: pop_root_def Let_def h2_def)
  show ?thesis
  proof (cases "heap h2 = []")
    case False
    then have "0 < length (heap h2)" by simp
    then have "heap_ord (times (siftDown h2 0))"
      using e by (intro siftDown_ord) (auto simp: above_ok_def)
    with siftDown_content [OF e(1) \<open>0 < length (heap h2)\<close>] r False e(2)
      deadline_cong [OF e(1), of "siftDown h2 0"] show ?thesis
      by (simp add: ttl_inv_def)
  next
    case True
    with r e show ?thesis by (simp add: ttl_inv_def)
  qed
qed

lemma heap_ord_root: "heap_ord ts \<Longrightarrow> i < length ts \<Longrightarrow> ts ! 0 \<le> ts ! i"
proof (induction i rule: less_induct)
  case (less i)
  then show ?case
    using par_less [of i] heap_ordD [of ts i] by (cases "i = 0") (auto intro: order.trans)
qed

lemma root_least:
  assumes "ttl_inv h" "deadline h k = Some t"
  shows "heap h \<noteq> [] \<and> time_at h 0 \<le> t"
proof -
  obtain i where "i < length (heap h)" "time_at h i = t"
    using assms by (auto simp: ttl_inv_def deadline_Some_iff)
  moreover from this have "0 < length (heap h)" by auto
  ultimately show ?thesis using heap_ord_root [of "times h" i] assms(1)
    by (simp add: ttl_inv_def times_nth)
qed

section \<open>The contract of an expiry index\<close>

text \<open>What a bounded round of expiry may return from a deadline map: expired keys only, the earliest
  deadlines first, nothing later than what stays behind, and fewer than the budget only when
  nothing expired is left.\<close>

definition expiry_batch :: "(bytes \<rightharpoonup> int) \<Rightarrow> int \<Rightarrow> int \<Rightarrow> bytes list \<Rightarrow> bool" where
  "expiry_batch m now maxWork ks =
     (distinct ks \<and> (\<forall>k \<in> set ks. \<exists>t. m k = Some t \<and> t \<le> now) \<and>
      sorted (map (the \<circ> m) ks) \<and>
      (\<forall>k \<in> set ks. \<forall>k' t'. k' \<notin> set ks \<longrightarrow> m k' = Some t' \<longrightarrow> the (m k) \<le> t') \<and>
      int (length ks) \<le> max 0 maxWork \<and>
      (int (length ks) < maxWork \<longrightarrow> (\<forall>k t. k \<notin> set ks \<longrightarrow> m k = Some t \<longrightarrow> now < t)))"

locale expiry_index =
  fixes empty_idx :: 'h
    and push :: "'h \<Rightarrow> bytes \<Rightarrow> int \<Rightarrow> 'h"
    and remove :: "'h \<Rightarrow> bytes \<Rightarrow> 'h"
    and pop :: "'h \<Rightarrow> int \<Rightarrow> int \<Rightarrow> bytes list \<times> 'h"
    and dl :: "'h \<Rightarrow> bytes \<rightharpoonup> int"
    and invar :: "'h \<Rightarrow> bool"
  assumes invar_empty: "invar empty_idx" and dl_empty: "dl empty_idx = Map.empty"
    and finite_dl: "invar h \<Longrightarrow> finite (dom (dl h))"
    and invar_push: "invar h \<Longrightarrow> invar (push h k t)"
    and dl_push: "invar h \<Longrightarrow> dl (push h k t) = (dl h)(k \<mapsto> t)"
    and invar_remove: "invar h \<Longrightarrow> invar (remove h k)"
    and dl_remove: "invar h \<Longrightarrow> dl (remove h k) = (dl h)(k := None)"
    and pop_batch: "invar h \<Longrightarrow> pop h now n = (ks, h') \<Longrightarrow>
      invar h' \<and> expiry_batch (dl h) now n ks \<and> dl h' = dl h |` (- set ks)"
begin

text \<open>A budget that covers all expired keys leaves none behind.\<close>

lemma pop_enough:
  assumes "invar h" "pop h now n = (ks, h')"
    and enough: "int (card {k. \<exists>t. dl h k = Some t \<and> t \<le> now}) \<le> n"
    and "dl h' k = Some t"
  shows "now < t"
proof -
  let ?E = "{k. \<exists>t. dl h k = Some t \<and> t \<le> now}"
  note b = pop_batch [OF assms(1,2)]
  have kt: "k \<notin> set ks" "dl h k = Some t" using assms(4) b by (auto simp: restrict_map_def split: if_splits)
  have sub: "set ks \<subseteq> ?E" using b by (simp add: expiry_batch_def subset_iff)
  have fin: "finite ?E"
    by (rule finite_subset [OF _ finite_dl [OF assms(1)]]) auto
  show ?thesis
  proof (cases "int (length ks) < n")
    case True
    then show ?thesis using b kt by (simp add: expiry_batch_def)
  next
    case False
    have "distinct ks" using b by (simp add: expiry_batch_def)
    with enough False have "card ?E \<le> card (set ks)" by (simp only: distinct_card)
    with card_seteq [OF fin sub] have "set ks = ?E" by blast
    with kt show ?thesis by (auto simp: not_le)
  qed
qed

lemma remove_push: "invar h \<Longrightarrow> dl (remove (push h k t) k) = (dl h)(k := None)"
  by (simp add: dl_remove invar_push dl_push)

end

section \<open>The heap is an expiry index\<close>

lemma expiry_batch_Cons:
  assumes "expiry_batch (m(k := None)) now (n - 1) ks" "m k = Some t" "t \<le> now" "0 < n"
    and least: "\<And>k' t'. m k' = Some t' \<Longrightarrow> t \<le> t'"
  shows "expiry_batch m now n (k # ks)"
proof -
  let ?m = "m(k := None)"
  have in_ks: "\<exists>t'. ?m k' = Some t' \<and> t' \<le> now" if "k' \<in> set ks" for k'
    using assms(1) that by (auto simp: expiry_batch_def)
  then have nk: "k \<notin> set ks" by fastforce
  then have same: "map (the \<circ> m) ks = map (the \<circ> ?m) ks" by (auto intro!: map_cong)
  have sd: "sorted (map (the \<circ> m) (k # ks))"
  proof -
    have "t \<le> the (m k')" if "k' \<in> set ks" for k' using in_ks [OF that] least by (auto split: if_splits)
    moreover have "sorted (map (the \<circ> m) ks)" unfolding same using assms(1) by (simp add: expiry_batch_def)
    ultimately show ?thesis using assms(2) by simp
  qed
  have rest: "the (m k') \<le> t''" if "k' \<in> set (k # ks)" "k'' \<notin> set (k # ks)" "m k'' = Some t''" for k' k'' t''
    using that assms(1,2) nk least by (cases "k' = k") (auto simp: expiry_batch_def)
  have left: "now < t''" if "int (length (k # ks)) < n" "k'' \<notin> set (k # ks)" "m k'' = Some t''" for k'' t''
    using that assms(1) by (auto simp: expiry_batch_def)
  have exp: "\<exists>t'. m k' = Some t' \<and> t' \<le> now" if "k' \<in> set (k # ks)" for k'
    using that in_ks [of k'] assms(2,3) by (auto split: if_splits)
  show ?thesis
    unfolding expiry_batch_def using nk sd rest left exp assms(1,4) by (auto simp: expiry_batch_def)
qed

lemma popExpired_loop_spec:
  assumes "ttl_inv h" "popExpired_loop h now n cnt acc = (r, h')"
  shows "\<exists>ks. r = acc @ ks \<and> ttl_inv h' \<and> expiry_batch (deadline h) now (n - cnt) ks \<and>
    deadline h' = deadline h |` (- set ks)"
  using assms
proof (induction h now n cnt acc rule: popExpired_loop.induct)
  case (1 h now n cnt acc)
  let ?k = "hkey (heap h ! 0)"
  show ?case
  proof (cases "heap h \<noteq> [] \<and> cnt < n \<and> \<not> now < time_at h 0")
    case True
    have root: "deadline h ?k = Some (time_at h 0)"
      using "1.prems"(1) True by (simp add: ttl_inv_def deadline_at)
    note pr = pop_root_spec [OF "1.prems"(1), of] 
    have pop: "ttl_inv (pop_root h)" "deadline (pop_root h) = (deadline h)(?k := None)"
      using True pr by auto
    have "popExpired_loop (pop_root h) now n (cnt + 1) (acc @ [?k]) = (r, h')"
      using True "1.prems"(2) by (subst (asm) popExpired_loop.simps) simp
    from "1.IH" [OF True pop(1) this] obtain ks where ks: "r = (acc @ [?k]) @ ks" "ttl_inv h'"
        "expiry_batch (deadline (pop_root h)) now (n - (cnt + 1)) ks"
        "deadline h' = deadline (pop_root h) |` (- set ks)"
      by blast
    have "expiry_batch (deadline h) now (n - cnt) (?k # ks)"
      using ks(3) root True "1.prems"(1)
      by (intro expiry_batch_Cons [of _ _ _ _ _ "time_at h 0"])
        (auto simp: pop(2) algebra_simps dest: root_least)
    moreover have "deadline h' = deadline h |` (- set (?k # ks))"
      unfolding ks(4) pop(2) by (auto simp: restrict_map_def fun_eq_iff)
    ultimately show ?thesis using ks(1,2) by (intro exI [of _ "?k # ks"]) simp
  next
    case False
    then have "popExpired_loop h now n cnt acc = (acc, h)"
      by (subst popExpired_loop.simps) (simp only: if_False)
    then have "r = acc" "h' = h" using "1.prems"(2) by simp_all
    moreover have "expiry_batch (deadline h) now (n - cnt) []"
      using False root_least [OF "1.prems"(1)] by (fastforce simp: expiry_batch_def)
    ultimately show ?thesis using "1.prems"(1) by (simp add: restrict_map_def)
  qed
qed

interpretation th: expiry_index new_heap ttl_push ttl_remove popExpired deadline ttl_inv
proof unfold_locales
  show "ttl_inv new_heap" by (simp add: ttl_inv_def new_heap_def index_inv_def heap_ord_def times_def)
  show "deadline new_heap = Map.empty" by (simp add: deadline_def new_heap_def)
  show "finite (dom (deadline h))" if "ttl_inv h" for h by (simp add: deadline_def finite_dom_map_of)
  show "ttl_inv h' \<and> expiry_batch (deadline h) now n ks \<and> deadline h' = deadline h |` (- set ks)"
    if "ttl_inv h" "popExpired h now n = (ks, h')" for h now n ks h'
    using popExpired_loop_spec [OF that(1)] that(2) by (fastforce simp: popExpired_def)
qed (simp_all add: ttl_push_eq_update ttl_update_spec ttl_remove_spec)

text \<open>The code's INV-3: vector and index map have the same number of entries.\<close>

lemma index_inv_size:
  assumes "index_inv h"
  shows "card (dom (keyToIndex h)) = length (heap h)"
proof -
  have "dom (keyToIndex h) = set (map hkey (heap h))"
    by (force simp: dom_def index_invD [OF assms] in_set_conv_nth)
  then show ?thesis using index_inv_distinct [OF assms] by (simp add: distinct_card del: set_map)
qed

section \<open>Properties\<close>

text \<open>C8 (refinement). On a well-formed heap every operation acts on the map from keys to deadlines as
  its name says: \<^verbatim>\<open>push\<close> and \<^verbatim>\<open>update\<close> set the deadline of the key whether it was there or not,
  \<^verbatim>\<open>remove\<close> deletes it and ignores an absent key; the heap order and the index map stay right, and
  vector and index map have as many entries as there are deadlines.\<close>
theorem ttl_heap_refines_map:
  assumes "ttl_inv h"
  shows "ttl_inv (ttl_push h k t) \<and> deadline (ttl_push h k t) = (deadline h)(k \<mapsto> t) \<and>
    ttl_inv (ttl_update h k t) \<and> deadline (ttl_update h k t) = (deadline h)(k \<mapsto> t) \<and>
    ttl_inv (ttl_remove h k) \<and> deadline (ttl_remove h k) = (deadline h)(k := None) \<and>
    card (dom (keyToIndex h)) = ttl_size h \<and> dom (deadline h) = dom (keyToIndex h)"
proof -
  have ix: "index_inv h" using assms by (simp add: ttl_inv_def)
  have "dom (deadline h) = dom (keyToIndex h)" by (auto simp: dom_def deadline_index [OF ix])
  then show ?thesis
    using assms index_inv_size [OF ix]
    by (simp add: ttl_push_eq_update ttl_update_spec ttl_remove_spec ttl_size_def)
qed

definition three_timers :: ttl_heap where
  "three_timers = ttl_push (ttl_push (ttl_push new_heap ''a'' 30) ''b'' 10) ''c'' 20"

lemma three_timers_ok: "ttl_inv three_timers" "deadline three_timers = [''a'' \<mapsto> 30, ''b'' \<mapsto> 10, ''c'' \<mapsto> 20]"
  by (simp_all add: three_timers_def th.invar_push th.dl_push th.invar_empty th.dl_empty)

theorem ttl_heap_refines_map_witness:
  "deadline (ttl_remove three_timers ''b'') = [''a'' \<mapsto> 30, ''c'' \<mapsto> 20]"
  using ttl_heap_refines_map [OF three_timers_ok(1), of "''b''" 0] three_timers_ok(2)
  by (simp add: fun_upd_twist)

text \<open>C18 (functional). A round of active expiry returns expired keys only, each once, earliest deadline
  first and none later than a deadline that stays, at most \<open>maxWork\<close> of them and fewer only when no
  expired key is left; exactly the returned keys leave the heap, which stays well-formed.\<close>
theorem popExpired_returns_batch:
  assumes "ttl_inv h" and "popExpired h now maxWork = (ks, h')"
  shows "ttl_inv h' \<and> expiry_batch (deadline h) now maxWork ks \<and> deadline h' = deadline h |` (- set ks)"
  using th.pop_batch [OF assms] .

theorem popExpired_returns_batch_witness:
  "fst (popExpired three_timers 25 1) = [''b''] \<and> expiry_batch (deadline three_timers) 25 1 [''b'']"
proof -
  obtain ks h' where p: "popExpired three_timers 25 1 = (ks, h')" by fastforce
  have "fst (popExpired three_timers 25 1) = [''b'']" by code_simp
  with p popExpired_returns_batch [OF three_timers_ok(1) p] show ?thesis by simp
qed

text \<open>A round whose budget covers the number of expired keys leaves no expired key in
  the heap, so a backlog of n keys is gone after rounds of total budget n.\<close>
theorem popExpired_drains:
  assumes "ttl_inv h" and "popExpired h now maxWork = (ks, h')"
    and "int (card {k. \<exists>t. deadline h k = Some t \<and> t \<le> now}) \<le> maxWork"
  shows "\<forall>k t. deadline h' k = Some t \<longrightarrow> now < t"
  using th.pop_enough [OF assms] by blast

theorem popExpired_drains_witness:
  "deadline (snd (popExpired three_timers 25 2)) ''b'' = None"
proof -
  obtain ks h' where p: "popExpired three_timers 25 2 = (ks, h')" by fastforce
  have "{k. \<exists>t. deadline three_timers k = Some t \<and> t \<le> 25} \<subseteq> {''b'', ''c''}"
    by (auto simp: three_timers_ok(2) split: if_splits)
  then have "card {k. \<exists>t. deadline three_timers k = Some t \<and> t \<le> 25} \<le> card {''b'', ''c''}"
    by (rule card_mono [rotated]) simp
  then have "int (card {k. \<exists>t. deadline three_timers k = Some t \<and> t \<le> 25}) \<le> 2" by simp
  from popExpired_drains [OF three_timers_ok(1) p this] th.pop_batch [OF three_timers_ok(1) p] p
  show ?thesis by (cases "deadline h' ''b''") (auto simp: three_timers_ok(2) restrict_map_def split: if_splits)
qed

end
