(* ===== verification/CLib.thy ===== *)
theory CLib
  imports Prelude
begin

text \<open>
  The parts of the C and C++ standard library that the program's parsing and printing rest on:
  \<^verbatim>\<open>std::to_string\<close>, \<^verbatim>\<open>std::strtoll\<close> (value, end offset and ERANGE), \<^verbatim>\<open>std::atoi\<close> (glibc:
  the 64-bit \<^verbatim>\<open>strtol\<close> value truncated to 32 bits), \<^verbatim>\<open>std::stoi\<close> with its two exceptions, and
  the C-locale \<^verbatim>\<open>toupper\<close> and \<^verbatim>\<open>tolower\<close>. The main fact is that \<open>strtoll\<close> reads back
  exactly what \<open>to_string\<close> prints.
\<close>

section \<open>Characters\<close>

definition isdigit :: "char \<Rightarrow> bool" where
  "isdigit c = (48 \<le> (of_char c :: nat) \<and> (of_char c :: nat) \<le> 57)"

definition isspace :: "char \<Rightarrow> bool" where
  "isspace c = (let n = (of_char c :: nat) in n = 32 \<or> (9 \<le> n \<and> n \<le> 13))"

definition toupper :: "char \<Rightarrow> char" where
  "toupper c = (let n = (of_char c :: nat) in if 97 \<le> n \<and> n \<le> 122 then char_of (n - 32) else c)"

definition tolower :: "char \<Rightarrow> char" where
  "tolower c = (let n = (of_char c :: nat) in if 65 \<le> n \<and> n \<le> 90 then char_of (n + 32) else c)"

definition digit_char :: "nat \<Rightarrow> char" where
  "digit_char d = char_of (48 + d)"

definition digit_val :: "char \<Rightarrow> nat" where
  "digit_val c = of_char c - 48"

section \<open>Printing integers\<close>

fun nat_to_string :: "nat \<Rightarrow> bytes" where
  "nat_to_string n =
     (if n < 10 then [digit_char n] else nat_to_string (n div 10) @ [digit_char (n mod 10)])"

declare nat_to_string.simps [simp del]

definition to_string :: "int \<Rightarrow> bytes" where
  "to_string i = (if i < 0 then CHR ''-'' # nat_to_string (nat (- i)) else nat_to_string (nat i))"

section \<open>Reading integers\<close>

definition digits_val :: "bytes \<Rightarrow> nat" where
  "digits_val ds = foldl (\<lambda>a c. 10 * a + digit_val c) 0 ds"

definition LLONG_MAX :: int where "LLONG_MAX = 9223372036854775807"
definition LLONG_MIN :: int where "LLONG_MIN = - 9223372036854775808"

text \<open>The result of \<^verbatim>\<open>strtoll(s, &end, 10)\<close>: the value, \<^verbatim>\<open>end - s\<close>, and whether errno was set
  to ERANGE. With no digits the value is 0 and the end offset 0.\<close>

definition strtoll :: "bytes \<Rightarrow> int \<times> nat \<times> bool" where
  "strtoll s =
     (let ws = takeWhile isspace s;
          r = dropWhile isspace s;
          neg = (r \<noteq> [] \<and> hd r = CHR ''-'');
          sgn = (if r \<noteq> [] \<and> (hd r = CHR ''-'' \<or> hd r = CHR ''+'') then 1 else 0);
          ds = takeWhile isdigit (drop sgn r)
      in if ds = [] then (0, 0, False)
         else let v = (if neg then - int (digits_val ds) else int (digits_val ds));
                  e = length ws + sgn + length ds
              in if v > LLONG_MAX then (LLONG_MAX, e, True)
                 else if v < LLONG_MIN then (LLONG_MIN, e, True)
                 else (v, e, False))"

definition atoi :: "bytes \<Rightarrow> int" where
  "atoi s = wrap32 (fst (strtoll s))"

text \<open>What ends the program: the exceptions the handlers do not catch, an access through a null or dangling
  pointer, a failed assertion, and recursion without end.\<close>

datatype cpp_exception = invalid_argument | out_of_range | bad_variant_access | null_pointer | assertion_failed | stack_overflow

definition stoi :: "bytes \<Rightarrow> cpp_exception + int" where
  "stoi s = (case strtoll s of (v, e, erange) \<Rightarrow>
     if e = 0 then Inl invalid_argument
     else if erange \<or> v < - (2 ^ 31) \<or> v > 2 ^ 31 - 1 then Inl out_of_range
     else Inr v)"

text \<open>Integer division of C++ truncates towards zero.\<close>

definition tdiv :: "int \<Rightarrow> int \<Rightarrow> int" where
  "tdiv a b = (if a \<ge> 0 then a div b else - ((- a) div b))"

section \<open>Facts\<close>

lemma isdigit_digit_char [simp]: "d < 10 \<Longrightarrow> isdigit (digit_char d)"
  by (simp add: isdigit_def digit_char_def)

lemma digit_val_digit_char [simp]: "d < 10 \<Longrightarrow> digit_val (digit_char d) = d"
  by (simp add: digit_val_def digit_char_def)

lemma isdigit_not_isspace: "isdigit c \<Longrightarrow> \<not> isspace c"
  by (auto simp: isdigit_def isspace_def Let_def)

lemma isdigit_not_sign: "isdigit c \<Longrightarrow> c \<noteq> CHR ''-'' \<and> c \<noteq> CHR ''+''"
  by (auto simp: isdigit_def)

lemma nat_to_string_not_Nil [simp]: "nat_to_string n \<noteq> []"
  by (subst nat_to_string.simps) simp

lemma nat_to_string_digits: "c \<in> set (nat_to_string n) \<Longrightarrow> isdigit c"
proof (induction n rule: nat_to_string.induct)
  case (1 n)
  show ?case
  proof (cases "n < 10")
    case True
    with "1.prems" show ?thesis by (subst (asm) nat_to_string.simps) simp
  next
    case False
    with "1.prems" have "c \<in> set (nat_to_string (n div 10)) \<or> c = digit_char (n mod 10)"
      by (subst (asm) nat_to_string.simps) auto
    with "1.IH" False show ?thesis by auto
  qed
qed

lemma digits_val_snoc [simp]: "digits_val (ds @ [c]) = 10 * digits_val ds + digit_val c"
  by (simp add: digits_val_def)

lemma digits_val_single [simp]: "digits_val [c] = digit_val c"
  by (simp add: digits_val_def)

lemma digits_val_nat_to_string [simp]: "digits_val (nat_to_string n) = n"
proof (induction n rule: nat_to_string.induct)
  case (1 n)
  then show ?case by (subst nat_to_string.simps) auto
qed

lemma takeWhile_nat_to_string [simp]: "takeWhile isdigit (nat_to_string n) = nat_to_string n"
  by (simp add: takeWhile_eq_all_conv nat_to_string_digits)

lemma hd_nat_to_string: "isdigit (hd (nat_to_string n))"
  by (rule nat_to_string_digits [of _ n]) simp

lemma dropWhile_isspace_hd: "xs \<noteq> [] \<Longrightarrow> \<not> isspace (hd xs) \<Longrightarrow>
    takeWhile isspace xs = [] \<and> dropWhile isspace xs = xs"
  by (cases xs) auto

lemma strtoll_nat_to_string:
  assumes "int n \<le> LLONG_MAX"
  shows "strtoll (nat_to_string n) = (int n, length (nat_to_string n), False)"
proof -
  let ?s = "nat_to_string n"
  have h: "isdigit (hd ?s)" by (rule hd_nat_to_string)
  then have "takeWhile isspace ?s = []" "dropWhile isspace ?s = ?s"
    using dropWhile_isspace_hd [of ?s] isdigit_not_isspace by auto
  moreover have "hd ?s \<noteq> CHR ''-''" "hd ?s \<noteq> CHR ''+''"
    using isdigit_not_sign [OF h] by auto
  ultimately show ?thesis
    using assms by (simp add: strtoll_def Let_def LLONG_MIN_def)
qed

lemma strtoll_neg_nat_to_string:
  assumes "LLONG_MIN \<le> - int n"
  shows "strtoll (CHR ''-'' # nat_to_string n) = (- int n, Suc (length (nat_to_string n)), False)"
  using assms by (simp add: strtoll_def Let_def isspace_def LLONG_MAX_def)

lemma length_to_string_pos [simp]: "0 < length (to_string i)"
  by (simp add: to_string_def)

lemma to_string_not_Nil [simp]: "to_string i \<noteq> []"
  by (simp add: to_string_def)

theorem strtoll_to_string:
  assumes "LLONG_MIN \<le> i" "i \<le> LLONG_MAX"
  shows "strtoll (to_string i) = (i, length (to_string i), False)"
  using assms strtoll_nat_to_string [of "nat i"] strtoll_neg_nat_to_string [of "nat (- i)"]
  by (auto simp: to_string_def)

lemma atoi_to_string:
  assumes "- (2 ^ 31) \<le> i" "i < 2 ^ 31"
  shows "atoi (to_string i) = i"
  using assms strtoll_to_string [of i]
  by (simp add: atoi_def wrap32_id LLONG_MIN_def LLONG_MAX_def)

lemma stoi_to_string:
  assumes "- (2 ^ 31) \<le> i" "i < 2 ^ 31"
  shows "stoi (to_string i) = Inr i"
  using assms strtoll_to_string [of i]
  by (simp add: stoi_def LLONG_MIN_def LLONG_MAX_def)

lemma strtoll_range:
  assumes "strtoll s = (v, e, r)"
  shows "LLONG_MIN \<le> v \<and> v \<le> LLONG_MAX"
  using assms
  by (auto simp: strtoll_def Let_def LLONG_MIN_def LLONG_MAX_def split: if_splits)

end
