(* ===== verification/Doubles.thy ===== *)
theory Doubles
  imports Complex_Main "HOL-Library.Product_Lexorder"
begin

text \<open>
  The double-precision numbers the sorted sets use as scores, as far as the program observes them:
  the two infinities, the not-a-number value, the two zeros, and the finite values as rationals
  (every finite double is one). \<open>dlt\<close> and \<open>deq\<close> are the IEEE comparisons \<^verbatim>\<open><\<close> and \<^verbatim>\<open>==\<close>: false as
  soon as one side is not a number, and blind to the sign of zero.
\<close>

datatype dbl = NaN | NInf | Fin rat | NegZero | PInf

text \<open>The position of a number on the extended line.\<close>

primrec dkey :: "dbl \<Rightarrow> int \<times> rat" where
  "dkey NaN = (2, 0)"
| "dkey NInf = (- 1, 0)"
| "dkey (Fin r) = (0, r)"
| "dkey NegZero = (0, 0)"
| "dkey PInf = (1, 0)"

definition dlt :: "dbl \<Rightarrow> dbl \<Rightarrow> bool" where
  "dlt a b = (a \<noteq> NaN \<and> b \<noteq> NaN \<and> dkey a < dkey b)"

definition deq :: "dbl \<Rightarrow> dbl \<Rightarrow> bool" where
  "deq a b = (a \<noteq> NaN \<and> b \<noteq> NaN \<and> dkey a = dkey b)"

lemma deq_refl_iff: "deq a a \<longleftrightarrow> a \<noteq> NaN"
  by (simp add: deq_def)

lemma dlt_trichotomy:
  assumes "a \<noteq> NaN" "b \<noteq> NaN"
  shows "dlt a b \<or> deq a b \<or> dlt b a"
  using assms by (auto simp: dlt_def deq_def)

lemma dlt_trans: "dlt a b \<Longrightarrow> dlt b c \<Longrightarrow> dlt a c"
  by (auto simp: dlt_def)

lemma dlt_irrefl [simp]: "\<not> dlt a a"
  by (simp add: dlt_def)

lemma NaN_not_comparable [simp]: "\<not> dlt NaN a" "\<not> dlt a NaN" "\<not> deq NaN a" "\<not> deq a NaN"
  by (simp_all add: dlt_def deq_def)

end
