(* ===== verification/Skiplist.thy ===== *)
theory Skiplist
  imports Prelude Doubles "HOL-Library.List_Lexorder" "HOL-Library.Char_ord" "HOL-Library.Monad_Syntax" "HOL-Library.AList"
begin

text \<open>
  \<^verbatim>\<open>store/Skiplist\<close> at the level of its pointers: a store of nodes by address, each with one forward
  pointer per level and a backward pointer; the header is a sentinel node. A dereference of a null or
  deleted pointer, an access beyond a node's forward array and a read of an unset \<^verbatim>\<open>update\<close> slot are
  \<open>None\<close>, and so is a walk that does not end; the theorems show that none of them happens on a
  well-formed list. The level of a new node is decided by the draws of the list's own random number
  generator, which are a sequence in the state: the results hold for every such sequence. The
  abstract value is the sequence of (member, score) pairs in their order.
\<close>

section \<open>State\<close>

type_synonym addr = nat

record node =
  member :: bytes
  score :: dbl
  forward :: "addr option list"
  backward :: "addr option"

record skiplist =
  nodes :: "addr \<rightharpoonup> node"
  header :: addr
  level :: nat
  sl_size :: nat
  rng :: "nat \<Rightarrow> nat"
  next_addr :: addr

definition kMaxLevel :: nat where "kMaxLevel = 32"
definition kBranchingFactor :: nat where "kBranchingFactor = 4"

definition new_node :: "bytes \<Rightarrow> dbl \<Rightarrow> nat \<Rightarrow> node" where
  "new_node m s lvl = \<lparr>member = m, score = s, forward = replicate lvl None, backward = None\<rparr>"

definition new_skiplist :: "(nat \<Rightarrow> nat) \<Rightarrow> skiplist" where
  "new_skiplist seed =
     \<lparr>nodes = [0 \<mapsto> new_node [] (Fin 0) kMaxLevel], header = 0, level = 1, sl_size = 0,
      rng = seed, next_addr = 1\<rparr>"

section \<open>Operations\<close>

definition lessThan :: "dbl \<Rightarrow> bytes \<Rightarrow> dbl \<Rightarrow> bytes \<Rightarrow> bool" where
  "lessThan s1 m1 s2 m2 = (if \<not> deq s1 s2 then dlt s1 s2 else m1 < m2)"

text \<open>\<^verbatim>\<open>dist(rng_)\<close> is drawn before the level bound is tested.\<close>

function randomLevel_loop :: "(nat \<Rightarrow> nat) \<Rightarrow> nat \<Rightarrow> nat \<times> (nat \<Rightarrow> nat)" where
  "randomLevel_loop r lvl =
     (let r' = (\<lambda>i. r (i + 1)) in
      if r 0 mod kBranchingFactor = 0 \<and> lvl < kMaxLevel then randomLevel_loop r' (lvl + 1) else (lvl, r'))"
  by pat_completeness auto
termination
  by (relation "measure (\<lambda>(r, lvl). kMaxLevel - lvl)") auto

declare randomLevel_loop.simps [simp del]

definition randomLevel :: "(nat \<Rightarrow> nat) \<Rightarrow> nat \<times> (nat \<Rightarrow> nat)" where
  "randomLevel r = randomLevel_loop r 1"

text \<open>\<^verbatim>\<open>x->forward[i]\<close>, read and written.\<close>

definition fwd :: "(addr \<rightharpoonup> node) \<Rightarrow> addr \<Rightarrow> nat \<Rightarrow> addr option option" where
  "fwd h x i =
     (case h x of None \<Rightarrow> None | Some n \<Rightarrow> if i < length (forward n) then Some (forward n ! i) else None)"

definition set_fwd :: "(addr \<rightharpoonup> node) \<Rightarrow> addr \<Rightarrow> nat \<Rightarrow> addr option \<Rightarrow> (addr \<rightharpoonup> node) option" where
  "set_fwd h x i p =
     (case h x of
        None \<Rightarrow> None
      | Some n \<Rightarrow> if i < length (forward n) then Some (h(x \<mapsto> n\<lparr>forward := (forward n)[i := p]\<rparr>)) else None)"

definition set_backward :: "(addr \<rightharpoonup> node) \<Rightarrow> addr \<Rightarrow> addr option \<Rightarrow> (addr \<rightharpoonup> node) option" where
  "set_backward h x p = (case h x of None \<Rightarrow> None | Some n \<Rightarrow> Some (h(x \<mapsto> n\<lparr>backward := p\<rparr>)))"

text \<open>The inner loop: move right on level \<open>i\<close> while the successor is smaller.\<close>

partial_function (option) walk :: "(addr \<rightharpoonup> node) \<Rightarrow> bytes \<Rightarrow> dbl \<Rightarrow> nat \<Rightarrow> addr \<Rightarrow> addr option" where
  [code]: "walk h m s i x =
     (case fwd h x i of
        None \<Rightarrow> None
      | Some None \<Rightarrow> Some x
      | Some (Some y) \<Rightarrow>
          (case h y of
             None \<Rightarrow> None
           | Some n \<Rightarrow> if lessThan (score n) (member n) s m then walk h m s i y else Some x))"

text \<open>The outer loop of insert, remove and find: \<^verbatim>\<open>update[i]\<close> is where the walk on level \<open>i\<close> ended.\<close>

primrec descend :: "(addr \<rightharpoonup> node) \<Rightarrow> bytes \<Rightarrow> dbl \<Rightarrow> nat \<Rightarrow> addr \<Rightarrow> (nat \<rightharpoonup> addr) \<Rightarrow> (addr \<times> (nat \<rightharpoonup> addr)) option" where
  "descend h m s 0 x upd = Some (x, upd)"
| "descend h m s (Suc i) x upd = do { y \<leftarrow> walk h m s i x; descend h m s i y (upd(i \<mapsto> y)) }"

text \<open>\<^verbatim>\<open>for (i = level_; i < newLevel; ++i) update[i] = header_;\<close>\<close>

definition raise_update :: "(nat \<rightharpoonup> addr) \<Rightarrow> nat \<Rightarrow> nat \<Rightarrow> addr \<Rightarrow> (nat \<rightharpoonup> addr)" where
  "raise_update upd lo hi hdr = foldl (\<lambda>u i. u(i \<mapsto> hdr)) upd [lo..<hi]"

text \<open>Splice the new node \<open>a\<close> into the levels \<open>i\<close>, ..., \<open>i + n - 1\<close>.\<close>

primrec splice_levels :: "nat \<Rightarrow> (nat \<rightharpoonup> addr) \<Rightarrow> addr \<Rightarrow> nat \<Rightarrow> (addr \<rightharpoonup> node) \<Rightarrow> (addr \<rightharpoonup> node) option" where
  "splice_levels 0 upd a i h = Some h"
| "splice_levels (Suc n) upd a i h = do {
     u \<leftarrow> upd i;
     f \<leftarrow> fwd h u i;
     h1 \<leftarrow> set_fwd h a i f;
     h2 \<leftarrow> set_fwd h1 u i (Some a);
     splice_levels n upd a (i + 1) h2 }"

definition sl_insert :: "skiplist \<Rightarrow> bytes \<Rightarrow> dbl \<Rightarrow> skiplist option" where
  "sl_insert sl m s = do {
     (x, upd) \<leftarrow> descend (nodes sl) m s (level sl) (header sl) Map.empty;
     let (newLevel, rng') = randomLevel (rng sl);
     let upd' = (if level sl < newLevel then raise_update upd (level sl) newLevel (header sl) else upd);
     let level' = (if level sl < newLevel then newLevel else level sl);
     let a = next_addr sl;
     h1 \<leftarrow> splice_levels newLevel upd' a 0 ((nodes sl)(a \<mapsto> new_node m s newLevel));
     u0 \<leftarrow> upd' 0;
     h2 \<leftarrow> set_backward h1 a (if u0 = header sl then None else Some u0);
     f0 \<leftarrow> fwd h2 a 0;
     h3 \<leftarrow> (case f0 of None \<Rightarrow> Some h2 | Some y \<Rightarrow> set_backward h2 y (Some a));
     Some (sl\<lparr>nodes := h3, level := level', sl_size := sl_size sl + 1, rng := rng', next_addr := a + 1\<rparr>) }"

text \<open>Unlink \<open>x\<close> from the levels \<open>i\<close>, ..., up to the first on which the predecessor does not point
  to it.\<close>

primrec unlink_levels :: "nat \<Rightarrow> (nat \<rightharpoonup> addr) \<Rightarrow> addr \<Rightarrow> nat \<Rightarrow> (addr \<rightharpoonup> node) \<Rightarrow> (addr \<rightharpoonup> node) option" where
  "unlink_levels 0 upd x i h = Some h"
| "unlink_levels (Suc n) upd x i h = do {
     u \<leftarrow> upd i;
     f \<leftarrow> fwd h u i;
     if f \<noteq> Some x then Some h
     else do { g \<leftarrow> fwd h x i; h' \<leftarrow> set_fwd h u i g; unlink_levels n upd x (i + 1) h' } }"

text \<open>\<^verbatim>\<open>while (level_ > 1 && !header_->forward[level_ - 1]) --level_;\<close>\<close>

fun shrink_level :: "(addr \<rightharpoonup> node) \<Rightarrow> addr \<Rightarrow> nat \<Rightarrow> nat option" where
  "shrink_level h hdr 0 = Some 0"
| "shrink_level h hdr (Suc 0) = Some (Suc 0)"
| "shrink_level h hdr (Suc (Suc n)) = do {
     f \<leftarrow> fwd h hdr (Suc n);
     if f = None then shrink_level h hdr (Suc n) else Some (Suc (Suc n)) }"

definition sl_remove :: "skiplist \<Rightarrow> bytes \<Rightarrow> dbl \<Rightarrow> (bool \<times> skiplist) option" where
  "sl_remove sl m s = do {
     (x0, upd) \<leftarrow> descend (nodes sl) m s (level sl) (header sl) Map.empty;
     f \<leftarrow> fwd (nodes sl) x0 0;
     case f of
       None \<Rightarrow> Some (False, sl)
     | Some x \<Rightarrow> do {
         n \<leftarrow> nodes sl x;
         if \<not> deq (score n) s \<or> member n \<noteq> m then Some (False, sl)
         else do {
           h1 \<leftarrow> unlink_levels (level sl) upd x 0 (nodes sl);
           n1 \<leftarrow> h1 x;
           g \<leftarrow> fwd h1 x 0;
           h2 \<leftarrow> (case g of None \<Rightarrow> Some h1 | Some y \<Rightarrow> set_backward h1 y (backward n1));
           let h3 = h2(x := None);
           lvl \<leftarrow> shrink_level h3 (header sl) (level sl);
           Some (True, sl\<lparr>nodes := h3, level := lvl, sl_size := sl_size sl - 1\<rparr>) } } }"

definition sl_find :: "skiplist \<Rightarrow> bytes \<Rightarrow> dbl \<Rightarrow> addr option option" where
  "sl_find sl m s = do {
     (x0, upd) \<leftarrow> descend (nodes sl) m s (level sl) (header sl) Map.empty;
     f \<leftarrow> fwd (nodes sl) x0 0;
     case f of
       None \<Rightarrow> Some None
     | Some x \<Rightarrow> do {
         n \<leftarrow> nodes sl x;
         if deq (score n) s \<and> member n = m then Some (Some x) else Some None } }"

text \<open>The two loops of \<^verbatim>\<open>rangeByRank\<close>: skip \<open>k\<close> nodes, then collect \<open>k\<close> of them, stopping at the end.\<close>

primrec skip_nodes :: "nat \<Rightarrow> (addr \<rightharpoonup> node) \<Rightarrow> addr option \<Rightarrow> addr option option" where
  "skip_nodes 0 h x = Some x"
| "skip_nodes (Suc k) h x = (case x of None \<Rightarrow> Some None | Some a \<Rightarrow> do { y \<leftarrow> fwd h a 0; skip_nodes k h y })"

primrec collect_nodes :: "nat \<Rightarrow> (addr \<rightharpoonup> node) \<Rightarrow> addr option \<Rightarrow> (bytes \<times> dbl) list option" where
  "collect_nodes 0 h x = Some []"
| "collect_nodes (Suc k) h x =
     (case x of
        None \<Rightarrow> Some []
      | Some a \<Rightarrow> do {
          n \<leftarrow> h a;
          y \<leftarrow> fwd h a 0;
          r \<leftarrow> collect_nodes k h y;
          Some ((member n, score n) # r) })"

definition sl_rangeByRank :: "skiplist \<Rightarrow> int \<Rightarrow> int \<Rightarrow> (bytes \<times> dbl) list option" where
  "sl_rangeByRank sl start0 stop0 =
     (let n = wrap32 (int (sl_size sl));
          start1 = (if start0 < 0 then wrap32 (start0 + n) else start0);
          stop1 = (if stop0 < 0 then wrap32 (stop0 + n) else stop0);
          start = (if start1 < 0 then 0 else start1);
          stop = (if stop1 \<ge> n then n - 1 else stop1)
      in if start > stop \<or> start \<ge> n then Some []
         else do {
           x0 \<leftarrow> fwd (nodes sl) (header sl) 0;
           x \<leftarrow> skip_nodes (nat start) (nodes sl) x0;
           collect_nodes (nat (stop - start + 1)) (nodes sl) x })"

section \<open>The order of the elements\<close>

text \<open>\<open>skey\<close> places an element on a linear order; without NaN it is the order of \<open>lessThan\<close>.\<close>

definition skey :: "bytes \<times> dbl \<Rightarrow> (int \<times> rat) \<times> bytes" where
  "skey e = (dkey (snd e), fst e)"

lemma lessThan_skey: "s1 \<noteq> NaN \<Longrightarrow> s2 \<noteq> NaN \<Longrightarrow> lessThan s1 m1 s2 m2 \<longleftrightarrow> skey (m1, s1) < skey (m2, s2)"
  by (cases "dkey s1 = dkey s2") (auto simp: lessThan_def skey_def deq_def dlt_def)

lemma same_skey: "s1 \<noteq> NaN \<Longrightarrow> s2 \<noteq> NaN \<Longrightarrow> deq s1 s2 \<and> m1 = m2 \<longleftrightarrow> skey (m1, s1) = skey (m2, s2)"
  by (auto simp: skey_def deq_def)

text \<open>The elements of a sorted index, and insertion and deletion on the plain sequence.\<close>

definition ordered :: "(bytes \<times> dbl) list \<Rightarrow> bool" where
  "ordered xs = (sorted_wrt (\<lambda>a b. skey a < skey b) xs \<and> (\<forall>e \<in> set xs. snd e \<noteq> NaN))"

definition lower :: "bytes \<Rightarrow> dbl \<Rightarrow> (bytes \<times> dbl) list \<Rightarrow> (bytes \<times> dbl) list" where
  "lower m s = takeWhile (\<lambda>e. skey e < skey (m, s))"

definition upper :: "bytes \<Rightarrow> dbl \<Rightarrow> (bytes \<times> dbl) list \<Rightarrow> (bytes \<times> dbl) list" where
  "upper m s = dropWhile (\<lambda>e. skey e < skey (m, s))"

definition zins :: "bytes \<Rightarrow> dbl \<Rightarrow> (bytes \<times> dbl) list \<Rightarrow> (bytes \<times> dbl) list" where
  "zins m s xs = lower m s xs @ (m, s) # upper m s xs"

definition zdel :: "bytes \<Rightarrow> dbl \<Rightarrow> (bytes \<times> dbl) list \<Rightarrow> (bytes \<times> dbl) list" where
  "zdel m s xs = filter (\<lambda>e. skey e \<noteq> skey (m, s)) xs"

lemma lower_upper [simp]: "lower m s xs @ upper m s xs = xs"
  by (simp add: lower_def upper_def)

lemma set_zins [simp]: "set (zins m s xs) = insert (m, s) (set xs)"
proof -
  have "set xs = set (lower m s xs) \<union> set (upper m s xs)" by (metis lower_upper set_append)
  then show ?thesis by (auto simp: zins_def)
qed

lemma length_zins [simp]: "length (zins m s xs) = Suc (length xs)"
proof -
  have "length xs = length (lower m s xs) + length (upper m s xs)" by (metis lower_upper length_append)
  then show ?thesis by (simp add: zins_def)
qed

lemma in_lower: "e \<in> set (lower m s xs) \<Longrightarrow> skey e < skey (m, s)"
  unfolding lower_def by (drule set_takeWhileD) simp

lemma in_upper:
  assumes "ordered xs" "e \<in> set (upper m s xs)"
  shows "skey (m, s) \<le> skey e"
proof -
  have "sorted_wrt (\<lambda>a b. skey a < skey b) (upper m s xs)"
    using assms(1) lower_upper [of m s xs] by (metis ordered_def sorted_wrt_append)
  moreover obtain b bs where b: "upper m s xs = b # bs" using assms(2) by (cases "upper m s xs") auto
  moreover have "\<not> skey b < skey (m, s)"
    using hd_dropWhile [of "\<lambda>e. skey e < skey (m, s)" xs] b unfolding upper_def by auto
  ultimately show ?thesis using assms(2) by fastforce
qed

lemma ordered_zins:
  assumes o: "ordered xs" and n: "s \<noteq> NaN" and new: "skey (m, s) \<notin> skey ` set xs"
  shows "ordered (zins m s xs)"
proof -
  have sub: "set xs = set (lower m s xs) \<union> set (upper m s xs)" by (metis lower_upper set_append)
  have "skey (m, s) < skey e" if "e \<in> set (upper m s xs)" for e
    using in_upper [OF o that] new that sub by (auto simp: less_le)
  moreover have "sorted_wrt (\<lambda>a b. skey a < skey b) (lower m s xs @ upper m s xs)" using o by (simp add: ordered_def)
  ultimately have "sorted_wrt (\<lambda>a b. skey a < skey b) (zins m s xs)"
    unfolding zins_def sorted_wrt_append by (auto simp: in_lower)
  then show ?thesis using o n by (auto simp: ordered_def)
qed

lemma ordered_distinct: "ordered xs \<Longrightarrow> distinct xs"
  unfolding ordered_def by (induction xs) auto

lemma ordered_zdel: "ordered xs \<Longrightarrow> ordered (zdel m s xs)"
  by (auto simp: ordered_def zdel_def sorted_wrt_filter)

lemma zdel_split:
  assumes "ordered xs"
  shows "zdel m s xs = lower m s xs @ zdel m s (upper m s xs)"
proof -
  have "zdel m s xs = zdel m s (lower m s xs) @ zdel m s (upper m s xs)"
    by (metis lower_upper zdel_def filter_append)
  moreover have "zdel m s (lower m s xs) = lower m s xs"
    unfolding zdel_def by (rule filter_True) (auto dest: in_lower)
  ultimately show ?thesis by simp
qed

lemma zdel_upper:
  assumes o: "ordered xs"
  shows "zdel m s (upper m s xs) =
    (case upper m s xs of [] \<Rightarrow> [] | b # bs \<Rightarrow> if skey b = skey (m, s) then bs else b # bs)"
proof (cases "upper m s xs")
  case (Cons b bs)
  have "sorted_wrt (\<lambda>a b. skey a < skey b) (b # bs)"
    using o lower_upper [of m s xs] Cons by (metis ordered_def sorted_wrt_append)
  moreover have "skey (m, s) \<le> skey b" using in_upper [OF o, of b m s] Cons by simp
  ultimately have "\<forall>e \<in> set bs. skey e \<noteq> skey (m, s)" by (auto simp: less_le_not_le) 
  then show ?thesis using Cons by (auto simp: zdel_def intro: filter_True)
qed (simp add: zdel_def)

lemma mem_iff_hd_upper:
  assumes o: "ordered xs"
  shows "skey (m, s) \<in> skey ` set xs \<longleftrightarrow> (\<exists>b bs. upper m s xs = b # bs \<and> skey b = skey (m, s))"
proof
  assume "skey (m, s) \<in> skey ` set xs"
  then obtain e where e: "e \<in> set xs" "skey e = skey (m, s)" by auto
  then have "e \<in> set (upper m s xs)" using in_lower [of e m s xs] lower_upper [of m s xs] by (metis Un_iff less_irrefl set_append)
  moreover have "e \<notin> set (zdel m s (upper m s xs))" using e by (simp add: zdel_def)
  ultimately show "\<exists>b bs. upper m s xs = b # bs \<and> skey b = skey (m, s)"
    unfolding zdel_upper [OF o] by (cases "upper m s xs") (auto split: if_splits)
next
  assume "\<exists>b bs. upper m s xs = b # bs \<and> skey b = skey (m, s)"
  then obtain b bs where "upper m s xs = b # bs" and k: "skey b = skey (m, s)" by blast
  then have "b \<in> set (upper m s xs)" by simp
  with k show "skey (m, s) \<in> skey ` set xs" using lower_upper [of m s xs] by (metis Un_iff image_eqI set_append)
qed

section \<open>Linked levels\<close>

text \<open>\<open>seg F i x qs\<close>: on level \<open>i\<close> the pointers lead from \<open>x\<close> through \<open>qs\<close>; \<open>linked\<close> also says that
  the last one is null.\<close>

fun seg :: "(addr \<Rightarrow> nat \<Rightarrow> addr option option) \<Rightarrow> nat \<Rightarrow> addr \<Rightarrow> addr list \<Rightarrow> bool" where
  "seg F i x [] = True"
| "seg F i x (q # qs) = (F x i = Some (Some q) \<and> seg F i q qs)"

definition linked :: "(addr \<Rightarrow> nat \<Rightarrow> addr option option) \<Rightarrow> nat \<Rightarrow> addr \<Rightarrow> addr list \<Rightarrow> bool" where
  "linked F i x qs = (seg F i x qs \<and> F (last (x # qs)) i = Some None)"

lemma seg_append: "seg F i x (as @ bs) \<longleftrightarrow> seg F i x as \<and> seg F i (last (x # as)) bs"
  by (induction as arbitrary: x) auto

lemma linked_append: "linked F i x (as @ bs) \<longleftrightarrow> seg F i x as \<and> linked F i (last (x # as)) bs"
  by (cases bs) (auto simp: linked_def seg_append)

lemma seg_cong: "(\<And>y. y \<in> set (butlast (x # qs)) \<Longrightarrow> F y i = G y i) \<Longrightarrow> seg F i x qs = seg G i x qs"
  by (induction qs arbitrary: x) auto

lemma linked_cong:
  assumes "\<And>y. y \<in> set (x # qs) \<Longrightarrow> F y i = G y i"
  shows "linked F i x qs = linked G i x qs"
proof -
  have "seg F i x qs = seg G i x qs" using assms by (intro seg_cong) (meson in_set_butlastD)
  then show ?thesis using assms [of "last (x # qs)"] by (simp add: linked_def)
qed

lemma linked_Cons: "linked F i x (q # qs) \<longleftrightarrow> F x i = Some (Some q) \<and> linked F i q qs"
  by (auto simp: linked_def)

lemma linked_head: "linked F i x qs \<Longrightarrow> F x i = Some (case qs of [] \<Rightarrow> None | q # _ \<Rightarrow> Some q)"
  by (cases qs) (auto simp: linked_def)

lemma last_notin_butlast: "distinct xs \<Longrightarrow> y \<in> set (butlast xs) \<Longrightarrow> y \<noteq> last xs"
  by (induction xs) (auto split: if_splits)

lemma linked_splice:
  assumes l: "linked F i x (as @ bs)" and d: "distinct (x # as @ bs)" and a: "a \<notin> set (x # as @ bs)"
    and G: "\<And>y. G y i = (if y = a then F (last (x # as)) i else if y = last (x # as) then Some (Some a) else F y i)"
  shows "linked G i x (as @ a # bs)"
proof -
  let ?u = "last (x # as)"
  have seg: "seg F i x as" and lb: "linked F i ?u bs" using l by (simp_all add: linked_append)
  have u: "?u \<in> set (x # as)" by (rule last_in_set) simp
  have "seg G i x as = seg F i x as"
  proof (rule seg_cong)
    fix y assume y: "y \<in> set (butlast (x # as))"
    then have "y \<noteq> ?u" using d last_notin_butlast [of "x # as" y] by auto
    moreover have "y \<noteq> a" using y a by (auto dest: in_set_butlastD simp del: butlast.simps)
    ultimately show "G y i = F y i" by (simp only: G if_False)
  qed
  moreover have "G ?u i = Some (Some a)" using a u by (auto simp only: G) auto
  moreover have "linked G i a bs"
  proof (cases bs)
    case Nil
    then show ?thesis using lb by (simp add: linked_def G)
  next
    case (Cons b bs')
    have "linked G i b bs' = linked F i b bs'"
      using d a u Cons by (intro linked_cong) (auto simp: G simp del: last.simps)
    then show ?thesis using lb Cons by (simp add: linked_Cons G)
  qed
  ultimately show ?thesis using seg by (simp add: linked_append linked_Cons)
qed

lemma linked_unlink:
  assumes l: "linked F i x (as @ p # bs)" and d: "distinct (x # as @ p # bs)"
    and G: "\<And>y. y \<noteq> p \<Longrightarrow> G y i = (if y = last (x # as) then F p i else F y i)"
  shows "linked G i x (as @ bs)"
proof -
  let ?u = "last (x # as)"
  have seg: "seg F i x as" and lb: "linked F i p bs" using l by (simp_all add: linked_append linked_Cons)
  have u: "?u \<in> set (x # as)" by (rule last_in_set) simp
  have "seg G i x as = seg F i x as"
  proof (rule seg_cong)
    fix y assume y: "y \<in> set (butlast (x # as))"
    then have "y \<noteq> ?u" using d last_notin_butlast [of "x # as" y] by auto
    moreover have "y \<noteq> p" using y d by (auto dest!: in_set_butlastD simp del: butlast.simps)
    ultimately show "G y i = F y i" using G [of y] by (simp del: last.simps)
  qed
  moreover have Gu: "G ?u i = F p i" using d u by (subst G) auto
  moreover have "linked G i ?u bs"
  proof (cases bs)
    case Nil
    then show ?thesis using lb Gu by (simp add: linked_def)
  next
    case (Cons b bs')
    have "linked G i b bs' = linked F i b bs'"
      using d u Cons by (intro linked_cong) (subst G; auto simp del: last.simps)
    then show ?thesis using lb Cons Gu by (simp add: linked_Cons)
  qed
  ultimately show ?thesis using seg by (simp add: linked_append)
qed

section \<open>Reading and writing the store\<close>

text \<open>What a node holds apart from the targets of its forward pointers; two stores with the same
  \<open>frame\<close> and the same \<open>fwd\<close> are the same list.\<close>

definition frame :: "(addr \<rightharpoonup> node) \<Rightarrow> addr \<rightharpoonup> bytes \<times> dbl \<times> nat \<times> addr option" where
  "frame h y = map_option (\<lambda>n. (member n, score n, length (forward n), backward n)) (h y)"

definition elem :: "(addr \<rightharpoonup> node) \<Rightarrow> addr \<Rightarrow> bytes \<times> dbl" where
  "elem h p = (member (the (h p)), score (the (h p)))"

definition height :: "(addr \<rightharpoonup> node) \<Rightarrow> addr \<Rightarrow> nat" where
  "height h p = length (forward (the (h p)))"

definition bwd :: "(addr \<rightharpoonup> node) \<Rightarrow> addr \<Rightarrow> addr option" where
  "bwd h p = backward (the (h p))"

lemma frame_eqD:
  assumes "frame h' p = frame h p"
  shows "(h' p = None) = (h p = None)" and "h p \<noteq> None \<Longrightarrow> elem h' p = elem h p"
    and "h p \<noteq> None \<Longrightarrow> height h' p = height h p" and "h p \<noteq> None \<Longrightarrow> bwd h' p = bwd h p"
  using assms by (cases "h p"; cases "h' p"; simp add: frame_def elem_def height_def bwd_def)+

lemma frame_dom: "frame h' = frame h \<Longrightarrow> dom h' = dom h"
  using frame_eqD(1) [of h' _ h] by (auto simp: dom_def fun_eq_iff)

lemma fwd_height: "fwd h x i \<noteq> None \<longleftrightarrow> h x \<noteq> None \<and> i < height h x"
  by (auto simp: fwd_def height_def split: option.splits)

lemma set_fwd_ok:
  assumes "h x \<noteq> None" "i < height h x"
  obtains h' where "set_fwd h x i p = Some h'" "frame h' = frame h"
    "\<And>y j. fwd h' y j = (if y = x \<and> j = i then Some p else fwd h y j)"
proof -
  obtain n where n: "h x = Some n" "i < length (forward n)" using assms by (auto simp: height_def)
  let ?h = "h(x \<mapsto> n\<lparr>forward := (forward n)[i := p]\<rparr>)"
  have "set_fwd h x i p = Some ?h" using n by (simp add: set_fwd_def)
  moreover have "frame ?h = frame h" using n by (auto simp: frame_def)
  moreover have "fwd ?h y j = (if y = x \<and> j = i then Some p else fwd h y j)" for y j
    using n by (auto simp: fwd_def nth_list_update)
  ultimately show thesis by (rule that)
qed

text \<open>The conditional write of a backward pointer.\<close>

lemma set_backward_ok:
  assumes "\<And>x. f = Some x \<Longrightarrow> h x \<noteq> None"
  obtains h' where "(case f of None \<Rightarrow> Some h | Some x \<Rightarrow> set_backward h x p) = Some h'" "fwd h' = fwd h"
    "\<And>y. (h' y = None) = (h y = None)" "\<And>y. elem h' y = elem h y" "\<And>y. height h' y = height h y"
    "\<And>y. bwd h' y = (if f = Some y then p else bwd h y)"
proof (cases f)
  case None
  then show thesis by (intro that [of h]) simp_all
next
  case (Some x)
  with assms obtain n where n: "h x = Some n" by auto
  let ?h = "h(x \<mapsto> n\<lparr>backward := p\<rparr>)"
  have "fwd ?h = fwd h" using n by (auto simp: fwd_def fun_eq_iff)
  with n Some show thesis by (intro that [of ?h]) (auto simp: set_backward_def elem_def height_def bwd_def)
qed

lemma splice_levels_ok:
  assumes "\<And>j. i \<le> j \<Longrightarrow> j < i + n \<Longrightarrow> upd j = Some (u j) \<and> u j \<noteq> a \<and> h (u j) \<noteq> None \<and> j < height h (u j)"
    and "h a \<noteq> None" and "i + n \<le> height h a"
  shows "\<exists>h'. splice_levels n upd a i h = Some h' \<and> frame h' = frame h \<and>
    (\<forall>y j. fwd h' y j = (if i \<le> j \<and> j < i + n
       then if y = a then fwd h (u j) j else if y = u j then Some (Some a) else fwd h y j else fwd h y j))"
  using assms
proof (induction n arbitrary: i h)
  case (Suc n)
  have u: "upd i = Some (u i)" "u i \<noteq> a" "h (u i) \<noteq> None" "i < height h (u i)" using Suc.prems(1) [of i] by simp_all
  then obtain f where f: "fwd h (u i) i = Some f" using fwd_height by fastforce
  obtain h1 where h1: "set_fwd h a i f = Some h1" "frame h1 = frame h"
    "\<And>y j. fwd h1 y j = (if y = a \<and> j = i then Some f else fwd h y j)"
    by (rule set_fwd_ok [of h a i f]) (use Suc.prems(2,3) in simp_all)
  have "h1 (u i) \<noteq> None" "i < height h1 (u i)"
    using u frame_eqD(1,3) [OF fun_cong [OF h1(2)], of "u i"] by auto
  then obtain h2 where h2: "set_fwd h1 (u i) i (Some a) = Some h2" "frame h2 = frame h1"
    "\<And>y j. fwd h2 y j = (if y = u i \<and> j = i then Some (Some a) else fwd h1 y j)"
    by (rule set_fwd_ok [where p = "Some a"]) blast
  have fr: "frame h2 = frame h" using h1(2) h2(2) by simp
  note eq = frame_eqD(1,3) [OF fun_cong [OF fr]]
  have "\<exists>h'. splice_levels n upd a (i + 1) h2 = Some h' \<and> frame h' = frame h2 \<and>
    (\<forall>y j. fwd h' y j = (if i + 1 \<le> j \<and> j < i + 1 + n
       then if y = a then fwd h2 (u j) j else if y = u j then Some (Some a) else fwd h2 y j else fwd h2 y j))"
    using Suc.prems by (intro Suc.IH) (auto simp: eq)
  then obtain h' where h': "splice_levels n upd a (i + 1) h2 = Some h'" "frame h' = frame h2"
    "\<And>y j. fwd h' y j = (if i + 1 \<le> j \<and> j < i + 1 + n
       then if y = a then fwd h2 (u j) j else if y = u j then Some (Some a) else fwd h2 y j else fwd h2 y j)" by blast
  have "splice_levels (Suc n) upd a i h = Some h'" using u(1) f h1(1) h2(1) h'(1) by simp
  moreover have "fwd h' y j = (if i \<le> j \<and> j < i + Suc n
       then if y = a then fwd h (u j) j else if y = u j then Some (Some a) else fwd h y j else fwd h y j)" for y j
    unfolding h'(3) h2(3) h1(3) using f u(2) by (cases "j = i") auto
  ultimately show ?case using h'(2) fr by (intro exI [of _ h']) auto
qed auto

lemma unlink_levels_ok:
  assumes "\<And>j. i \<le> j \<Longrightarrow> j < i + n \<Longrightarrow> upd j = Some (u j) \<and> u j \<noteq> x \<and> fwd h (u j) j \<noteq> None \<and>
      (fwd h (u j) j = Some (Some x) \<longleftrightarrow> j < height h x)"
    and "h x \<noteq> None"
  shows "\<exists>h'. unlink_levels n upd x i h = Some h' \<and> frame h' = frame h \<and>
    (\<forall>y j. fwd h' y j = (if i \<le> j \<and> j < i + n \<and> j < height h x \<and> y = u j then fwd h x j else fwd h y j))"
  using assms
proof (induction n arbitrary: i h)
  case (Suc n)
  have u: "upd i = Some (u i)" "u i \<noteq> x" "fwd h (u i) i \<noteq> None"
    "fwd h (u i) i = Some (Some x) \<longleftrightarrow> i < height h x" using Suc.prems(1) [of i] by simp_all
  show ?case
  proof (cases "i < height h x")
    case False
    obtain f where "fwd h (u i) i = Some f" "f \<noteq> Some x" using u False by auto
    then have "unlink_levels (Suc n) upd x i h = Some h" using u(1) by simp
    then show ?thesis using False by (intro exI [of _ h]) auto
  next
    case True
    then obtain g where g: "fwd h x i = Some g" using Suc.prems(2) fwd_height by fastforce
    have "h (u i) \<noteq> None" "i < height h (u i)" using u(3) fwd_height by blast+
    then obtain h1 where h1: "set_fwd h (u i) i g = Some h1" "frame h1 = frame h"
      "\<And>y j. fwd h1 y j = (if y = u i \<and> j = i then Some g else fwd h y j)"
      by (rule set_fwd_ok [where p = g]) blast
    note eq = frame_eqD(1,3) [OF fun_cong [OF h1(2)]]
    have "\<exists>h'. unlink_levels n upd x (i + 1) h1 = Some h' \<and> frame h' = frame h1 \<and>
      (\<forall>y j. fwd h' y j = (if i + 1 \<le> j \<and> j < i + 1 + n \<and> j < height h1 x \<and> y = u j then fwd h1 x j else fwd h1 y j))"
      using Suc.prems by (intro Suc.IH) (auto simp: eq h1(3))
    then obtain h' where h': "unlink_levels n upd x (i + 1) h1 = Some h'" "frame h' = frame h1"
      "\<And>y j. fwd h' y j = (if i + 1 \<le> j \<and> j < i + 1 + n \<and> j < height h1 x \<and> y = u j then fwd h1 x j else fwd h1 y j)"
      by blast
    have "unlink_levels (Suc n) upd x i h = Some h'" using u(1,4) True g h1(1) h'(1) by simp
    moreover have "fwd h' y j = (if i \<le> j \<and> j < i + Suc n \<and> j < height h x \<and> y = u j then fwd h x j else fwd h y j)" for y j
      unfolding h'(3) h1(3) eq(2) [OF Suc.prems(2)] using g u(2) True by (cases "j = i") auto
    ultimately show ?thesis using h'(2) h1(2) by (intro exI [of _ h']) auto
  qed
qed auto

section \<open>Well-formed skiplists\<close>

fun backs :: "(addr \<Rightarrow> addr option) \<Rightarrow> addr option \<Rightarrow> addr list \<Rightarrow> bool" where
  "backs B p [] = True"
| "backs B p (q # qs) = (B q = p \<and> backs B (Some q) qs)"

text \<open>\<open>sl_inv sl ps\<close>: the nodes of the list, without the header, are \<open>ps\<close> in order. Level \<open>i\<close> links
  exactly the nodes with more than \<open>i\<close> forward pointers; the backward pointers reverse level 0; no
  node is taller than \<open>level\<close>, and the top level is in use.\<close>

definition sl_inv :: "skiplist \<Rightarrow> addr list \<Rightarrow> bool" where
  "sl_inv sl ps =
     (distinct (header sl # ps) \<and> dom (nodes sl) = set (header sl # ps) \<and>
      (\<forall>p \<in> set (header sl # ps). p < next_addr sl) \<and>
      height (nodes sl) (header sl) = kMaxLevel \<and> 1 \<le> level sl \<and> level sl \<le> kMaxLevel \<and>
      (\<forall>p \<in> set ps. 1 \<le> height (nodes sl) p \<and> height (nodes sl) p \<le> level sl) \<and>
      (level sl = 1 \<or> (\<exists>p \<in> set ps. height (nodes sl) p = level sl)) \<and>
      (\<forall>i < kMaxLevel. linked (fwd (nodes sl)) i (header sl) (filter (\<lambda>p. i < height (nodes sl) p) ps)) \<and>
      backs (bwd (nodes sl)) None ps \<and> ordered (map (elem (nodes sl)) ps) \<and> sl_size sl = length ps)"

lemma sl_invD:
  assumes "sl_inv sl ps"
  shows inv_distinct: "distinct (header sl # ps)" and inv_dom: "dom (nodes sl) = set (header sl # ps)"
    and inv_addr: "p \<in> set (header sl # ps) \<Longrightarrow> p < next_addr sl"
    and inv_header: "height (nodes sl) (header sl) = kMaxLevel"
    and inv_level: "1 \<le> level sl" "level sl \<le> kMaxLevel"
    and inv_height: "p \<in> set ps \<Longrightarrow> 1 \<le> height (nodes sl) p" "p \<in> set ps \<Longrightarrow> height (nodes sl) p \<le> level sl"
    and inv_top: "level sl = 1 \<or> (\<exists>p \<in> set ps. height (nodes sl) p = level sl)"
    and inv_links: "i < kMaxLevel \<Longrightarrow> linked (fwd (nodes sl)) i (header sl) (filter (\<lambda>p. i < height (nodes sl) p) ps)"
    and inv_backs: "backs (bwd (nodes sl)) None ps" and inv_ordered: "ordered (map (elem (nodes sl)) ps)"
    and inv_size: "sl_size sl = length ps"
  using assms unfolding sl_inv_def by blast+

text \<open>The abstraction relation: a well-formed list and its elements in order.\<close>

definition sl_rel :: "skiplist \<Rightarrow> (bytes \<times> dbl) list \<Rightarrow> bool" where
  "sl_rel sl xs = (\<exists>ps. sl_inv sl ps \<and> xs = map (elem (nodes sl)) ps)"

lemma backs_append: "backs B p (as @ bs) \<longleftrightarrow> backs B p as \<and> backs B (if as = [] then p else Some (last as)) bs"
  by (induction as arbitrary: p) auto

lemma backs_cong: "(\<And>q. q \<in> set qs \<Longrightarrow> B q = C q) \<Longrightarrow> backs B p qs = backs C p qs"
  by (induction qs arbitrary: p) auto

lemma new_skiplist_rel: "sl_rel (new_skiplist seed) []"
proof -
  have "linked (fwd (nodes (new_skiplist seed))) i (header (new_skiplist seed)) []" if "i < kMaxLevel" for i
    using that by (simp add: linked_def fwd_def new_skiplist_def new_node_def)
  then have "sl_inv (new_skiplist seed) []"
    by (simp add: sl_inv_def ordered_def)
      (simp add: new_skiplist_def new_node_def height_def kMaxLevel_def)
  then show ?thesis unfolding sl_rel_def by (intro exI [of _ "[]"]) simp
qed

section \<open>Searching\<close>

definition first :: "'a list \<Rightarrow> 'a option" where
  "first xs = (case xs of [] \<Rightarrow> None | x # _ \<Rightarrow> Some x)"

lemma first_None: "first xs = None \<longleftrightarrow> xs = []"
  by (cases xs) (simp_all add: first_def)

lemma walk_ok:
  assumes "linked (fwd h) i x (as @ bs)" and "set (as @ bs) \<subseteq> dom h"
    and "\<And>p. p \<in> set as \<Longrightarrow> lessThan (snd (elem h p)) (fst (elem h p)) s m"
    and "\<And>p. p \<in> set bs \<Longrightarrow> \<not> lessThan (snd (elem h p)) (fst (elem h p)) s m"
  shows "walk h m s i x = Some (last (x # as))"
  using assms
proof (induction as arbitrary: x)
  case Nil
  show ?case
  proof (cases bs)
    case Nil
    then show ?thesis using Nil.prems by (subst walk.simps) (simp add: linked_def)
  next
    case (Cons b bs')
    then have "fwd h x i = Some (Some b)" using Nil.prems by (simp add: linked_Cons)
    moreover obtain n where "h b = Some n" using Nil.prems Cons by auto
    ultimately show ?thesis using Nil.prems(4) [of b] Cons by (subst walk.simps) (simp add: elem_def)
  qed
next
  case (Cons q as)
  then have "fwd h x i = Some (Some q)" and q: "linked (fwd h) i q (as @ bs)" by (simp_all add: linked_Cons)
  moreover obtain n where "h q = Some n" using Cons.prems by auto
  moreover have "walk h m s i q = Some (last (q # as))" using Cons q by (intro Cons.IH) auto
  ultimately show ?case using Cons.prems(3) [of q] by (subst walk.simps) (simp add: elem_def)
qed

definition los :: "skiplist \<Rightarrow> bytes \<Rightarrow> dbl \<Rightarrow> addr list \<Rightarrow> addr list" where
  "los sl m s = takeWhile (\<lambda>p. skey (elem (nodes sl) p) < skey (m, s))"

definition his :: "skiplist \<Rightarrow> bytes \<Rightarrow> dbl \<Rightarrow> addr list \<Rightarrow> addr list" where
  "his sl m s = dropWhile (\<lambda>p. skey (elem (nodes sl) p) < skey (m, s))"

text \<open>The rightmost node of level \<open>i\<close> below the searched position: what \<^verbatim>\<open>update[i]\<close> holds.\<close>

definition tall :: "skiplist \<Rightarrow> nat \<Rightarrow> addr list \<Rightarrow> addr list" where
  "tall sl i = filter (\<lambda>p. i < height (nodes sl) p)"

definition pre :: "skiplist \<Rightarrow> bytes \<Rightarrow> dbl \<Rightarrow> addr list \<Rightarrow> nat \<Rightarrow> addr" where
  "pre sl m s ps i = last (header sl # tall sl i (los sl m s ps))"

lemma los_his: "los sl m s ps @ his sl m s ps = ps"
  by (simp add: los_def his_def)

lemma set_search: "set ps = set (los sl m s ps) \<union> set (his sl m s ps)"
  by (metis los_his set_append)

lemma map_los: "map (elem (nodes sl)) (los sl m s ps) = lower m s (map (elem (nodes sl)) ps)"
  by (simp add: los_def lower_def takeWhile_map comp_def)

lemma map_his: "map (elem (nodes sl)) (his sl m s ps) = upper m s (map (elem (nodes sl)) ps)"
  by (simp add: his_def upper_def dropWhile_map comp_def)

lemma tall_append [simp]: "tall sl i (as @ bs) = tall sl i as @ tall sl i bs"
  by (simp add: tall_def)

lemma set_tall: "p \<in> set (tall sl i qs) \<longleftrightarrow> p \<in> set qs \<and> i < height (nodes sl) p"
  by (auto simp: tall_def)

lemma pre_in: "pre sl m s ps i \<in> set (header sl # tall sl i (los sl m s ps))"
  unfolding pre_def by (rule last_in_set) simp

lemma search_split:
  assumes "sl_inv sl ps" "s \<noteq> NaN"
  shows "p \<in> set (los sl m s ps) \<Longrightarrow> lessThan (snd (elem (nodes sl) p)) (fst (elem (nodes sl) p)) s m"
    and "p \<in> set (his sl m s ps) \<Longrightarrow> \<not> lessThan (snd (elem (nodes sl) p)) (fst (elem (nodes sl) p)) s m"
proof -
  have o: "ordered (map (elem (nodes sl)) ps)" using assms(1) by (simp add: sl_inv_def)
  have nn: "snd (elem (nodes sl) p) \<noteq> NaN" if "p \<in> set ps" for p using o that by (simp add: ordered_def)
  { assume p: "p \<in> set (los sl m s ps)"
    then have "elem (nodes sl) p \<in> set (lower m s (map (elem (nodes sl)) ps))" unfolding map_los [symmetric] by simp
    from in_lower [OF this] show "lessThan (snd (elem (nodes sl) p)) (fst (elem (nodes sl) p)) s m"
      using nn [of p] assms(2) p los_his [of sl m s ps] by (metis UnI1 lessThan_skey prod.collapse set_append) }
  { assume p: "p \<in> set (his sl m s ps)"
    then have "elem (nodes sl) p \<in> set (upper m s (map (elem (nodes sl)) ps))" unfolding map_his [symmetric] by simp
    from in_upper [OF o this] show "\<not> lessThan (snd (elem (nodes sl) p)) (fst (elem (nodes sl) p)) s m"
      using nn [of p] assms(2) p los_his [of sl m s ps] by (metis UnI2 lessThan_skey not_less prod.collapse set_append) }
qed

lemma inv_linked:
  "sl_inv sl ps \<Longrightarrow> i < kMaxLevel \<Longrightarrow>
    linked (fwd (nodes sl)) i (header sl) (tall sl i (los sl m s ps) @ tall sl i (his sl m s ps))"
  using los_his [of sl m s ps] unfolding tall_append [symmetric] by (simp add: sl_inv_def tall_def)

lemma walk_pre:
  assumes inv: "sl_inv sl ps" and s: "s \<noteq> NaN" and i: "i < kMaxLevel"
    and x: "x \<in> set (header sl # tall sl i (los sl m s ps))"
  shows "walk (nodes sl) m s i x = Some (pre sl m s ps i)"
proof -
  let ?as = "tall sl i (los sl m s ps)" and ?bs = "tall sl i (his sl m s ps)"
  obtain us vs where uv: "header sl # ?as = us @ x # vs" using split_list [OF x] by blast
  have l: "linked (fwd (nodes sl)) i (header sl) (?as @ ?bs)" by (rule inv_linked [OF inv i])
  have lx: "linked (fwd (nodes sl)) i x (vs @ ?bs)"
  proof (cases us)
    case Nil
    then show ?thesis using l uv by simp
  next
    case (Cons u us')
    then have "?as @ ?bs = (us' @ [x]) @ vs @ ?bs" using uv by simp
    then show ?thesis using l linked_append [of _ i "header sl" "us' @ [x]"] by auto
  qed
  have "set vs \<subseteq> set ?as" using uv by (cases us) auto
  moreover have "set ?as \<subseteq> set (los sl m s ps)" and bs: "set ?bs \<subseteq> set (his sl m s ps)" by (auto simp: set_tall)
  ultimately have vs: "set vs \<subseteq> set (los sl m s ps)" by blast
  have "set ps \<subseteq> dom (nodes sl)" using inv by (auto simp: sl_inv_def)
  then have dom: "set (vs @ ?bs) \<subseteq> dom (nodes sl)" using vs bs unfolding set_search [of ps sl m s] by auto
  have "walk (nodes sl) m s i x = Some (last (x # vs))"
    using lx dom by (rule walk_ok) (use vs bs search_split [OF inv s] in blast)+
  also have "last (x # vs) = last (header sl # ?as)" using uv by simp
  finally show ?thesis by (simp only: pre_def)
qed

lemma descend_ok:
  assumes inv: "sl_inv sl ps" and s: "s \<noteq> NaN"
  shows "n \<le> kMaxLevel \<Longrightarrow> x \<in> set (header sl # tall sl (n - 1) (los sl m s ps)) \<Longrightarrow>
    descend (nodes sl) m s n x upd =
      Some (if n = 0 then x else pre sl m s ps 0, \<lambda>i. if i < n then Some (pre sl m s ps i) else upd i)"
proof (induction n arbitrary: x upd)
  case (Suc n)
  have w: "walk (nodes sl) m s n x = Some (pre sl m s ps n)"
    using Suc.prems by (intro walk_pre [OF inv s]) simp_all
  have "pre sl m s ps n \<in> set (header sl # tall sl (n - 1) (los sl m s ps))"
    using pre_in [of sl m s ps n] by (auto simp: set_tall)
  note IH = Suc.IH [OF _ this, of "upd(n \<mapsto> pre sl m s ps n)"]
  have "(\<lambda>i. if i < n then Some (pre sl m s ps i) else (upd(n \<mapsto> pre sl m s ps n)) i) =
      (\<lambda>i. if i < Suc n then Some (pre sl m s ps i) else upd i)" by (auto simp: fun_eq_iff less_Suc_eq)
  then have "descend (nodes sl) m s n (pre sl m s ps n) (upd(n \<mapsto> pre sl m s ps n)) =
      Some (pre sl m s ps 0, \<lambda>i. if i < Suc n then Some (pre sl m s ps i) else upd i)"
    using IH Suc.prems(1) by (cases "n = 0") (simp_all only: Suc_leD if_True if_False, simp)
  then show ?case using w by simp
qed simp

lemma tall_0: "sl_inv sl ps \<Longrightarrow> set qs \<subseteq> set ps \<Longrightarrow> tall sl 0 qs = qs"
  unfolding tall_def using inv_height(1) [of sl ps] by (intro filter_True) fastforce

lemma search_ok:
  assumes inv: "sl_inv sl ps" and s: "s \<noteq> NaN"
  shows "descend (nodes sl) m s (level sl) (header sl) Map.empty =
      Some (pre sl m s ps 0, \<lambda>i. if i < level sl then Some (pre sl m s ps i) else None)"
    and "fwd (nodes sl) (pre sl m s ps 0) 0 = Some (first (his sl m s ps))"
proof -
  have lev: "1 \<le> level sl" "level sl \<le> kMaxLevel" using inv by (simp_all add: sl_inv_def)
  then show "descend (nodes sl) m s (level sl) (header sl) Map.empty =
      Some (pre sl m s ps 0, \<lambda>i. if i < level sl then Some (pre sl m s ps i) else None)"
    by (subst descend_ok [OF inv s]) simp_all
  have "tall sl 0 (his sl m s ps) = his sl m s ps" by (rule tall_0 [OF inv]) (simp add: set_search [of ps sl m s])
  then show "fwd (nodes sl) (pre sl m s ps 0) 0 = Some (first (his sl m s ps))"
    using inv_linked [OF inv, of 0 m s] lev linked_head
    unfolding linked_append pre_def first_def by fastforce
qed

section \<open>Insertion\<close>

lemma randomLevel_loop_bounds: "lvl \<le> kMaxLevel \<Longrightarrow> lvl \<le> fst (randomLevel_loop r lvl) \<and> fst (randomLevel_loop r lvl) \<le> kMaxLevel"
proof (induction r lvl rule: randomLevel_loop.induct)
  case (1 r lvl)
  show ?case
  proof (cases "r 0 mod kBranchingFactor = 0 \<and> lvl < kMaxLevel")
    case True
    then show ?thesis using "1.IH" [OF refl True] by (subst (1 2) randomLevel_loop.simps) (simp add: Let_def)
  next
    case False
    then have "randomLevel_loop r lvl = (lvl, \<lambda>i. r (i + 1))" by (subst randomLevel_loop.simps) (auto simp: Let_def)
    then show ?thesis using "1.prems" by simp
  qed
qed

lemma randomLevel_bounds: "1 \<le> fst (randomLevel r)" "fst (randomLevel r) \<le> kMaxLevel"
  using randomLevel_loop_bounds [of 1 r] by (simp_all add: randomLevel_def kMaxLevel_def)

lemma raise_update_eq: "raise_update upd lo hi hdr i = (if lo \<le> i \<and> i < hi then Some hdr else upd i)"
  unfolding raise_update_def
proof (induction hi)
  case (Suc hi)
  then show ?case by (cases "lo \<le> hi") (auto simp: less_Suc_eq)
qed simp

lemma pre_props:
  assumes inv: "sl_inv sl ps" and i: "i < kMaxLevel"
  shows "pre sl m s ps i \<in> set (header sl # ps)" "nodes sl (pre sl m s ps i) \<noteq> None"
    "i < height (nodes sl) (pre sl m s ps i)" "level sl \<le> i \<Longrightarrow> pre sl m s ps i = header sl"
    "pre sl m s ps i \<noteq> next_addr sl" "pre sl m s ps i \<notin> set (his sl m s ps)"
proof -
  have sub: "set (los sl m s ps) \<subseteq> set ps" using set_search [of ps sl m s] by blast
  then show in_ps: "pre sl m s ps i \<in> set (header sl # ps)"
    using pre_in [of sl m s ps i] by (auto simp: set_tall)
  then show "nodes sl (pre sl m s ps i) \<noteq> None" using inv_dom [OF inv] by blast
  show "i < height (nodes sl) (pre sl m s ps i)"
    using pre_in [of sl m s ps i] inv_header [OF inv] i by (auto simp: set_tall)
  show "pre sl m s ps i \<noteq> next_addr sl" using inv_addr [OF inv in_ps] by simp
  show "pre sl m s ps i = header sl" if "level sl \<le> i"
  proof -
    have "p \<notin> set (tall sl i (los sl m s ps))" for p
      using inv_height(2) [OF inv, of p] sub that by (auto simp: set_tall)
    then have "tall sl i (los sl m s ps) = []" by (metis last_in_set)
    then show ?thesis by (simp add: pre_def)
  qed
  have "distinct (header sl # los sl m s ps @ his sl m s ps)" using inv_distinct [OF inv] by (simp only: los_his)
  then show "pre sl m s ps i \<notin> set (his sl m s ps)" using pre_in [of sl m s ps i] by (auto simp: set_tall)
qed

lemma pre0_header:
  assumes inv: "sl_inv sl ps"
  shows "pre sl m s ps 0 = last (header sl # los sl m s ps)" "pre sl m s ps 0 = header sl \<longleftrightarrow> los sl m s ps = []"
proof -
  have sub: "set (los sl m s ps) \<subseteq> set ps" using set_search [of ps sl m s] by blast
  then have "tall sl 0 (los sl m s ps) = los sl m s ps" by (rule tall_0 [OF inv])
  then show p: "pre sl m s ps 0 = last (header sl # los sl m s ps)" by (simp add: pre_def)
  have "header sl \<notin> set (los sl m s ps)" using inv_distinct [OF inv] sub by auto
  then show "pre sl m s ps 0 = header sl \<longleftrightarrow> los sl m s ps = []"
    unfolding p by (metis last.simps last_in_set)
qed

text \<open>What insertion does to the store.\<close>

lemma insert_store:
  assumes inv: "sl_inv sl ps" and s: "s \<noteq> NaN"
  defines "N \<equiv> fst (randomLevel (rng sl))" and "a \<equiv> next_addr sl"
  obtains h where
    "sl_insert sl m s = Some (sl\<lparr>nodes := h, level := max (level sl) N, sl_size := sl_size sl + 1,
        rng := snd (randomLevel (rng sl)), next_addr := a + 1\<rparr>)"
    "\<And>y j. fwd h y j = (if j < N then if y = a then fwd (nodes sl) (pre sl m s ps j) j
        else if y = pre sl m s ps j then Some (Some a) else fwd (nodes sl) y j else if y = a then None else fwd (nodes sl) y j)"
    "dom h = insert a (dom (nodes sl))" "elem h a = (m, s)" "height h a = N"
    "\<And>p. p \<in> dom (nodes sl) \<Longrightarrow> elem h p = elem (nodes sl) p \<and> height h p = height (nodes sl) p \<and>
      bwd h p = (if first (his sl m s ps) = Some p then Some a else bwd (nodes sl) p)"
    "bwd h a = (if los sl m s ps = [] then None else Some (last (los sl m s ps)))"
proof -
  let ?h = "nodes sl" and ?u = "pre sl m s ps"
  define ha where "ha = ?h(a \<mapsto> new_node m s N)"
  define upd where "upd = (\<lambda>i. if i < max (level sl) N then Some (?u i) else None)"
  have N: "1 \<le> N" "N \<le> kMaxLevel" unfolding N_def by (rule randomLevel_bounds)+
  have a: "a \<notin> dom ?h" using inv_dom [OF inv] inv_addr [OF inv, of a] by (auto simp: a_def)
  have ha: "ha a \<noteq> None" "height ha a = N" "elem ha a = (m, s)"
    by (simp_all add: ha_def height_def elem_def new_node_def)
  have hy: "ha y = ?h y" if "y \<noteq> a" for y using that by (simp add: ha_def)
  have fa: "fwd ha y j = (if y = a then if j < N then Some None else None else fwd ?h y j)" for y j
    by (simp add: fwd_def ha_def new_node_def)
  have u: "?u j \<noteq> a" "?h (?u j) \<noteq> None" "j < height ?h (?u j)" if "j < N" for j
    using that N pre_props [OF inv] by (simp_all add: a_def)
  have "\<exists>h'. splice_levels N upd a 0 ha = Some h' \<and> frame h' = frame ha \<and>
    (\<forall>y j. fwd h' y j = (if 0 \<le> j \<and> j < 0 + N
       then if y = a then fwd ha (?u j) j else if y = ?u j then Some (Some a) else fwd ha y j else fwd ha y j))"
    using u ha by (intro splice_levels_ok) (auto simp: upd_def hy height_def less_max_iff_disj)
  then obtain h1 where h1: "splice_levels N upd a 0 ha = Some h1" "frame h1 = frame ha"
    "\<And>y j. fwd h1 y j = (if j < N then if y = a then fwd ha (?u j) j else if y = ?u j then Some (Some a) else fwd ha y j else fwd ha y j)"
    by auto
  note e1 = frame_eqD [OF fun_cong [OF h1(2)]]
  have "h1 a \<noteq> None" using e1(1) [of a] ha(1) by simp
  then obtain h2 where h2: "set_backward h1 a (if ?u 0 = header sl then None else Some (?u 0)) = Some h2" "fwd h2 = fwd h1"
    "\<And>y. (h2 y = None) = (h1 y = None)" "\<And>y. elem h2 y = elem h1 y" "\<And>y. height h2 y = height h1 y"
    "\<And>y. bwd h2 y = (if y = a then if ?u 0 = header sl then None else Some (?u 0) else bwd h1 y)"
    using set_backward_ok [of "Some a" h1 "if ?u 0 = header sl then None else Some (?u 0)"] by (simp, metis)
  have f0: "fwd h2 a 0 = Some (first (his sl m s ps))"
    using search_ok(2) [OF inv s, of m] N u(1) [of 0] by (simp add: h2(2) h1(3) fa)
  have q: "q \<in> dom ?h \<and> q \<noteq> a" if "first (his sl m s ps) = Some q" for q
  proof -
    have "q \<in> set ps" using that set_search [of ps sl m s] by (cases "his sl m s ps") (simp_all add: first_def)
    then show ?thesis using inv_dom [OF inv] a by auto
  qed
  have "h2 q \<noteq> None" if "first (his sl m s ps) = Some q" for q
    using q [OF that] e1(1) [of q] hy [of q] by (auto simp: h2(3))
  then obtain h3 where h3: "(case first (his sl m s ps) of None \<Rightarrow> Some h2 | Some y \<Rightarrow> set_backward h2 y (Some a)) = Some h3"
    "fwd h3 = fwd h2" "\<And>y. (h3 y = None) = (h2 y = None)" "\<And>y. elem h3 y = elem h2 y" "\<And>y. height h3 y = height h2 y"
    "\<And>y. bwd h3 y = (if first (his sl m s ps) = Some y then Some a else bwd h2 y)"
    using set_backward_ok [of "first (his sl m s ps)" h2 "Some a"] by blast
  have upd_eq: "(if level sl < N then raise_update (\<lambda>i. if i < level sl then Some (?u i) else None) (level sl) N (header sl)
      else (\<lambda>i. if i < level sl then Some (?u i) else None)) = upd"
    using pre_props(4) [OF inv] N by (auto simp: upd_def fun_eq_iff raise_update_eq)
  have "sl_insert sl m s = Some (sl\<lparr>nodes := h3, level := max (level sl) N, sl_size := sl_size sl + 1,
        rng := snd (randomLevel (rng sl)), next_addr := a + 1\<rparr>)"
  proof -
    have u0: "upd 0 = Some (?u 0)" using N by (simp add: upd_def)
    have l: "(if level sl < N then N else level sl) = max (level sl) N" by simp
    show ?thesis
      unfolding sl_insert_def search_ok(1) [OF inv s] Let_def split_beta fst_conv snd_conv N_def [symmetric] a_def [symmetric]
        ha_def [symmetric] upd_eq l
      by (simp only: Option.bind.bind_lunit case_prod_conv fst_conv upd_eq h1(1) u0 h2(1) f0 h3(1) snd_conv)
  qed
  moreover have "fwd h3 y j = (if j < N then if y = a then fwd ?h (?u j) j else if y = ?u j then Some (Some a)
      else fwd ?h y j else if y = a then None else fwd ?h y j)" for y j
    using u(1) [of j] by (auto simp: h3(2) h2(2) h1(3) fa)
  moreover have "dom h3 = insert a (dom ?h)"
  proof -
    have "(h3 y = None) = (y \<noteq> a \<and> ?h y = None)" for y
      using e1(1) [of y] hy [of y] ha(1) by (cases "y = a") (simp_all add: h3(3) h2(3))
    then show ?thesis by (auto simp: dom_def)
  qed
  moreover have "elem h3 a = (m, s)" "height h3 a = N"
    using e1(2,3) [OF ha(1)] ha by (simp_all add: h3(4,5) h2(4,5))
  moreover have "elem h3 p = elem ?h p \<and> height h3 p = height ?h p \<and>
      bwd h3 p = (if first (his sl m s ps) = Some p then Some a else bwd ?h p)" if "p \<in> dom ?h" for p
  proof -
    have "p \<noteq> a" using that a by blast
    moreover have "ha p \<noteq> None" using that hy [OF calculation] by auto
    ultimately show ?thesis using e1(2,3,4) [of p] hy [of p] 
      by (simp add: h3(4,5,6) h2(4,5,6)) (simp add: elem_def height_def bwd_def)
  qed
  moreover have "bwd h3 a = (if los sl m s ps = [] then None else Some (last (los sl m s ps)))"
    using q [of a] pre0_header [OF inv, of m s] by (auto simp: h3(6) h2(6))
  ultimately show thesis by (rule that)
qed

lemma insert_inv:
  assumes inv: "sl_inv sl ps" and s: "s \<noteq> NaN" and new: "skey (m, s) \<notin> skey ` elem (nodes sl) ` set ps"
  obtains sl' where "sl_insert sl m s = Some sl'" "sl_inv sl' (los sl m s ps @ next_addr sl # his sl m s ps)"
    "map (elem (nodes sl')) (los sl m s ps @ next_addr sl # his sl m s ps) = zins m s (map (elem (nodes sl)) ps)"
proof -
  let ?h = "nodes sl" and ?N = "fst (randomLevel (rng sl))" and ?a = "next_addr sl"
  let ?los = "los sl m s ps" and ?his = "his sl m s ps"
  obtain h where ins: "sl_insert sl m s = Some (sl\<lparr>nodes := h, level := max (level sl) ?N, sl_size := sl_size sl + 1,
        rng := snd (randomLevel (rng sl)), next_addr := ?a + 1\<rparr>)"
    and F: "\<And>y j. fwd h y j = (if j < ?N then if y = ?a then fwd ?h (pre sl m s ps j) j
        else if y = pre sl m s ps j then Some (Some ?a) else fwd ?h y j else if y = ?a then None else fwd ?h y j)"
    and dom: "dom h = insert ?a (dom ?h)" and ea: "elem h ?a = (m, s)" "height h ?a = ?N"
    and old: "\<And>p. p \<in> dom ?h \<Longrightarrow> elem h p = elem ?h p \<and> height h p = height ?h p \<and>
      bwd h p = (if first ?his = Some p then Some ?a else bwd ?h p)"
    and ba: "bwd h ?a = (if ?los = [] then None else Some (last ?los))"
    by (rule insert_store [OF inv s, of m]) blast
  have N: "1 \<le> ?N" "?N \<le> kMaxLevel" by (rule randomLevel_bounds)+
  have lh: "set ps = set ?los \<union> set ?his" by (rule set_search)
  have a: "?a \<notin> set (header sl # ps)" using inv_addr [OF inv, of ?a] by auto
  have d: "distinct (header sl # ?los @ ?his)" using inv_distinct [OF inv] by (simp only: los_his)
  have old': "elem h p = elem ?h p" "height h p = height ?h p" if "p \<in> set (header sl # ps)" for p
    using old [of p] that inv_dom [OF inv] by simp_all
  have elems: "map (elem h) (?los @ ?a # ?his) = zins m s (map (elem ?h) ps)"
    unfolding zins_def map_los [symmetric] map_his [symmetric] using old'(1) lh ea by simp
  have lev: "1 \<le> level sl" "level sl \<le> kMaxLevel" by (rule inv_level [OF inv])+
  have hts: "filter (\<lambda>p. i < height h p) qs = tall sl i qs" if "set qs \<subseteq> set ps" for i qs
    unfolding tall_def using old'(2) that by (intro filter_cong) auto
  have links: "linked (fwd h) i (header sl) (filter (\<lambda>p. i < height h p) (?los @ ?a # ?his))" if i: "i < kMaxLevel" for i
  proof -
    note l = inv_linked [OF inv i, of m s]
    have td: "distinct (header sl # tall sl i ?los @ tall sl i ?his)" and ta: "?a \<notin> set (header sl # tall sl i ?los @ tall sl i ?his)"
      using d a unfolding list.set lh by (simp_all add: tall_def) blast
    show ?thesis
    proof (cases "i < ?N")
      case True
      have "linked (fwd h) i (header sl) (tall sl i ?los @ ?a # tall sl i ?his)"
        by (rule linked_splice [OF l td ta]) (use True F in \<open>simp add: pre_def\<close>)
      then show ?thesis using True ea(2) lh by (simp add: hts)
    next
      case False
      have "linked (fwd h) i (header sl) (tall sl i ?los @ tall sl i ?his)"
        using l ta False F by (subst linked_cong [where G = "fwd ?h"]) auto
      then show ?thesis using False ea(2) lh by (simp add: hts)
    qed
  qed
  have oldb: "bwd h p = (if first ?his = Some p then Some ?a else bwd ?h p)" if "p \<in> set ps" for p
    using old [of p] that inv_dom [OF inv] by simp
  have bk: "backs (bwd h) None (?los @ ?a # ?his)"
  proof -
    have b: "backs (bwd ?h) None (?los @ ?his)" using inv_backs [OF inv] by (simp only: los_his)
    have "backs (bwd h) None ?los = backs (bwd ?h) None ?los"
      using d lh by (intro backs_cong, subst oldb) (auto simp: first_def split: list.splits)
    moreover have "backs (bwd h) (Some ?a) ?his"
    proof (cases ?his)
      case (Cons q qs)
      have "backs (bwd h) (Some q) qs = backs (bwd ?h) (Some q) qs"
        using d lh Cons by (intro backs_cong, subst oldb) (auto simp: first_def)
      then show ?thesis using b Cons oldb [of q] lh by (simp add: backs_append first_def)
    qed simp
    ultimately show ?thesis using b ba by (simp add: backs_append)
  qed
  have "ordered (map (elem h) (?los @ ?a # ?his))"
    unfolding elems by (rule ordered_zins [OF inv_ordered [OF inv] s]) (use new in \<open>simp add: image_image\<close>)
  moreover have "length ps = length ?los + length ?his" by (metis los_his length_append)
  moreover have "distinct (header sl # ?los @ ?a # ?his)" using d a lh by auto
  moreover have "dom h = set (header sl # ?los @ ?a # ?his)" using dom inv_dom [OF inv] lh by auto
  moreover have "\<forall>p \<in> set (header sl # ?los @ ?a # ?his). p < ?a + 1"
    using inv_addr [OF inv] lh by (auto intro: less_SucI)
  moreover have "height h (header sl) = kMaxLevel" using old'(2) [of "header sl"] inv_header [OF inv] by simp
  moreover have "\<forall>p \<in> set (?los @ ?a # ?his). 1 \<le> height h p \<and> height h p \<le> max (level sl) ?N"
    using old'(2) inv_height [OF inv] lh ea(2) N by (auto simp: max.coboundedI1)
  moreover have "max (level sl) ?N = 1 \<or> (\<exists>p \<in> set (?los @ ?a # ?his). height h p = max (level sl) ?N)"
  proof (cases "?N < level sl")
    case True
    then obtain p where "p \<in> set ps" "height ?h p = level sl" using inv_top [OF inv] N(1) by auto
    then show ?thesis using True old'(2) [of p] lh by (intro disjI2 bexI [of _ p]) auto
  qed (use ea(2) in auto)
  ultimately have "sl_inv (sl\<lparr>nodes := h, level := max (level sl) ?N, sl_size := sl_size sl + 1,
        rng := snd (randomLevel (rng sl)), next_addr := ?a + 1\<rparr>) (?los @ ?a # ?his)"
    unfolding sl_inv_def using links bk lev N inv_size [OF inv] by simp
  from that [OF ins this] elems show thesis by simp
qed

section \<open>Removal\<close>

lemma shrink_level_ok:
  "1 \<le> n \<Longrightarrow> (\<And>i. i < n \<Longrightarrow> fwd h hdr i \<noteq> None) \<Longrightarrow>
    \<exists>k. shrink_level h hdr n = Some k \<and> 1 \<le> k \<and> k \<le> n \<and> (\<forall>i. k \<le> i \<and> i < n \<longrightarrow> fwd h hdr i = Some None) \<and>
      (k = 1 \<or> (\<exists>p. fwd h hdr (k - 1) = Some (Some p)))"
proof (induction h hdr n rule: shrink_level.induct)
  case (3 h hdr n)
  obtain f where f: "fwd h hdr (Suc n) = Some f" using "3.prems"(2) [of "Suc n"] by auto
  show ?case
  proof (cases f)
    case None
    have "\<exists>k. shrink_level h hdr (Suc n) = Some k \<and> 1 \<le> k \<and> k \<le> Suc n \<and>
        (\<forall>i. k \<le> i \<and> i < Suc n \<longrightarrow> fwd h hdr i = Some None) \<and> (k = 1 \<or> (\<exists>p. fwd h hdr (k - 1) = Some (Some p)))"
      using "3.prems" f None by (intro "3.IH") auto
    then show ?thesis using f None by (auto simp: less_Suc_eq)
  next
    case (Some p)
    then show ?thesis using f by (intro exI [of _ "Suc (Suc n)"]) auto
  qed
qed auto

lemma pre_fwd:
  assumes "sl_inv sl ps" "i < kMaxLevel"
  shows "fwd (nodes sl) (pre sl m s ps i) i = Some (first (tall sl i (his sl m s ps)))"
  using inv_linked [OF assms, of m s] linked_head unfolding linked_append pre_def first_def by fastforce

lemma remove_store:
  assumes inv: "sl_inv sl ps" and s: "s \<noteq> NaN" and q: "his sl m s ps = q # qs" and key: "skey (elem (nodes sl) q) = skey (m, s)"
  obtains h k where "sl_remove sl m s = Some (True, sl\<lparr>nodes := h, level := k, sl_size := sl_size sl - 1\<rparr>)"
    "shrink_level h (header sl) (level sl) = Some k"
    "\<And>y j. y \<noteq> q \<Longrightarrow> fwd h y j = (if j < height (nodes sl) q \<and> y = pre sl m s ps j then fwd (nodes sl) q j else fwd (nodes sl) y j)"
    "dom h = dom (nodes sl) - {q}"
    "\<And>p. p \<in> dom h \<Longrightarrow> elem h p = elem (nodes sl) p \<and> height h p = height (nodes sl) p \<and>
      bwd h p = (if first qs = Some p then bwd (nodes sl) q else bwd (nodes sl) p)"
proof -
  let ?h = "nodes sl" and ?u = "pre sl m s ps"
  have qp: "q \<in> set ps" using q set_search [of ps sl m s] by simp
  then obtain n where n: "?h q = Some n" using inv_dom [OF inv] by auto
  have d: "distinct (los sl m s ps @ q # qs)" using inv_distinct [OF inv] q los_his [of sl m s ps] by simp
  have hq: "1 \<le> height ?h q" "height ?h q \<le> level sl" "level sl \<le> kMaxLevel"
    using inv_height [OF inv qp] inv_level [OF inv] by simp_all
  have "snd (elem ?h q) \<noteq> NaN" using inv_ordered [OF inv] qp by (simp add: ordered_def)
  then have test: "deq (score n) s \<and> member n = m"
    using same_skey [of "score n" s "member n" m] key s n by (simp add: elem_def)
  have up: "?u j \<noteq> q" "fwd ?h (?u j) j \<noteq> None" "fwd ?h (?u j) j = Some (Some q) \<longleftrightarrow> j < height ?h q" if "j < level sl" for j
  proof -
    have j: "j < kMaxLevel" using that hq(3) by simp
    show "?u j \<noteq> q" using pre_props(6) [OF inv j, of m s] q by auto
    have "q \<notin> set (tall sl j qs)" using d by (simp add: set_tall)
    then have "first (tall sl j qs) \<noteq> Some q" by (cases "tall sl j qs") (auto simp: first_def)
    then show "fwd ?h (?u j) j \<noteq> None" "fwd ?h (?u j) j = Some (Some q) \<longleftrightarrow> j < height ?h q"
      unfolding pre_fwd [OF inv j, of m s] q by (auto simp: first_def tall_def)
  qed
  let ?upd = "\<lambda>i. if i < level sl then Some (?u i) else None"
  have "\<exists>h1. unlink_levels (level sl) ?upd q 0 ?h = Some h1 \<and> frame h1 = frame ?h \<and>
    (\<forall>y j. fwd h1 y j = (if 0 \<le> j \<and> j < 0 + level sl \<and> j < height ?h q \<and> y = ?u j then fwd ?h q j else fwd ?h y j))"
    using up n by (intro unlink_levels_ok) auto
  then obtain h1 where h1: "unlink_levels (level sl) ?upd q 0 ?h = Some h1" "frame h1 = frame ?h"
    "\<And>y j. fwd h1 y j = (if j < height ?h q \<and> y = ?u j then fwd ?h q j else fwd ?h y j)"
    using hq(2) by (auto simp: less_le_trans)
  note e1 = frame_eqD [OF fun_cong [OF h1(2)]]
  obtain n1 where n1: "h1 q = Some n1" "backward n1 = bwd ?h q" using e1(1,4) [of q] n by (auto simp: bwd_def)
  have g: "fwd h1 q 0 = Some (first qs)"
  proof -
    have "set (q # qs) \<subseteq> set ps" using q set_search [of ps sl m s] by auto
    then have "tall sl 0 (his sl m s ps) = q # qs" unfolding q by (rule tall_0 [OF inv])
    then have "linked (fwd ?h) 0 q qs" using inv_linked [OF inv, of 0 m s] by (simp add: linked_append linked_Cons kMaxLevel_def)
    then have "fwd ?h q 0 = Some (first qs)" using linked_head unfolding first_def by fast
    then show ?thesis using up(1) [of 0] hq by (auto simp: h1(3))
  qed
  have "h1 y \<noteq> None" if "first qs = Some y" for y
  proof -
    have "y \<in> set ps" using that q set_search [of ps sl m s] by (cases qs) (simp_all add: first_def)
    then show ?thesis using e1(1) [of y] inv_dom [OF inv] by auto
  qed
  then obtain h2 where h2: "(case first qs of None \<Rightarrow> Some h1 | Some y \<Rightarrow> set_backward h1 y (bwd ?h q)) = Some h2"
    "fwd h2 = fwd h1" "\<And>y. (h2 y = None) = (h1 y = None)" "\<And>y. elem h2 y = elem h1 y" "\<And>y. height h2 y = height h1 y"
    "\<And>y. bwd h2 y = (if first qs = Some y then bwd ?h q else bwd h1 y)"
    using set_backward_ok [of "first qs" h1 "bwd ?h q"] by blast
  define h3 where "h3 = h2(q := None)"
  have F: "fwd h3 y j = (if j < height ?h q \<and> y = ?u j then fwd ?h q j else fwd ?h y j)" if "y \<noteq> q" for y j
  proof -
    have "fwd h3 y j = fwd h2 y j" using that by (simp add: fwd_def h3_def)
    then show ?thesis by (simp add: h2(2) h1(3))
  qed
  have "fwd h3 (header sl) i \<noteq> None" if "i < level sl" for i
  proof -
    have "header sl \<noteq> q" using inv_distinct [OF inv] qp by auto
    moreover have "fwd ?h (header sl) i \<noteq> None" "i < height ?h q \<Longrightarrow> fwd ?h q i \<noteq> None"
      using fwd_height inv_header [OF inv] inv_dom [OF inv] that hq(3) n by auto
    ultimately show ?thesis using F by auto
  qed
  then obtain k where k: "shrink_level h3 (header sl) (level sl) = Some k"
    using shrink_level_ok [OF inv_level(1) [OF inv], of h3 "header sl"] by blast
  have f0: "fwd ?h (?u 0) 0 = Some (Some q)" using search_ok(2) [OF inv s, of m] q by (simp add: first_def)
  have "sl_remove sl m s = Some (True, sl\<lparr>nodes := h3, level := k, sl_size := sl_size sl - 1\<rparr>)"
    unfolding sl_remove_def search_ok(1) [OF inv s] Let_def h3_def [symmetric]
    by (simp only: Option.bind.bind_lunit case_prod_conv f0 option.case n test simp_thms if_False h1(1) n1 g h2(1)
        h3_def [symmetric] k)
  moreover have "dom h3 = dom ?h - {q}"
  proof -
    have "dom h2 = dom ?h" unfolding dom_def using e1(1) h2(3) by simp
    then show ?thesis by (simp add: h3_def)
  qed
  moreover have "elem h3 p = elem ?h p \<and> height h3 p = height ?h p \<and>
      bwd h3 p = (if first qs = Some p then bwd ?h q else bwd ?h p)" if "p \<in> dom h3" for p
  proof -
    have "p \<noteq> q" "?h p \<noteq> None" using that e1(1) [of p] h2(3) [of p] by (auto simp: h3_def split: if_splits)
    then show ?thesis using e1(2,3,4) [of p] h2(4,5,6) [of p]
      by (simp add: h3_def elem_def height_def bwd_def)
  qed
  ultimately show thesis using k F by (intro that)
qed

lemma remove_inv:
  assumes inv: "sl_inv sl ps" and s: "s \<noteq> NaN" and q: "his sl m s ps = q # qs" and key: "skey (elem (nodes sl) q) = skey (m, s)"
  obtains sl' where "sl_remove sl m s = Some (True, sl')" "sl_inv sl' (los sl m s ps @ qs)"
    "map (elem (nodes sl')) (los sl m s ps @ qs) = zdel m s (map (elem (nodes sl)) ps)"
proof -
  let ?h = "nodes sl" and ?los = "los sl m s ps"
  obtain h k where rem: "sl_remove sl m s = Some (True, sl\<lparr>nodes := h, level := k, sl_size := sl_size sl - 1\<rparr>)"
    and k: "shrink_level h (header sl) (level sl) = Some k"
    and F: "\<And>y j. y \<noteq> q \<Longrightarrow> fwd h y j = (if j < height ?h q \<and> y = pre sl m s ps j then fwd ?h q j else fwd ?h y j)"
    and dom: "dom h = dom ?h - {q}"
    and old: "\<And>p. p \<in> dom h \<Longrightarrow> elem h p = elem ?h p \<and> height h p = height ?h p \<and>
      bwd h p = (if first qs = Some p then bwd ?h q else bwd ?h p)"
    by (rule remove_store [OF inv s q key]) blast
  have ps: "ps = ?los @ q # qs" using los_his [of sl m s ps] q by simp
  have lh: "set ps = insert q (set ?los \<union> set qs)" by (subst ps) simp
  have d: "distinct (header sl # ?los @ q # qs)" using inv_distinct [OF inv] ps by metis
  have dom': "dom h = set (header sl # ?los @ qs)" unfolding dom inv_dom [OF inv] list.set lh using d by auto
  have old': "elem h p = elem ?h p" "height h p = height ?h p" if "p \<in> set (header sl # ?los @ qs)" for p
    using old [of p] that unfolding dom' by simp_all
  have elems: "map (elem h) (?los @ qs) = zdel m s (map (elem ?h) ps)"
  proof -
    have "upper m s (map (elem ?h) ps) = elem ?h q # map (elem ?h) qs" using map_his [of sl m s ps] q by simp
    then have "zdel m s (map (elem ?h) ps) = map (elem ?h) (?los @ qs)"
      using zdel_split [OF inv_ordered [OF inv], of m s] zdel_upper [OF inv_ordered [OF inv], of m s] key
      by (simp add: map_los)
    then show ?thesis using old'(1) by simp
  qed
  have hts: "filter (\<lambda>p. i < height h p) (?los @ qs) = tall sl i ?los @ tall sl i qs" for i
    unfolding tall_append [symmetric] unfolding tall_def using old'(2) by (intro filter_cong) auto
  have links: "linked (fwd h) i (header sl) (filter (\<lambda>p. i < height h p) (?los @ qs))" if i: "i < kMaxLevel" for i
  proof (cases "i < height ?h q")
    case True
    have l: "linked (fwd ?h) i (header sl) (tall sl i ?los @ q # tall sl i qs)"
      using inv_linked [OF inv i, of m s] q True by (simp add: tall_def)
    show ?thesis unfolding hts
      by (rule linked_unlink [OF l]) (use d True F in \<open>auto simp: tall_def pre_def\<close>)
  next
    case False
    have l: "linked (fwd ?h) i (header sl) (tall sl i ?los @ tall sl i qs)"
      using inv_linked [OF inv i, of m s] q False by (simp add: tall_def)
    have "fwd h y i = fwd ?h y i" if "y \<in> set (header sl # tall sl i ?los @ tall sl i qs)" for y
      using F [of y i] False d that by (auto simp: set_tall)
    then show ?thesis unfolding hts using l linked_cong [of "header sl" _ "fwd h" i "fwd ?h"] by blast
  qed
  have bk: "backs (bwd h) None (?los @ qs)"
  proof -
    have b: "backs (bwd ?h) None (?los @ q # qs)" using inv_backs [OF inv] ps by metis
    have oldb: "bwd h p = (if first qs = Some p then bwd ?h q else bwd ?h p)" if "p \<in> set (?los @ qs)" for p
      using old [of p] that unfolding dom' by simp
    have "backs (bwd h) None ?los = backs (bwd ?h) None ?los"
      using d by (intro backs_cong, subst oldb) (auto simp: first_def split: list.splits)
    moreover have "backs (bwd h) (if ?los = [] then None else Some (last ?los)) qs"
    proof (cases qs)
      case (Cons r rs)
      have "backs (bwd h) (Some r) rs = backs (bwd ?h) (Some r) rs"
        using d Cons by (intro backs_cong, subst oldb) (auto simp: first_def)
      then show ?thesis using b Cons oldb [of r] by (simp add: backs_append first_def)
    qed simp
    ultimately show ?thesis using b by (simp add: backs_append)
  qed
  have hdr: "fwd h (header sl) i = Some (first (filter (\<lambda>p. i < height h p) (?los @ qs)))" if "i < kMaxLevel" for i
    using linked_head [OF links [OF that]] unfolding first_def .
  have lev: "1 \<le> level sl" "level sl \<le> kMaxLevel" by (rule inv_level [OF inv])+
  have none: "first (filter P xs) = None \<longleftrightarrow> (\<forall>x \<in> set xs. \<not> P x)" for P and xs :: "addr list"
    unfolding first_None filter_empty_conv by (rule refl)
  obtain k' where "shrink_level h (header sl) (level sl) = Some k'" "1 \<le> k'" "k' \<le> level sl"
    "\<forall>i. k' \<le> i \<and> i < level sl \<longrightarrow> fwd h (header sl) i = Some None"
    "k' = 1 \<or> (\<exists>p. fwd h (header sl) (k' - 1) = Some (Some p))"
    using shrink_level_ok [OF lev(1), of h "header sl"] hdr lev(2) by fastforce
  then have sh: "1 \<le> k" "k \<le> level sl" "\<And>i. k \<le> i \<Longrightarrow> i < level sl \<Longrightarrow> fwd h (header sl) i = Some None"
    "k = 1 \<or> (\<exists>p. fwd h (header sl) (k - 1) = Some (Some p))" using k by simp_all
  have ht: "height h p \<le> k" if p: "p \<in> set (?los @ qs)" for p
  proof (rule ccontr)
    assume "\<not> height h p \<le> k"
    moreover have "height h p \<le> level sl" using old'(2) [of p] inv_height(2) [OF inv, of p] p lh by simp
    ultimately have "first (filter (\<lambda>p. k < height h p) (?los @ qs)) = None" "k < height h p"
      using sh(3) [of k] hdr [of k] lev(2) by (simp_all del: filter_append)
    then show False using p unfolding none by blast
  qed
  have "ordered (map (elem h) (?los @ qs))" unfolding elems by (rule ordered_zdel [OF inv_ordered [OF inv]])
  moreover have "length ps = length ?los + 1 + length qs" by (subst ps) simp
  moreover have "distinct (header sl # ?los @ qs)" using d by auto
  moreover have "\<forall>p \<in> set (header sl # ?los @ qs). p < next_addr sl" using inv_addr [OF inv] lh by auto
  moreover have "height h (header sl) = kMaxLevel" using old'(2) [of "header sl"] inv_header [OF inv] by simp
  moreover have "\<forall>p \<in> set (?los @ qs). 1 \<le> height h p \<and> height h p \<le> k"
    using old'(2) inv_height(1) [OF inv] lh ht by auto
  moreover have "k = 1 \<or> (\<exists>p \<in> set (?los @ qs). height h p = k)"
  proof (rule disjCI)
    assume "\<not> (\<exists>p \<in> set (?los @ qs). height h p = k)"
    then have ne: "height h p \<noteq> k" if "p \<in> set (?los @ qs)" for p using that by blast
    have "\<forall>p \<in> set (?los @ qs). \<not> k - 1 < height h p"
    proof
      fix p assume "p \<in> set (?los @ qs)"
      from ht [OF this] ne [OF this] show "\<not> k - 1 < height h p" by simp
    qed
    then have "fwd h (header sl) (k - 1) = Some None" using hdr [of "k - 1"] sh(1,2) lev none [of "\<lambda>p. k - 1 < height h p" "?los @ qs"] by (simp del: filter_append)
    then show "k = 1" using sh(4) by simp
  qed
  ultimately have "sl_inv (sl\<lparr>nodes := h, level := k, sl_size := sl_size sl - 1\<rparr>) (?los @ qs)"
    unfolding sl_inv_def using links bk sh(1,2) lev inv_size [OF inv] dom' by simp
  from that [OF rem this] elems show thesis by simp
qed

section \<open>Ranges\<close>

lemma skip_nodes_ok: "linked (fwd h) 0 x qs \<Longrightarrow> skip_nodes k h (first qs) = Some (first (drop k qs))"
proof (induction k arbitrary: x qs)
  case (Suc k)
  show ?case
  proof (cases qs)
    case (Cons q rs)
    then have l: "linked (fwd h) 0 q rs" using Suc.prems by (simp add: linked_Cons)
    moreover have "fwd h q 0 = Some (first rs)" using linked_head [OF l] unfolding first_def .
    ultimately show ?thesis using Suc.IH Cons by (simp add: first_def [of "q # rs"])
  qed (simp add: first_def)
qed simp

lemma collect_nodes_ok:
  "linked (fwd h) 0 x qs \<Longrightarrow> set qs \<subseteq> dom h \<Longrightarrow> collect_nodes k h (first qs) = Some (map (elem h) (take k qs))"
proof (induction k arbitrary: x qs)
  case (Suc k)
  show ?case
  proof (cases qs)
    case (Cons q rs)
    then have l: "linked (fwd h) 0 q rs" using Suc.prems by (simp add: linked_Cons)
    moreover have "fwd h q 0 = Some (first rs)" using linked_head [OF l] unfolding first_def .
    moreover obtain n where "h q = Some n" using Suc.prems(2) Cons by auto
    moreover have "collect_nodes k h (first rs) = Some (map (elem h) (take k rs))"
      using Suc.IH [OF l] Suc.prems(2) Cons by simp
    ultimately show ?thesis using Cons by (simp add: first_def [of "q # rs"] elem_def)
  qed (simp add: first_def)
qed simp

lemma linked_drop: "linked F i x qs \<Longrightarrow> linked F i (last (x # take k qs)) (drop k qs)"
  using linked_append [of F i x "take k qs" "drop k qs"] by simp

lemma range_ok:
  assumes inv: "sl_inv sl ps" and n: "length ps < 2147483648"
    and r: "- (2 ^ 31) \<le> start" "start < 2 ^ 31" "- (2 ^ 31) \<le> stop" "stop < 2 ^ 31"
  shows "sl_rangeByRank sl start stop = Some (redis_range (map (elem (nodes sl)) ps) start stop)"
proof -
  let ?n = "int (length ps)" and ?h = "nodes sl"
  define lo where "lo = (if start < 0 then max 0 (start + ?n) else start)"
  define hi where "hi = min (?n - 1) (if stop < 0 then stop + ?n else stop)"
  have w: "wrap32 ?n = ?n" "start < 0 \<Longrightarrow> wrap32 (start + ?n) = start + ?n" "stop < 0 \<Longrightarrow> wrap32 (stop + ?n) = stop + ?n"
    using n r by (simp_all add: wrap32_id)
  have lo': "(let start1 = (if start < 0 then wrap32 (start + ?n) else start) in if start1 < 0 then 0 else start1) = lo"
    using w by (auto simp: Let_def lo_def)
  have hi': "(let stop1 = (if stop < 0 then wrap32 (stop + ?n) else stop) in if ?n \<le> stop1 then ?n - 1 else stop1) = hi"
    using w by (auto simp: Let_def hi_def)
  have "tall sl 0 ps = ps" by (rule tall_0 [OF inv]) simp
  then have l: "linked (fwd ?h) 0 (header sl) ps" using inv_links [OF inv, of 0] by (simp add: tall_def kMaxLevel_def)
  have x0: "fwd ?h (header sl) 0 = Some (first ps)" using linked_head [OF l] unfolding first_def .
  have "set (drop (nat lo) ps) \<subseteq> dom ?h" using inv_dom [OF inv] by (auto dest: in_set_dropD)
  then have c: "collect_nodes (nat (hi - lo + 1)) ?h (first (drop (nat lo) ps)) = Some (map (elem ?h) (take (nat (hi - lo + 1)) (drop (nat lo) ps)))"
    by (rule collect_nodes_ok [OF linked_drop [OF l]])
  have "redis_range (map (elem ?h) ps) start stop =
      (if lo \<le> hi then map (elem ?h) (take (nat (hi - lo + 1)) (drop (nat lo) ps)) else [])"
    by (simp add: redis_range_def Let_def lo_def hi_def take_map drop_map)
  moreover have "hi < ?n" by (simp add: hi_def)
  ultimately show ?thesis
    using lo' hi' skip_nodes_ok [OF l, of "nat lo"] c x0
    unfolding sl_rangeByRank_def inv_size [OF inv] w(1) Let_def by (auto simp: not_less)
qed

section \<open>The contract of an ordered index\<close>

locale ordered_index =
  fixes rel :: "'s \<Rightarrow> (bytes \<times> dbl) list \<Rightarrow> bool" and fresh :: "(nat \<Rightarrow> nat) \<Rightarrow> 's"
    and insert_op :: "'s \<Rightarrow> bytes \<Rightarrow> dbl \<Rightarrow> 's option" and remove_op :: "'s \<Rightarrow> bytes \<Rightarrow> dbl \<Rightarrow> (bool \<times> 's) option"
    and range_op :: "'s \<Rightarrow> int \<Rightarrow> int \<Rightarrow> (bytes \<times> dbl) list option" and size_op :: "'s \<Rightarrow> nat"
  assumes rel_ordered: "rel t xs \<Longrightarrow> ordered xs"
    and fresh_rel: "rel (fresh r) []"
    and insert_rel: "rel t xs \<Longrightarrow> s \<noteq> NaN \<Longrightarrow> skey (m, s) \<notin> skey ` set xs \<Longrightarrow>
      \<exists>t'. insert_op t m s = Some t' \<and> rel t' (zins m s xs)"
    and remove_rel: "rel t xs \<Longrightarrow> s \<noteq> NaN \<Longrightarrow>
      \<exists>t'. remove_op t m s = Some (skey (m, s) \<in> skey ` set xs, t') \<and> rel t' (zdel m s xs)"
    and range_rel: "rel t xs \<Longrightarrow> length xs < 2147483648 \<Longrightarrow> - (2 ^ 31) \<le> i \<Longrightarrow> i < 2 ^ 31 \<Longrightarrow> - (2 ^ 31) \<le> j \<Longrightarrow> j < 2 ^ 31 \<Longrightarrow>
      range_op t i j = Some (redis_range xs i j)"
    and size_rel: "rel t xs \<Longrightarrow> size_op t = length xs"
begin

text \<open>An index and a dictionary of the same elements, as the sorted sets keep them.\<close>

definition synced :: "'s \<Rightarrow> (bytes \<times> dbl) list \<Rightarrow> bool" where
  "synced t d = (distinct (map fst d) \<and> (\<exists>xs. rel t xs \<and> set xs = set d))"

lemma synced_fresh: "synced (fresh r) []"
  using fresh_rel by (auto simp: synced_def)

lemma synced_no_nan: "synced t d \<Longrightarrow> map_of d m = Some s \<Longrightarrow> s \<noteq> NaN"
  using rel_ordered by (fastforce simp: synced_def ordered_def dest: map_of_SomeD)

lemma key_mem: "skey (m, s) \<in> skey ` set d \<Longrightarrow> m \<in> fst ` set d"
  by (auto simp: skey_def intro: rev_image_eqI)

lemma synced_insert:
  assumes "synced t d" "s \<noteq> NaN" "map_of d m = None"
  shows "\<exists>t'. insert_op t m s = Some t' \<and> synced t' (d @ [(m, s)])"
proof -
  obtain xs where xs: "rel t xs" "set xs = set d" using assms(1) by (auto simp: synced_def)
  have m: "m \<notin> fst ` set d" using assms(3) by (simp add: map_of_eq_None_iff)
  then have "skey (m, s) \<notin> skey ` set xs" using key_mem xs(2) by metis
  from insert_rel [OF xs(1) assms(2) this] show ?thesis
    using assms(1) m xs(2) by (auto simp: synced_def intro!: exI [of _ "zins m s xs"])
qed

lemma synced_remove:
  assumes "synced t d" "map_of d m = Some s"
  shows "\<exists>t'. remove_op t m s = Some (True, t') \<and> synced t' (AList.delete m d)"
proof -
  obtain xs where xs: "rel t xs" "set xs = set d" using assms(1) by (auto simp: synced_def)
  have d: "distinct (map fst d)" using assms(1) by (simp add: synced_def)
  have ms: "(m, s) \<in> set d" using assms(2) by (rule map_of_SomeD)
  then have "skey (m, s) \<in> skey ` set xs" using xs(2) by blast
  then obtain t' where t': "remove_op t m s = Some (True, t')" "rel t' (zdel m s xs)"
    using remove_rel [OF xs(1) synced_no_nan [OF assms], of m] by auto
  have "set (zdel m s xs) = set (AList.delete m d)"
  proof -
    have "skey e \<noteq> skey (m, s) \<longleftrightarrow> fst e \<noteq> m" if "e \<in> set d" for e
    proof
      assume ne: "skey e \<noteq> skey (m, s)"
      show "fst e \<noteq> m"
      proof
        assume "fst e = m"
        then have "e = (m, s)" using d that ms by (metis eq_key_imp_eq_value prod.collapse)
        then show False using ne by simp
      qed
    qed (auto simp: skey_def)
    then show ?thesis using xs(2) by (auto simp: zdel_def AList.delete_eq split_beta)
  qed
  then show ?thesis using t' d by (auto simp: synced_def distinct_delete)
qed

text \<open>Changing the score of a member: remove, then insert.\<close>

lemma synced_update:
  assumes "synced t d" "map_of d m = Some old" "s \<noteq> NaN"
  shows "\<exists>t1 t'. remove_op t m old = Some (True, t1) \<and> insert_op t1 m s = Some t' \<and> synced t' (AList.update m s d)"
proof -
  obtain t1 where t1: "remove_op t m old = Some (True, t1)" "synced t1 (AList.delete m d)"
    using synced_remove [OF assms(1,2)] by blast
  have d: "distinct (map fst d)" using assms(1) by (simp add: synced_def)
  have "map_of (AList.delete m d) m = None" by (simp add: delete_conv')
  then obtain t' where t': "insert_op t1 m s = Some t'" "synced t' (AList.delete m d @ [(m, s)])"
    using synced_insert [OF t1(2) assms(3)] by blast
  have "set (AList.update m s d) = set (AList.delete m d @ [(m, s)])"
  proof (subst map_of_inject_set [symmetric])
    show "distinct (map fst (AList.delete m d @ [(m, s)]))" using t'(2) by (simp only: synced_def)
  qed (auto simp: d distinct_update update_conv' delete_conv' fun_eq_iff map_add_def split: option.split)
  then show ?thesis using t1(1) t' distinct_update [OF d, of m s] by (auto simp: synced_def)
qed

lemma synced_size: "synced t d \<Longrightarrow> size_op t = length d"
  unfolding synced_def using rel_ordered ordered_distinct size_rel distinct_map [of fst d] by (metis distinct_card)

end

lemma sl_rel_ordered: "sl_rel sl xs \<Longrightarrow> ordered xs"
  by (auto simp: sl_rel_def inv_ordered)

lemma sl_insert_rel:
  assumes "sl_rel sl xs" "s \<noteq> NaN" "skey (m, s) \<notin> skey ` set xs"
  shows "\<exists>sl'. sl_insert sl m s = Some sl' \<and> sl_rel sl' (zins m s xs)"
proof -
  obtain ps where ps: "sl_inv sl ps" "xs = map (elem (nodes sl)) ps" using assms(1) by (auto simp: sl_rel_def)
  obtain sl' where "sl_insert sl m s = Some sl'" "sl_inv sl' (los sl m s ps @ next_addr sl # his sl m s ps)"
    "map (elem (nodes sl')) (los sl m s ps @ next_addr sl # his sl m s ps) = zins m s (map (elem (nodes sl)) ps)"
    by (rule insert_inv [OF ps(1) assms(2), of m]) (use assms(3) ps(2) in simp_all)
  then show ?thesis unfolding sl_rel_def ps(2) by metis
qed

lemma search_hit:
  assumes inv: "sl_inv sl ps" and s: "s \<noteq> NaN"
  shows "skey (m, s) \<in> skey ` set (map (elem (nodes sl)) ps) \<longleftrightarrow>
    (\<exists>q qs. his sl m s ps = q # qs \<and> skey (elem (nodes sl) q) = skey (m, s))"
  unfolding mem_iff_hd_upper [OF inv_ordered [OF inv]] map_his [symmetric] by (cases "his sl m s ps") simp_all

lemma search_test:
  assumes inv: "sl_inv sl ps" and s: "s \<noteq> NaN" and q: "his sl m s ps = q # qs"
  obtains n where "nodes sl q = Some n" "deq (score n) s \<and> member n = m \<longleftrightarrow> skey (elem (nodes sl) q) = skey (m, s)"
proof -
  have qp: "q \<in> set ps" using q set_search [of ps sl m s] by simp
  then obtain n where n: "nodes sl q = Some n" using inv_dom [OF inv] by auto
  have "snd (elem (nodes sl) q) \<noteq> NaN" using inv_ordered [OF inv] qp by (simp add: ordered_def)
  then show thesis using that n same_skey [of "score n" s "member n" m] s by (simp add: elem_def)
qed

lemma sl_remove_rel:
  assumes "sl_rel sl xs" "s \<noteq> NaN"
  shows "\<exists>sl'. sl_remove sl m s = Some (skey (m, s) \<in> skey ` set xs, sl') \<and> sl_rel sl' (zdel m s xs)"
proof -
  obtain ps where inv: "sl_inv sl ps" and xs: "xs = map (elem (nodes sl)) ps" using assms(1) by (auto simp: sl_rel_def)
  note hit = search_hit [OF inv assms(2), of m, folded xs]
  show ?thesis
  proof (cases "skey (m, s) \<in> skey ` set xs")
    case True
    then obtain q qs where "his sl m s ps = q # qs" "skey (elem (nodes sl) q) = skey (m, s)" using hit by blast
    from remove_inv [OF inv assms(2) this] show ?thesis using True unfolding sl_rel_def xs by metis
  next
    case False
    have "sl_remove sl m s = Some (False, sl)"
    proof (cases "his sl m s ps")
      case Nil
      then show ?thesis using search_ok [OF inv assms(2), of m] by (simp add: sl_remove_def first_def)
    next
      case (Cons q qs)
      with False hit have "skey (elem (nodes sl) q) \<noteq> skey (m, s)" by blast
      moreover obtain n where "nodes sl q = Some n" "deq (score n) s \<and> member n = m \<longleftrightarrow> skey (elem (nodes sl) q) = skey (m, s)"
        by (rule search_test [OF inv assms(2) Cons])
      ultimately show ?thesis using search_ok [OF inv assms(2), of m] Cons by (auto simp: sl_remove_def first_def)
    qed
    moreover have "zdel m s xs = xs" unfolding zdel_def using False by (intro filter_True) (metis imageI)
    ultimately show ?thesis using False assms(1) by auto
  qed
qed

lemma sl_find_rel:
  assumes "sl_rel sl xs" "s \<noteq> NaN"
  shows "\<exists>r. sl_find sl m s = Some r \<and> (r \<noteq> None \<longleftrightarrow> skey (m, s) \<in> skey ` set xs) \<and>
    (\<forall>x. r = Some x \<longrightarrow> skey (elem (nodes sl) x) = skey (m, s))"
proof -
  obtain ps where inv: "sl_inv sl ps" and xs: "xs = map (elem (nodes sl)) ps" using assms(1) by (auto simp: sl_rel_def)
  note hit = search_hit [OF inv assms(2), of m, folded xs]
  show ?thesis
  proof (cases "his sl m s ps")
    case Nil
    then show ?thesis using hit search_ok [OF inv assms(2), of m] by (auto simp: sl_find_def first_def)
  next
    case (Cons q qs)
    obtain n where "nodes sl q = Some n" "deq (score n) s \<and> member n = m \<longleftrightarrow> skey (elem (nodes sl) q) = skey (m, s)"
      by (rule search_test [OF inv assms(2) Cons])
    then show ?thesis using hit Cons search_ok [OF inv assms(2), of m] by (auto simp: sl_find_def first_def)
  qed
qed

interpretation sli: ordered_index sl_rel new_skiplist sl_insert sl_remove sl_rangeByRank sl_size
proof unfold_locales
  show "sl_rangeByRank t i j = Some (redis_range xs i j)"
    if "sl_rel t xs" "length xs < 2147483648" "- (2 ^ 31) \<le> i" "i < 2 ^ 31" "- (2 ^ 31) \<le> j" "j < 2 ^ 31" for t xs i j
    using that range_ok [of t _ i j] by (auto simp: sl_rel_def)
  show "sl_size t = length xs" if "sl_rel t xs" for t xs
    using that by (auto simp: sl_rel_def inv_size)
qed (simp_all add: sl_rel_ordered new_skiplist_rel sl_insert_rel sl_remove_rel)

section \<open>Properties\<close>

text \<open>C6 (refinement). The pointer structure implements a sorted sequence: on a well-formed list and for
  every outcome of the random levels, insert of a new element, remove and find return (no null or
  dangling pointer is followed, every walk ends), the list stays well formed - each level links
  exactly the nodes tall enough for it, the backward pointers reverse level 0, the order is strict -
  and its elements are those of sorted insertion, of deletion and of membership on the sequence.\<close>
theorem skiplist_refines_sorted_list:
  assumes "sl_rel sl xs" and "s \<noteq> NaN"
  shows "(skey (m, s) \<notin> skey ` set xs \<longrightarrow> (\<exists>sl'. sl_insert sl m s = Some sl' \<and> sl_rel sl' (zins m s xs))) \<and>
    (\<exists>sl'. sl_remove sl m s = Some (skey (m, s) \<in> skey ` set xs, sl') \<and> sl_rel sl' (zdel m s xs)) \<and>
    (\<exists>r. sl_find sl m s = Some r \<and> (r \<noteq> None \<longleftrightarrow> skey (m, s) \<in> skey ` set xs)) \<and>
    ordered xs \<and> sl_size sl = length xs"
  using sl_insert_rel [OF assms] sl_remove_rel [OF assms] sl_find_rel [OF assms, of m] sli.rel_ordered [OF assms(1)]
    sli.size_rel [OF assms(1)] by blast

theorem skiplist_refines_sorted_list_witness:
  "\<exists>sl'. sl_insert (new_skiplist (\<lambda>_. 0)) ''a'' (Fin 1) = Some sl' \<and> sl_rel sl' [(''a'', Fin 1)]"
  using skiplist_refines_sorted_list [OF new_skiplist_rel [of "\<lambda>_. 0"], of "Fin 1" "''a''"]
  by (simp add: zins_def lower_def upper_def)

text \<open>\<^verbatim>\<open>rangeByRank\<close> returns the elements between two ranks of the sorted sequence:
  negative ranks count from the end, the range is cut to the list and an empty one gives nothing,
  for every pair of 32-bit ranks.\<close>
theorem skiplist_range:
  assumes "sl_rel sl xs" and "length xs < 2 ^ 31"
    and "- (2 ^ 31) \<le> start" "start < 2 ^ 31" "- (2 ^ 31) \<le> stop" "stop < 2 ^ 31"
  shows "sl_rangeByRank sl start stop = Some (redis_range xs start stop)"
  using sli.range_rel [OF assms(1)] assms(2-6) by simp

theorem skiplist_range_witness: "sl_rangeByRank (new_skiplist (\<lambda>_. 0)) 0 (- 1) = Some []"
  using skiplist_range [OF new_skiplist_rel [of "\<lambda>_. 0"], of 0 "- 1"] by (simp add: redis_range_def)

end
