(* ===== verification/Redis_Object.thy ===== *)
theory Redis_Object
  imports CLib Skiplist "HOL-Library.Word" "HOL-Library.AList"
begin

text \<open>
  \<^verbatim>\<open>store/RedisObject\<close>: the tagged value kept for a key. \<^verbatim>\<open>std::variant\<close> is the datatype
  \<open>RedisData\<close>; \<^verbatim>\<open>std::get\<close> on the wrong alternative throws, \<^verbatim>\<open>std::get_if\<close> gives null, and
  \<open>obj_ok\<close> says that tags and alternative agree. An \<^verbatim>\<open>unordered_map\<close> is an association list with
  distinct keys and an \<^verbatim>\<open>unordered_set\<close> a list without duplicates; nothing depends on their order,
  and where the program iterates over one, the order it visits is a parameter. The sizes that
  \<^verbatim>\<open>memoryUsage\<close> adds up belong to the platform (sizes of types, string capacities, bucket counts) and
  are a parameter of the model.
\<close>

section \<open>The value\<close>

datatype DataType = STRING | LIST | HASH | SET | ZSET

datatype Encoding = RAW | INTEGER | LINKEDLIST | HASHTABLE | SKIPLIST

record ZSetData =
  zskiplist :: skiplist
  zdict :: "(bytes \<times> dbl) list"

datatype RedisData =
    DString bytes
  | DInt int
  | DDeque "bytes list"
  | DMap "(bytes \<times> bytes) list"
  | DSet "bytes list"
  | DZSet ZSetData

record RedisObject =
  otype :: DataType
  encoding :: Encoding
  odata :: RedisData

section \<open>Operations\<close>

definition createString :: "bytes \<Rightarrow> RedisObject" where
  "createString val =
     (if val \<noteq> [] then
        (case strtoll val of (parsed, end_off, erange) \<Rightarrow>
           if end_off = length val \<and> \<not> erange \<and> LLONG_MIN \<le> parsed \<and> parsed \<le> LLONG_MAX
           then \<lparr>otype = STRING, encoding = INTEGER, odata = DInt parsed\<rparr>
           else \<lparr>otype = STRING, encoding = RAW, odata = DString val\<rparr>)
      else \<lparr>otype = STRING, encoding = RAW, odata = DString val\<rparr>)"

definition createList :: RedisObject where
  "createList = \<lparr>otype = LIST, encoding = LINKEDLIST, odata = DDeque []\<rparr>"

definition createHash :: RedisObject where
  "createHash = \<lparr>otype = HASH, encoding = HASHTABLE, odata = DMap []\<rparr>"

definition createSet :: RedisObject where
  "createSet = \<lparr>otype = SET, encoding = HASHTABLE, odata = DSet []\<rparr>"

text \<open>The skip list of a new sorted set seeds its own generator.\<close>

definition createZSet :: "(nat \<Rightarrow> nat) \<Rightarrow> RedisObject" where
  "createZSet seed =
     \<lparr>otype = ZSET, encoding = SKIPLIST, odata = DZSet \<lparr>zskiplist = new_skiplist seed, zdict = []\<rparr>\<rparr>"

fun get_if_int :: "RedisData \<Rightarrow> int option" where
  "get_if_int (DInt i) = Some i"
| "get_if_int _ = None"

fun get_if_string :: "RedisData \<Rightarrow> bytes option" where
  "get_if_string (DString s) = Some s"
| "get_if_string _ = None"

fun get_if_deque :: "RedisData \<Rightarrow> bytes list option" where
  "get_if_deque (DDeque xs) = Some xs"
| "get_if_deque _ = None"

fun get_if_map :: "RedisData \<Rightarrow> (bytes \<times> bytes) list option" where
  "get_if_map (DMap m) = Some m"
| "get_if_map _ = None"

fun get_if_set :: "RedisData \<Rightarrow> bytes list option" where
  "get_if_set (DSet xs) = Some xs"
| "get_if_set _ = None"

fun get_if_zset :: "RedisData \<Rightarrow> ZSetData option" where
  "get_if_zset (DZSet z) = Some z"
| "get_if_zset _ = None"

definition asString :: "RedisObject \<Rightarrow> bytes" where
  "asString obj =
     (if encoding obj = INTEGER
      then (case get_if_int (odata obj) of Some i \<Rightarrow> to_string i | None \<Rightarrow> [])
      else (case get_if_string (odata obj) of Some s \<Rightarrow> s | None \<Rightarrow> []))"

record mem_model =
  sizeof_RedisObject :: nat
  sizeof_string :: nat
  sizeof_double :: nat
  sizeof_ptr :: nat
  str_capacity :: "bytes \<Rightarrow> nat"
  bucket_count :: "bytes list \<Rightarrow> nat"

definition memoryUsage :: "mem_model \<Rightarrow> RedisObject \<Rightarrow> 64 word" where
  "memoryUsage mm obj = of_nat (sizeof_RedisObject mm +
     (case otype obj of
        STRING \<Rightarrow>
          if encoding obj = INTEGER then 0
          else (case get_if_string (odata obj) of Some s \<Rightarrow> str_capacity mm s | None \<Rightarrow> 0)
      | LIST \<Rightarrow>
          (case get_if_deque (odata obj) of
             Some xs \<Rightarrow> sum_list (map (\<lambda>s. sizeof_string mm + str_capacity mm s) xs) | None \<Rightarrow> 0)
      | HASH \<Rightarrow>
          (case get_if_map (odata obj) of
             Some m \<Rightarrow> bucket_count mm (map fst m) * sizeof_ptr mm +
               sum_list (map (\<lambda>(k, v). sizeof_string mm * 2 + str_capacity mm k + str_capacity mm v) m)
           | None \<Rightarrow> 0)
      | SET \<Rightarrow>
          (case get_if_set (odata obj) of
             Some xs \<Rightarrow> bucket_count mm xs * sizeof_ptr mm +
               sum_list (map (\<lambda>s. sizeof_string mm + str_capacity mm s) xs)
           | None \<Rightarrow> 0)
      | ZSET \<Rightarrow>
          (case get_if_zset (odata obj) of
             Some z \<Rightarrow>
               sl_size (zskiplist z) * (sizeof_string mm + 32 + sizeof_double mm + 2 * sizeof_ptr mm) +
               bucket_count mm (map fst (zdict z)) * sizeof_ptr mm +
               sum_list (map (\<lambda>(m, s). sizeof_string mm + str_capacity mm m + sizeof_double mm) (zdict z))
           | None \<Rightarrow> 0)))"

section \<open>Well-formed objects\<close>

text \<open>Tags and active alternative agree, integers fit 64 bits, containers have no duplicate keys.\<close>

fun obj_data_ok :: "DataType \<Rightarrow> Encoding \<Rightarrow> RedisData \<Rightarrow> bool" where
  "obj_data_ok STRING RAW (DString s) = True"
| "obj_data_ok STRING INTEGER (DInt i) = (LLONG_MIN \<le> i \<and> i \<le> LLONG_MAX)"
| "obj_data_ok LIST LINKEDLIST (DDeque xs) = True"
| "obj_data_ok HASH HASHTABLE (DMap m) = distinct (map fst m)"
| "obj_data_ok SET HASHTABLE (DSet xs) = distinct xs"
| "obj_data_ok ZSET SKIPLIST (DZSet z) = distinct (map fst (zdict z))"
| "obj_data_ok _ _ _ = False"

definition obj_ok :: "RedisObject \<Rightarrow> bool" where
  "obj_ok obj = obj_data_ok (otype obj) (encoding obj) (odata obj)"

lemma obj_ok_create [simp]:
  "obj_ok (createString v)" "obj_ok createList" "obj_ok createHash" "obj_ok createSet" "obj_ok (createZSet r)"
  by (auto simp: obj_ok_def createString_def createList_def createHash_def createSet_def createZSet_def
      split: prod.split)

lemma otype_create [simp]:
  "otype (createString v) = STRING" "otype createList = LIST" "otype createHash = HASH"
  "otype createSet = SET" "otype (createZSet r) = ZSET"
  by (auto simp: createString_def createList_def createHash_def createSet_def createZSet_def split: prod.split)

lemma obj_ok_LIST:
  assumes "obj_ok obj" "otype obj = LIST"
  obtains xs where "odata obj = DDeque xs" "encoding obj = LINKEDLIST"
  using assms by (cases "encoding obj"; cases "odata obj") (auto simp: obj_ok_def)

lemma obj_ok_HASH:
  assumes "obj_ok obj" "otype obj = HASH"
  obtains m where "odata obj = DMap m" "distinct (map fst m)" "encoding obj = HASHTABLE"
  using assms by (cases "encoding obj"; cases "odata obj") (auto simp: obj_ok_def)

lemma obj_ok_SET:
  assumes "obj_ok obj" "otype obj = SET"
  obtains xs where "odata obj = DSet xs" "distinct xs" "encoding obj = HASHTABLE"
  using assms by (cases "encoding obj"; cases "odata obj") (auto simp: obj_ok_def)

lemma obj_ok_ZSET:
  assumes "obj_ok obj" "otype obj = ZSET"
  obtains z where "odata obj = DZSet z" "distinct (map fst (zdict z))" "encoding obj = SKIPLIST"
  using assms by (cases "encoding obj"; cases "odata obj") (auto simp: obj_ok_def)

section \<open>Integer encoding\<close>

text \<open>What a stored string reads back as: itself, unless \<^verbatim>\<open>strtoll\<close> accepts all of it, and then the
  canonical decimal form of its value.\<close>

definition canonical :: "bytes \<Rightarrow> bytes" where
  "canonical v = (case strtoll v of (n, e, erange) \<Rightarrow>
     if v \<noteq> [] \<and> e = length v \<and> \<not> erange then to_string n else v)"

lemma asString_createString: "asString (createString v) = canonical v"
  using strtoll_range [of v] by (auto simp: asString_def createString_def canonical_def split: prod.splits)

lemma canonical_to_string: "LLONG_MIN \<le> i \<Longrightarrow> i \<le> LLONG_MAX \<Longrightarrow> canonical (to_string i) = to_string i"
  by (simp add: canonical_def strtoll_to_string)

lemma canonical_idem: "canonical (canonical v) = canonical v"
proof -
  obtain n e r where s: "strtoll v = (n, e, r)" by (cases "strtoll v")
  show ?thesis
    using strtoll_range [OF s] s by (auto simp: canonical_def strtoll_to_string)
qed

lemma canonical_not_number:
  "(\<forall>c \<in> set v. \<not> isdigit c) \<Longrightarrow> canonical v = v"
proof -
  assume a: "\<forall>c \<in> set v. \<not> isdigit c"
  have "\<not> isdigit c" if "c \<in> set (drop n (dropWhile isspace v))" for c n
    using a that by (meson in_set_dropD set_dropWhileD)
  then have "takeWhile isdigit (drop n (dropWhile isspace v)) = []" for n
    by (metis list.set_sel(1) takeWhile_eq_Nil_iff)
  then show ?thesis by (simp add: canonical_def strtoll_def Let_def)
qed

section \<open>Properties\<close>

text \<open>\<^verbatim>\<open>createString\<close> followed by \<^verbatim>\<open>asString\<close> gives back the value itself when it is not
  an integer literal in the sense of \<^verbatim>\<open>strtoll\<close>, and otherwise the canonical decimal of the same
  number; so storing what was read once more changes nothing, and canonical 64-bit decimals survive
  unchanged. The object made is well-formed and of type STRING.\<close>
theorem string_encoding_roundtrip:
  "asString (createString v) = canonical v \<and>
   asString (createString (asString (createString v))) = asString (createString v) \<and>
   obj_ok (createString v) \<and> otype (createString v) = STRING"
  by (simp add: asString_createString canonical_idem)

text \<open>The integer encoding is lossy: a value that \<^verbatim>\<open>strtoll\<close> accepts completely without
  being in canonical form, such as one with a leading zero, a plus sign or leading blanks, is read
  back as a different string.\<close>
theorem string_encoding_lossy:
  "asString (createString ''007'') = ''7'' \<and> asString (createString ''+5'') = ''5'' \<and>
   asString (createString '' 42'') = ''42'' \<and> asString (createString ''-0'') = ''0'' \<and>
   asString (createString ''42 '') = ''42 ''"
  by code_simp

end
