(* ===== verification/Database.thy ===== *)
theory Database
  imports Hash_Table TTL_Heap Redis_Object
begin

text \<open>
  \<^verbatim>\<open>store/Database\<close>: the hash table of objects, the heap of deadlines and the memory counter, kept
  together by the named operations the command handlers call. A reading of the system clock is an
  argument of the operation that takes it (\<open>now\<close>; \<^verbatim>\<open>ttl\<close> takes two, \<^verbatim>\<open>scan\<close> one per key). A pointer
  returned by \<^verbatim>\<open>findEntry\<close> is the entry it points to, and a write through it is \<open>modifyEntry\<close>.
  \<open>db_inv\<close> is the coherence of table and heap; \<open>alive\<close> is the map of the keys that have not expired
  at a given time, which is what clients observe.
\<close>

section \<open>State and operations\<close>

record database =
  dtable :: "RedisObject hash_table"
  ttlHeap :: ttl_heap
  usedMemory :: "64 word"

definition new_database :: database where
  "new_database = \<lparr>dtable = new_table, ttlHeap = new_heap, usedMemory = 0\<rparr>"

definition checkAndExpire :: "mem_model \<Rightarrow> int \<Rightarrow> database \<Rightarrow> bytes \<Rightarrow> RedisObject htentry \<Rightarrow> bool \<times> database" where
  "checkAndExpire mm now db k e =
     (if expireAt e < 0 then (False, db)
      else if now < expireAt e then (False, db)
      else (True, db\<lparr>usedMemory := usedMemory db - memoryUsage mm (evalue e),
                     ttlHeap := ttl_remove (ttlHeap db) k,
                     dtable := snd (ht_del (dtable db) k)\<rparr>))"

definition db_get :: "mem_model \<Rightarrow> int \<Rightarrow> database \<Rightarrow> bytes \<Rightarrow> bytes option \<times> database" where
  "db_get mm now db k =
     (let db1 = db\<lparr>dtable := rehashStep (dtable db) kRehashBatchSize\<rparr> in
      case ht_find (dtable db1) k of
        None \<Rightarrow> (None, db1)
      | Some e \<Rightarrow>
          (case checkAndExpire mm now db1 k e of (expired, db2) \<Rightarrow>
             if expired then (None, db2)
             else if otype (evalue e) \<noteq> STRING then (None, db2)
             else (Some (asString (evalue e)), db2)))"

definition modifyEntry :: "database \<Rightarrow> bytes \<Rightarrow> (RedisObject htentry \<Rightarrow> RedisObject htentry) \<Rightarrow> database" where
  "modifyEntry db k f = db\<lparr>dtable := ht_modify (dtable db) k f\<rparr>"

definition subtractMemory :: "mem_model \<Rightarrow> database \<Rightarrow> bytes \<Rightarrow> database" where
  "subtractMemory mm db k =
     (case ht_find (dtable db) k of
        None \<Rightarrow> db
      | Some e \<Rightarrow> db\<lparr>usedMemory := usedMemory db - memoryUsage mm (evalue e)\<rparr>)"

definition db_set :: "mem_model \<Rightarrow> database \<Rightarrow> bytes \<Rightarrow> bytes \<Rightarrow> database" where
  "db_set mm db k v =
     (let db1 = db\<lparr>ttlHeap := ttl_remove (ttlHeap db) k\<rparr>;
          db2 = subtractMemory mm db1 k;
          db3 = db2\<lparr>dtable := ht_set (dtable db2) k (createString v)\<rparr>
      in case ht_find (dtable db3) k of
           None \<Rightarrow> db3
         | Some e \<Rightarrow>
             let db4 = modifyEntry db3 k (\<lambda>e. e\<lparr>expireAt := - 1\<rparr>)
             in db4\<lparr>usedMemory := usedMemory db4 + memoryUsage mm (evalue e)\<rparr>)"

definition db_del :: "mem_model \<Rightarrow> database \<Rightarrow> bytes \<Rightarrow> bool \<times> database" where
  "db_del mm db k =
     (let db1 = subtractMemory mm db k;
          db2 = db1\<lparr>ttlHeap := ttl_remove (ttlHeap db1) k\<rparr>;
          (found, t) = ht_del (dtable db2) k
      in (found, db2\<lparr>dtable := t\<rparr>))"

definition db_findEntry :: "mem_model \<Rightarrow> int \<Rightarrow> database \<Rightarrow> bytes \<Rightarrow> RedisObject htentry option \<times> database" where
  "db_findEntry mm now db k =
     (let db1 = db\<lparr>dtable := rehashStep (dtable db) kRehashBatchSize\<rparr> in
      case ht_find (dtable db1) k of
        None \<Rightarrow> (None, db1)
      | Some e \<Rightarrow>
          (case checkAndExpire mm now db1 k e of (expired, db2) \<Rightarrow>
             if expired then (None, db2) else (Some e, db2)))"

definition db_exists :: "mem_model \<Rightarrow> int \<Rightarrow> database \<Rightarrow> bytes \<Rightarrow> bool \<times> database" where
  "db_exists mm now db k =
     (let db1 = db\<lparr>dtable := rehashStep (dtable db) kRehashBatchSize\<rparr> in
      case ht_find (dtable db1) k of
        None \<Rightarrow> (False, db1)
      | Some e \<Rightarrow>
          (case checkAndExpire mm now db1 k e of (expired, db2) \<Rightarrow>
             if expired then (False, db2) else (True, db2)))"

definition db_keys :: "database \<Rightarrow> bytes list \<times> database" where
  "db_keys db =
     (let db1 = db\<lparr>dtable := rehashStep (dtable db) kRehashBatchSize\<rparr> in (ht_keys (dtable db1), db1))"

text \<open>The filter loop of \<^verbatim>\<open>scan\<close>; \<open>clk i\<close> is the clock at the i-th key.\<close>

fun scan_filter :: "mem_model \<Rightarrow> (nat \<Rightarrow> int) \<Rightarrow> nat \<Rightarrow> bytes \<Rightarrow> bytes list \<Rightarrow> database \<Rightarrow> bytes list \<times> database" where
  "scan_filter mm clk i pattern [] db = ([], db)"
| "scan_filter mm clk i pattern (k # ks) db =
     (case ht_find (dtable db) k of
        None \<Rightarrow> scan_filter mm clk (i + 1) pattern ks db
      | Some e \<Rightarrow>
          (case checkAndExpire mm (clk i) db k e of (expired, db1) \<Rightarrow>
             if expired then scan_filter mm clk (i + 1) pattern ks db1
             else (case scan_filter mm clk (i + 1) pattern ks db1 of (r, db2) \<Rightarrow>
                     (if pattern = ''*'' \<or> k = pattern then k # r else r, db2))))"

definition db_scan :: "mem_model \<Rightarrow> (nat \<Rightarrow> int) \<Rightarrow> database \<Rightarrow> nat \<Rightarrow> nat \<Rightarrow> bytes \<Rightarrow> (nat \<times> bytes list) \<times> database" where
  "db_scan mm clk db cursor cnt pattern =
     (let db1 = db\<lparr>dtable := rehashStep (dtable db) kRehashBatchSize\<rparr>;
          (nextCursor, rawKeys) = ht_scan (dtable db1) cursor cnt;
          (filtered, db2) = scan_filter mm clk 0 pattern rawKeys db1
      in ((nextCursor, filtered), db2))"

definition db_dbsize :: "database \<Rightarrow> nat" where
  "db_dbsize db = ht_size (dtable db)"

definition db_rehashStep :: "database \<Rightarrow> database" where
  "db_rehashStep db = db\<lparr>dtable := rehashStep (dtable db) kRehashBatchSize\<rparr>"

definition db_setExpire :: "mem_model \<Rightarrow> int \<Rightarrow> database \<Rightarrow> bytes \<Rightarrow> int \<Rightarrow> bool \<times> database" where
  "db_setExpire mm now db k deadlineMs =
     (case ht_find (dtable db) k of
        None \<Rightarrow> (False, db)
      | Some e \<Rightarrow>
          (case checkAndExpire mm now db k e of (expired, db1) \<Rightarrow>
             if expired then (False, db1)
             else let db2 = modifyEntry db1 k (\<lambda>e. e\<lparr>expireAt := deadlineMs\<rparr>)
                  in (True, db2\<lparr>ttlHeap := ttl_push (ttlHeap db2) k deadlineMs\<rparr>)))"

definition db_removeExpire :: "database \<Rightarrow> bytes \<Rightarrow> database" where
  "db_removeExpire db k =
     (case ht_find (dtable db) k of
        None \<Rightarrow> db
      | Some e \<Rightarrow>
          let db1 = modifyEntry db k (\<lambda>e. e\<lparr>expireAt := - 1\<rparr>)
          in db1\<lparr>ttlHeap := ttl_remove (ttlHeap db1) k\<rparr>)"

definition db_ttl :: "int \<Rightarrow> int \<Rightarrow> database \<Rightarrow> bytes \<Rightarrow> int \<times> database" where
  "db_ttl now1 now2 db k =
     (case ht_find (dtable db) k of
        None \<Rightarrow> (- 2, db)
      | Some e \<Rightarrow>
          if expireAt e \<ge> 0 \<and> now1 \<ge> expireAt e
          then (- 2, db\<lparr>ttlHeap := ttl_remove (ttlHeap db) k, dtable := snd (ht_del (dtable db) k)\<rparr>)
          else if expireAt e < 0 then (- 1, db)
          else (expireAt e - now2, db))"

definition expire_key :: "mem_model \<Rightarrow> bytes \<Rightarrow> database \<Rightarrow> database" where
  "expire_key mm k db =
     (let db1 = subtractMemory mm db k in db1\<lparr>dtable := snd (ht_del (dtable db1) k)\<rparr>)"

definition db_activeExpireCycle :: "mem_model \<Rightarrow> int \<Rightarrow> database \<Rightarrow> int \<Rightarrow> database" where
  "db_activeExpireCycle mm now db maxWork =
     (case popExpired (ttlHeap db) now maxWork of (expired, h) \<Rightarrow>
        fold (expire_key mm) expired (db\<lparr>ttlHeap := h\<rparr>))"

definition db_setObject :: "mem_model \<Rightarrow> database \<Rightarrow> bytes \<Rightarrow> RedisObject \<Rightarrow> database" where
  "db_setObject mm db k obj =
     (let db1 = subtractMemory mm db k;
          db2 = db1\<lparr>dtable := ht_set (dtable db1) k obj\<rparr>
      in case ht_find (dtable db2) k of
           None \<Rightarrow> db2
         | Some e \<Rightarrow> db2\<lparr>usedMemory := usedMemory db2 + memoryUsage mm (evalue e)\<rparr>)"

definition db_flushdb :: "database \<Rightarrow> database" where
  "db_flushdb db = db\<lparr>dtable := flushAll (dtable db), ttlHeap := new_heap, usedMemory := 0\<rparr>"

definition db_expiryCount :: "database \<Rightarrow> nat" where
  "db_expiryCount db = ht_expiryCount (dtable db)"

section \<open>Coherence and the live keys\<close>

text \<open>The entries and the deadlines of a state.\<close>

abbreviation entry_of :: "database \<Rightarrow> bytes \<rightharpoonup> RedisObject htentry" where
  "entry_of db \<equiv> ht_map (dtable db)"

abbreviation due :: "database \<Rightarrow> bytes \<rightharpoonup> int" where
  "due db \<equiv> deadline (ttlHeap db)"

text \<open>Every expiry time is in the heap, and every deadline in the heap is the expiry field of an
  entry.\<close>

definition coherent :: "(bytes \<rightharpoonup> RedisObject htentry) \<Rightarrow> (bytes \<rightharpoonup> int) \<Rightarrow> bool" where
  "coherent m d =
     ((\<forall>k e. m k = Some e \<longrightarrow> 0 \<le> expireAt e \<longrightarrow> d k = Some (expireAt e)) \<and>
      (\<forall>k t. d k = Some t \<longrightarrow> (\<exists>e. m k = Some e \<and> expireAt e = t)))"

definition db_inv :: "database \<Rightarrow> bool" where
  "db_inv db =
     (ht_inv (dtable db) \<and> ttl_inv (ttlHeap db) \<and> coherent (entry_of db) (due db) \<and>
      (\<forall>k e. entry_of db k = Some e \<longrightarrow> obj_ok (evalue e)))"

definition expired :: "int \<Rightarrow> RedisObject htentry \<Rightarrow> bool" where
  "expired now e = (0 \<le> expireAt e \<and> expireAt e \<le> now)"

text \<open>What a client can see at a time: the objects of the keys that have not expired, with their
  expiry times (-1 or another negative number for none).\<close>

definition alive_map :: "int \<Rightarrow> (bytes \<rightharpoonup> RedisObject htentry) \<Rightarrow> bytes \<rightharpoonup> RedisObject \<times> int" where
  "alive_map now m k = (case m k of None \<Rightarrow> None | Some e \<Rightarrow> if expired now e then None else Some (evalue e, expireAt e))"

definition alive :: "database \<Rightarrow> int \<Rightarrow> bytes \<rightharpoonup> RedisObject \<times> int" where
  "alive db now = alive_map now (entry_of db)"

section \<open>Coherence is kept by the elementary updates\<close>

lemma coherent_empty: "coherent Map.empty Map.empty"
  by (simp add: coherent_def)

lemma coherent_remove: "coherent m d \<Longrightarrow> coherent (m(k := None)) (d(k := None))"
  by (auto simp: coherent_def)

lemma coherent_permanent: "coherent m d \<Longrightarrow> expireAt e = - 1 \<Longrightarrow> coherent (m(k \<mapsto> e)) (d(k := None))"
  by (auto simp: coherent_def)

lemma coherent_due: "coherent m d \<Longrightarrow> expireAt e = t \<Longrightarrow> coherent (m(k \<mapsto> e)) (d(k \<mapsto> t))"
  by (auto simp: coherent_def)

lemma coherent_keep: "coherent m d \<Longrightarrow> m k = Some e \<Longrightarrow> expireAt e' = expireAt e \<Longrightarrow> coherent (m(k \<mapsto> e')) d"
  by (force simp: coherent_def)

lemma coherent_absent: "coherent m d \<Longrightarrow> m k = None \<Longrightarrow> d k = None"
  by (cases "d k") (fastforce simp: coherent_def)+

lemma coherent_fresh: "coherent m d \<Longrightarrow> m k = None \<Longrightarrow> expireAt e = - 1 \<Longrightarrow> coherent (m(k \<mapsto> e)) d"
  using coherent_permanent [of m d e k] coherent_absent [of m d k] by (simp add: fun_upd_idem)

lemma coherent_restrict:
  "coherent m d \<Longrightarrow> coherent (m |` (- S)) (d |` (- S))"
  by (auto simp: coherent_def restrict_map_def)

lemma db_invI [inv_intro]:
  assumes "ht_inv (dtable db)" "ttl_inv (ttlHeap db)" "coherent (entry_of db) (due db)"
    and "\<And>k e. entry_of db k = Some e \<Longrightarrow> obj_ok (evalue e)"
  shows "db_inv db"
  using assms by (simp add: db_inv_def)

lemma db_invD:
  assumes "db_inv db"
  shows "ht_inv (dtable db)" "ttl_inv (ttlHeap db)" "coherent (entry_of db) (due db)"
    "entry_of db k = Some e \<Longrightarrow> obj_ok (evalue e)"
  using assms by (simp_all add: db_inv_def)

lemma db_inv_new: "db_inv new_database" "entry_of new_database = Map.empty" "due new_database = Map.empty"
  by (simp_all add: db_inv_def new_database_def th.invar_empty th.dl_empty coherent_empty)

lemma find_entry_of: "db_inv db \<Longrightarrow> ht_find (dtable db) k = entry_of db k"
  by (simp add: ht_find_map db_invD(1))

section \<open>The operations\<close>

text \<open>\<open>same_data db db'\<close>: the same entries and deadlines, in well-formed states.\<close>

definition same_data :: "database \<Rightarrow> database \<Rightarrow> bool" where
  "same_data db db' = (db_inv db' \<and> entry_of db' = entry_of db \<and> due db' = due db)"

text \<open>\<open>without k db db'\<close>: the key \<open>k\<close> has gone from both.\<close>

definition without :: "bytes \<Rightarrow> database \<Rightarrow> database \<Rightarrow> bool" where
  "without k db db' = (db_inv db' \<and> entry_of db' = (entry_of db)(k := None) \<and> due db' = (due db)(k := None))"

lemma same_dataI:
  assumes "db_inv db" "ht_inv (dtable db')" "entry_of db' = entry_of db" "ttlHeap db' = ttlHeap db"
  shows "same_data db db'"
  using assms by (auto simp: same_data_def db_inv_def)

lemma same_data_rehash:
  assumes "db_inv db"
  shows "same_data db (db\<lparr>dtable := rehashStep (dtable db) n\<rparr>)"
  using rehashStep_ok [OF db_invD(1) [OF assms]] by (intro same_dataI [OF assms]) simp_all

lemma same_data_memory: "db_inv db \<Longrightarrow> same_data db (db\<lparr>usedMemory := u\<rparr>)"
  by (rule same_dataI) (simp_all add: db_invD)

lemma same_data_subtract: "db_inv db \<Longrightarrow> same_data db (subtractMemory mm db k)"
  using same_data_memory [of db "usedMemory db"]
  by (auto simp: subtractMemory_def same_data_memory split: option.split)

lemma same_data_refl: "db_inv db \<Longrightarrow> same_data db db"
  by (simp add: same_data_def)

lemma same_data_trans: "same_data a b \<Longrightarrow> same_data b c \<Longrightarrow> same_data a c"
  by (simp add: same_data_def)

lemma same_data_inv: "same_data a b \<Longrightarrow> db_inv b"
  by (simp add: same_data_def)

lemma without_same: "same_data a b \<Longrightarrow> without k b c \<Longrightarrow> without k a c"
  by (simp add: same_data_def without_def)

lemma withoutI:
  assumes inv: "db_inv db" and t: "dtable db' = snd (ht_del (dtable db) k)"
    and h: "ttlHeap db' = ttl_remove (ttlHeap db) k"
  shows "without k db db'"
proof -
  obtain f tb where d: "ht_del (dtable db) k = (f, tb)" by fastforce
  note dd = ht_del_ok [OF db_invD(1) [OF inv] d] and r = th.invar_remove [OF db_invD(2) [OF inv], of k]
    th.dl_remove [OF db_invD(2) [OF inv], of k]
  have e: "entry_of db' = (entry_of db)(k := None)" "due db' = (due db)(k := None)"
    using t h d dd r by simp_all
  have "db_inv db'"
  proof (rule db_invI)
    show "coherent (entry_of db') (due db')" unfolding e by (rule coherent_remove [OF db_invD(3) [OF inv]])
    show "obj_ok (evalue x)" if "entry_of db' k' = Some x" for k' x
      using that e(1) db_invD(4) [OF inv, of k' x] by (simp split: if_splits)
  qed (use t h d dd r in simp_all)
  with e show ?thesis by (simp add: without_def)
qed

lemma checkAndExpire_ok:
  assumes inv: "db_inv db" and c: "checkAndExpire mm now db k e = (b, db')"
  shows "b = expired now e" and "if b then without k db db' else db' = db"
proof -
  show b: "b = expired now e" using c by (auto simp: checkAndExpire_def expired_def split: if_splits)
  have "without k db db'" if b
    using c that by (intro withoutI [OF inv]) (auto simp: checkAndExpire_def split: if_splits)
  moreover have "db' = db" if "\<not> b" using c that by (auto simp: checkAndExpire_def split: if_splits)
  ultimately show "if b then without k db db' else db' = db" by simp
qed

text \<open>\<open>reaped now k db db'\<close>: a look-up of \<open>k\<close> has dropped its entry if that had expired, and changed
  nothing else.\<close>

definition reaped :: "int \<Rightarrow> bytes \<Rightarrow> database \<Rightarrow> database \<Rightarrow> bool" where
  "reaped now k db db' =
     (case entry_of db k of
        Some e \<Rightarrow> if expired now e then without k db db' else same_data db db'
      | None \<Rightarrow> same_data db db')"

lemma db_findEntry_ok:
  assumes inv: "db_inv db" and f: "db_findEntry mm now db k = (r, db')"
  shows "reaped now k db db'"
    and "r = (case entry_of db k of None \<Rightarrow> None | Some e \<Rightarrow> if expired now e then None else Some e)"
proof -
  let ?db1 = "db\<lparr>dtable := rehashStep (dtable db) kRehashBatchSize\<rparr>"
  note s1 = same_data_rehash [OF inv, of kRehashBatchSize]
  note i1 = same_data_inv [OF s1]
  have e1: "ht_find (dtable ?db1) k = entry_of db k"
    using find_entry_of [OF i1, of k] s1 by (simp add: same_data_def)
  have "reaped now k db db' \<and>
    r = (case entry_of db k of None \<Rightarrow> None | Some e \<Rightarrow> if expired now e then None else Some e)"
  proof (cases "entry_of db k")
    case None
    with f e1 s1 show ?thesis by (simp add: db_findEntry_def reaped_def)
  next
    case (Some e)
    obtain b db2 where c: "checkAndExpire mm now ?db1 k e = (b, db2)" by fastforce
    note cc = checkAndExpire_ok [OF i1 c]
    have "r = (if b then None else Some e)" "db' = db2"
      using f e1 Some c by (auto simp: db_findEntry_def split: if_splits)
    with cc Some s1 without_same [OF s1, of k db2] show ?thesis by (auto simp: reaped_def)
  qed
  then show "reaped now k db db'"
    and "r = (case entry_of db k of None \<Rightarrow> None | Some e \<Rightarrow> if expired now e then None else Some e)" by simp_all
qed

lemma reaped_inv: "reaped now k db db' \<Longrightarrow> db_inv db'"
  by (auto simp: reaped_def same_data_def without_def split: option.splits if_splits)

lemma reaped_due: "reaped now k db db' \<Longrightarrow> due db' \<subseteq>\<^sub>m due db"
  by (auto simp: reaped_def same_data_def without_def map_le_def split: option.splits if_splits)

text \<open>Lazy expiry is invisible to clients, now and later.\<close>

lemma reaped_alive:
  assumes "reaped now k db db'" "now \<le> t"
  shows "alive db' t = alive db t"
  using assms
  by (auto simp: reaped_def same_data_def without_def alive_def alive_map_def fun_eq_iff expired_def
      split: option.splits if_splits)

lemma reaped_entry:
  assumes "reaped now k db db'"
  shows "entry_of db' k' = (if k' = k then (case entry_of db k of None \<Rightarrow> None
      | Some e \<Rightarrow> if expired now e then None else Some e) else entry_of db k')"
  using assms by (auto simp: reaped_def same_data_def without_def split: option.splits if_splits)

text \<open>\<^verbatim>\<open>get\<close> and \<^verbatim>\<open>exists\<close> are \<^verbatim>\<open>findEntry\<close> with another result.\<close>

lemma db_get_findEntry:
  "db_get mm now db k = (case db_findEntry mm now db k of (r, db') \<Rightarrow>
     (case r of Some e \<Rightarrow> if otype (evalue e) = STRING then Some (asString (evalue e)) else None | None \<Rightarrow> None, db'))"
  by (auto simp: db_get_def db_findEntry_def Let_def split: option.split prod.split)

lemma db_exists_findEntry:
  "db_exists mm now db k = (case db_findEntry mm now db k of (r, db') \<Rightarrow> (r \<noteq> None, db'))"
  by (auto simp: db_exists_def db_findEntry_def Let_def split: option.split prod.split)

lemma modifyEntry_ok:
  assumes inv: "db_inv db" and e: "entry_of db k = Some e"
    and f: "\<And>e. ekey (f e) = ekey e \<and> hashCode (f e) = hashCode e"
  shows "ht_inv (dtable (modifyEntry db k f))" "entry_of (modifyEntry db k f) = (entry_of db)(k \<mapsto> f e)"
    "ttlHeap (modifyEntry db k f) = ttlHeap db" "usedMemory (modifyEntry db k f) = usedMemory db"
  using ht_modify_ok [OF db_invD(1) [OF inv] f, of k] e by (simp_all add: modifyEntry_def)

text \<open>A write to the value of an entry, as the handlers make it.\<close>

lemma modify_value_ok:
  assumes inv: "db_inv db" and e: "entry_of db k = Some e" and g: "obj_ok (g (evalue e))"
  defines "db' \<equiv> modifyEntry db k (\<lambda>e. e\<lparr>evalue := g (evalue e)\<rparr>)"
  shows "db_inv db'" "entry_of db' = (entry_of db)(k \<mapsto> e\<lparr>evalue := g (evalue e)\<rparr>)" "due db' = due db"
proof -
  note m = modifyEntry_ok [OF inv e, of "\<lambda>e. e\<lparr>evalue := g (evalue e)\<rparr>", folded db'_def, simplified]
  show "entry_of db' = (entry_of db)(k \<mapsto> e\<lparr>evalue := g (evalue e)\<rparr>)" "due db' = due db" using m by simp_all
  show "db_inv db'"
  proof (rule db_invI)
    show "coherent (entry_of db') (due db')"
      using m coherent_keep [OF db_invD(3) [OF inv] e] by simp
    show "obj_ok (evalue x)" if "entry_of db' k' = Some x" for k' x
      using that m g db_invD(4) [OF inv, of k' x] by (auto split: if_splits)
  qed (use m db_invD [OF inv] in simp_all)
qed

lemma db_set_ok:
  fixes mm :: mem_model and k v :: bytes
  assumes inv: "db_inv db"
  defines "db' \<equiv> db_set mm db k v"
  shows "db_inv db'" and "entry_of db' = (entry_of db)(k \<mapsto> mk_entry k (createString v) (- 1))"
    and "due db' = (due db)(k := None)"
proof -
  let ?o = "createString v"
  define db1 where "db1 = db\<lparr>ttlHeap := ttl_remove (ttlHeap db) k\<rparr>"
  define db2 where "db2 = subtractMemory mm db1 k"
  define db3 where "db3 = db2\<lparr>dtable := ht_set (dtable db2) k ?o\<rparr>"
  have t2: "dtable db2 = dtable db" "ttlHeap db2 = ttl_remove (ttlHeap db) k"
    by (simp_all add: db2_def db1_def subtractMemory_def split: option.split)
  note hs = ht_set_ok [OF db_invD(1) [OF inv], of k ?o]
  let ?e = "mk_entry k ?o (kept_expiry (dtable db) k)"
  have t3: "ht_inv (dtable db3)" "ht_map (dtable db3) = (entry_of db)(k \<mapsto> ?e)"
    "ttlHeap db3 = ttl_remove (ttlHeap db) k"
    using hs t2 by (simp_all add: db3_def)
  have db': "db' = (modifyEntry db3 k (\<lambda>e. e\<lparr>expireAt := - 1\<rparr>))
      \<lparr>usedMemory := usedMemory (modifyEntry db3 k (\<lambda>e. e\<lparr>expireAt := - 1\<rparr>)) + memoryUsage mm ?o\<rparr>"
    using ht_find_map [OF t3(1), of k] t3(2)
    by (simp add: db'_def db_set_def Let_def db3_def db2_def db1_def mk_entry_def)
  have m: "ht_inv (dtable db')" "entry_of db' = (entry_of db)(k \<mapsto> mk_entry k ?o (- 1))"
    "ttlHeap db' = ttl_remove (ttlHeap db) k"
    using ht_modify_ok [OF t3(1), of "\<lambda>e. e\<lparr>expireAt := - 1\<rparr>" k] t3(2,3)
    by (simp_all add: db' modifyEntry_def mk_entry_def)
  show d: "due db' = (due db)(k := None)" using m(3) th.dl_remove [OF db_invD(2) [OF inv]] by simp
  show "entry_of db' = (entry_of db)(k \<mapsto> mk_entry k ?o (- 1))" by (rule m(2))
  show "db_inv db'"
  proof (rule db_invI)
    show "ttl_inv (ttlHeap db')" using m(3) th.invar_remove [OF db_invD(2) [OF inv]] by simp
    show "coherent (entry_of db') (due db')"
      unfolding m(2) d by (rule coherent_permanent [OF db_invD(3) [OF inv]]) (simp add: mk_entry_def)
    show "obj_ok (evalue x)" if "entry_of db' k' = Some x" for k' x
      using that m(2) db_invD(4) [OF inv, of k' x] by (auto simp: mk_entry_def split: if_splits)
  qed (rule m(1))
qed

lemma db_del_ok:
  assumes inv: "db_inv db" and d: "db_del mm db k = (b, db')"
  shows "b \<longleftrightarrow> entry_of db k \<noteq> None" and "without k db db'"
proof -
  let ?db1 = "subtractMemory mm db k"
  have t1: "dtable ?db1 = dtable db" "ttlHeap ?db1 = ttlHeap db"
    by (simp_all add: subtractMemory_def split: option.split)
  obtain f t where ht: "ht_del (dtable db) k = (f, t)" by fastforce
  from ht_del_ok [OF db_invD(1) [OF inv] ht] d ht t1
  show "b \<longleftrightarrow> entry_of db k \<noteq> None" by (auto simp: db_del_def Let_def)
  show "without k db db'" using d ht t1 by (intro withoutI [OF inv]) (auto simp: db_del_def Let_def)
qed

text \<open>The handlers call \<^verbatim>\<open>setObject\<close> for absent keys only.\<close>

lemma db_setObject_ok:
  fixes mm :: mem_model
  assumes inv: "db_inv db" and n: "entry_of db k = None" and o: "obj_ok obj"
  defines "db' \<equiv> db_setObject mm db k obj"
  shows "db_inv db'" and "entry_of db' = (entry_of db)(k \<mapsto> mk_entry k obj (- 1))" and "due db' = due db"
proof -
  note hs = ht_set_ok [OF db_invD(1) [OF inv], of k obj]
  have ke: "kept_expiry (dtable db) k = - 1"
    using kept_expiry_cases [OF db_invD(1) [OF inv], of k] n by simp
  have t1: "dtable (subtractMemory mm db k) = dtable db" "ttlHeap (subtractMemory mm db k) = ttlHeap db"
    by (simp_all add: subtractMemory_def split: option.split)
  have m: "ht_inv (dtable db')" "entry_of db' = (entry_of db)(k \<mapsto> mk_entry k obj (- 1))"
    "ttlHeap db' = ttlHeap db"
    using hs ke t1 ht_find_map [OF conjunct1 [OF hs], of k]
    by (simp_all add: db'_def db_setObject_def Let_def)
  then show "entry_of db' = (entry_of db)(k \<mapsto> mk_entry k obj (- 1))" "due db' = due db" by simp_all
  show "db_inv db'"
  proof (rule db_invI)
    show "coherent (entry_of db') (due db')"
      unfolding m by (rule coherent_fresh [OF db_invD(3) [OF inv] n]) (simp add: mk_entry_def)
    show "obj_ok (evalue x)" if "entry_of db' k' = Some x" for k' x
      using that m(2) o db_invD(4) [OF inv, of k' x] by (auto simp: mk_entry_def split: if_splits)
  qed (use m db_invD [OF inv] in simp_all)
qed

lemma alive_None: "alive db now k = None \<longleftrightarrow> (\<forall>e. entry_of db k = Some e \<longrightarrow> expired now e)"
  by (auto simp: alive_def alive_map_def split: option.split)

lemma db_setExpire_ok:
  assumes inv: "db_inv db" and s: "db_setExpire mm now db k t = (b, db')"
  shows "b \<longleftrightarrow> alive db now k \<noteq> None" and "\<not> b \<Longrightarrow> reaped now k db db'"
    and "b \<Longrightarrow> db_inv db' \<and> due db' = (due db)(k \<mapsto> t) \<and>
      (\<exists>e. entry_of db k = Some e \<and> entry_of db' = (entry_of db)(k \<mapsto> e\<lparr>expireAt := t\<rparr>))"
proof -
  have "(b \<longleftrightarrow> alive db now k \<noteq> None) \<and> (if \<not> b then reaped now k db db' else
     db_inv db' \<and> due db' = (due db)(k \<mapsto> t) \<and>
      (\<exists>e. entry_of db k = Some e \<and> entry_of db' = (entry_of db)(k \<mapsto> e\<lparr>expireAt := t\<rparr>)))"
  proof (cases "entry_of db k")
    case None
    with s inv find_entry_of [OF inv, of k] show ?thesis
      by (simp add: db_setExpire_def alive_None reaped_def same_data_refl)
  next
    case (Some e)
    obtain x db1 where c: "checkAndExpire mm now db k e = (x, db1)" by fastforce
    note cc = checkAndExpire_ok [OF inv c]
    show ?thesis
    proof (cases x)
      case True
      with s Some c cc find_entry_of [OF inv, of k] show ?thesis
        by (simp add: db_setExpire_def alive_None reaped_def)
    next
      case False
      let ?f = "\<lambda>e :: RedisObject htentry. e\<lparr>expireAt := t\<rparr>"
      have db1: "db1 = db" using cc False by simp
      have db': "b" "db' = (modifyEntry db k ?f)\<lparr>ttlHeap := ttl_push (ttlHeap db) k t\<rparr>"
        using s Some c False db1 find_entry_of [OF inv, of k]
        by (auto simp: db_setExpire_def Let_def modifyEntry_def)
      note m = modifyEntry_ok [OF inv Some, of ?f, simplified]
      have e': "entry_of db' = (entry_of db)(k \<mapsto> ?f e)" "due db' = (due db)(k \<mapsto> t)"
        using m db' th.dl_push [OF db_invD(2) [OF inv]] by simp_all
      have "db_inv db'"
      proof (rule db_invI)
        show "coherent (entry_of db') (due db')"
          unfolding e' by (rule coherent_due [OF db_invD(3) [OF inv]]) simp
        show "obj_ok (evalue y)" if "entry_of db' k' = Some y" for k' y
          using that e' Some db_invD(4) [OF inv] by (auto split: if_splits)
      qed (use db' m th.invar_push [OF db_invD(2) [OF inv]] in simp_all)
      with e' db' Some False cc show ?thesis by (simp add: alive_None)
    qed
  qed
  then show "b \<longleftrightarrow> alive db now k \<noteq> None" and "\<not> b \<Longrightarrow> reaped now k db db'"
    and "b \<Longrightarrow> db_inv db' \<and> due db' = (due db)(k \<mapsto> t) \<and>
      (\<exists>e. entry_of db k = Some e \<and> entry_of db' = (entry_of db)(k \<mapsto> e\<lparr>expireAt := t\<rparr>))"
    by (simp_all split: if_splits)
qed

lemma db_removeExpire_ok:
  assumes inv: "db_inv db"
  shows "db_inv (db_removeExpire db k)"
    and "entry_of (db_removeExpire db k) = (case entry_of db k of None \<Rightarrow> entry_of db
      | Some e \<Rightarrow> (entry_of db)(k \<mapsto> e\<lparr>expireAt := - 1\<rparr>))"
proof -
  have "db_inv (db_removeExpire db k) \<and> entry_of (db_removeExpire db k) =
      (case entry_of db k of None \<Rightarrow> entry_of db | Some e \<Rightarrow> (entry_of db)(k \<mapsto> e\<lparr>expireAt := - 1\<rparr>))"
  proof (cases "entry_of db k")
    case None
    with inv find_entry_of [OF inv, of k] show ?thesis by (simp add: db_removeExpire_def)
  next
    case (Some e)
    let ?f = "\<lambda>e :: RedisObject htentry. e\<lparr>expireAt := - 1\<rparr>"
    note m = modifyEntry_ok [OF inv Some, of ?f, simplified]
    define db' where "db' = db_removeExpire db k"
    have db': "db' = (modifyEntry db k ?f)\<lparr>ttlHeap := ttl_remove (ttlHeap db) k\<rparr>"
      using Some find_entry_of [OF inv, of k] by (simp add: db'_def db_removeExpire_def Let_def modifyEntry_def)
    have e': "entry_of db' = (entry_of db)(k \<mapsto> ?f e)" "due db' = (due db)(k := None)"
      using m db' th.dl_remove [OF db_invD(2) [OF inv]] by simp_all
    have "db_inv db'"
    proof (rule db_invI)
      show "coherent (entry_of db') (due db')"
        unfolding e' by (rule coherent_permanent [OF db_invD(3) [OF inv]]) simp
      show "obj_ok (evalue y)" if "entry_of db' k' = Some y" for k' y
        using that e' Some db_invD(4) [OF inv] by (auto split: if_splits)
    qed (use db' m th.invar_remove [OF db_invD(2) [OF inv]] in simp_all)
    with e' Some show ?thesis by (simp add: db'_def)
  qed
  then show "db_inv (db_removeExpire db k)"
    and "entry_of (db_removeExpire db k) = (case entry_of db k of None \<Rightarrow> entry_of db
      | Some e \<Rightarrow> (entry_of db)(k \<mapsto> e\<lparr>expireAt := - 1\<rparr>))" by simp_all
qed

lemma db_ttl_ok:
  assumes inv: "db_inv db" and t: "db_ttl now1 now2 db k = (r, db')"
  shows "reaped now1 k db db'"
    and "r = (case alive db now1 k of None \<Rightarrow> - 2 | Some (v, x) \<Rightarrow> if x < 0 then - 1 else x - now2)"
proof -
  have "reaped now1 k db db' \<and>
    r = (case alive db now1 k of None \<Rightarrow> - 2 | Some (v, x) \<Rightarrow> if x < 0 then - 1 else x - now2)"
  proof (cases "entry_of db k")
    case None
    with t inv find_entry_of [OF inv, of k] show ?thesis
      by (simp add: db_ttl_def alive_def alive_map_def reaped_def same_data_refl)
  next
    case (Some e)
    show ?thesis
    proof (cases "expired now1 e")
      case True
      have "without k db db'"
        using t Some True find_entry_of [OF inv, of k]
        by (intro withoutI [OF inv]) (auto simp: db_ttl_def expired_def)
      with t Some True find_entry_of [OF inv, of k] show ?thesis
        by (auto simp: db_ttl_def alive_def alive_map_def reaped_def expired_def)
    next
      case False
      with t Some inv find_entry_of [OF inv, of k] show ?thesis
        by (auto simp: db_ttl_def alive_def alive_map_def reaped_def expired_def same_data_refl)
    qed
  qed
  then show "reaped now1 k db db'"
    and "r = (case alive db now1 k of None \<Rightarrow> - 2 | Some (v, x) \<Rightarrow> if x < 0 then - 1 else x - now2)" by simp_all
qed

lemma db_flushdb_ok:
  assumes "db_inv db"
  shows "db_inv (db_flushdb db)" "entry_of (db_flushdb db) = Map.empty" "due (db_flushdb db) = Map.empty"
  using flushAll_ok [OF db_invD(1) [OF assms]]
  by (simp_all add: db_inv_def db_flushdb_def th.invar_empty th.dl_empty coherent_empty)

lemma expire_keys_ok:
  assumes "ht_inv (dtable db)"
  shows "ht_inv (dtable (fold (expire_key mm) ks db)) \<and>
    entry_of (fold (expire_key mm) ks db) = entry_of db |` (- set ks) \<and>
    ttlHeap (fold (expire_key mm) ks db) = ttlHeap db"
  using assms
proof (induction ks arbitrary: db)
  case (Cons k ks)
  let ?db1 = "expire_key mm k db"
  obtain f t where d: "ht_del (dtable db) k = (f, t)" by fastforce
  have t1: "dtable (subtractMemory mm db k) = dtable db" "ttlHeap (subtractMemory mm db k) = ttlHeap db"
    by (simp_all add: subtractMemory_def split: option.split)
  then have e: "dtable ?db1 = t" "ttlHeap ?db1 = ttlHeap db" using d by (simp_all add: expire_key_def Let_def)
  note dd = ht_del_ok [OF Cons.prems d]
  from Cons.IH [of ?db1] dd e show ?case by (auto simp: restrict_map_def fun_eq_iff)
qed (simp add: restrict_map_def)

lemma db_activeExpireCycle_ok:
  fixes mm :: mem_model
  assumes inv: "db_inv db" and p: "popExpired (ttlHeap db) now maxWork = (ks, h)"
  defines "db' \<equiv> db_activeExpireCycle mm now db maxWork"
  shows "db_inv db'" and "entry_of db' = entry_of db |` (- set ks)" and "due db' = due db |` (- set ks)"
proof -
  note b = th.pop_batch [OF db_invD(2) [OF inv] p]
  let ?db1 = "db\<lparr>ttlHeap := h\<rparr>"
  have e: "ht_inv (dtable db')" "entry_of db' = entry_of db |` (- set ks)" "ttlHeap db' = h"
    using expire_keys_ok [of ?db1 mm ks] db_invD(1) [OF inv] p
    by (simp_all add: db'_def db_activeExpireCycle_def)
  then show "entry_of db' = entry_of db |` (- set ks)" and d: "due db' = due db |` (- set ks)" using b by simp_all
  show "db_inv db'"
  proof (rule db_invI)
    show "coherent (entry_of db') (due db')"
      unfolding e(2) d by (rule coherent_restrict [OF db_invD(3) [OF inv]])
    show "obj_ok (evalue y)" if "entry_of db' k' = Some y" for k' y
      using that e(2) db_invD(4) [OF inv] by (auto simp: restrict_map_def split: if_splits)
  qed (use e b in simp_all)
qed

section \<open>Scanning\<close>

abbreviation pat_ok :: "bytes \<Rightarrow> bytes \<Rightarrow> bool" where
  "pat_ok pattern k \<equiv> pattern = ''*'' \<or> k = pattern"

lemma scan_filter_ok:
  assumes "db_inv db" "distinct ks" "scan_filter mm clk i pattern ks db = (r, db')"
  shows "db_inv db' \<and>
    r = map fst (filter (\<lambda>(k, j). alive db (clk j) k \<noteq> None \<and> pat_ok pattern k) (zip ks [i..<i + length ks])) \<and>
    (\<forall>t. (\<forall>j. clk j \<le> t) \<longrightarrow> alive db' t = alive db t)"
  using assms
proof (induction ks arbitrary: i db r db')
  case (Cons k ks)
  let ?P = "\<lambda>db (k, j). alive db (clk j) k \<noteq> None \<and> pat_ok pattern k"
  obtain db1 r1 where db1: "reaped (clk i) k db db1" "scan_filter mm clk (i + 1) pattern ks db1 = (r1, db')"
    "r = (if ?P db (k, i) then k # r1 else r1)"
  proof (cases "entry_of db k")
    case None
    with Cons.prems find_entry_of [OF Cons.prems(1), of k]
    show ?thesis by (intro that [of db r]) (auto simp: reaped_def same_data_refl alive_None)
  next
    case (Some e)
    obtain x d1 where c: "checkAndExpire mm (clk i) db k e = (x, d1)" by fastforce
    obtain r1 d2 where f: "scan_filter mm clk (i + 1) pattern ks d1 = (r1, d2)" by fastforce
    have "reaped (clk i) k db d1" "x \<longleftrightarrow> alive db (clk i) k = None"
      using checkAndExpire_ok [OF Cons.prems(1) c] Some Cons.prems(1)
      by (auto simp: reaped_def alive_None same_data_refl)
    with Cons.prems(3) Some c f find_entry_of [OF Cons.prems(1), of k] show ?thesis
      by (intro that [of d1 r1]) (auto split: if_splits)
  qed
  from Cons.IH [OF reaped_inv [OF db1(1)] _ db1(2)] Cons.prems(2)
  have ih: "db_inv db'" "r1 = map fst (filter (?P db1) (zip ks [i + 1..<i + 1 + length ks]))"
    "\<forall>t. (\<forall>j. clk j \<le> t) \<longrightarrow> alive db' t = alive db1 t" by simp_all
  have al: "alive db1 t k' = alive db t k'" if "k' \<noteq> k" for t k'
    using reaped_entry [OF db1(1)] that by (simp add: alive_def alive_map_def)
  have "?P db1 x = ?P db x" if "x \<in> set (zip ks js)" for x js
  proof -
    obtain k' j where x: "x = (k', j)" by (cases x)
    with that have "k' \<in> set ks" by (metis set_zip_leftD)
    with Cons.prems(2) have "k' \<noteq> k" by auto
    then show ?thesis using x al [of k' "clk j"] by simp
  qed
  then have "filter (?P db1) (zip ks [i + 1..<i + 1 + length ks]) = filter (?P db) (zip ks [i + 1..<i + 1 + length ks])"
    by (intro filter_cong refl)
  moreover have "[i..<i + length (k # ks)] = i # [i + 1..<i + 1 + length ks]" by (simp add: upt_rec)
  ultimately show ?case using ih db1(3) reaped_alive [OF db1(1)] by simp
qed simp

section \<open>The memory counter\<close>

text \<open>The counter equals the sum of the objects' memory estimates, modulo 2^64.\<close>

definition mem_total :: "mem_model \<Rightarrow> (bytes \<rightharpoonup> RedisObject htentry) \<Rightarrow> 64 word" where
  "mem_total mm m = (\<Sum>k\<in>dom m. memoryUsage mm (evalue (the (m k))))"

definition mem_ok :: "mem_model \<Rightarrow> database \<Rightarrow> bool" where
  "mem_ok mm db = (usedMemory db = mem_total mm (entry_of db))"

lemma finite_entries: "db_inv db \<Longrightarrow> finite (dom (entry_of db))"
  using ht_keys_ok(2) [OF db_invD(1)] by (metis List.finite_set)

lemma mem_total_remove:
  assumes "finite (dom m)" "m k = Some e"
  shows "mem_total mm (m(k := None)) = mem_total mm m - memoryUsage mm (evalue e)"
proof -
  have "mem_total mm m = memoryUsage mm (evalue e) + (\<Sum>k\<in>dom m - {k}. memoryUsage mm (evalue (the (m k))))"
    using assms by (simp add: mem_total_def sum.remove [of _ k] domI)
  then show ?thesis by (simp add: mem_total_def)
qed

lemma mem_total_remove_absent: "m k = None \<Longrightarrow> mem_total mm (m(k := None)) = mem_total mm m"
  by (simp add: fun_upd_idem)

lemma mem_total_insert:
  assumes "finite (dom m)"
  shows "mem_total mm (m(k \<mapsto> e)) = mem_total mm (m(k := None)) + memoryUsage mm (evalue e)"
proof -
  have "m(k \<mapsto> e, k := None) = m(k := None)" by simp
  then show ?thesis using mem_total_remove [of "m(k \<mapsto> e)" k e mm] assms by simp
qed

lemma usedMemory_subtract:
  assumes "db_inv db" "mem_ok mm db"
  shows "usedMemory (subtractMemory mm db k) = mem_total mm ((entry_of db)(k := None))"
  using assms find_entry_of [OF assms(1), of k] mem_total_remove [OF finite_entries [OF assms(1)], of k]
  by (auto simp: subtractMemory_def mem_ok_def mem_total_remove_absent split: option.split)

lemma usedMemory_update [simp]:
  "usedMemory (db\<lparr>dtable := t\<rparr>) = usedMemory db" "usedMemory (db\<lparr>ttlHeap := h\<rparr>) = usedMemory db"
  by simp_all

lemma mem_ok_rehash:
  assumes "db_inv db" "mem_ok mm db"
  shows "mem_ok mm (db\<lparr>dtable := rehashStep (dtable db) n\<rparr>)"
  using same_data_rehash [OF assms(1), of n] assms(2) by (simp add: mem_ok_def same_data_def)

lemma mem_ok_checkAndExpire:
  assumes inv: "db_inv db" and m: "mem_ok mm db" and e: "entry_of db k = Some e"
    and c: "checkAndExpire mm now db k e = (b, db')"
  shows "mem_ok mm db'"
proof (cases b)
  case True
  then have "entry_of db' = (entry_of db)(k := None)"
    using checkAndExpire_ok(2) [OF inv c] by (simp add: without_def)
  moreover have "usedMemory db' = usedMemory db - memoryUsage mm (evalue e)"
    using c True by (auto simp: checkAndExpire_def split: if_splits)
  ultimately show ?thesis
    using m mem_total_remove [OF finite_entries [OF inv] e, of mm] by (simp add: mem_ok_def)
next
  case False
  then show ?thesis using checkAndExpire_ok(2) [OF inv c] m by simp
qed

lemma mem_ok_findEntry:
  assumes inv: "db_inv db" and m: "mem_ok mm db" and f: "db_findEntry mm now db k = (r, db')"
  shows "mem_ok mm db'"
proof -
  let ?db1 = "db\<lparr>dtable := rehashStep (dtable db) kRehashBatchSize\<rparr>"
  note i1 = same_data_inv [OF same_data_rehash [OF inv, of kRehashBatchSize]]
  note m1 = mem_ok_rehash [OF inv m, of kRehashBatchSize]
  show ?thesis
  proof (cases "entry_of ?db1 k")
    case None
    with f m1 find_entry_of [OF i1, of k] show ?thesis by (simp add: db_findEntry_def)
  next
    case (Some e)
    obtain b db2 where c: "checkAndExpire mm now ?db1 k e = (b, db2)" by fastforce
    with f Some find_entry_of [OF i1, of k] have "db' = db2" by (auto simp: db_findEntry_def split: if_splits)
    with mem_ok_checkAndExpire [OF i1 m1 Some c] show ?thesis by simp
  qed
qed

lemma mem_ok_set:
  assumes inv: "db_inv db" and m: "mem_ok mm db"
  shows "mem_ok mm (db_set mm db k v)"
proof -
  let ?db1 = "db\<lparr>ttlHeap := ttl_remove (ttlHeap db) k\<rparr>"
  have sub: "usedMemory (subtractMemory mm ?db1 k) = usedMemory (subtractMemory mm db k)"
    "dtable (subtractMemory mm ?db1 k) = dtable db"
    by (auto simp: subtractMemory_def split: option.split)
  have "usedMemory (db_set mm db k v) = usedMemory (subtractMemory mm db k) + memoryUsage mm (createString v)"
    using sub ht_find_map [of "ht_set (dtable db) k (createString v)" k]
      ht_set_ok [OF db_invD(1) [OF inv], of k "createString v"]
    by (simp add: db_set_def Let_def modifyEntry_def mk_entry_def)
  then show ?thesis
    using usedMemory_subtract [OF inv m, of k] db_set_ok(2) [OF inv, of mm k v]
      mem_total_insert [OF finite_entries [OF inv], of mm k "mk_entry k (createString v) (- 1)"]
    by (simp add: mem_ok_def mk_entry_def)
qed

lemma mem_ok_del:
  assumes inv: "db_inv db" and m: "mem_ok mm db" and d: "db_del mm db k = (b, db')"
  shows "mem_ok mm db'"
proof -
  have "usedMemory db' = usedMemory (subtractMemory mm db k)"
    using d by (auto simp: db_del_def Let_def split: prod.splits)
  then show ?thesis
    using usedMemory_subtract [OF inv m, of k] db_del_ok(2) [OF inv d] by (simp add: mem_ok_def without_def)
qed

lemma mem_ok_expire_keys:
  assumes "ht_inv (dtable db)" "finite (dom (entry_of db))" "usedMemory db = mem_total mm (entry_of db)"
  shows "usedMemory (fold (expire_key mm) ks db) = mem_total mm (entry_of (fold (expire_key mm) ks db))"
  using assms
proof (induction ks arbitrary: db)
  case (Cons k ks)
  let ?db1 = "expire_key mm k db"
  have e: "ht_inv (dtable ?db1)" "entry_of ?db1 = (entry_of db)(k := None)"
    using expire_keys_ok [OF Cons.prems(1), of mm "[k]"]
    by (auto simp: restrict_map_def fun_eq_iff)
  have "usedMemory ?db1 = usedMemory (subtractMemory mm db k)" by (simp add: expire_key_def Let_def)
  also have "\<dots> = mem_total mm (entry_of ?db1)"
    using Cons.prems ht_find_map [OF Cons.prems(1), of k] mem_total_remove [OF Cons.prems(2), of k] e(2)
    by (auto simp: subtractMemory_def mem_total_remove_absent split: option.split)
  finally have u: "usedMemory ?db1 = mem_total mm (entry_of ?db1)" .
  have "finite (dom (entry_of ?db1))" unfolding e(2) using Cons.prems(2) by simp
  from Cons.IH [OF e(1) this u] show ?case by simp
qed simp

lemma mem_ok_activeExpireCycle:
  assumes inv: "db_inv db" and m: "mem_ok mm db"
  shows "mem_ok mm (db_activeExpireCycle mm now db maxWork)"
  using mem_ok_expire_keys [of "db\<lparr>ttlHeap := h\<rparr>" mm for h] m db_invD(1) [OF inv] finite_entries [OF inv]
  by (simp add: mem_ok_def db_activeExpireCycle_def split: prod.split)

section \<open>Reachable states\<close>

text \<open>The states the handlers and the timers can bring about. A handler writes through the pointer of
  \<^verbatim>\<open>findEntry\<close> into the value only, leaving a well-formed object of the same type, and calls
  \<^verbatim>\<open>setObject\<close> only for a key \<^verbatim>\<open>findEntry\<close> did not find.\<close>

inductive db_reach :: "mem_model \<Rightarrow> database \<Rightarrow> bool" for mm where
  start: "db_reach mm new_database"
| get: "db_reach mm db \<Longrightarrow> db_reach mm (snd (db_get mm now db k))"
| set: "db_reach mm db \<Longrightarrow> db_reach mm (db_set mm db k v)"
| del: "db_reach mm db \<Longrightarrow> db_reach mm (snd (db_del mm db k))"
| exists_: "db_reach mm db \<Longrightarrow> db_reach mm (snd (db_exists mm now db k))"
| keys: "db_reach mm db \<Longrightarrow> db_reach mm (snd (db_keys db))"
| scan: "db_reach mm db \<Longrightarrow> db_reach mm (snd (db_scan mm clk db c n pat))"
| rehash: "db_reach mm db \<Longrightarrow> db_reach mm (db_rehashStep db)"
| setExpire: "db_reach mm db \<Longrightarrow> db_reach mm (snd (db_setExpire mm now db k t))"
| removeExpire: "db_reach mm db \<Longrightarrow> db_reach mm (db_removeExpire db k)"
| ttl: "db_reach mm db \<Longrightarrow> db_reach mm (snd (db_ttl now1 now2 db k))"
| expire: "db_reach mm db \<Longrightarrow> db_reach mm (db_activeExpireCycle mm now db n)"
| findEntry: "db_reach mm db \<Longrightarrow> db_reach mm (snd (db_findEntry mm now db k))"
| setObject: "db_reach mm db \<Longrightarrow> ht_find (dtable db) k = None \<Longrightarrow> obj_ok obj \<Longrightarrow>
    db_reach mm (db_setObject mm db k obj)"
| modify: "db_reach mm db \<Longrightarrow> ht_find (dtable db) k = Some e \<Longrightarrow> obj_ok (g (evalue e)) \<Longrightarrow>
    db_reach mm (modifyEntry db k (\<lambda>e. e\<lparr>evalue := g (evalue e)\<rparr>))"
| flush: "db_reach mm db \<Longrightarrow> db_reach mm (db_flushdb db)"

lemma walk_keys_prefix:
  assumes "ht_inv ht" "ht_scan ht c n = (c', ks)"
  shows "distinct ks"
proof (cases "slots (primary ht) = [] \<or> capacity (primary ht) = 0 \<or> length (slots (primary ht)) < c")
  case True
  have w: "scan_walk (primary ht) n 0 c [] = (c, [])" if "length (slots (primary ht)) < c"
    using that ht_invD(1) [OF assms(1)] by (subst scan_walk.simps) (simp add: table_inv_def)
  from True assms(2) w ht_invD(5) [OF assms(1)] show ?thesis by (auto simp: ht_scan_def split: if_splits)
next
  case False
  let ?s = "slots (primary ht)"
  have len: "length ?s = capacity (primary ht)" using ht_invD(1) [OF assms(1)] by (simp add: table_inv_def)
  obtain s' r where w: "scan_walk (primary ht) n 0 c [] = (s', r)" by fastforce
  have r: "r = map ekey (concat (take (s' - c) (drop c ?s)))"
    using scan_walk_spec [OF w _ len] False by simp
  let ?t = "map ekey (concat (take (s' - c) (drop c ?s))) @ map ekey (entries (rehash ht))"
  have "ht_keys ht = map ekey (concat (take c ?s)) @ map ekey (concat (take (s' - c) (drop c ?s))) @
      map ekey (concat (drop (s' - c) (drop c ?s))) @ map ekey (entries (rehash ht))"
    unfolding ht_keys_def by (metis append_take_drop_id concat_append map_append append_assoc)
  moreover have "distinct (as @ bs @ cs @ ds) \<Longrightarrow> distinct (bs @ ds)" for as bs cs ds :: "bytes list" by auto
  ultimately have "distinct ?t" using ht_keys_ok(1) [OF assms(1)] by metis
  with assms(2) w r False show ?thesis by (auto simp: ht_scan_def split: if_splits)
qed

lemma db_scan_ok:
  assumes inv: "db_inv db" and s: "db_scan mm clk db c n pat = ((c', r), db')"
  shows "\<exists>raw. ht_scan (dtable (db_rehashStep db)) c n = (c', raw) \<and>
    r = map fst (filter (\<lambda>(k, j). alive db (clk j) k \<noteq> None \<and> pat_ok pat k) (zip raw [0..<length raw])) \<and>
    db_inv db' \<and> (\<forall>t. (\<forall>j. clk j \<le> t) \<longrightarrow> alive db' t = alive db t)"
proof -
  let ?db1 = "db_rehashStep db"
  have s1: "same_data db ?db1" unfolding db_rehashStep_def by (rule same_data_rehash [OF inv])
  note i1 = same_data_inv [OF s1]
  obtain c1 raw where sc: "ht_scan (dtable ?db1) c n = (c1, raw)" by fastforce
  obtain f db2 where sf: "scan_filter mm clk 0 pat raw ?db1 = (f, db2)" by fastforce
  have eq: "c1 = c'" "f = r" "db2 = db'" using s sc sf by (auto simp: db_scan_def db_rehashStep_def Let_def)
  have "alive ?db1 t = alive db t" for t using s1 by (simp add: alive_def same_data_def)
  with scan_filter_ok [OF i1 walk_keys_prefix [OF db_invD(1) [OF i1] sc] sf] sc eq
  show ?thesis by simp
qed

lemma db_reach_inv: "db_reach mm db \<Longrightarrow> db_inv db"
proof (induction rule: db_reach.induct)
  case (get db now k)
  then show ?case
    using db_findEntry_ok(1) [of db mm now k] reaped_inv
    by (auto simp: db_get_findEntry split: prod.split)
next
  case (del db k)
  then show ?case using db_del_ok(2) [of db mm k] by (cases "db_del mm db k") (simp add: without_def)
next
  case (exists_ db now k)
  then show ?case
    using db_findEntry_ok(1) [of db mm now k] reaped_inv by (auto simp: db_exists_findEntry split: prod.split)
next
  case (keys db)
  then show ?case using same_data_inv [OF same_data_rehash] by (simp add: db_keys_def)
next
  case (scan db clk c n pat)
  obtain c' r db' where "db_scan mm clk db c n pat = ((c', r), db')" by (metis prod.exhaust)
  with db_scan_ok [OF scan.IH this] show ?case by auto
next
  case (rehash db)
  then show ?case using same_data_inv [OF same_data_rehash] by (simp add: db_rehashStep_def)
next
  case (setExpire db now k t)
  obtain b db' where s: "db_setExpire mm now db k t = (b, db')" by fastforce
  from db_setExpire_ok [OF setExpire.IH s] s show ?case by (cases b) (auto dest: reaped_inv)
next
  case (ttl db now1 now2 k)
  obtain r db' where "db_ttl now1 now2 db k = (r, db')" by fastforce
  with db_ttl_ok(1) [OF ttl.IH this] show ?case by (simp add: reaped_inv)
next
  case (expire db now n)
  obtain ks h where "popExpired (ttlHeap db) now n = (ks, h)" by fastforce
  from db_activeExpireCycle_ok(1) [OF expire.IH this] show ?case .
next
  case (findEntry db now k)
  obtain r db' where "db_findEntry mm now db k = (r, db')" by fastforce
  with db_findEntry_ok(1) [OF findEntry.IH this] show ?case by (simp add: reaped_inv)
qed (simp_all add: db_inv_new db_set_ok db_removeExpire_ok db_setObject_ok find_entry_of modify_value_ok db_flushdb_ok)

section \<open>Properties\<close>


definition sizes64 :: mem_model where
  "sizes64 = \<lparr>sizeof_RedisObject = 80, sizeof_string = 32, sizeof_double = 8, sizeof_ptr = 8,
     str_capacity = (\<lambda>s. max 15 (length s)), bucket_count = (\<lambda>ks. if ks = [] then 1 else 13)\<rparr>"

definition demo_db :: database where
  "demo_db = snd (db_setExpire sizes64 100 (db_set sizes64 (db_set sizes64 new_database ''a'' ''1'') ''b'' ''x'') ''a'' 500)"

lemma demo_reach: "db_reach sizes64 demo_db"
  unfolding demo_db_def by (intro db_reach.intros)

lemma demo_entries:
  "entry_of demo_db = [''a'' \<mapsto> mk_entry ''a'' (createString ''1'') 500, ''b'' \<mapsto> mk_entry ''b'' (createString ''x'') (- 1)]"
  and demo_due: "due demo_db = [''a'' \<mapsto> 500]"
proof -
  let ?d2 = "db_set sizes64 (db_set sizes64 new_database ''a'' ''1'') ''b'' ''x''"
  have i1: "db_inv (db_set sizes64 new_database ''a'' ''1'')" by (rule db_set_ok(1) [OF db_inv_new(1)])
  have i2: "db_inv ?d2" by (rule db_set_ok(1) [OF i1])
  have e2: "entry_of ?d2 = [''a'' \<mapsto> mk_entry ''a'' (createString ''1'') (- 1), ''b'' \<mapsto> mk_entry ''b'' (createString ''x'') (- 1)]"
    using db_set_ok(2) [OF i1, of sizes64 "''b''" "''x''"] db_set_ok(2) [OF db_inv_new(1), of sizes64 "''a''" "''1''"]
    by (simp add: db_inv_new)
  have d2: "due ?d2 = Map.empty"
    using db_set_ok(3) [OF i1, of sizes64 "''b''" "''x''"] db_set_ok(3) [OF db_inv_new(1), of sizes64 "''a''" "''1''"]
    by (simp add: db_inv_new)
  obtain b db' where s: "db_setExpire sizes64 100 ?d2 ''a'' 500 = (b, db')" by fastforce
  have "b" using db_setExpire_ok(1) [OF i2 s] by (simp add: alive_None e2 expired_def mk_entry_def)
  with db_setExpire_ok(3) [OF i2 s] s e2 d2
  show "entry_of demo_db = [''a'' \<mapsto> mk_entry ''a'' (createString ''1'') 500, ''b'' \<mapsto> mk_entry ''b'' (createString ''x'') (- 1)]"
    and "due demo_db = [''a'' \<mapsto> 500]" by (auto simp: demo_db_def mk_entry_def)
qed


text \<open>C16 (functional). A look-up at time \<open>now\<close> returns exactly the live object of the key: nothing for an
  absent or expired key, for \<^verbatim>\<open>get\<close> also nothing for another type than STRING. Removing an expired
  entry on the way is invisible: at no time from \<open>now\<close> on does it change which keys are alive, with
  which objects and expiry times.\<close>
theorem lookup_sees_live_keys:
  assumes "db_inv db"
  shows "map_option (\<lambda>e. (evalue e, expireAt e)) (fst (db_findEntry mm now db k)) = alive db now k \<and>
    fst (db_exists mm now db k) = (alive db now k \<noteq> None) \<and>
    fst (db_get mm now db k) =
      (case alive db now k of Some (v, x) \<Rightarrow> if otype v = STRING then Some (asString v) else None | None \<Rightarrow> None) \<and>
    (\<forall>t \<ge> now. alive (snd (db_findEntry mm now db k)) t = alive db t \<and>
       alive (snd (db_exists mm now db k)) t = alive db t \<and> alive (snd (db_get mm now db k)) t = alive db t)"
proof -
  obtain r db' where f: "db_findEntry mm now db k = (r, db')" by fastforce
  note ff = db_findEntry_ok [OF assms f]
  have "alive db now k = map_option (\<lambda>e. (evalue e, expireAt e)) r"
    unfolding ff(2) by (simp add: alive_def alive_map_def split: option.split)
  then show ?thesis
    using reaped_alive [OF ff(1)] f by (cases r) (auto simp: db_get_findEntry db_exists_findEntry)
qed

theorem lookup_sees_live_keys_witness:
  "fst (db_get sizes64 499 demo_db ''a'') = Some ''1'' \<and> fst (db_get sizes64 500 demo_db ''a'') = None"
proof -
  have "alive demo_db 499 ''a'' = Some (createString ''1'', 500)" "alive demo_db 500 ''a'' = None"
    by (simp_all add: alive_def alive_map_def demo_entries mk_entry_def expired_def)
  moreover have "asString (createString ''1'') = ''1''" by code_simp
  ultimately show ?thesis
    using lookup_sees_live_keys [OF db_reach_inv [OF demo_reach], of sizes64 499 "''a''"]
      lookup_sees_live_keys [OF db_reach_inv [OF demo_reach], of sizes64 500 "''a''"] by simp
qed

text \<open>\<^verbatim>\<open>set\<close> makes the key a permanent string, also when it had an expiry time or another
  type before, and \<^verbatim>\<open>del\<close> removes the key; neither touches another key. \<^verbatim>\<open>del\<close> answers whether an
  entry was stored, so a key that has expired and has not been reaped yet still counts.\<close>
theorem set_and_del:
  assumes "db_inv db"
  shows "alive (db_set mm db k v) t = (alive db t)(k \<mapsto> (createString v, - 1)) \<and>
    due (db_set mm db k v) k = None \<and>
    alive (snd (db_del mm db k)) t = (alive db t)(k := None) \<and> due (snd (db_del mm db k)) k = None \<and>
    (fst (db_del mm db k) \<longleftrightarrow> entry_of db k \<noteq> None)"
proof -
  obtain b db' where d: "db_del mm db k = (b, db')" by fastforce
  from db_del_ok [OF assms d] db_set_ok [OF assms, of mm k v] d show ?thesis
    by (auto simp: without_def alive_def alive_map_def fun_eq_iff mk_entry_def expired_def)
qed

theorem set_and_del_witness:
  "alive (db_set sizes64 demo_db ''a'' ''7'') 1000 ''a'' = Some (createString ''7'', - 1) \<and>
   fst (db_del sizes64 demo_db ''a'')"
  using set_and_del [OF db_reach_inv [OF demo_reach], of sizes64 "''a''" "''7''" 1000] demo_entries by simp

text \<open>C20 (functional). \<^verbatim>\<open>setExpire\<close> succeeds exactly for live keys; with a non-negative deadline the key
  then stays alive before it and is gone from it on, whatever its previous expiry time was, and no
  other key is affected. \<^verbatim>\<open>ttl\<close> answers -2 for a key that is not alive, -1 for a permanent one and the
  time to the deadline otherwise.\<close>
theorem expiry_times:
  assumes "db_inv db" and "0 \<le> d" and "now \<le> t"
  shows "(fst (db_setExpire mm now db k d) \<longleftrightarrow> alive db now k \<noteq> None) \<and>
    alive (snd (db_setExpire mm now db k d)) t =
      (case alive db now k of None \<Rightarrow> alive db t
       | Some (v, x) \<Rightarrow> (alive db t)(k := if t < d then Some (v, d) else None)) \<and>
    fst (db_ttl now now2 db k) =
      (case alive db now k of None \<Rightarrow> - 2 | Some (v, x) \<Rightarrow> if x < 0 then - 1 else x - now2) \<and>
    alive (snd (db_ttl now now2 db k)) t = alive db t"
proof -
  obtain b db' where s: "db_setExpire mm now db k d = (b, db')" by fastforce
  note se = db_setExpire_ok [OF assms(1) s]
  obtain r db2 where tt: "db_ttl now now2 db k = (r, db2)" by fastforce
  note t2 = db_ttl_ok [OF assms(1) tt]
  have "alive db' t = (case alive db now k of None \<Rightarrow> alive db t
       | Some (v, x) \<Rightarrow> (alive db t)(k := if t < d then Some (v, d) else None))"
  proof (cases b)
    case True
    then obtain e where e: "entry_of db k = Some e" "entry_of db' = (entry_of db)(k \<mapsto> e\<lparr>expireAt := d\<rparr>)"
      using se(3) by blast
    have "alive db now k = Some (evalue e, expireAt e)"
      using True se(1) e(1) by (auto simp: alive_def alive_map_def split: if_splits)
    moreover have "alive db' t k' = (if k' = k then if t < d then Some (evalue e, d) else None else alive db t k')" for k'
      using e(2) assms(2) by (simp add: alive_def alive_map_def expired_def)
    ultimately show ?thesis by (auto simp: fun_eq_iff)
  next
    case False
    with se(1) reaped_alive [OF se(2) assms(3)] show ?thesis by (cases "alive db now k") auto
  qed
  with se(1) s tt t2 reaped_alive [OF t2(1) assms(3)] show ?thesis by simp
qed

theorem expiry_times_witness:
  "fst (db_ttl 100 101 demo_db ''a'') = 399 \<and> fst (db_ttl 100 101 demo_db ''b'') = - 1 \<and>
   alive (snd (db_setExpire sizes64 100 demo_db ''a'' 200)) 200 ''a'' = None"
proof -
  have "alive demo_db 100 ''a'' = Some (createString ''1'', 500)" "alive demo_db 100 ''b'' = Some (createString ''x'', - 1)"
    by (simp_all add: alive_def alive_map_def demo_entries mk_entry_def expired_def)
  then show ?thesis
    using expiry_times [OF db_reach_inv [OF demo_reach], of 200 100 200 sizes64 "''a''" 101]
      expiry_times [OF db_reach_inv [OF demo_reach], of 200 100 200 sizes64 "''b''" 101] by simp
qed

text \<open>C19 (safety). A round of active expiry is invisible to clients, as long as no negative deadline is
  in the heap: it removes entries that have expired and no live key, keeps the invariant, and with a
  budget that covers the expired keys no expired entry is stored any more afterwards.\<close>
theorem active_expiry:
  assumes "db_inv db" and "\<forall>k x. due db k = Some x \<longrightarrow> 0 \<le> x" and "now \<le> t"
  shows "db_inv (db_activeExpireCycle mm now db maxWork) \<and>
    alive (db_activeExpireCycle mm now db maxWork) t = alive db t \<and>
    (int (card {k. \<exists>x. due db k = Some x \<and> x \<le> now}) \<le> maxWork \<longrightarrow>
       (\<forall>k e. entry_of (db_activeExpireCycle mm now db maxWork) k = Some e \<longrightarrow> \<not> expired now e))"
proof -
  let ?db' = "db_activeExpireCycle mm now db maxWork"
  obtain ks h where p: "popExpired (ttlHeap db) now maxWork = (ks, h)" by fastforce
  note a = db_activeExpireCycle_ok [OF assms(1) p, of mm]
  note c = db_invD(3) [OF assms(1)]
  have "expired now e" if "k \<in> set ks" "entry_of db k = Some e" for k e
  proof -
    have "\<forall>k \<in> set ks. \<exists>x. due db k = Some x \<and> x \<le> now"
      using th.pop_batch [OF db_invD(2) [OF assms(1)] p] by (simp add: expiry_batch_def)
    with that(1) obtain x where "due db k = Some x" "x \<le> now" by blast
    moreover have "expireAt e = x" using c that(2) \<open>due db k = Some x\<close> unfolding coherent_def by force
    ultimately show ?thesis using assms(2) by (auto simp: expired_def)
  qed
  then have "expired t e" if "k \<in> set ks" "entry_of db k = Some e" for k e
    using that assms(3) by (fastforce simp: expired_def)
  then have "alive ?db' t k = alive db t k" for k
    by (auto simp: a(2) alive_def alive_map_def restrict_map_def split: option.split)
  then have al: "alive ?db' t = alive db t" by (simp add: fun_eq_iff)
  have "\<not> expired now e" if enough: "int (card {k. \<exists>x. due db k = Some x \<and> x \<le> now}) \<le> maxWork"
    and e: "entry_of ?db' k = Some e" for k e
  proof
    assume x: "expired now e"
    then have "due ?db' k = Some (expireAt e)" "expireAt e \<le> now"
      using db_invD(3) [OF a(1)] e by (auto simp: coherent_def expired_def)
    moreover have "ttlHeap ?db' = h"
      using p expire_keys_ok [of "db\<lparr>ttlHeap := h\<rparr>" mm ks] db_invD(1) [OF assms(1)]
      by (simp add: db_activeExpireCycle_def)
    ultimately show False
      using th.pop_enough [OF db_invD(2) [OF assms(1)] p enough, of k "expireAt e"] by simp
  qed
  with a(1) al show ?thesis by blast
qed

theorem active_expiry_witness:
  "alive (db_activeExpireCycle sizes64 600 demo_db 200) 600 = alive demo_db 600"
  using active_expiry [OF db_reach_inv [OF demo_reach], of 600 600 sizes64 200] by (simp add: demo_due)

text \<open>A negative deadline makes lazy and active expiry disagree: the lazy check takes it for
  \<^emph>\<open>no expiry\<close>, so the key is served for ever, until a round of active expiry deletes it.\<close>
theorem negative_deadline_inconsistent:
  "\<exists>db. db_reach sizes64 db \<and> fst (db_get sizes64 1000 db ''a'') = Some ''1'' \<and>
     fst (db_ttl 1000 1000 db ''a'') = - 1 \<and>
     fst (db_get sizes64 1000 (db_activeExpireCycle sizes64 1000 db 200) ''a'') = None"
proof -
  let ?db = "snd (db_setExpire sizes64 100 (db_set sizes64 new_database ''a'' ''1'') ''a'' (- 5))"
  have "db_reach sizes64 ?db" by (intro db_reach.intros)
  moreover have "fst (db_get sizes64 1000 ?db ''a'') = Some ''1''" "fst (db_ttl 1000 1000 ?db ''a'') = - 1"
    "fst (db_get sizes64 1000 (db_activeExpireCycle sizes64 1000 ?db 200) ''a'') = None" by code_simp+
  ultimately show ?thesis by blast
qed



text \<open>The counter is not kept when a value grows in place, as the list, hash, set and sorted
  set handlers do: deleting such a value subtracts more than was added, and the unsigned counter wraps
  below zero.\<close>
theorem memory_counter_underflow:
  "\<exists>db. db_reach sizes64 db \<and> entry_of db = Map.empty \<and> unat (usedMemory db) = 2 ^ 64 - 47"
proof -
  let ?db1 = "db_setObject sizes64 new_database ''k'' createList"
  let ?g = "\<lambda>v. v\<lparr>odata := DDeque [''x'']\<rparr>"
  let ?db2 = "modifyEntry ?db1 ''k'' (\<lambda>e. e\<lparr>evalue := ?g (evalue e)\<rparr>)"
  let ?db3 = "snd (db_del sizes64 ?db2 ''k'')"
  have r1: "db_reach sizes64 ?db1"
    by (rule db_reach.setObject [OF db_reach.start]) (simp_all add: new_database_def ht_find_map)
  have "entry_of ?db1 ''k'' = Some (mk_entry ''k'' createList (- 1))"
    using db_setObject_ok(2) [OF db_inv_new(1), of "''k''" createList sizes64] by (simp add: db_inv_new)
  then have f1: "ht_find (dtable ?db1) ''k'' = Some (mk_entry ''k'' createList (- 1))"
    using find_entry_of [OF db_reach_inv [OF r1]] by simp
  have r2: "db_reach sizes64 ?db2"
    by (rule db_reach.modify [OF r1 f1]) (simp add: mk_entry_def createList_def obj_ok_def)
  have r3: "db_reach sizes64 ?db3" by (rule db_reach.del [OF r2])
  have "entry_of ?db3 = Map.empty" by (rule ext) (simp add: ht_map_def, code_simp)
  moreover have "usedMemory ?db3 = - 47" by code_simp
  then have "unat (usedMemory ?db3) = 2 ^ 64 - 47" by simp
  ultimately show ?thesis using r3 by blast
qed

end
