(* ===== verification/NetBuffer.thy ===== *)
theory NetBuffer
  imports CLib
begin

text \<open>
  \<^verbatim>\<open>net/Buffer\<close>: a byte vector with a read and a write cursor. The vector \<^verbatim>\<open>data_\<close> is the
  list \<open>data\<close> (its length is \<^verbatim>\<open>data_.size()\<close>). The two operations that contain an
  \<^verbatim>\<open>assert\<close> return an option, \<open>None\<close> being the abort. The abstract value of a buffer is the
  byte sequence between the cursors (\<open>readable\<close>); the locale \<open>byte_queue\<close> states the contract
  the protocol layer relies on, and the buffer is shown to satisfy it.
\<close>

section \<open>State and operations\<close>

record buffer =
  data :: bytes
  readPos :: nat
  writePos :: nat

definition kInitialCapacity :: nat where
  "kInitialCapacity = 4096"

definition new_buffer :: buffer where
  "new_buffer = \<lparr>data = [], readPos = 0, writePos = 0\<rparr>"

definition writableBytes :: "buffer \<Rightarrow> nat" where
  "writableBytes b = length (data b) - writePos b"

definition readableBytes :: "buffer \<Rightarrow> nat" where
  "readableBytes b = writePos b - readPos b"

definition advanceWrite :: "buffer \<Rightarrow> nat \<Rightarrow> buffer option" where
  "advanceWrite b n =
     (if writePos b + n \<le> length (data b) then Some (b\<lparr>writePos := writePos b + n\<rparr>) else None)"

text \<open>The bytes that \<^verbatim>\<open>readablePtr()\<close> and \<^verbatim>\<open>readableBytes()\<close> delimit.\<close>

definition readable :: "buffer \<Rightarrow> bytes" where
  "readable b = take (readableBytes b) (drop (readPos b) (data b))"

definition consume :: "buffer \<Rightarrow> nat \<Rightarrow> buffer option" where
  "consume b n =
     (if n \<le> readableBytes b
      then let r = readPos b + n in
           if r = writePos b then Some (b\<lparr>readPos := 0, writePos := 0\<rparr>)
           else Some (b\<lparr>readPos := r\<rparr>)
      else None)"

text \<open>\<^verbatim>\<open>memmove(data, data + readPos, readable)\<close> and the cursor reset that follows it.\<close>

definition compact :: "buffer \<Rightarrow> buffer" where
  "compact b =
     (let n = readableBytes b in
      b\<lparr>data := (if n > 0 then take n (drop (readPos b) (data b)) @ drop n (data b) else data b),
        readPos := 0, writePos := n\<rparr>)"

text \<open>The doubling loop. The code enters it with \<^verbatim>\<open>newCap > 0\<close> (4096 replaces 0); the test for 0
  makes the function total.\<close>

function grow :: "nat \<Rightarrow> nat \<Rightarrow> nat" where
  "grow newCap needed =
     (if newCap = 0 \<or> needed \<le> newCap then newCap else grow (newCap * 2) needed)"
  by pat_completeness auto
termination
  by (relation "measure (\<lambda>(c, n). n - c)") auto

declare grow.simps [simp del]

definition ensureWritableBytes :: "buffer \<Rightarrow> nat \<Rightarrow> buffer" where
  "ensureWritableBytes b len =
     (if len \<le> writableBytes b then b
      else if readableBytes b + len \<le> length (data b) then compact b
      else let b' = compact b;
               needed = writePos b' + len;
               newCap = (if length (data b') = 0 then kInitialCapacity else length (data b'));
               newCap' = grow newCap needed
           in b'\<lparr>data := data b' @ replicate (newCap' - length (data b')) (CHR 0x00)\<rparr>)"

text \<open>\<^verbatim>\<open>memcpy(writablePtr(), bs, len)\<close>.\<close>

definition memcpy_in :: "buffer \<Rightarrow> bytes \<Rightarrow> buffer" where
  "memcpy_in b bs =
     b\<lparr>data := take (writePos b) (data b) @ bs @ drop (writePos b + length bs) (data b)\<rparr>"

definition buf_append :: "buffer \<Rightarrow> bytes \<Rightarrow> buffer option" where
  "buf_append b bs =
     (let b' = ensureWritableBytes b (length bs) in advanceWrite (memcpy_in b' bs) (length bs))"

text \<open>The cursors are ordered and inside the vector (the code's INV-1 and INV-2).\<close>

definition buf_inv :: "buffer \<Rightarrow> bool" where
  "buf_inv b = (readPos b \<le> writePos b \<and> writePos b \<le> length (data b))"

section \<open>The contract of a byte queue\<close>

locale byte_queue =
  fixes empty :: 'q
    and append :: "'q \<Rightarrow> bytes \<Rightarrow> 'q option"
    and discard :: "'q \<Rightarrow> nat \<Rightarrow> 'q option"
    and contents :: "'q \<Rightarrow> bytes"
    and invar :: "'q \<Rightarrow> bool"
  assumes invar_empty: "invar empty"
    and contents_empty: "contents empty = []"
    and append_ok: "invar q \<Longrightarrow> \<exists>q'. append q bs = Some q' \<and> invar q' \<and> contents q' = contents q @ bs"
    and discard_ok: "invar q \<Longrightarrow> n \<le> length (contents q) \<Longrightarrow>
      \<exists>q'. discard q n = Some q' \<and> invar q' \<and> contents q' = drop n (contents q)"
begin

text \<open>A run of appends, as the serializer makes them, stopping if one aborts.\<close>

fun append_all :: "'q \<Rightarrow> bytes list \<Rightarrow> 'q option" where
  "append_all q [] = Some q"
| "append_all q (bs # bss) = (case append q bs of None \<Rightarrow> None | Some q' \<Rightarrow> append_all q' bss)"

lemma append_all_ok:
  "invar q \<Longrightarrow> \<exists>q'. append_all q bss = Some q' \<and> invar q' \<and> contents q' = contents q @ concat bss"
proof (induction bss arbitrary: q)
  case (Cons bs bss)
  obtain q1 where q1: "append q bs = Some q1" "invar q1" "contents q1 = contents q @ bs"
    using append_ok [OF Cons.prems] by blast
  then show ?case using Cons.IH [OF q1(2)] by auto
qed simp

lemma append_cases:
  assumes "invar q" "append q bs = Some q'"
  shows "invar q' \<and> contents q' = contents q @ bs"
  using append_ok [OF assms(1), of bs] assms(2) by auto

lemma discard_cases:
  assumes "invar q" "n \<le> length (contents q)" "discard q n = Some q'"
  shows "invar q' \<and> contents q' = drop n (contents q)"
  using discard_ok [OF assms(1,2)] assms(3) by auto

text \<open>First in, first out: what is appended behind the current contents is what remains after
  they have been discarded.\<close>

lemma fifo:
  assumes "invar q"
  shows "\<exists>q1 q2. append q bs = Some q1 \<and> discard q1 (length (contents q)) = Some q2 \<and>
    invar q2 \<and> contents q2 = bs"
proof -
  obtain q1 where q1: "append q bs = Some q1" "invar q1" "contents q1 = contents q @ bs"
    using append_ok [OF assms] by blast
  obtain q2 where "discard q1 (length (contents q)) = Some q2" "invar q2"
      "contents q2 = drop (length (contents q)) (contents q1)"
    using discard_ok [OF q1(2), of "length (contents q)"] q1(3) by auto
  with q1 show ?thesis by auto
qed

end

section \<open>The buffer satisfies the contract\<close>

lemma length_readable [simp]: "buf_inv b \<Longrightarrow> length (readable b) = readableBytes b"
  by (auto simp: readable_def readableBytes_def buf_inv_def)

lemma buf_inv_new [simp, inv_intro]: "buf_inv new_buffer"
  by (simp add: buf_inv_def new_buffer_def)

lemma readable_new [simp, abs_simps]: "readable new_buffer = []"
  by (simp add: readable_def new_buffer_def)

lemma grow_ge: "0 < c \<Longrightarrow> n \<le> grow c n"
proof (induction c n rule: grow.induct)
  case (1 c n)
  then show ?case by (subst grow.simps) auto
qed

lemma grow_mono: "c \<le> grow c n"
proof (induction c n rule: grow.induct)
  case (1 c n)
  show ?case
  proof (cases "c = 0 \<or> n \<le> c")
    case True
    then show ?thesis by (subst grow.simps) simp
  next
    case False
    with "1.IH" have "c * 2 \<le> grow (c * 2) n" by simp
    with False show ?thesis by (subst grow.simps) simp
  qed
qed

lemma grow_bound: "grow c n \<le> max c (2 * n)"
proof (induction c n rule: grow.induct)
  case (1 c n)
  show ?case
  proof (cases "c = 0 \<or> n \<le> c")
    case True
    then show ?thesis by (subst grow.simps) auto
  next
    case False
    with "1.IH" have "grow (c * 2) n \<le> max (c * 2) (2 * n)" by simp
    with False show ?thesis by (subst grow.simps) auto
  qed
qed

lemma buf_inv_compact [inv_intro]: "buf_inv b \<Longrightarrow> buf_inv (compact b)"
  by (auto simp: buf_inv_def compact_def readableBytes_def Let_def)

lemma readable_compact [abs_simps]: "buf_inv b \<Longrightarrow> readable (compact b) = readable b"
  by (auto simp: readable_def compact_def readableBytes_def buf_inv_def Let_def)

lemma length_data_compact [simp]: "buf_inv b \<Longrightarrow> length (data (compact b)) = length (data b)"
  by (auto simp: compact_def readableBytes_def buf_inv_def Let_def)

lemma data_compact_Nil [simp]: "buf_inv b \<Longrightarrow> data (compact b) = [] \<longleftrightarrow> data b = []"
  using length_data_compact [of b] by (metis length_0_conv)

lemma writePos_compact [simp]: "writePos (compact b) = readableBytes b"
  by (simp add: compact_def Let_def)

lemma readable_extend:
  "buf_inv b \<Longrightarrow> readable (b\<lparr>data := data b @ ys\<rparr>) = readable b"
  by (simp add: readable_def readableBytes_def buf_inv_def)

lemma ensureWritableBytes_spec:
  assumes "buf_inv b"
  shows "buf_inv (ensureWritableBytes b len)"
    and "readable (ensureWritableBytes b len) = readable b"
    and "len \<le> writableBytes (ensureWritableBytes b len)"
    and "length (data b) \<le> length (data (ensureWritableBytes b len))"
proof -
  have "writePos (compact b) \<le> length (data b)"
    using buf_inv_compact [OF assms] assms by (simp add: buf_inv_def)
  moreover have "readableBytes b + len \<le> grow kInitialCapacity (readableBytes b + len)"
    by (rule grow_ge) (simp add: kInitialCapacity_def)
  moreover have "length (data b) \<noteq> 0 \<Longrightarrow>
      readableBytes b + len \<le> grow (length (data b)) (readableBytes b + len)"
    by (rule grow_ge) simp
  moreover note buf_inv_compact [OF assms] readable_compact [OF assms]
    readable_extend [OF buf_inv_compact [OF assms]]
  ultimately show "buf_inv (ensureWritableBytes b len)"
    and "readable (ensureWritableBytes b len) = readable b"
    and "len \<le> writableBytes (ensureWritableBytes b len)"
    and "length (data b) \<le> length (data (ensureWritableBytes b len))"
    using assms
    by (auto simp: ensureWritableBytes_def Let_def writableBytes_def buf_inv_def)
qed

lemma memcpy_in_spec:
  assumes "buf_inv b" "length bs \<le> writableBytes b"
  shows "\<exists>b'. advanceWrite (memcpy_in b bs) (length bs) = Some b' \<and> buf_inv b' \<and>
    readable b' = readable b @ bs"
proof -
  let ?w = "writePos b" and ?r = "readPos b" and ?d = "data b"
  have le: "?r \<le> ?w" "?w + length bs \<le> length ?d"
    using assms by (auto simp: buf_inv_def writableBytes_def)
  then have n: "?w + length bs - ?r = length (drop ?r (take ?w ?d)) + length bs"
    by (auto simp: min_def)
  have "take (?w + length bs - ?r) (drop ?r (take ?w ?d @ bs @ drop (?w + length bs) ?d)) =
      take (?w - ?r) (drop ?r ?d) @ bs"
    using le unfolding n by (simp add: drop_take)
  with le show ?thesis
    by (simp add: memcpy_in_def advanceWrite_def buf_inv_def readable_def readableBytes_def)
qed

lemma buf_append_ok:
  assumes "buf_inv b"
  shows "\<exists>b'. buf_append b bs = Some b' \<and> buf_inv b' \<and> readable b' = readable b @ bs"
  using ensureWritableBytes_spec [OF assms, of "length bs"]
    memcpy_in_spec [of "ensureWritableBytes b (length bs)" bs]
  by (simp add: buf_append_def Let_def)

lemma consume_ok:
  assumes "buf_inv b" "n \<le> length (readable b)"
  shows "\<exists>b'. consume b n = Some b' \<and> buf_inv b' \<and> readable b' = drop n (readable b)"
  using assms
  by (auto simp: consume_def buf_inv_def readable_def readableBytes_def Let_def drop_take add.commute)

interpretation bq: byte_queue new_buffer buf_append consume readable buf_inv
  by unfold_locales (simp_all add: buf_append_ok consume_ok)

section \<open>Properties\<close>

lemma ensureWritableBytes_bound:
  assumes "buf_inv b"
  shows "length (data (ensureWritableBytes b len)) \<le>
    max (length (data b)) (max kInitialCapacity (2 * (readableBytes b + len)))"
  using assms grow_bound [of "length (data b)" "readableBytes b + len"]
    grow_bound [of kInitialCapacity "readableBytes b + len"] grow_mono [of "length (data b)"]
  by (auto simp: ensureWritableBytes_def Let_def)

lemma length_data_memcpy_in:
  "writePos b + length bs \<le> length (data b) \<Longrightarrow> length (data (memcpy_in b bs)) = length (data b)"
  by (simp add: memcpy_in_def)

text \<open>C40 (bounds). \<^verbatim>\<open>append\<close> on a well-formed buffer never fails its assertions, adds the bytes behind
  the readable ones and keeps the cursors in order; and the vector never grows beyond its old size,
  the initial capacity, or twice the bytes it has to hold.\<close>
theorem buffer_append_bounded:
  assumes "buf_inv b"
  shows "\<exists>b'. buf_append b bs = Some b' \<and> buf_inv b' \<and> readable b' = readable b @ bs \<and>
    length (data b') \<le> max (length (data b)) (max kInitialCapacity (2 * (readableBytes b + length bs)))"
proof -
  let ?e = "ensureWritableBytes b (length bs)"
  note sp = ensureWritableBytes_spec [OF assms, of "length bs"]
  obtain b' where b': "buf_append b bs = Some b'" "buf_inv b'" "readable b' = readable b @ bs"
    using buf_append_ok [OF assms] by blast
  have "writePos ?e + length bs \<le> length (data ?e)" using sp(1,3) by (auto simp: buf_inv_def writableBytes_def)
  then have "length (data b') = length (data ?e)"
    using b'(1) length_data_memcpy_in [of ?e bs]
    by (auto simp: buf_append_def Let_def advanceWrite_def split: if_splits)
  then show ?thesis using b' ensureWritableBytes_bound [OF assms, of "length bs"] by auto
qed

theorem buffer_append_bounded_witness:
  "\<exists>b'. buf_append \<lparr>data = ''abcdef'', readPos = 4, writePos = 5\<rparr> ''xyz'' = Some b' \<and> readable b' = ''exyz''"
proof -
  let ?b = "\<lparr>data = ''abcdef'', readPos = 4, writePos = 5\<rparr>"
  have "buf_inv ?b" "readable ?b = ''e''" by code_simp+
  then show ?thesis using buffer_append_bounded [of ?b "''xyz''"] by auto
qed

text \<open>The buffer is first in, first out: bytes appended to a well-formed buffer are
  exactly what is left readable once the bytes that were there before have been consumed.\<close>
theorem buffer_fifo:
  assumes "buf_inv b"
  shows "\<exists>b1 b2. buf_append b bs = Some b1 \<and> consume b1 (readableBytes b) = Some b2 \<and>
    buf_inv b2 \<and> readable b2 = bs"
  using bq.fifo [OF assms, of bs] assms by simp

theorem buffer_fifo_witness:
  "\<exists>b1 b2. buf_append \<lparr>data = ''abcdef'', readPos = 1, writePos = 5\<rparr> ''xyz'' = Some b1 \<and>
    consume b1 4 = Some b2 \<and> readable b2 = ''xyz''"
proof -
  let ?b = "\<lparr>data = ''abcdef'', readPos = 1, writePos = 5\<rparr>"
  have "buf_inv ?b" "readableBytes ?b = 4" by code_simp+
  then show ?thesis using buffer_fifo [of ?b "''xyz''"] by auto
qed

end
