(* ===== verification/Resp.thy ===== *)
theory Resp
  imports NetBuffer "HOL-Library.Monad_Syntax"
begin

text \<open>
  The protocol layer: \<^verbatim>\<open>proto/RespParser\<close>, \<^verbatim>\<open>proto/RespSerializer\<close> and the request formatter of
  \<^verbatim>\<open>persistence/AOFWriter\<close> (\<^verbatim>\<open>formatRespCommand\<close>), which writes the frames the parser reads.
  \<^verbatim>\<open>std::nullopt\<close> is \<open>None\<close>. A position found by \<^verbatim>\<open>findCRLF\<close> is cast to a 32-bit int, so it
  is written with \<open>wrap32\<close>; the facts about complete frames assume inputs below 2 GiB. The
  outer option of \<open>parse\<close> is the abort of \<^verbatim>\<open>Buffer::consume\<close>'s assertion, shown unreachable.
\<close>

section \<open>RespParser\<close>

abbreviation CR :: char where "CR \<equiv> CHR 0x0D"
abbreviation LF :: char where "LF \<equiv> CHR 0x0A"
abbreviation CRLF :: bytes where "CRLF \<equiv> [CR, LF]"

function findCRLF_loop :: "bytes \<Rightarrow> nat \<Rightarrow> nat \<Rightarrow> int" where
  "findCRLF_loop d len i =
     (if i + 1 < len
      then if d ! i = CR \<and> d ! (i + 1) = LF then wrap32 (int i) else findCRLF_loop d len (i + 1)
      else - 1)"
  by pat_completeness auto
termination
  by (relation "measure (\<lambda>(d, len, i). len - i)") auto

declare findCRLF_loop.simps [simp del]

definition findCRLF :: "bytes \<Rightarrow> nat \<Rightarrow> nat \<Rightarrow> int" where
  "findCRLF d len offset = (if len < offset + 2 then - 1 else findCRLF_loop d len offset)"

text \<open>The bytes \<^verbatim>\<open>std::string(data + from, n)\<close>.\<close>

definition slice :: "bytes \<Rightarrow> nat \<Rightarrow> nat \<Rightarrow> bytes" where
  "slice d from n = take n (drop from d)"

text \<open>One iteration of the loop over the announced bulk strings: the argument read at \<open>pos\<close> and
  the position after it.\<close>

definition parseBulk :: "bytes \<Rightarrow> nat \<Rightarrow> nat \<Rightarrow> (bytes \<times> nat) option" where
  "parseBulk d len pos =
     (if len \<le> pos then None
      else if d ! pos \<noteq> CHR ''$'' then None
      else let lenCRLF = findCRLF d len (pos + 1) in
        if lenCRLF < 0 then None
        else let bulkLen = atoi (slice d (pos + 1) (nat lenCRLF - (pos + 1))) in
          if bulkLen < 0 then Some ([], nat lenCRLF + 2)
          else let dataStart = nat lenCRLF + 2;
                   dataEnd = dataStart + nat bulkLen in
            if len < dataEnd + 2 then None
            else if d ! dataEnd \<noteq> CR \<or> d ! (dataEnd + 1) \<noteq> LF then None
            else Some (slice d dataStart (nat bulkLen), dataEnd + 2))"

primrec parseBulks :: "bytes \<Rightarrow> nat \<Rightarrow> nat \<Rightarrow> nat \<Rightarrow> bytes list \<Rightarrow> (bytes list \<times> nat) option" where
  "parseBulks d len 0 pos args = Some (args, pos)"
| "parseBulks d len (Suc k) pos args =
     (case parseBulk d len pos of
        None \<Rightarrow> None
      | Some (arg, pos') \<Rightarrow> parseBulks d len k pos' (args @ [arg]))"

definition parseArray :: "bytes \<Rightarrow> nat \<Rightarrow> (bytes list \<times> nat) option" where
  "parseArray d len =
     (let crlfPos = findCRLF d len 1 in
      if crlfPos < 0 then None
      else let count = atoi (slice d 1 (nat (crlfPos - 1))) in
        if count < 0 then Some ([], nat crlfPos + 2)
        else parseBulks d len (nat count) (nat crlfPos + 2) [])"

text \<open>The token loop of \<^verbatim>\<open>parseInline\<close>: skip spaces, cut at the next space.\<close>

function splitSpaces :: "bytes \<Rightarrow> bytes list" where
  "splitSpaces line =
     (let r = dropWhile (\<lambda>c. c = CHR '' '') line in
      if r = [] then []
      else takeWhile (\<lambda>c. c \<noteq> CHR '' '') r # splitSpaces (dropWhile (\<lambda>c. c \<noteq> CHR '' '') r))"
  by pat_completeness auto
termination
proof (relation "measure length", simp)
  fix line :: bytes and r
  assume r: "r = dropWhile (\<lambda>c. c = CHR '' '') line" and "r \<noteq> []"
  then have "hd r \<noteq> CHR '' ''" using hd_dropWhile [of "\<lambda>c. c = CHR '' ''" line] by simp
  with \<open>r \<noteq> []\<close> have "length (dropWhile (\<lambda>c. c \<noteq> CHR '' '') r) \<le> length (tl r)"
    by (cases r) (auto simp: length_dropWhile_le)
  also have "\<dots> < length r" using \<open>r \<noteq> []\<close> by (cases r) auto
  also have "\<dots> \<le> length line" using r by (simp add: length_dropWhile_le)
  finally show "(dropWhile (\<lambda>c. c \<noteq> CHR '' '') r, line) \<in> measure length" by simp
qed

declare splitSpaces.simps [simp del]

definition parseInline :: "bytes \<Rightarrow> nat \<Rightarrow> (bytes list \<times> nat) option" where
  "parseInline d len =
     (let crlfPos = findCRLF d len 0 in
      if crlfPos < 0 then None
      else Some (splitSpaces (slice d 0 (nat crlfPos)), nat crlfPos + 2))"

text \<open>The dispatch on the first byte, without the buffer.\<close>

definition parseFrame :: "bytes \<Rightarrow> (bytes list \<times> nat) option" where
  "parseFrame d =
     (if d ! 0 = CHR ''*'' then parseArray d (length d) else parseInline d (length d))"

definition parse :: "buffer \<Rightarrow> (bytes list option \<times> buffer) option" where
  "parse b =
     (if readableBytes b = 0 then Some (None, b)
      else case parseFrame (readable b) of
        None \<Rightarrow> Some (None, b)
      | Some (args, bytesConsumed) \<Rightarrow>
          (case consume b bytesConsumed of None \<Rightarrow> None | Some b' \<Rightarrow> Some (Some args, b')))"

section \<open>AOFWriter::formatRespCommand\<close>

definition formatBulk :: "bytes \<Rightarrow> bytes" where
  "formatBulk arg = CHR ''$'' # to_string (int (length arg)) @ CRLF @ arg @ CRLF"

definition formatRespCommand :: "bytes list \<Rightarrow> bytes" where
  "formatRespCommand args =
     CHR ''*'' # to_string (int (length args)) @ CRLF @ concat (map formatBulk args)"

section \<open>RespSerializer\<close>

definition writeSimpleString :: "buffer \<Rightarrow> bytes \<Rightarrow> buffer option" where
  "writeSimpleString b s = do {
     b1 \<leftarrow> buf_append b ''+''; b2 \<leftarrow> buf_append b1 s; buf_append b2 CRLF }"

definition writeError :: "buffer \<Rightarrow> bytes \<Rightarrow> buffer option" where
  "writeError b msg = do {
     b1 \<leftarrow> buf_append b ''-''; b2 \<leftarrow> buf_append b1 msg; buf_append b2 CRLF }"

definition writeInteger :: "buffer \<Rightarrow> int \<Rightarrow> buffer option" where
  "writeInteger b v = buf_append b (CHR '':'' # to_string v @ CRLF)"

definition writeBulkString :: "buffer \<Rightarrow> bytes \<Rightarrow> buffer option" where
  "writeBulkString b s = do {
     b1 \<leftarrow> buf_append b (CHR ''$'' # to_string (int (length s)) @ CRLF);
     b2 \<leftarrow> buf_append b1 s; buf_append b2 CRLF }"

definition writeNull :: "buffer \<Rightarrow> buffer option" where
  "writeNull b = buf_append b (''$-1'' @ CRLF)"

definition writeArrayHeader :: "buffer \<Rightarrow> int \<Rightarrow> buffer option" where
  "writeArrayHeader b n = buf_append b (CHR ''*'' # to_string n @ CRLF)"

text \<open>A command handler's output is a sequence of these six calls and never reads the buffer
  back, so handlers return the sequence as data and it is written afterwards.\<close>

datatype reply =
    SimpleString bytes
  | Error bytes
  | Integer int
  | BulkString bytes
  | Null
  | ArrayHeader int

fun write_reply :: "buffer \<Rightarrow> reply \<Rightarrow> buffer option" where
  "write_reply b (SimpleString s) = writeSimpleString b s"
| "write_reply b (Error msg) = writeError b msg"
| "write_reply b (Integer v) = writeInteger b v"
| "write_reply b (BulkString s) = writeBulkString b s"
| "write_reply b Null = writeNull b"
| "write_reply b (ArrayHeader n) = writeArrayHeader b n"

fun write_replies :: "buffer \<Rightarrow> reply list \<Rightarrow> buffer option" where
  "write_replies b [] = Some b"
| "write_replies b (r # rs) = do { b' \<leftarrow> write_reply b r; write_replies b' rs }"

text \<open>The wire format, as the header of \<^verbatim>\<open>RespSerializer\<close> describes it.\<close>

fun reply_bytes :: "reply \<Rightarrow> bytes" where
  "reply_bytes (SimpleString s) = ''+'' @ s @ CRLF"
| "reply_bytes (Error msg) = ''-'' @ msg @ CRLF"
| "reply_bytes (Integer v) = '':'' @ to_string v @ CRLF"
| "reply_bytes (BulkString s) = ''$'' @ to_string (int (length s)) @ CRLF @ s @ CRLF"
| "reply_bytes Null = ''$-1'' @ CRLF"
| "reply_bytes (ArrayHeader n) = ''*'' @ to_string n @ CRLF"

section \<open>The contract of a framing\<close>

text \<open>Messages are encoded back to back and cut from the front of the input one at a time. The
  size restriction \<open>fits\<close> stands for what the decoder's integer types can address.\<close>

locale framing =
  fixes enc :: "'m \<Rightarrow> bytes"
    and dec :: "bytes \<Rightarrow> ('m \<times> nat) option"
    and fits :: "bytes \<Rightarrow> bool"
  assumes dec_enc: "fits (enc m @ r) \<Longrightarrow> dec (enc m @ r) = Some (m, length (enc m))"
    and dec_cut: "fits (enc m) \<Longrightarrow> strict_prefix p (enc m) \<Longrightarrow> dec p = None"
    and dec_step: "dec d = Some (m, n) \<Longrightarrow> 0 < n \<and> n \<le> length d"
    and fits_append: "fits (a @ b) \<Longrightarrow> fits a \<and> fits b"
begin

function decode_all :: "bytes \<Rightarrow> 'm list \<times> bytes" where
  "decode_all d =
     (case dec d of
        None \<Rightarrow> ([], d)
      | Some (m, n) \<Rightarrow> (let (ms, r) = decode_all (drop n d) in (m # ms, r)))"
  by pat_completeness auto
termination
  by (relation "measure length") (auto dest!: dec_step)

declare decode_all.simps [simp del]

lemma decode_all_None: "dec d = None \<Longrightarrow> decode_all d = ([], d)"
  by (subst decode_all.simps) simp

lemma decode_all_Some:
  "dec d = Some (m, n) \<Longrightarrow> decode_all d = (m # fst (decode_all (drop n d)), snd (decode_all (drop n d)))"
  by (subst decode_all.simps) (simp add: case_prod_beta Let_def)

lemma decode_all_enc:
  "fits (concat (map enc ms) @ r) \<Longrightarrow>
   decode_all (concat (map enc ms) @ r) = (ms @ fst (decode_all r), snd (decode_all r))"
proof (induction ms)
  case (Cons m ms)
  let ?d = "concat (map enc ms) @ r"
  have "fits (enc m @ ?d)" using Cons.prems by simp
  then have "dec (enc m @ ?d) = Some (m, length (enc m))" and "fits ?d"
    by (auto intro: dec_enc dest: fits_append)
  with Cons.IH show ?case by (simp add: decode_all_Some)
qed simp

text \<open>Input cut at any point yields a prefix of the messages and leaves a proper part of the next.\<close>

lemma decode_all_prefix:
  assumes "fits (concat (map enc ms))" "prefix p (concat (map enc ms))"
  shows "\<exists>k r. decode_all p = (take k ms, r) \<and> p = concat (map enc (take k ms)) @ r \<and>
    (r = [] \<or> k < length ms \<and> strict_prefix r (enc (ms ! k)))"
  using assms
proof (induction ms arbitrary: p)
  case Nil
  then have "p = []" by simp
  moreover have "dec [] = None" using dec_step by (cases "dec []") fastforce+
  ultimately show ?case by (auto simp: decode_all_None)
next
  case (Cons m ms)
  from Cons.prems(1) have fm: "fits (enc m)" "fits (concat (map enc ms))"
    by (auto dest: fits_append)
  show ?case
  proof (cases "strict_prefix p (enc m)")
    case True
    then have "decode_all p = ([], p)" using fm dec_cut decode_all_None by blast
    with True show ?thesis by (intro exI [of _ 0]) auto
  next
    case False
    with Cons.prems(2) obtain q where q: "p = enc m @ q" "prefix q (concat (map enc ms))"
      by (auto simp: strict_prefix_def prefix_append)
    from Cons.IH [OF fm(2) q(2)] obtain k r where kr: "decode_all q = (take k ms, r)"
        "q = concat (map enc (take k ms)) @ r" "r = [] \<or> k < length ms \<and> strict_prefix r (enc (ms ! k))"
      by blast
    have "fits (enc m @ q)" using Cons.prems(1) q(2) fits_append [of "enc m @ q"]
      by (auto simp: prefix_def)
    then have "dec p = Some (m, length (enc m))" using q(1) dec_enc by simp
    then have "decode_all p = (m # take k ms, r)" using q(1) kr(1) by (simp add: decode_all_Some)
    with kr q(1) show ?thesis by (intro exI [of _ "Suc k"] exI [of _ r]) auto
  qed
qed

end

section \<open>Searching for a line end\<close>

lemma findCRLF_loop_found:
  assumes "i \<le> j" "j + 1 < len" "d ! j = CR" "d ! (j + 1) = LF"
    and "\<And>m. i \<le> m \<Longrightarrow> m < j \<Longrightarrow> d ! m \<noteq> CR"
  shows "findCRLF_loop d len i = wrap32 (int j)"
  using assms
proof (induction d len i rule: findCRLF_loop.induct)
  case (1 d len i)
  show ?case
  proof (cases "i = j")
    case True
    with "1.prems" show ?thesis by (subst findCRLF_loop.simps) simp
  next
    case False
    with "1.prems" have "i < j" by simp
    with "1.prems" have ncr: "i + 1 < len" "d ! i \<noteq> CR" by auto
    with "1.IH" "1.prems" \<open>i < j\<close> have "findCRLF_loop d len (i + 1) = wrap32 (int j)" by simp
    with ncr show ?thesis by (simp add: findCRLF_loop.simps [of d len i])
  qed
qed

lemma findCRLF_loop_absent:
  assumes "\<And>m. i \<le> m \<Longrightarrow> m + 1 < len \<Longrightarrow> d ! m \<noteq> CR"
  shows "findCRLF_loop d len i = - 1"
  using assms
proof (induction d len i rule: findCRLF_loop.induct)
  case (1 d len i)
  show ?case
  proof (cases "i + 1 < len")
    case True
    with "1.prems" have "d ! i \<noteq> CR" by simp
    with True "1.IH" "1.prems" show ?thesis by (simp add: findCRLF_loop.simps [of d len i])
  next
    case False
    then show ?thesis by (simp add: findCRLF_loop.simps [of d len i])
  qed
qed

lemma wrap32_nat_le: "0 \<le> wrap32 (int j) \<Longrightarrow> nat (wrap32 (int j)) \<le> j"
proof -
  assume "0 \<le> wrap32 (int j)"
  have "(int j + 2 ^ 31) mod 2 ^ 32 \<le> int j + 2 ^ 31"
    by (rule zmod_le_nonneg_dividend) simp
  then show ?thesis by (simp add: wrap32_def)
qed

text \<open>Whatever the size of the input, a position the search returns is inside it.\<close>

lemma findCRLF_loop_bound:
  "0 \<le> findCRLF_loop d len i \<Longrightarrow> nat (findCRLF_loop d len i) + 2 \<le> len"
proof (induction d len i rule: findCRLF_loop.induct)
  case (1 d len i)
  show ?case
  proof (cases "i + 1 < len \<and> d ! i = CR \<and> d ! (i + 1) = LF")
    case True
    then have eq: "findCRLF_loop d len i = wrap32 (int i)"
      by (simp add: findCRLF_loop.simps [of d len i])
    with "1.prems" wrap32_nat_le [of i] True show ?thesis by simp
  next
    case False
    show ?thesis
    proof (cases "i + 1 < len")
      case True
      with False have "findCRLF_loop d len i = findCRLF_loop d len (i + 1)"
        by (subst findCRLF_loop.simps) auto
      with True False "1.IH" "1.prems" show ?thesis by auto
    next
      case False
      with "1.prems" show ?thesis by (simp add: findCRLF_loop.simps [of d len i])
    qed
  qed
qed

lemma findCRLF_bound: "0 \<le> findCRLF d len off \<Longrightarrow> nat (findCRLF d len off) + 2 \<le> len"
  using findCRLF_loop_bound [of d len off] by (simp add: findCRLF_def split: if_splits)

lemma findCRLF_at:
  assumes "d = xs @ CRLF @ ys" "off \<le> length xs" "CR \<notin> set (drop off xs)"
    and "length d < 2147483648"
  shows "findCRLF d (length d) off = int (length xs)"
proof -
  have "d ! m \<noteq> CR" if "off \<le> m" "m < length xs" for m
  proof -
    have "xs ! m \<in> set (drop off xs)" using that by (rule nth_mem_drop)
    with assms(1,3) that show ?thesis by (auto simp: nth_append)
  qed
  then have "findCRLF_loop d (length d) off = wrap32 (int (length xs))"
    using assms(1,2) by (intro findCRLF_loop_found) (auto simp: nth_append)
  with assms show ?thesis by (simp add: findCRLF_def)
qed

lemma findCRLF_absent:
  assumes "CR \<notin> set (drop off (butlast d))"
  shows "findCRLF d (length d) off = - 1"
proof -
  have "d ! m \<noteq> CR" if "off \<le> m" "m + 1 < length d" for m
  proof -
    have "butlast d ! m \<in> set (drop off (butlast d))"
      using that by (intro nth_mem_drop) auto
    moreover have "butlast d ! m = d ! m" using that by (simp add: nth_butlast)
    ultimately show ?thesis using assms by metis
  qed
  then have "findCRLF_loop d (length d) off = - 1" by (rule findCRLF_loop_absent)
  then show ?thesis by (simp add: findCRLF_def)
qed

lemma CR_notin_to_string [simp]: "CR \<notin> set (to_string (int n))"
proof
  assume "CR \<in> set (to_string (int n))"
  then have "isdigit CR" by (auto simp: to_string_def dest: nat_to_string_digits)
  then show False by (simp add: isdigit_def)
qed

section \<open>Reading back a formatted command\<close>

lemma atoi_length [simp]: "n < 2147483648 \<Longrightarrow> atoi (to_string (int n)) = int n"
  by (rule atoi_to_string) auto

lemma slice_middle [simp]: "slice (xs @ ys @ zs) (length xs) (length ys) = ys"
  by (simp add: slice_def)

text \<open>The length line of a bulk string at \<open>pos\<close>: where the search stops and what it reads.\<close>

lemma bulk_header:
  assumes d: "d = pre @ CHR ''$'' # to_string (int n) @ CRLF @ post"
    and small: "length d < 2147483648"
  shows "findCRLF d (length d) (length pre + 1) = int (length pre + 1 + length (to_string (int n)))"
    and "slice d (length pre + 1) (length (to_string (int n))) = to_string (int n)"
proof -
  let ?xs = "pre @ CHR ''$'' # to_string (int n)"
  have "findCRLF d (length d) (length pre + 1) = int (length ?xs)"
    using d small by (intro findCRLF_at [where ys = post]) auto
  then show "findCRLF d (length d) (length pre + 1) = int (length pre + 1 + length (to_string (int n)))"
    by simp
  show "slice d (length pre + 1) (length (to_string (int n))) = to_string (int n)"
    using slice_middle [of "pre @ [CHR ''$'']" "to_string (int n)" "CRLF @ post"] d by simp
qed

lemma length_formatBulk:
  "length (formatBulk a) = length (to_string (int (length a))) + length a + 5"
  by (simp add: formatBulk_def)

lemma parseBulk_formatBulk:
  assumes d: "d = pre @ formatBulk a @ post" and small: "length d < 2147483648"
  shows "parseBulk d (length d) (length pre) = Some (a, length pre + length (formatBulk a))"
proof -
  let ?n = "length a" and ?ds = "to_string (int (length a))"
  have d': "d = pre @ CHR ''$'' # ?ds @ CRLF @ (a @ CRLF @ post)"
    using d by (simp add: formatBulk_def)
  note hdr = bulk_header [OF d' small]
  have n: "?n < 2147483648" using small d by (simp add: length_formatBulk)
  let ?st = "length pre + 1 + length ?ds + 2"
  have da: "d = (pre @ CHR ''$'' # ?ds @ CRLF) @ a @ (CRLF @ post)" using d' by simp
  have st: "length (pre @ CHR ''$'' # ?ds @ CRLF) = ?st" by simp
  have sl: "slice d ?st ?n = a"
    using slice_middle [of "pre @ CHR ''$'' # ?ds @ CRLF" a "CRLF @ post"] da st by simp
  have de: "d = ((pre @ CHR ''$'' # ?ds @ CRLF) @ a) @ CR # LF # post" using da by simp
  have len: "length ((pre @ CHR ''$'' # ?ds @ CRLF) @ a) = ?st + ?n" by simp
  have cr: "d ! (?st + ?n) = CR" "d ! (?st + ?n + 1) = LF"
    unfolding de len [symmetric] by (simp_all add: nth_append)
  have "d ! length pre = CHR ''$''" "length pre < length d" "?st + ?n + 2 \<le> length d"
    using d' by (simp_all add: nth_append)
  with hdr n sl cr show ?thesis
    by (simp add: parseBulk_def Let_def length_formatBulk nat_add_distrib)
qed

lemma parseBulks_format:
  assumes "d = pre @ concat (map formatBulk args) @ post" "length d < 2147483648"
  shows "parseBulks d (length d) (length args) (length pre) acc =
    Some (acc @ args, length pre + length (concat (map formatBulk args)))"
  using assms
proof (induction args arbitrary: pre acc)
  case (Cons a args)
  have "d = (pre @ formatBulk a) @ concat (map formatBulk args) @ post" using Cons.prems by simp
  from Cons.IH [OF this Cons.prems(2), of "acc @ [a]"]
  have "parseBulks d (length d) (length args) (length pre + length (formatBulk a)) (acc @ [a]) =
      Some (acc @ a # args, length pre + length (concat (map formatBulk (a # args))))"
    by simp
  moreover have "parseBulk d (length d) (length pre) = Some (a, length pre + length (formatBulk a))"
    using Cons.prems by (intro parseBulk_formatBulk) auto
  ultimately show ?case by simp
qed simp

lemma length_args_le_format: "length args \<le> length (concat (map formatBulk args))"
  by (induction args) (auto simp: length_formatBulk)

lemma array_header:
  assumes d: "d = CHR ''*'' # to_string (int n) @ CRLF @ post" and small: "length d < 2147483648"
  shows "findCRLF d (length d) 1 = int (1 + length (to_string (int n)))"
    and "slice d 1 (length (to_string (int n))) = to_string (int n)"
proof -
  have "findCRLF d (length d) 1 = int (length (CHR ''*'' # to_string (int n)))"
    using d small by (intro findCRLF_at [where ys = post]) auto
  then show "findCRLF d (length d) 1 = int (1 + length (to_string (int n)))" by simp
  show "slice d 1 (length (to_string (int n))) = to_string (int n)"
    using d by (simp add: slice_def)
qed

lemma parseFrame_format:
  assumes small: "length (formatRespCommand args @ rest) < 2147483648"
  shows "parseFrame (formatRespCommand args @ rest) = Some (args, length (formatRespCommand args))"
proof -
  let ?d = "formatRespCommand args @ rest" and ?ds = "to_string (int (length args))"
  have d: "?d = CHR ''*'' # ?ds @ CRLF @ (concat (map formatBulk args) @ rest)"
    by (simp add: formatRespCommand_def)
  note hdr = array_header [OF d small]
  have "length args < 2147483648"
    using small length_args_le_format [of args] by (simp add: formatRespCommand_def)
  moreover have "parseBulks ?d (length ?d) (length args) (length (CHR ''*'' # ?ds @ CRLF)) [] =
      Some ([] @ args, length (CHR ''*'' # ?ds @ CRLF) + length (concat (map formatBulk args)))"
    using d small by (intro parseBulks_format) auto
  ultimately show ?thesis
    using hdr by (simp add: parseFrame_def parseArray_def Let_def formatRespCommand_def nat_add_distrib)
qed

section \<open>Incomplete input\<close>

text \<open>Input cut inside a length line or after it: in the first case no line end is there yet.\<close>

lemma cut_line_cases:
  assumes "strict_prefix q (to_string (int n) @ CRLF @ body)"
  obtains "CR \<notin> set (butlast q)"
  | q' where "q = to_string (int n) @ CRLF @ q'" "strict_prefix q' body"
proof -
  have "strict_prefix q ((to_string (int n) @ CRLF) @ body)" using assms by simp
  then show thesis
  proof (cases rule: strict_prefix_append_cases)
    case 1
    then have "strict_prefix q ((to_string (int n) @ [CR]) @ [LF])" by simp
    then have "prefix q (to_string (int n) @ [CR])"
      by (cases rule: strict_prefix_append_cases) (auto simp: strict_prefix_def prefix_Cons)
    then have "prefix (butlast q) (to_string (int n))"
      by (auto simp: prefix_snoc dest: prefix_order.trans [OF prefixeq_butlast])
    then show thesis using that(1) set_mono_prefix CR_notin_to_string by blast
  next
    case (2 us)
    then show thesis using that(2) by simp
  qed
qed

lemma parseBulk_prefix:
  assumes d: "d = pre @ p" and p: "strict_prefix p (formatBulk a)"
    and small: "length d < 2147483648" and a: "length a < 2147483648"
  shows "parseBulk d (length d) (length pre) = None"
proof (cases p)
  case Nil
  with d show ?thesis by (simp add: parseBulk_def)
next
  case (Cons c q)
  have c: "c = CHR ''$''" and q: "strict_prefix q (to_string (int (length a)) @ CRLF @ a @ CRLF)"
    using p Cons by (auto simp: formatBulk_def)
  from q show ?thesis
  proof (cases rule: cut_line_cases [consumes 1, case_names inside after])
    case inside
    moreover have "drop (length pre + 1) (butlast d) = butlast q"
      using d Cons by (cases "q = []") (simp_all add: butlast_append)
    ultimately have "findCRLF d (length d) (length pre + 1) = - 1"
      by (intro findCRLF_absent) simp
    then show ?thesis by (simp add: parseBulk_def Let_def)
  next
    case (after q')
    then have len: "length q' < length a + 2" by (auto dest: prefix_length_less)
    have d': "d = pre @ CHR ''$'' # to_string (int (length a)) @ CRLF @ q'" using d Cons c after by simp
    then have "length d = length pre + 1 + length (to_string (int (length a))) + 2 + length q'" by simp
    with bulk_header [OF d' small] len a show ?thesis
      by (simp add: parseBulk_def Let_def nat_add_distrib)
  qed
qed

lemma parseBulks_prefix:
  assumes "d = pre @ p" "strict_prefix p (concat (map formatBulk args))"
    and "length d < 2147483648" "\<forall>a \<in> set args. length a < 2147483648"
  shows "parseBulks d (length d) (length args) (length pre) acc = None"
  using assms
proof (induction args arbitrary: pre p acc)
  case (Cons a args)
  from Cons.prems(2) have "strict_prefix p (formatBulk a @ concat (map formatBulk args))" by simp
  then show ?case
  proof (cases rule: strict_prefix_append_cases)
    case 1
    with Cons.prems have "parseBulk d (length d) (length pre) = None"
      by (intro parseBulk_prefix) auto
    then show ?thesis by simp
  next
    case us: (2 us)
    with Cons.prems(1) have "parseBulk d (length d) (length pre) = Some (a, length pre + length (formatBulk a))"
      using Cons.prems(3) by (intro parseBulk_formatBulk) auto
    moreover have "parseBulks d (length d) (length args) (length (pre @ formatBulk a)) (acc @ [a]) = None"
      using Cons.prems us by (intro Cons.IH [of _ us]) auto
    ultimately show ?thesis by simp
  qed
qed simp

definition frame_bounded :: "bytes list \<Rightarrow> bool" where
  "frame_bounded args = (length (formatRespCommand args) < 2147483648)"

lemma length_arg_le: "a \<in> set args \<Longrightarrow> length a \<le> length (concat (map formatBulk args))"
  by (induction args) (auto simp: length_formatBulk)

lemma frame_bounded_args:
  assumes "frame_bounded args"
  shows "length args < 2147483648" "\<forall>a \<in> set args. length a < 2147483648"
  using assms length_args_le_format [of args] length_arg_le [of _ args]
  by (auto simp: frame_bounded_def formatRespCommand_def dest!: length_arg_le)

lemma parseFrame_prefix:
  assumes p: "strict_prefix p (formatRespCommand args)" and ne: "p \<noteq> []" and fb: "frame_bounded args"
  shows "parseFrame p = None"
proof -
  let ?ds = "to_string (int (length args))"
  obtain q where pq: "p = CHR ''*'' # q" and q: "strict_prefix q (?ds @ CRLF @ concat (map formatBulk args))"
    using p ne by (cases p) (auto simp: formatRespCommand_def)
  have small: "length p < 2147483648"
    using prefix_length_less [OF p] fb by (simp add: frame_bounded_def)
  from q show ?thesis
  proof (cases rule: cut_line_cases [consumes 1, case_names inside after])
    case inside
    then have "CR \<notin> set (drop 1 (butlast p))" using pq by auto
    then have "findCRLF p (length p) 1 = - 1" by (rule findCRLF_absent)
    with pq show ?thesis by (simp add: parseFrame_def parseArray_def Let_def)
  next
    case (after q')
    have p': "p = CHR ''*'' # ?ds @ CRLF @ q'" using pq after by simp
    have "parseBulks p (length p) (length args) (length (CHR ''*'' # ?ds @ CRLF)) [] = None"
      using p' after small frame_bounded_args [OF fb] by (intro parseBulks_prefix [of _ _ q']) auto
    with array_header [OF p' small] frame_bounded_args [OF fb] pq show ?thesis
      by (simp add: parseFrame_def parseArray_def Let_def nat_add_distrib)
  qed
qed

section \<open>The parser and its buffer\<close>

lemma parseBulk_bound: "parseBulk d len pos = Some (a, n) \<Longrightarrow> 0 < n \<and> n \<le> len"
  using findCRLF_bound [of d len "pos + 1"]
  by (auto simp: parseBulk_def Let_def split: if_splits)

lemma parseBulks_bound:
  "parseBulks d len k pos acc = Some (args, n) \<Longrightarrow> 0 < pos \<Longrightarrow> pos \<le> len \<Longrightarrow> 0 < n \<and> n \<le> len"
  by (induction k arbitrary: pos acc) (auto split: option.splits dest!: parseBulk_bound)

lemma parseFrame_bound:
  assumes "parseFrame d = Some (args, n)"
  shows "0 < n \<and> n \<le> length d"
proof -
  have "0 < n \<and> n \<le> length d" if "parseArray d (length d) = Some (args, n)"
    using that findCRLF_bound [of d "length d" 1] parseBulks_bound [of d "length d" _ _ "[]" args n]
    by (fastforce simp: parseArray_def Let_def split: if_splits)
  moreover have "0 < n \<and> n \<le> length d" if "parseInline d (length d) = Some (args, n)"
    using that findCRLF_bound [of d "length d" 0]
    by (auto simp: parseInline_def Let_def split: if_splits)
  ultimately show ?thesis using assms by (simp add: parseFrame_def split: if_splits)
qed

abbreviation decodeFrame :: "bytes \<Rightarrow> (bytes list \<times> nat) option" where
  "decodeFrame d \<equiv> if d = [] then None else parseFrame d"

interpretation rf: framing formatRespCommand decodeFrame "\<lambda>d. length d < 2147483648"
proof unfold_locales
  fix m r assume "length (formatRespCommand m @ r) < 2147483648"
  then show "decodeFrame (formatRespCommand m @ r) = Some (m, length (formatRespCommand m))"
    using parseFrame_format [of m r] by (simp add: formatRespCommand_def)
qed (auto simp: frame_bounded_def parseFrame_prefix parseFrame_bound dest: parseFrame_bound split: if_splits)

text \<open>One call of the parser on a well-formed buffer: it never aborts; without a complete frame it
  leaves the buffer as it is, otherwise it removes exactly the bytes of the frame.\<close>

lemma parse_decodeFrame:
  assumes "buf_inv b"
  shows "case decodeFrame (readable b) of
      None \<Rightarrow> parse b = Some (None, b)
    | Some (args, n) \<Rightarrow> \<exists>b'. parse b = Some (Some args, b') \<and> buf_inv b' \<and> readable b' = drop n (readable b)"
proof (cases "readable b = []")
  case True
  then have "readableBytes b = 0" using length_readable [OF assms] by simp
  with True show ?thesis by (simp add: parse_def)
next
  case False
  then have ne: "readableBytes b \<noteq> 0" using length_readable [OF assms] by (metis length_0_conv)
  show ?thesis
  proof (cases "parseFrame (readable b)")
    case None
    with False ne show ?thesis by (simp add: parse_def)
  next
    case (Some an)
    obtain args n where an: "an = (args, n)" by (cases an)
    with Some have "n \<le> length (readable b)" by (auto dest: parseFrame_bound)
    from bq.discard_ok [OF assms this] Some an False ne show ?thesis by (auto simp: parse_def)
  qed
qed

section \<open>The serializer writes the wire format\<close>

lemma write_reply_ok:
  assumes "buf_inv b"
  shows "\<exists>b'. write_reply b r = Some b' \<and> buf_inv b' \<and> readable b' = readable b @ reply_bytes r"
proof -
  have three: "\<exists>b'. (buf_append b x \<bind> (\<lambda>b1. buf_append b1 y \<bind> (\<lambda>b2. buf_append b2 z))) = Some b' \<and>
      buf_inv b' \<and> readable b' = readable b @ x @ y @ z" for x y z
    using bq.append_all_ok [OF assms, of "[x, y, z]"]
    by (auto split: option.splits simp: bind_eq_Some_conv)
  show ?thesis
    using buf_append_ok [OF assms] three [of "''+''" _ CRLF] three [of "''-''" _ CRLF]
      three [of "CHR ''$'' # _ @ CRLF" _ CRLF]
    by (cases r) (simp_all add: writeSimpleString_def writeError_def writeInteger_def
        writeBulkString_def writeNull_def writeArrayHeader_def)
qed

lemma write_replies_ok:
  "buf_inv b \<Longrightarrow> \<exists>b'. write_replies b rs = Some b' \<and> buf_inv b' \<and>
    readable b' = readable b @ concat (map reply_bytes rs)"
proof (induction rs arbitrary: b)
  case (Cons r rs)
  obtain b1 where "write_reply b r = Some b1" "buf_inv b1" "readable b1 = readable b @ reply_bytes r"
    using write_reply_ok [OF Cons.prems] by blast
  then show ?case using Cons.IH [of b1] by auto
qed simp

text \<open>A list reply has the shape of a request frame, so the parser of the other side is the same.\<close>

lemma bulk_list_bytes:
  "concat (map reply_bytes (ArrayHeader (int (length xs)) # map BulkString xs)) = formatRespCommand xs"
proof -
  have "concat (map (reply_bytes \<circ> BulkString) xs) = concat (map formatBulk xs)"
    by (rule arg_cong [where f = concat]) (simp add: formatBulk_def)
  then show ?thesis by (simp add: formatRespCommand_def)
qed

section \<open>Properties\<close>

text \<open>C15 (roundtrip). Commands written back to back by \<^verbatim>\<open>formatRespCommand\<close> (which is what the AOF holds
  and what a pipelining client sends) are read back by repeated parsing exactly as they were, for any
  binary content, up to the 2 GB the parser's \<^verbatim>\<open>int\<close> positions can address.\<close>
theorem resp_pipeline_roundtrip:
  assumes "length (concat (map formatRespCommand cmds)) < 2147483648"
  shows "rf.decode_all (concat (map formatRespCommand cmds)) = (cmds, [])"
  using rf.decode_all_enc [of cmds "[]"] rf.decode_all_None [of "[]"] assms by simp

theorem resp_pipeline_roundtrip_witness:
  "rf.decode_all (concat (map formatRespCommand [[''SET'', ''k'', [CR, LF]], [''GET'', ''k''], []])) =
    ([[''SET'', ''k'', [CR, LF]], [''GET'', ''k''], []], [])"
proof -
  have "length (concat (map formatRespCommand [[''SET'', ''k'', [CR, LF]], [''GET'', ''k''], []])) \<le> 60"
    by code_simp
  then show ?thesis by (intro resp_pipeline_roundtrip) linarith
qed

text \<open>C17 (safety). However the network cuts a stream of commands, the bytes received so far decode to a
  prefix of the commands that were sent, and what is left undecoded is a proper part of the next
  command: no command is invented, split or lost.\<close>
theorem resp_cut_input:
  assumes "length (concat (map formatRespCommand cmds)) < 2147483648"
    and "prefix p (concat (map formatRespCommand cmds))"
  shows "\<exists>k r. rf.decode_all p = (take k cmds, r) \<and> p = concat (map formatRespCommand (take k cmds)) @ r \<and>
    (r = [] \<or> k < length cmds \<and> strict_prefix r (formatRespCommand (cmds ! k)))"
  using rf.decode_all_prefix [of cmds p] assms by simp

theorem resp_cut_input_witness:
  "\<exists>k r. rf.decode_all (take 20 (formatRespCommand [''PING''] @ formatRespCommand [''DBSIZE''])) =
    (take k [[''PING''], [''DBSIZE'']], r)"
proof -
  let ?cs = "[[''PING''], [''DBSIZE'']]"
  have eq: "concat (map formatRespCommand ?cs) = formatRespCommand [''PING''] @ formatRespCommand [''DBSIZE'']"
    by simp
  have "length (concat (map formatRespCommand ?cs)) \<le> 60" by code_simp
  then have "length (concat (map formatRespCommand ?cs)) < 2147483648" by linarith
  moreover have "prefix (take 20 (concat (map formatRespCommand ?cs))) (concat (map formatRespCommand ?cs))"
    by (rule take_is_prefix)
  ultimately show ?thesis unfolding eq [symmetric] using resp_cut_input by blast
qed

text \<open>One call of \<^verbatim>\<open>RespParser::parse\<close> on any well-formed buffer of less than 2 GiB (what its
  \<^verbatim>\<open>int\<close> positions can address), whatever bytes it holds, never breaks the buffer's assertions: without a complete frame the buffer is untouched, and otherwise
  a positive number of bytes, at most those that are readable, is removed from its front.\<close>
theorem parse_total:
  assumes "buf_inv b" and "length (readable b) < 2147483648"
  shows "parse b = Some (None, b) \<or>
    (\<exists>args n b'. parse b = Some (Some args, b') \<and> buf_inv b' \<and> 0 < n \<and> n \<le> length (readable b) \<and>
       parseFrame (readable b) = Some (args, n) \<and> readable b' = drop n (readable b))"
  using parse_decodeFrame [OF assms(1)] parseFrame_bound [of "readable b"]
  by (auto split: option.splits if_splits)

theorem parse_total_witness:
  "\<exists>args b'. parse \<lparr>data = ''PING x'' @ CRLF, readPos = 0, writePos = 8\<rparr> = Some (Some args, b')"
proof -
  let ?b = "\<lparr>data = ''PING x'' @ CRLF, readPos = 0, writePos = 8\<rparr>"
  have "buf_inv ?b" by code_simp
  moreover have "length (readable ?b) = 8" by code_simp
  moreover have "parse ?b \<noteq> Some (None, ?b)" by code_simp
  ultimately show ?thesis using parse_total [of ?b] by fastforce
qed

text \<open>Writing any sequence of replies into a well-formed buffer succeeds and appends
  exactly their RESP encodings, in order; a list of bulk strings has the bytes of a request frame, so
  it is read back by the same parser.\<close>
theorem replies_on_the_wire:
  assumes "buf_inv b"
  shows "(\<exists>b'. write_replies b rs = Some b' \<and> buf_inv b' \<and>
      readable b' = readable b @ concat (map reply_bytes rs)) \<and>
    concat (map reply_bytes (ArrayHeader (int (length xs)) # map BulkString xs)) = formatRespCommand xs"
  using write_replies_ok [OF assms] bulk_list_bytes by blast

theorem replies_on_the_wire_witness:
  "\<exists>b'. write_replies new_buffer [ArrayHeader 2, Integer (- 5), Null] = Some b' \<and>
    readable b' = ''*2'' @ CRLF @ '':-5'' @ CRLF @ ''$-1'' @ CRLF"
proof -
  have "concat (map reply_bytes [ArrayHeader 2, Integer (- 5), Null]) =
      ''*2'' @ CRLF @ '':-5'' @ CRLF @ ''$-1'' @ CRLF" by code_simp
  then show ?thesis
    using replies_on_the_wire [OF buf_inv_new, of "[ArrayHeader 2, Integer (- 5), Null]"]
    unfolding readable_new by fastforce
qed

end
