(* ===== verification/Handlers.thy ===== *)
theory Handlers
  imports Database Resp
begin

text \<open>
  What the command handlers of \<^verbatim>\<open>cmd/\<close> share. A handler gets the database and the arguments and gives
  the replies it wrote and the new database, or the exception it threw (which nothing catches). Its
  environment holds what it takes from outside: the successive clock readings of this command, the
  order in which the unordered containers are visited, the seed of new random generators, the
  sizes behind the memory estimate, and for the server loop the time the command took, the wall clock
  and the outcomes of the \<^verbatim>\<open>write\<close> calls on the log file that are not complete at once. The prologue of the container handlers (look the key up, refuse
  another type, create it for a write) is written once as \<open>readContainer\<close> and \<open>writeContainer\<close>; the
  locale \<open>container\<close> is the contract between a payload type and the handlers that work on it.
\<close>

datatype write_outcome = Wrote nat | Interrupted | WriteError

record env =
  mm :: mem_model
  clk :: "nat \<Rightarrow> int"
  uorder :: "bytes list \<Rightarrow> bytes list"
  seed :: "nat \<Rightarrow> nat"
  durationUs :: int
  wallUs :: int
  writes :: "write_outcome list"

type_synonym result = "cpp_exception + reply list \<times> database"

definition WRONGTYPE :: bytes where
  "WRONGTYPE = ''WRONGTYPE Operation against a key holding the wrong kind of value''"

definition readContainer ::
  "env \<Rightarrow> database \<Rightarrow> bytes \<Rightarrow> DataType \<Rightarrow> reply list \<Rightarrow>
    (RedisObject htentry \<Rightarrow> database \<Rightarrow> result) \<Rightarrow> result" where
  "readContainer env db k ty missing body =
     (case db_findEntry (mm env) (clk env 0) db k of
        (None, db1) \<Rightarrow> Inr (missing, db1)
      | (Some e, db1) \<Rightarrow> if otype (evalue e) \<noteq> ty then Inr ([Error WRONGTYPE], db1) else body e db1)"

text \<open>After \<^verbatim>\<open>setObject\<close> the handler looks the key up again and dereferences the result unchecked.\<close>

definition writeContainer ::
  "env \<Rightarrow> database \<Rightarrow> bytes \<Rightarrow> DataType \<Rightarrow> RedisObject \<Rightarrow>
    (RedisObject htentry \<Rightarrow> database \<Rightarrow> result) \<Rightarrow> result" where
  "writeContainer env db k ty fresh body =
     (case db_findEntry (mm env) (clk env 0) db k of
        (Some e, db1) \<Rightarrow> if otype (evalue e) \<noteq> ty then Inr ([Error WRONGTYPE], db1) else body e db1
      | (None, db1) \<Rightarrow>
          (case db_findEntry (mm env) (clk env 1) (db_setObject (mm env) db1 k fresh) k of
             (None, _) \<Rightarrow> Inl null_pointer
           | (Some e, db2) \<Rightarrow> body e db2))"

text \<open>An assignment to the payload of the entry of \<open>k\<close>.\<close>

definition setData :: "database \<Rightarrow> bytes \<Rightarrow> RedisData \<Rightarrow> database" where
  "setData db k d = modifyEntry db k (\<lambda>e. e\<lparr>evalue := (evalue e)\<lparr>odata := d\<rparr>\<rparr>)"

section \<open>Effects on the stored entries\<close>

text \<open>\<open>stores k v x db db'\<close>: the key now holds \<open>v\<close> with expiry time \<open>x\<close>; no other entry has
  changed and no deadline was added to the heap.\<close>

definition stores :: "bytes \<Rightarrow> RedisObject \<Rightarrow> int \<Rightarrow> database \<Rightarrow> database \<Rightarrow> bool" where
  "stores k v x db db' = (db_inv db' \<and> entry_of db' = (entry_of db)(k \<mapsto> mk_entry k v x) \<and> due db' \<subseteq>\<^sub>m due db)"

lemma entry_mk:
  assumes "db_inv db" "entry_of db k = Some e"
  shows "e = mk_entry k (evalue e) (expireAt e)"
  using ht_map_key [OF db_invD(1) [OF assms(1)] assms(2)] by (simp add: mk_entry_def)

lemma alive_entry:
  assumes "db_inv db" "alive db now k = Some (v, x)"
  shows "entry_of db k = Some (mk_entry k v x)" "obj_ok v" "\<not> expired now (mk_entry k v x)"
proof -
  obtain e where e: "entry_of db k = Some e" "evalue e = v" "expireAt e = x" "\<not> expired now e"
    using assms(2) by (auto simp: alive_def alive_map_def split: option.splits if_splits)
  then show "entry_of db k = Some (mk_entry k v x)" "\<not> expired now (mk_entry k v x)"
    using entry_mk [OF assms(1) e(1)] by simp_all
  show "obj_ok v" using db_invD(4) [OF assms(1) e(1)] e(2) by simp
qed

lemma stores_alive:
  assumes "stores k v x db db'"
  shows "alive db' t = (alive db t)(k := if 0 \<le> x \<and> x \<le> t then None else Some (v, x))"
  using assms by (auto simp: stores_def alive_def alive_map_def fun_eq_iff mk_entry_def expired_def)

lemma stores_inv: "stores k v x db db' \<Longrightarrow> db_inv db'"
  by (simp add: stores_def)

lemma findEntry_alive:
  assumes inv: "db_inv db" and a: "alive db now k = Some (v, x)"
  shows "\<exists>db1. db_findEntry m now db k = (Some (mk_entry k v x), db1) \<and> same_data db db1"
proof -
  obtain r db1 where f: "db_findEntry m now db k = (r, db1)" by fastforce
  note ff = db_findEntry_ok [OF inv f] and e = alive_entry [OF inv a]
  from ff(2) e have "r = Some (mk_entry k v x)" by simp
  with ff(1) e f show ?thesis by (simp add: reaped_def)
qed

lemma findEntry_dead:
  assumes inv: "db_inv db" and a: "alive db now k = None"
  shows "\<exists>db1. db_findEntry m now db k = (None, db1) \<and> reaped now k db db1 \<and> entry_of db1 = (entry_of db)(k := None)"
proof -
  obtain r db1 where f: "db_findEntry m now db k = (r, db1)" by fastforce
  note ff = db_findEntry_ok [OF inv f]
  have "r = None" using ff(2) a by (auto simp: alive_None split: option.split)
  moreover have "entry_of db1 = (entry_of db)(k := None)"
    using ff(1) a by (auto simp: alive_None reaped_def same_data_def without_def split: option.splits if_splits)
  ultimately show ?thesis using ff(1) f by blast
qed

lemma setData_ok:
  assumes inv: "db_inv db" and e: "entry_of db k = Some (mk_entry k v x)" and ok: "obj_ok (v\<lparr>odata := d\<rparr>)"
  shows "stores k (v\<lparr>odata := d\<rparr>) x db (setData db k d)"
  using modify_value_ok [OF inv e, of "\<lambda>v. v\<lparr>odata := d\<rparr>"] ok
  by (simp add: stores_def setData_def mk_entry_def)

section \<open>The contract of a container type\<close>

text \<open>\<open>box c\<close> is the object that holds the payload \<open>c\<close>; \<open>prj\<close> is \<^verbatim>\<open>std::get\<close>; \<open>okc\<close> what a payload
  promises.\<close>

locale container =
  fixes ty :: DataType and box :: "'c \<Rightarrow> RedisObject" and inj :: "'c \<Rightarrow> RedisData"
    and prj :: "RedisData \<Rightarrow> 'c option" and okc :: "'c \<Rightarrow> bool" and nil :: 'c
  assumes prj_box: "prj (odata (box c)) = Some c"
    and set_box: "(box c)\<lparr>odata := inj c'\<rparr> = box c'"
    and type_box: "otype (box c) = ty"
    and box_ok: "obj_ok (box c) \<longleftrightarrow> okc c"
    and nil_ok: "okc nil"
    and unbox: "obj_ok v \<Longrightarrow> otype v = ty \<Longrightarrow> \<exists>c. v = box c"
begin

text \<open>The payload and expiry time a handler works on: those of the live key, or a new empty one.\<close>

definition content :: "database \<Rightarrow> int \<Rightarrow> bytes \<Rightarrow> 'c \<times> int" where
  "content db now k = (case alive db now k of Some (v, x) \<Rightarrow> (the (prj (odata v)), x) | None \<Rightarrow> (nil, - 1))"

definition fits_type :: "database \<Rightarrow> int \<Rightarrow> bytes \<Rightarrow> bool" where
  "fits_type db now k = (case alive db now k of Some (v, x) \<Rightarrow> otype v = ty | None \<Rightarrow> True)"

lemma content_okc:
  assumes "db_inv db" "fits_type db now k"
  shows "okc (fst (content db now k))"
proof (cases "alive db now k")
  case (Some vx)
  obtain v x where vx: "vx = (v, x)" by (cases vx)
  with Some assms alive_entry(2) [OF assms(1)] have v: "obj_ok v" "otype v = ty" by (auto simp: fits_type_def)
  then obtain c where "v = box c" using unbox by blast
  with Some vx v show ?thesis by (simp add: content_def prj_box box_ok)
qed (simp add: content_def nil_ok)

lemma alive_box:
  assumes "db_inv db" "fits_type db now k" "alive db now k = Some (v, x)"
  shows "\<exists>c. v = box c \<and> content db now k = (c, x) \<and> okc c"
proof -
  have "obj_ok v" "otype v = ty" using alive_entry(2) [OF assms(1,3)] assms(2,3) by (simp_all add: fits_type_def)
  then obtain c where "v = box c" using unbox by blast
  with assms(3) \<open>obj_ok v\<close> show ?thesis by (simp add: content_def prj_box box_ok)
qed

lemma wrong_type:
  assumes "db_inv db" "\<not> fits_type db (clk env 0) k"
  shows "\<exists>db'. readContainer env db k ty miss body = Inr ([Error WRONGTYPE], db') \<and> same_data db db'"
    and "\<exists>db'. writeContainer env db k ty fresh body = Inr ([Error WRONGTYPE], db') \<and> same_data db db'"
proof -
  obtain v x where a: "alive db (clk env 0) k = Some (v, x)" "otype v \<noteq> ty"
    using assms(2) by (auto simp: fits_type_def split: option.splits)
  from findEntry_alive [OF assms(1) a(1), of "mm env"] a(2)
  show "\<exists>db'. readContainer env db k ty miss body = Inr ([Error WRONGTYPE], db') \<and> same_data db db'"
    and "\<exists>db'. writeContainer env db k ty fresh body = Inr ([Error WRONGTYPE], db') \<and> same_data db db'"
    by (auto simp: readContainer_def writeContainer_def mk_entry_def)
qed

text \<open>A handler that only reads the payload.\<close>

lemma read_ok:
  assumes inv: "db_inv db" and a: "alive db (clk env 0) k = Some (v, x)" and ft: "fits_type db (clk env 0) k"
    and body: "\<And>e db1. prj (odata (evalue e)) = Some (fst (content db (clk env 0) k)) \<Longrightarrow> body e db1 = out db1"
  shows "\<exists>db1. readContainer env db k ty miss body = out db1 \<and> same_data db db1"
proof -
  obtain c where c: "v = box c" "content db (clk env 0) k = (c, x)" using alive_box [OF inv ft a] by blast
  from findEntry_alive [OF inv a, of "mm env"] obtain db1 where
    f: "db_findEntry (mm env) (clk env 0) db k = (Some (mk_entry k v x), db1)" "same_data db db1" by blast
  have "body (mk_entry k v x) db1 = out db1" using c by (intro body) (simp add: mk_entry_def prj_box)
  with f c show ?thesis by (auto simp: readContainer_def mk_entry_def type_box)
qed

lemma read_missing:
  assumes "db_inv db" "alive db (clk env 0) k = None"
  shows "\<exists>db1. readContainer env db k ty miss body = Inr (miss, db1) \<and> reaped (clk env 0) k db db1"
  using findEntry_dead [OF assms, of "mm env"] by (auto simp: readContainer_def)

text \<open>Assigning a payload in a state that has the entry.\<close>

lemma setData_box:
  assumes "db_inv db" "entry_of db k = Some (mk_entry k (box c) x)" "okc c'"
  shows "stores k (box c') x db (setData db k (inj c'))"
  using setData_ok [OF assms(1,2), of "inj c'"] assms(3) by (simp add: set_box box_ok)

text \<open>A handler that replaces the payload: the key ends up with the new payload and the expiry time it
  had, created without one when it was not alive.\<close>

lemma write_ok:
  assumes inv: "db_inv db" and ft: "fits_type db (clk env 0) k" and fresh: "fresh = box nil"
    and body: "\<And>e db1. prj (odata (evalue e)) = Some (fst (content db (clk env 0) k)) \<Longrightarrow>
      body e db1 = Inr (rep, setData db1 k (inj c'))"
    and ok: "okc c'"
  shows "\<exists>db'. writeContainer env db k ty fresh body = Inr (rep, db') \<and>
    stores k (box c') (snd (content db (clk env 0) k)) db db'"
proof (cases "alive db (clk env 0) k")
  case (Some vx)
  obtain v x where a: "alive db (clk env 0) k = Some (v, x)" using Some by (cases vx) simp
  obtain c where c: "v = box c" "content db (clk env 0) k = (c, x)" using alive_box [OF inv ft a] by blast
  from findEntry_alive [OF inv a, of "mm env"] obtain db1 where
    f: "db_findEntry (mm env) (clk env 0) db k = (Some (mk_entry k v x), db1)" "same_data db db1" by blast
  have "body (mk_entry k v x) db1 = Inr (rep, setData db1 k (inj c'))"
    using c by (intro body) (simp add: mk_entry_def prj_box)
  moreover have "stores k (box c') x db1 (setData db1 k (inj c'))"
    using f(2) alive_entry(1) [OF inv a] c ok by (intro setData_box [of db1 k c]) (simp_all add: same_data_def)
  ultimately show ?thesis
    using f c by (auto simp: writeContainer_def mk_entry_def type_box stores_def same_data_def)
next
  case None
  from findEntry_dead [OF inv None, of "mm env"] obtain db1 where
    f: "db_findEntry (mm env) (clk env 0) db k = (None, db1)" "reaped (clk env 0) k db db1"
      "entry_of db1 = (entry_of db)(k := None)" by blast
  have c: "content db (clk env 0) k = (nil, - 1)" using None by (simp add: content_def)
  let ?db2 = "db_setObject (mm env) db1 k (box nil)"
  have s: "db_inv ?db2" "entry_of ?db2 = (entry_of db)(k \<mapsto> mk_entry k (box nil) (- 1))" "due ?db2 \<subseteq>\<^sub>m due db"
    using db_setObject_ok [OF reaped_inv [OF f(2)], of k "box nil" "mm env"] f(3) nil_ok reaped_due [OF f(2)] by (simp_all add: box_ok)
  then have a2: "alive ?db2 (clk env 1) k = Some (box nil, - 1)"
    by (simp add: alive_def alive_map_def mk_entry_def expired_def)
  from findEntry_alive [OF s(1) a2, of "mm env"] obtain db3 where
    g: "db_findEntry (mm env) (clk env 1) ?db2 k = (Some (mk_entry k (box nil) (- 1)), db3)" "same_data ?db2 db3" by blast
  have "body (mk_entry k (box nil) (- 1)) db3 = Inr (rep, setData db3 k (inj c'))"
    using c by (intro body) (simp add: mk_entry_def prj_box)
  moreover have "stores k (box c') (- 1) db3 (setData db3 k (inj c'))"
    using g(2) s c ok by (intro setData_box [of db3 k nil]) (simp_all add: same_data_def)
  ultimately show ?thesis
    using f g s c fresh map_le_trans by (auto simp: writeContainer_def stores_def same_data_def)
qed

text \<open>A handler that replaces the payload of an existing key and deletes the key if it becomes empty.\<close>

lemma shrink_ok:
  assumes inv: "db_inv db" and a: "alive db (clk env 0) k = Some (v, x)" and ft: "fits_type db (clk env 0) k"
    and body: "\<And>e db1. prj (odata (evalue e)) = Some (fst (content db (clk env 0) k)) \<Longrightarrow> body e db1 =
      Inr (rep, if gone then snd (db_del (mm env) (setData db1 k (inj c')) k) else setData db1 k (inj c'))"
    and ok: "okc c'"
  shows "\<exists>db'. readContainer env db k ty miss body = Inr (rep, db') \<and>
    (if gone then without k db db' else stores k (box c') x db db')"
proof -
  obtain c where c: "v = box c" using alive_box [OF inv ft a] by blast
  obtain db1 where r: "readContainer env db k ty miss body =
      Inr (rep, if gone then snd (db_del (mm env) (setData db1 k (inj c')) k) else setData db1 k (inj c'))"
    and s1: "same_data db db1"
    using read_ok [OF inv a ft, where miss = miss and out = "\<lambda>db1. Inr (rep, if gone
      then snd (db_del (mm env) (setData db1 k (inj c')) k) else setData db1 k (inj c'))"] body by blast
  let ?db2 = "setData db1 k (inj c')"
  have s2: "stores k (box c') x db1 ?db2"
    using s1 alive_entry(1) [OF inv a] c ok by (intro setData_box [of db1 k c]) (simp_all add: same_data_def)
  obtain b db3 where d: "db_del (mm env) ?db2 k = (b, db3)" by fastforce
  have due2: "due ?db2 = due db"
    using s1 by (simp add: setData_def modifyEntry_def same_data_def)
  have "without k db db3"
    using db_del_ok(2) [OF stores_inv [OF s2] d] s1 s2 due2
    by (simp add: without_def stores_def same_data_def)
  with r c d s1 s2 show ?thesis by (auto simp: stores_def same_data_def)
qed

end

end
