(* ===== verification/String_Key_Commands.thy ===== *)
theory String_Key_Commands
  imports Handlers
begin

text \<open>
  \<^verbatim>\<open>cmd/StringCommands\<close> and \<^verbatim>\<open>cmd/KeyCommands\<close>: one definition per handler. The dispatcher has checked
  the number of arguments before it calls one, so an argument is read with \<open>args ! i\<close>. Products and
  sums of 64-bit integers are reduced with \<open>wrap64\<close>, which is what the compiled code does; for signed
  operands C++ leaves an overflow undefined.
\<close>

section \<open>StringCommands\<close>

definition cmdPing :: "env \<Rightarrow> database \<Rightarrow> bytes list \<Rightarrow> result" where
  "cmdPing env db args =
     Inr (if length args = 1 then [SimpleString ''PONG''] else [BulkString (args ! 1)], db)"

definition cmdSet :: "env \<Rightarrow> database \<Rightarrow> bytes list \<Rightarrow> result" where
  "cmdSet env db args = Inr ([SimpleString ''OK''], db_set (mm env) db (args ! 1) (args ! 2))"

definition cmdGet :: "env \<Rightarrow> database \<Rightarrow> bytes list \<Rightarrow> result" where
  "cmdGet env db args =
     (case db_findEntry (mm env) (clk env 0) db (args ! 1) of
        (None, db1) \<Rightarrow> Inr ([Null], db1)
      | (Some e, db1) \<Rightarrow>
          if otype (evalue e) \<noteq> STRING then Inr ([Error WRONGTYPE], db1)
          else Inr ([BulkString (asString (evalue e))], db1))"

section \<open>KeyCommands\<close>

definition parseInteger :: "bytes \<Rightarrow> int option" where
  "parseInteger s =
     (if s = [] then None
      else case strtoll s of (val, end_off, erange) \<Rightarrow>
        if end_off \<noteq> length s \<or> erange then None else Some val)"

fun del_loop :: "mem_model \<Rightarrow> bytes list \<Rightarrow> int \<Rightarrow> database \<Rightarrow> int \<times> database" where
  "del_loop m [] n db = (n, db)"
| "del_loop m (k # ks) n db =
     (case db_del m db k of (found, db1) \<Rightarrow> del_loop m ks (if found then n + 1 else n) db1)"

definition cmdDel :: "env \<Rightarrow> database \<Rightarrow> bytes list \<Rightarrow> result" where
  "cmdDel env db args = (case del_loop (mm env) (drop 1 args) 0 db of (n, db1) \<Rightarrow> Inr ([Integer n], db1))"

fun exists_loop :: "mem_model \<Rightarrow> (nat \<Rightarrow> int) \<Rightarrow> nat \<Rightarrow> bytes list \<Rightarrow> int \<Rightarrow> database \<Rightarrow> int \<times> database" where
  "exists_loop m c i [] n db = (n, db)"
| "exists_loop m c i (k # ks) n db =
     (case db_exists m (c i) db k of (found, db1) \<Rightarrow> exists_loop m c (i + 1) ks (if found then n + 1 else n) db1)"

definition cmdExists :: "env \<Rightarrow> database \<Rightarrow> bytes list \<Rightarrow> result" where
  "cmdExists env db args =
     (case exists_loop (mm env) (clk env) 0 (drop 1 args) 0 db of (n, db1) \<Rightarrow> Inr ([Integer n], db1))"

definition cmdKeys :: "env \<Rightarrow> database \<Rightarrow> bytes list \<Rightarrow> result" where
  "cmdKeys env db args =
     (case db_keys db of (ks, db1) \<Rightarrow> Inr (ArrayHeader (int (length ks)) # map BulkString ks, db1))"

definition ERR_NOT_INT :: bytes where
  "ERR_NOT_INT = ''ERR value is not an integer or out of range''"

definition cmdExpire :: "env \<Rightarrow> database \<Rightarrow> bytes list \<Rightarrow> result" where
  "cmdExpire env db args =
     (case parseInteger (args ! 2) of
        None \<Rightarrow> Inr ([Error ERR_NOT_INT], db)
      | Some seconds \<Rightarrow>
          let deadlineMs = wrap64 (clk env 0 + wrap64 (seconds * 1000)) in
          (case db_setExpire (mm env) (clk env 1) db (args ! 1) deadlineMs of
             (ok, db1) \<Rightarrow> Inr ([Integer (if ok then 1 else 0)], db1)))"

definition cmdTtl :: "env \<Rightarrow> database \<Rightarrow> bytes list \<Rightarrow> result" where
  "cmdTtl env db args =
     (case db_ttl (clk env 0) (clk env 1) db (args ! 1) of
        (remainingMs, db1) \<Rightarrow>
          if remainingMs = - 1 \<or> remainingMs = - 2 then Inr ([Integer remainingMs], db1)
          else Inr ([Integer (tdiv remainingMs 1000)], db1))"

definition cmdPexpire :: "env \<Rightarrow> database \<Rightarrow> bytes list \<Rightarrow> result" where
  "cmdPexpire env db args =
     (case parseInteger (args ! 2) of
        None \<Rightarrow> Inr ([Error ERR_NOT_INT], db)
      | Some ms \<Rightarrow>
          let deadlineMs = wrap64 (clk env 0 + ms) in
          (case db_setExpire (mm env) (clk env 1) db (args ! 1) deadlineMs of
             (ok, db1) \<Rightarrow> Inr ([Integer (if ok then 1 else 0)], db1)))"

definition cmdPttl :: "env \<Rightarrow> database \<Rightarrow> bytes list \<Rightarrow> result" where
  "cmdPttl env db args =
     (case db_ttl (clk env 0) (clk env 1) db (args ! 1) of (remainingMs, db1) \<Rightarrow> Inr ([Integer remainingMs], db1))"

definition cmdDbsize :: "env \<Rightarrow> database \<Rightarrow> bytes list \<Rightarrow> result" where
  "cmdDbsize env db args = Inr ([Integer (int (db_dbsize db))], db)"

text \<open>The option pairs of SCAN; a trailing option without a value is never looked at. \<open>Inl\<close> is the
  syntax error.\<close>

fun scan_options :: "bytes list \<Rightarrow> nat \<Rightarrow> bytes \<Rightarrow> unit + nat \<times> bytes" where
  "scan_options (opt # val # rest) cnt pattern =
     (if map toupper opt = ''COUNT'' then
        (case parseInteger val of
           None \<Rightarrow> Inl ()
         | Some c \<Rightarrow> if c \<le> 0 then Inl () else scan_options rest (nat c) pattern)
      else if map toupper opt = ''MATCH'' then scan_options rest cnt val
      else Inl ())"
| "scan_options _ cnt pattern = Inr (cnt, pattern)"

definition cmdScan :: "env \<Rightarrow> database \<Rightarrow> bytes list \<Rightarrow> result" where
  "cmdScan env db args =
     (case parseInteger (args ! 1) of
        None \<Rightarrow> Inr ([Error ''ERR invalid cursor''], db)
      | Some cursorVal \<Rightarrow>
          if cursorVal < 0 then Inr ([Error ''ERR invalid cursor''], db)
          else (case scan_options (drop 2 args) 10 ''*'' of
             Inl _ \<Rightarrow> Inr ([Error ''ERR syntax error''], db)
           | Inr (cnt, pattern) \<Rightarrow>
               (case db_scan (mm env) (clk env) db (nat cursorVal) cnt pattern of
                  ((nextCursor, ks), db1) \<Rightarrow>
                    Inr ([ArrayHeader 2, BulkString (to_string (int nextCursor)), ArrayHeader (int (length ks))] @
                         map BulkString ks, db1))))"

section \<open>Facts\<close>

lemma parseInteger_to_string: "LLONG_MIN \<le> i \<Longrightarrow> i \<le> LLONG_MAX \<Longrightarrow> parseInteger (to_string i) = Some i"
  by (simp add: parseInteger_def strtoll_to_string)

lemma parseInteger_range: "parseInteger s = Some i \<Longrightarrow> LLONG_MIN \<le> i \<and> i \<le> LLONG_MAX"
  using strtoll_range by (auto simp: parseInteger_def split: if_splits prod.splits)

lemma del_loop_ok:
  assumes "db_inv db" "del_loop m ks n db = (r, db')"
  shows "db_inv db' \<and> entry_of db' = entry_of db |` (- set ks) \<and> due db' = due db |` (- set ks) \<and>
    r = n + int (card (set ks \<inter> dom (entry_of db)))"
  using assms
proof (induction ks arbitrary: n db)
  case (Cons k ks)
  obtain b db1 where d: "db_del m db k = (b, db1)" by fastforce
  note dd = db_del_ok [OF Cons.prems(1) d]
  have e1: "db_inv db1" "entry_of db1 = (entry_of db)(k := None)" "due db1 = (due db)(k := None)"
    using dd(2) by (simp_all add: without_def)
  have "del_loop m ks (if b then n + 1 else n) db1 = (r, db')" using Cons.prems(2) d by simp
  note ih = Cons.IH [OF e1(1) this]
  have fin: "finite (set ks \<inter> dom (entry_of db1))" by simp
  have "set (k # ks) \<inter> dom (entry_of db) =
      (if b then insert k (set ks \<inter> dom (entry_of db1)) else set ks \<inter> dom (entry_of db1))"
    using dd(1) e1(2) by (auto split: if_splits)
  moreover have "k \<notin> set ks \<inter> dom (entry_of db1)" using e1(2) by simp
  ultimately have "int (card (set (k # ks) \<inter> dom (entry_of db))) =
      (if b then 1 else 0) + int (card (set ks \<inter> dom (entry_of db1)))" by simp
  then have "r = n + int (card (set (k # ks) \<inter> dom (entry_of db)))" using ih by (simp split: if_splits)
  moreover have "db_inv db'" "entry_of db' = entry_of db |` (- set (k # ks))" "due db' = due db |` (- set (k # ks))"
    using ih unfolding e1(2,3) restrict_compl_insert list.set by blast+
  ultimately show ?case by blast
qed (simp add: restrict_map_def)

lemma exists_loop_ok:
  assumes "db_inv db" "mono c" "exists_loop m c i ks n db = (r, db')"
  shows "db_inv db' \<and> (\<forall>t. (\<forall>j. c j \<le> t) \<longrightarrow> alive db' t = alive db t) \<and>
    r = n + int (length (filter (\<lambda>(k, j). alive db (c j) k \<noteq> None) (zip ks [i..<i + length ks])))"
  using assms
proof (induction ks arbitrary: i n db)
  case (Cons k ks)
  obtain e db1 where f: "db_findEntry m (c i) db k = (e, db1)" by fastforce
  note ff = db_findEntry_ok [OF Cons.prems(1) f]
  have b: "db_exists m (c i) db k = (alive db (c i) k \<noteq> None, db1)"
    using f ff(2) by (auto simp: db_exists_findEntry alive_def alive_map_def split: option.splits)
  have "exists_loop m c (i + 1) ks (if alive db (c i) k \<noteq> None then n + 1 else n) db1 = (r, db')"
    using Cons.prems(3) b by simp
  note ih = Cons.IH [OF reaped_inv [OF ff(1)] Cons.prems(2) this]
  have later: "alive db1 (c j) = alive db (c j)" if "i \<le> j" for j
    using reaped_alive [OF ff(1)] monoD [OF Cons.prems(2) that] by blast
  have "filter (\<lambda>(k, j). alive db1 (c j) k \<noteq> None) (zip ks [i + 1..<i + 1 + length ks]) =
      filter (\<lambda>(k, j). alive db (c j) k \<noteq> None) (zip ks [i + 1..<i + 1 + length ks])"
    by (intro filter_cong refl) (auto simp: later dest!: set_zip_rightD)
  moreover have "[i..<i + length (k # ks)] = i # [i + 1..<i + 1 + length ks]" by (simp add: upt_rec)
  moreover have "alive db1 t = alive db t" if "\<forall>j. c j \<le> t" for t using reaped_alive [OF ff(1)] that by blast
  ultimately show ?case using ih by simp
qed simp

section \<open>Properties\<close>

text \<open>C34 (roundtrip). SET replies OK and GET of the same key, at any later time and whatever the key held
  before, replies the value that was set, in the canonical form that integer encoding gives it; no
  other key changes.\<close>
theorem set_then_get:
  assumes "db_inv db"
  shows "\<exists>db1 db2. cmdSet env1 db [c1, k, v] = Inr ([SimpleString ''OK''], db1) \<and>
    cmdGet env2 db1 [c2, k] = Inr ([BulkString (canonical v)], db2) \<and> db_inv db2 \<and>
    (\<forall>t k'. k' \<noteq> k \<longrightarrow> alive db2 t k' = alive db t k')"
proof -
  let ?db1 = "db_set (mm env1) db k v"
  note s = db_set_ok [OF assms, of "mm env1" k v]
  have "alive ?db1 (clk env2 0) k = Some (createString v, - 1)"
    by (simp add: alive_def alive_map_def s(2) mk_entry_def expired_def)
  from findEntry_alive [OF s(1) this, of "mm env2"] obtain db2 where
    f: "db_findEntry (mm env2) (clk env2 0) ?db1 k = (Some (mk_entry k (createString v) (- 1)), db2)"
      "same_data ?db1 db2" by blast
  then have "cmdGet env2 ?db1 [c2, k] = Inr ([BulkString (canonical v)], db2)"
    by (simp add: cmdGet_def mk_entry_def asString_createString)
  moreover have "\<forall>t k'. k' \<noteq> k \<longrightarrow> alive db2 t k' = alive db t k'"
    using f(2) s(2) by (simp add: same_data_def alive_def alive_map_def)
  ultimately show ?thesis using f(2) by (auto simp: cmdSet_def same_data_def)
qed

definition demo_env :: "int \<Rightarrow> env" where
  "demo_env now = \<lparr>mm = sizes64, clk = (\<lambda>i. now), uorder = id, seed = (\<lambda>i. 1),
     durationUs = 7, wallUs = 1000 * now, writes = []\<rparr>"

theorem set_then_get_witness:
  "\<exists>db1 db2. cmdSet (demo_env 5) demo_db [''SET'', ''a'', ''hello''] = Inr ([SimpleString ''OK''], db1) \<and>
    cmdGet (demo_env 9000) db1 [''GET'', ''a''] = Inr ([BulkString ''hello''], db2)"
proof -
  have "canonical ''hello'' = ''hello''" by code_simp
  with set_then_get [OF db_reach_inv [OF demo_reach], of "demo_env 5" "''SET''" "''a''" "''hello''" "demo_env 9000" "''GET''"]
  show ?thesis by auto
qed

text \<open>GET of a key that is absent or has expired replies null, GET of a live key of another
  type replies the WRONGTYPE error, and neither changes what any client can see from then on.\<close>
theorem get_errors:
  assumes "db_inv db" and "\<forall>v x. alive db (clk env 0) k = Some (v, x) \<longrightarrow> otype v \<noteq> STRING"
  shows "\<exists>db1. cmdGet env db [c, k] = Inr ([if alive db (clk env 0) k = None then Null else Error WRONGTYPE], db1) \<and>
    db_inv db1 \<and> (\<forall>t \<ge> clk env 0. alive db1 t = alive db t)"
proof (cases "alive db (clk env 0) k")
  case None
  from findEntry_dead [OF assms(1) None, of "mm env"] obtain db1 where
    "db_findEntry (mm env) (clk env 0) db k = (None, db1)" "reaped (clk env 0) k db db1" by blast
  with None reaped_alive reaped_inv show ?thesis by (fastforce simp: cmdGet_def)
next
  case (Some vx)
  obtain v x where a: "alive db (clk env 0) k = Some (v, x)" using Some by (cases vx) simp
  from findEntry_alive [OF assms(1) a, of "mm env"] a assms(2) show ?thesis
    by (auto simp: cmdGet_def mk_entry_def same_data_def alive_def alive_map_def)
qed

theorem get_errors_witness:
  "\<exists>db1. cmdGet (demo_env 500) demo_db [''GET'', ''a''] = Inr ([Null], db1)"
proof -
  have a: "alive demo_db (clk (demo_env 500) 0) ''a'' = None"
    by (simp add: alive_def alive_map_def demo_entries mk_entry_def expired_def demo_env_def)
  from get_errors [OF db_reach_inv [OF demo_reach], of "demo_env 500" "''a''" "''GET''"] a show ?thesis by auto
qed

text \<open>DEL removes the named keys and their deadlines and nothing else, and replies how
  many different stored keys it removed (a key that is named twice counts once). EXISTS replies the
  number of arguments that name a key alive when it is looked at (a key named twice counts twice), and
  what clients can see stays the same; its clock readings are assumed not to run backwards.\<close>
theorem del_and_exists:
  assumes "db_inv db" and "mono (clk env)"
  shows "(\<exists>db1. cmdDel env db (c # ks) = Inr ([Integer (int (card (set ks \<inter> dom (entry_of db))))], db1) \<and>
      db_inv db1 \<and> entry_of db1 = entry_of db |` (- set ks) \<and> due db1 = due db |` (- set ks)) \<and>
    (\<exists>db1. cmdExists env db (c # ks) =
        Inr ([Integer (int (length (filter (\<lambda>(k, j). alive db (clk env j) k \<noteq> None) (zip ks [0..<length ks]))))], db1) \<and>
      db_inv db1 \<and> (\<forall>t. (\<forall>j. clk env j \<le> t) \<longrightarrow> alive db1 t = alive db t))"
proof -
  obtain n db1 where d: "del_loop (mm env) ks 0 db = (n, db1)" by fastforce
  obtain n' db2 where e: "exists_loop (mm env) (clk env) 0 ks 0 db = (n', db2)" by fastforce
  from del_loop_ok [OF assms(1) d] exists_loop_ok [OF assms e] d e show ?thesis
    by (simp add: cmdDel_def cmdExists_def)
qed

theorem del_and_exists_witness:
  "\<exists>db1. cmdDel (demo_env 5) demo_db [''DEL'', ''a'', ''zz'', ''a''] = Inr ([Integer 1], db1)"
proof -
  have "mono (clk (demo_env 5))" by (simp add: demo_env_def mono_def)
  moreover have "card (set [''a'', ''zz'', ''a''] \<inter> dom (entry_of demo_db)) = 1" by (simp add: demo_entries)
  ultimately show ?thesis
    using del_and_exists [OF db_reach_inv [OF demo_reach], of "demo_env 5" "''DEL''" "[''a'', ''zz'', ''a'']"] by auto
qed

text \<open>EXPIRE with an integer number of seconds whose deadline does not overflow 64 bits
  and does not lie before the epoch replies 1 for a live key and 0 otherwise; afterwards the key is
  alive up to the deadline and gone from it on. A second argument that is not a 64-bit integer gives
  an error and changes nothing.\<close>
theorem expire_command:
  assumes "db_inv db" and "parseInteger s = Some secs"
    and "0 \<le> clk env 0 + secs * 1000" and "clk env 0 + secs * 1000 < 2 ^ 63" and "\<bar>secs * 1000\<bar> < 2 ^ 63"
    and "clk env 1 \<le> t"
  shows "(\<exists>db1. cmdExpire env db [c, k, s] = Inr ([Integer (if alive db (clk env 1) k = None then 0 else 1)], db1) \<and>
      alive db1 t = (case alive db (clk env 1) k of None \<Rightarrow> alive db t
        | Some (v, x) \<Rightarrow> (alive db t)(k := if t < clk env 0 + secs * 1000 then Some (v, clk env 0 + secs * 1000) else None))) \<and>
    (\<forall>s'. parseInteger s' = None \<longrightarrow> cmdExpire env db [c, k, s'] = Inr ([Error ERR_NOT_INT], db))"
proof -
  let ?d = "clk env 0 + secs * 1000"
  have w: "wrap64 (clk env 0 + wrap64 (secs * 1000)) = ?d" using assms(3-5) by (simp add: wrap64_id)
  obtain b db1 where se: "db_setExpire (mm env) (clk env 1) db k ?d = (b, db1)" by fastforce
  note so = db_setExpire_ok [OF assms(1) se]
  have cmd: "cmdExpire env db [c, k, s] = Inr ([Integer (if b then 1 else 0)], db1)"
    using assms(2) w se by (simp add: cmdExpire_def)
  have "alive db1 t = (case alive db (clk env 1) k of None \<Rightarrow> alive db t
        | Some (v, x) \<Rightarrow> (alive db t)(k := if t < ?d then Some (v, ?d) else None))"
  proof (cases b)
    case True
    then obtain e where e: "entry_of db k = Some e" "entry_of db1 = (entry_of db)(k \<mapsto> e\<lparr>expireAt := ?d\<rparr>)"
      using so(3) by blast
    have "alive db (clk env 1) k = Some (evalue e, expireAt e)"
      using True so(1) e(1) by (auto simp: alive_def alive_map_def split: if_splits)
    moreover have "alive db1 t k' = (if k' = k then if t < ?d then Some (evalue e, ?d) else None else alive db t k')" for k'
      using e(2) assms(3) by (simp add: alive_def alive_map_def expired_def)
    ultimately show ?thesis by (auto simp: fun_eq_iff)
  next
    case False
    with so(1) reaped_alive [OF so(2) assms(6)] show ?thesis by (cases "alive db (clk env 1) k") auto
  qed
  moreover have "cmdExpire env db [c, k, s'] = Inr ([Error ERR_NOT_INT], db)" if "parseInteger s' = None" for s'
    using that by (simp add: cmdExpire_def)
  ultimately show ?thesis using cmd so(1) by auto
qed

theorem expire_command_witness:
  "\<exists>db1. cmdExpire (demo_env 100) demo_db [''EXPIRE'', ''b'', ''2''] = Inr ([Integer 1], db1) \<and>
     alive db1 2100 ''b'' = None"
proof -
  have p: "parseInteger ''2'' = Some 2" by code_simp
  have a: "alive demo_db 100 ''b'' = Some (createString ''x'', - 1)" "clk (demo_env 100) i = 100" for i
    by (simp_all add: alive_def alive_map_def demo_entries mk_entry_def expired_def demo_env_def)
  show ?thesis
    using expire_command [OF db_reach_inv [OF demo_reach] p, of "demo_env 100" 2100 "''EXPIRE''" "''b''"]
    by (auto simp: a)
qed

text \<open>An EXPIRE whose product overflows wraps around: a very large number of seconds can
  delete the key at once, although the handler accepts the argument and replies 1.\<close>
theorem expire_overflow:
  "\<exists>db1. cmdExpire (demo_env 100) demo_db [''EXPIRE'', ''b'', ''18446744073709552''] = Inr ([Integer 1], db1) \<and>
     due db1 ''b'' = Some 484"
proof -
  have "parseInteger ''18446744073709552'' = Some 18446744073709552"
    by (simp add: parseInteger_def strtoll_def isspace_def isdigit_def digits_val_def digit_val_def LLONG_MAX_def LLONG_MIN_def)
  moreover have "wrap64 (100 + wrap64 (18446744073709552 * 1000)) = 484" by (simp add: wrap64_def)
  moreover obtain b db1 where s: "db_setExpire sizes64 100 demo_db ''b'' 484 = (b, db1)" by fastforce
  moreover have "b" using db_setExpire_ok(1) [OF db_reach_inv [OF demo_reach] s]
    by (simp add: alive_None demo_entries mk_entry_def expired_def)
  ultimately show ?thesis
    using db_setExpire_ok(3) [OF db_reach_inv [OF demo_reach] s] by (simp add: cmdExpire_def demo_env_def)
qed

text \<open>SCAN replies the two-element array of next cursor and keys: the cursor is the one
  the table walk gives, the keys are those of the walk that are alive when visited and equal the
  pattern (any key for the pattern *), and reaping expired keys on the way changes nothing a client
  can see later. A cursor that is not a non-negative integer is refused without touching the database.\<close>
theorem scan_command:
  assumes "db_inv db" and "parseInteger cs = Some cur" and "0 \<le> cur" and "scan_options opts 10 ''*'' = Inr (n, pat)"
  shows "\<exists>nc raw db1. ht_scan (dtable (db_rehashStep db)) (nat cur) n = (nc, raw) \<and>
      (let ks = map fst (filter (\<lambda>(k, j). alive db (clk env j) k \<noteq> None \<and> pat_ok pat k) (zip raw [0..<length raw]))
       in cmdScan env db ([c, cs] @ opts) =
          Inr ([ArrayHeader 2, BulkString (to_string (int nc)), ArrayHeader (int (length ks))] @ map BulkString ks, db1)) \<and>
      db_inv db1 \<and> (\<forall>t. (\<forall>j. clk env j \<le> t) \<longrightarrow> alive db1 t = alive db t)"
proof -
  obtain nc ks db1 where s: "db_scan (mm env) (clk env) db (nat cur) n pat = ((nc, ks), db1)" by (metis prod.exhaust)
  from db_scan_ok [OF assms(1) s] s assms(2-4) show ?thesis by (auto simp: cmdScan_def Let_def)
qed

theorem scan_command_witness:
  "\<exists>r db1. cmdScan (demo_env 100) demo_db [''SCAN'', ''0'', ''match'', ''b''] = Inr (ArrayHeader 2 # r, db1)"
proof -
  have "parseInteger ''0'' = Some 0" by code_simp
  moreover have "scan_options [''match'', ''b''] 10 ''*'' = Inr (10, ''b'')" by code_simp
  ultimately show ?thesis
    using scan_command [OF db_reach_inv [OF demo_reach], of "''0''" 0 "[''match'', ''b'']" 10 "''b''" "demo_env 100" "''SCAN''"]
    by (auto simp: Let_def)
qed

text \<open>KEYS ignores its pattern: whatever it is, the reply lists each stored key exactly
  once, expired keys that have not been reaped included.\<close>
theorem keys_ignores_pattern:
  assumes "db_inv db"
  shows "\<exists>ks db1. cmdKeys env db [c, pat] = Inr (ArrayHeader (int (length ks)) # map BulkString ks, db1) \<and>
    distinct ks \<and> set ks = dom (entry_of db) \<and> same_data db db1"
proof -
  let ?db1 = "db\<lparr>dtable := rehashStep (dtable db) kRehashBatchSize\<rparr>"
  have s: "same_data db ?db1" by (rule same_data_rehash [OF assms])
  with ht_keys_ok [OF db_invD(1) [OF same_data_inv [OF s]]] show ?thesis
    by (auto simp: cmdKeys_def db_keys_def same_data_def)
qed

theorem keys_ignores_pattern_witness:
  "\<exists>ks db1. cmdKeys (demo_env 9000) demo_db [''KEYS'', ''zzz''] = Inr (ArrayHeader (int (length ks)) # map BulkString ks, db1) \<and>
     set ks = {''a'', ''b''}"
  using keys_ignores_pattern [OF db_reach_inv [OF demo_reach], of "demo_env 9000" "''KEYS''" "''zzz''"]
  by (auto simp: demo_entries insert_commute)

end
