(* ===== verification/List_Commands.thy ===== *)
theory List_Commands
  imports String_Key_Commands
begin

text \<open>
  \<^verbatim>\<open>cmd/ListCommands\<close>: the six list handlers. A \<^verbatim>\<open>std::deque\<close> is the list of its elements from front
  to back. The number of elements and the indices of LRANGE are 32-bit ints in the code.
\<close>

section \<open>Handlers\<close>

definition cmdLPush :: "env \<Rightarrow> database \<Rightarrow> bytes list \<Rightarrow> result" where
  "cmdLPush env db args =
     writeContainer env db (args ! 1) LIST createList
       (\<lambda>e db1. case get_if_deque (odata (evalue e)) of
          None \<Rightarrow> Inl bad_variant_access
        | Some xs \<Rightarrow>
            let xs' = foldl (\<lambda>l a. a # l) xs (drop 2 args)
            in Inr ([Integer (int (length xs'))], setData db1 (args ! 1) (DDeque xs')))"

definition cmdRPush :: "env \<Rightarrow> database \<Rightarrow> bytes list \<Rightarrow> result" where
  "cmdRPush env db args =
     writeContainer env db (args ! 1) LIST createList
       (\<lambda>e db1. case get_if_deque (odata (evalue e)) of
          None \<Rightarrow> Inl bad_variant_access
        | Some xs \<Rightarrow>
            let xs' = foldl (\<lambda>l a. l @ [a]) xs (drop 2 args)
            in Inr ([Integer (int (length xs'))], setData db1 (args ! 1) (DDeque xs')))"

definition cmdLPop :: "env \<Rightarrow> database \<Rightarrow> bytes list \<Rightarrow> result" where
  "cmdLPop env db args =
     readContainer env db (args ! 1) LIST [Null]
       (\<lambda>e db1. case get_if_deque (odata (evalue e)) of
          None \<Rightarrow> Inl bad_variant_access
        | Some xs \<Rightarrow>
            if xs = [] then Inr ([Null], db1)
            else let val = hd xs; db2 = setData db1 (args ! 1) (DDeque (tl xs));
                     db3 = (if tl xs = [] then snd (db_del (mm env) db2 (args ! 1)) else db2)
                 in Inr ([BulkString val], db3))"

definition cmdRPop :: "env \<Rightarrow> database \<Rightarrow> bytes list \<Rightarrow> result" where
  "cmdRPop env db args =
     readContainer env db (args ! 1) LIST [Null]
       (\<lambda>e db1. case get_if_deque (odata (evalue e)) of
          None \<Rightarrow> Inl bad_variant_access
        | Some xs \<Rightarrow>
            if xs = [] then Inr ([Null], db1)
            else let val = last xs; db2 = setData db1 (args ! 1) (DDeque (butlast xs));
                     db3 = (if butlast xs = [] then snd (db_del (mm env) db2 (args ! 1)) else db2)
                 in Inr ([BulkString val], db3))"

definition cmdLLen :: "env \<Rightarrow> database \<Rightarrow> bytes list \<Rightarrow> result" where
  "cmdLLen env db args =
     readContainer env db (args ! 1) LIST [Integer 0]
       (\<lambda>e db1. case get_if_deque (odata (evalue e)) of
          None \<Rightarrow> Inl bad_variant_access
        | Some xs \<Rightarrow> Inr ([Integer (int (length xs))], db1))"

definition cmdLRange :: "env \<Rightarrow> database \<Rightarrow> bytes list \<Rightarrow> result" where
  "cmdLRange env db args =
     readContainer env db (args ! 1) LIST [ArrayHeader 0]
       (\<lambda>e db1. case get_if_deque (odata (evalue e)) of
          None \<Rightarrow> Inl bad_variant_access
        | Some xs \<Rightarrow>
            (let n = wrap32 (int (length xs)) in
             case stoi (args ! 2) of
               Inl ex \<Rightarrow> Inl ex
             | Inr start0 \<Rightarrow>
                 (case stoi (args ! 3) of
                    Inl ex \<Rightarrow> Inl ex
                  | Inr stop0 \<Rightarrow>
                      let start1 = (if start0 < 0 then wrap32 (start0 + n) else start0);
                          stop1 = (if stop0 < 0 then wrap32 (stop0 + n) else stop0);
                          start = (if start1 < 0 then 0 else start1);
                          stop = (if n \<le> stop1 then n - 1 else stop1)
                      in if stop < start \<or> n \<le> start then Inr ([ArrayHeader 0], db1)
                         else Inr (ArrayHeader (stop - start + 1) #
                                   map (\<lambda>i. BulkString (xs ! nat i)) [start..stop], db1))))"

section \<open>Lists as containers\<close>

definition list_obj :: "bytes list \<Rightarrow> RedisObject" where
  "list_obj xs = \<lparr>otype = LIST, encoding = LINKEDLIST, odata = DDeque xs\<rparr>"

interpretation lc: container LIST list_obj DDeque get_if_deque "\<lambda>_. True" "[]"
proof unfold_locales
  show "\<exists>c. v = list_obj c" if "obj_ok v" "otype v = LIST" for v
    by (rule obj_ok_LIST [OF that]) (use that in \<open>cases v, simp add: list_obj_def\<close>)
qed (simp_all add: list_obj_def obj_ok_def)

lemma createList_box: "createList = list_obj []"
  by (simp add: createList_def list_obj_def)

text \<open>The elements of the live list of a key, and its expiry time.\<close>

abbreviation list_of :: "database \<Rightarrow> int \<Rightarrow> bytes \<Rightarrow> bytes list" where
  "list_of db now k \<equiv> fst (lc.content db now k)"

abbreviation list_expiry :: "database \<Rightarrow> int \<Rightarrow> bytes \<Rightarrow> int" where
  "list_expiry db now k \<equiv> snd (lc.content db now k)"

lemma foldl_push_front: "foldl (\<lambda>l a. a # l) xs as = rev as @ xs"
  by (induction as arbitrary: xs) simp_all

lemma foldl_push_back: "foldl (\<lambda>l a. l @ [a]) xs as = xs @ as"
  by (induction as arbitrary: xs) simp_all

lemma push_ok:
  assumes "db_inv db" "lc.fits_type db (clk env 0) k"
  shows "\<exists>db'. cmdLPush env db ([c, k] @ xs) =
      Inr ([Integer (int (length xs + length (list_of db (clk env 0) k)))], db') \<and>
      stores k (list_obj (rev xs @ list_of db (clk env 0) k)) (list_expiry db (clk env 0) k) db db'"
    and "\<exists>db'. cmdRPush env db ([c, k] @ xs) =
      Inr ([Integer (int (length xs + length (list_of db (clk env 0) k)))], db') \<and>
      stores k (list_obj (list_of db (clk env 0) k @ xs)) (list_expiry db (clk env 0) k) db db'"
proof -
  have arg: "([c, k] @ xs) ! 1 = k" "drop 2 ([c, k] @ xs) = xs" by simp_all
  show "\<exists>db'. cmdLPush env db ([c, k] @ xs) =
      Inr ([Integer (int (length xs + length (list_of db (clk env 0) k)))], db') \<and>
      stores k (list_obj (rev xs @ list_of db (clk env 0) k)) (list_expiry db (clk env 0) k) db db'"
    unfolding cmdLPush_def arg foldl_push_front
    by (rule lc.write_ok [OF assms createList_box, where c' = "rev xs @ list_of db (clk env 0) k"]) simp_all
  show "\<exists>db'. cmdRPush env db ([c, k] @ xs) =
      Inr ([Integer (int (length xs + length (list_of db (clk env 0) k)))], db') \<and>
      stores k (list_obj (list_of db (clk env 0) k @ xs)) (list_expiry db (clk env 0) k) db db'"
    unfolding cmdRPush_def arg foldl_push_back
    by (rule lc.write_ok [OF assms createList_box, where c' = "list_of db (clk env 0) k @ xs"]) simp_all
qed

lemma pop_ok:
  assumes inv: "db_inv db" and a: "alive db (clk env 0) k = Some (list_obj xs, x)" and ne: "xs \<noteq> []"
  shows "\<exists>db'. cmdLPop env db [c, k] = Inr ([BulkString (hd xs)], db') \<and>
      (if tl xs = [] then without k db db' else stores k (list_obj (tl xs)) x db db')"
    and "\<exists>db'. cmdRPop env db [c, k] = Inr ([BulkString (last xs)], db') \<and>
      (if butlast xs = [] then without k db db' else stores k (list_obj (butlast xs)) x db db')"
proof -
  have ft: "lc.fits_type db (clk env 0) k" using a by (simp add: lc.fits_type_def list_obj_def)
  have c: "list_of db (clk env 0) k = xs" using a by (simp add: lc.content_def list_obj_def)
  have arg: "[c, k] ! 1 = k" by simp
  show "\<exists>db'. cmdLPop env db [c, k] = Inr ([BulkString (hd xs)], db') \<and>
      (if tl xs = [] then without k db db' else stores k (list_obj (tl xs)) x db db')"
    unfolding cmdLPop_def arg by (rule lc.shrink_ok [OF inv a ft]) (simp_all add: c ne)
  show "\<exists>db'. cmdRPop env db [c, k] = Inr ([BulkString (last xs)], db') \<and>
      (if butlast xs = [] then without k db db' else stores k (list_obj (butlast xs)) x db db')"
    unfolding cmdRPop_def arg by (rule lc.shrink_ok [OF inv a ft]) (simp_all add: c ne)
qed

lemma stoi_range: "stoi s = Inr i \<Longrightarrow> - (2 ^ 31) \<le> i \<and> i < 2 ^ 31"
  by (auto simp: stoi_def split: prod.splits if_splits)

lemma lrange_ok:
  assumes inv: "db_inv db" and a: "alive db (clk env 0) k = Some (list_obj xs, x)"
    and n: "length xs < 2147483648" and s: "stoi s1 = Inr start" "stoi s2 = Inr stop"
  shows "\<exists>db'. cmdLRange env db [c, k, s1, s2] =
      Inr (ArrayHeader (int (length (redis_range xs start stop))) # map BulkString (redis_range xs start stop), db') \<and>
      same_data db db'"
proof -
  have ft: "lc.fits_type db (clk env 0) k" using a by (simp add: lc.fits_type_def list_obj_def)
  have c: "list_of db (clk env 0) k = xs" using a by (simp add: lc.content_def list_obj_def)
  let ?n = "int (length xs)"
  define lo where "lo = (if start < 0 then max 0 (start + ?n) else start)"
  define hi where "hi = min (?n - 1) (if stop < 0 then stop + ?n else stop)"
  have w: "wrap32 ?n = ?n" "start < 0 \<Longrightarrow> wrap32 (start + ?n) = start + ?n" "stop < 0 \<Longrightarrow> wrap32 (stop + ?n) = stop + ?n"
    using n stoi_range [OF s(1)] stoi_range [OF s(2)] by (simp_all add: wrap32_id)
  have r: "redis_range xs start stop = (if lo \<le> hi then map (\<lambda>i. xs ! nat i) [lo..hi] else [])"
    using map_nth_upto [of lo hi xs] by (auto simp: redis_range_def Let_def lo_def hi_def)
  have hi: "hi < ?n" "0 \<le> lo" by (auto simp: lo_def hi_def)
  have lo': "(let start1 = (if start < 0 then wrap32 (start + ?n) else start) in if start1 < 0 then 0 else start1) = lo"
    using w by (auto simp: Let_def lo_def)
  have hi': "(let stop1 = (if stop < 0 then wrap32 (stop + ?n) else stop) in if ?n \<le> stop1 then ?n - 1 else stop1) = hi"
    using w by (auto simp: Let_def hi_def)
  have arg: "[c, k, s1, s2] ! 1 = k" "[c, k, s1, s2] ! 2 = s1" "[c, k, s1, s2] ! 3 = s2" by simp_all
  show ?thesis
    unfolding cmdLRange_def arg
    apply (rule lc.read_ok [OF inv a ft])
    using lo' hi' hi by (simp add: c s w(1) Let_def r comp_def not_le)
qed

section \<open>Properties\<close>

text \<open>C35 (functional). LPUSH and RPUSH on a key that is absent, expired or a live list: LPUSH puts its
  arguments one by one in front, RPUSH behind; the reply is the new length; an existing list keeps its
  expiry time, a new one has none; no other key changes. The handlers never run into a wrong variant
  alternative or a null entry.\<close>
theorem push_commands:
  assumes "db_inv db" and "lc.fits_type db (clk env 0) k"
  shows "(\<exists>db'. cmdLPush env db ([c, k] @ xs) =
        Inr ([Integer (int (length xs + length (list_of db (clk env 0) k)))], db') \<and>
      stores k (list_obj (rev xs @ list_of db (clk env 0) k)) (list_expiry db (clk env 0) k) db db') \<and>
    (\<exists>db'. cmdRPush env db ([c, k] @ xs) =
        Inr ([Integer (int (length xs + length (list_of db (clk env 0) k)))], db') \<and>
      stores k (list_obj (list_of db (clk env 0) k @ xs)) (list_expiry db (clk env 0) k) db db')"
  using push_ok [OF assms, of c xs] by blast

theorem push_commands_witness:
  "\<exists>db'. cmdLPush (demo_env 500) demo_db ([''LPUSH'', ''a''] @ [''x'', ''y'']) = Inr ([Integer 2], db') \<and>
     stores ''a'' (list_obj [''y'', ''x'']) (- 1) demo_db db'"
proof -
  have a: "alive demo_db (clk (demo_env 500) 0) ''a'' = None"
    by (simp add: alive_def alive_map_def demo_entries mk_entry_def expired_def demo_env_def)
  then have "lc.fits_type demo_db (clk (demo_env 500) 0) ''a''" by (simp add: lc.fits_type_def)
  from push_commands [OF db_reach_inv [OF demo_reach] this, of "''LPUSH''" "[''x'', ''y'']"] a
  show ?thesis by (auto simp: lc.content_def)
qed

text \<open>LPOP and RPOP on a live list reply its first and last element and take it away; the
  key disappears, with its deadline, exactly when the list becomes empty, and keeps its expiry time
  otherwise.\<close>
theorem pop_commands:
  assumes "db_inv db" and "alive db (clk env 0) k = Some (list_obj xs, x)" and "xs \<noteq> []"
  shows "(\<exists>db'. cmdLPop env db [c, k] = Inr ([BulkString (hd xs)], db') \<and>
      (if tl xs = [] then without k db db' else stores k (list_obj (tl xs)) x db db')) \<and>
    (\<exists>db'. cmdRPop env db [c, k] = Inr ([BulkString (last xs)], db') \<and>
      (if butlast xs = [] then without k db db' else stores k (list_obj (butlast xs)) x db db'))"
  using pop_ok [OF assms] by blast

text \<open>A database with a list, for the examples.\<close>

definition list_db :: database where
  "list_db = setData (db_setObject sizes64 new_database ''l'' createList) ''l'' (DDeque [''p'', ''q'', ''r''])"

lemma list_db_ok: "db_inv list_db" "alive list_db t ''l'' = Some (list_obj [''p'', ''q'', ''r''], - 1)"
proof -
  let ?d = "db_setObject sizes64 new_database ''l'' createList"
  note s = db_setObject_ok [OF db_inv_new(1), of "''l''" createList sizes64, simplified db_inv_new, simplified]
  have st: "stores ''l'' (createList\<lparr>odata := DDeque [''p'', ''q'', ''r'']\<rparr>) (- 1) ?d list_db"
    unfolding list_db_def by (rule setData_ok) (simp_all add: s, simp add: createList_def obj_ok_def)
  then show "db_inv list_db" by (rule stores_inv)
  from stores_alive [OF st, of t] show "alive list_db t ''l'' = Some (list_obj [''p'', ''q'', ''r''], - 1)"
    by (simp add: createList_def list_obj_def)
qed

theorem pop_commands_witness:
  "\<exists>db'. cmdRPop (demo_env 7) list_db [''RPOP'', ''l''] = Inr ([BulkString ''r''], db') \<and>
     stores ''l'' (list_obj [''p'', ''q'']) (- 1) list_db db'"
  using pop_commands [OF list_db_ok(1) list_db_ok(2), of "demo_env 7" "''RPOP''"] by auto

text \<open>LRANGE on a live list with fewer than 2^31 elements replies exactly the elements
  from start to stop, negative indices counted from the end and the range cut to the list; 0 to -1
  gives the whole list. The state is unchanged.\<close>
theorem lrange_command:
  assumes "db_inv db" and "alive db (clk env 0) k = Some (list_obj xs, x)" and "length xs < 2147483648"
    and "stoi s1 = Inr start" and "stoi s2 = Inr stop"
  shows "(\<exists>db'. cmdLRange env db [c, k, s1, s2] =
      Inr (ArrayHeader (int (length (redis_range xs start stop))) # map BulkString (redis_range xs start stop), db') \<and>
      same_data db db') \<and> redis_range xs 0 (- 1) = xs"
  using lrange_ok [OF assms] redis_range_all by blast

theorem lrange_command_witness:
  "\<exists>db'. cmdLRange (demo_env 7) list_db [''LRANGE'', ''l'', ''-2'', ''9''] =
     Inr ([ArrayHeader 2, BulkString ''q'', BulkString ''r''], db')"
proof -
  have s: "stoi ''-2'' = Inr (- 2)" "stoi ''9'' = Inr 9" by code_simp+
  have "redis_range [''p'', ''q'', ''r''] (- 2) 9 = [''q'', ''r'']" by code_simp
  then show ?thesis
    using lrange_command [OF list_db_ok(1) list_db_ok(2) [of "clk (demo_env 7) 0"] _ s, of "''LRANGE''"] by auto
qed

text \<open>An LRANGE index on a live list that is not the start of a 32-bit integer makes
  \<^verbatim>\<open>std::stoi\<close> throw, and no handler, dispatcher or main loop catches the exception.\<close>
theorem lrange_throws:
  assumes "db_inv db" and "alive db (clk env 0) k = Some (list_obj xs, x)" and "stoi s1 = Inl ex"
  shows "cmdLRange env db [c, k, s1, s2] = Inl ex"
proof -
  have ft: "lc.fits_type db (clk env 0) k" using assms(2) by (simp add: lc.fits_type_def list_obj_def)
  have arg: "[c, k, s1, s2] ! 1 = k" "[c, k, s1, s2] ! 2 = s1" "[c, k, s1, s2] ! 3 = s2" by simp_all
  have "\<exists>db1. cmdLRange env db [c, k, s1, s2] = Inl ex \<and> same_data db db1"
    unfolding cmdLRange_def arg by (rule lc.read_ok [OF assms(1,2) ft]) (simp add: assms(3))
  then show ?thesis by blast
qed

theorem lrange_throws_witness:
  "cmdLRange (demo_env 7) list_db [''LRANGE'', ''l'', ''x'', ''1''] = Inl invalid_argument \<and>
   cmdLRange (demo_env 7) list_db [''LRANGE'', ''l'', ''99999999999'', ''1''] = Inl out_of_range"
proof -
  have "stoi ''x'' = Inl invalid_argument" by code_simp
  moreover have "stoi ''99999999999'' = Inl out_of_range"
    by (simp add: stoi_def strtoll_def isspace_def isdigit_def digits_val_def digit_val_def LLONG_MAX_def LLONG_MIN_def)
  ultimately show ?thesis
    using lrange_throws [OF list_db_ok(1) list_db_ok(2) [of "clk (demo_env 7) 0"], of "''x''" invalid_argument]
      lrange_throws [OF list_db_ok(1) list_db_ok(2) [of "clk (demo_env 7) 0"], of "''99999999999''" out_of_range]
    by simp
qed

end
