(* ===== verification/Hash_Set_Commands.thy ===== *)
theory Hash_Set_Commands
  imports List_Commands
begin

text \<open>
  \<^verbatim>\<open>cmd/HashCommands\<close> and \<^verbatim>\<open>cmd/SetCommands\<close>. A hash is an association list with distinct fields, a set
  a list without duplicates. HGETALL and SMEMBERS visit the container in the order \<open>uorder\<close> of the
  environment gives; what is assumed of it where it matters is that it permutes its argument.
\<close>

section \<open>HashCommands\<close>

text \<open>\<^verbatim>\<open>emplace\<close>, or assignment when the field is there.\<close>

fun hset_loop :: "bytes list \<Rightarrow> (bytes \<times> bytes) list \<Rightarrow> int \<Rightarrow> (bytes \<times> bytes) list \<times> int" where
  "hset_loop (f # v # rest) h added =
     (if f \<in> fst ` set h then hset_loop rest (AList.update f v h) added
      else hset_loop rest (h @ [(f, v)]) (added + 1))"
| "hset_loop _ h added = (h, added)"

definition cmdHSet :: "env \<Rightarrow> database \<Rightarrow> bytes list \<Rightarrow> result" where
  "cmdHSet env db args =
     (if (length args - 2) mod 2 \<noteq> 0
      then Inr ([Error ''ERR wrong number of arguments for 'hset' command''], db)
      else writeContainer env db (args ! 1) HASH createHash
        (\<lambda>e db1. case get_if_map (odata (evalue e)) of
           None \<Rightarrow> Inl bad_variant_access
         | Some h \<Rightarrow>
             (case hset_loop (drop 2 args) h 0 of
                (h', added) \<Rightarrow> Inr ([Integer added], setData db1 (args ! 1) (DMap h')))))"

definition cmdHGet :: "env \<Rightarrow> database \<Rightarrow> bytes list \<Rightarrow> result" where
  "cmdHGet env db args =
     readContainer env db (args ! 1) HASH [Null]
       (\<lambda>e db1. case get_if_map (odata (evalue e)) of
          None \<Rightarrow> Inl bad_variant_access
        | Some h \<Rightarrow>
            (case map_of h (args ! 2) of
               None \<Rightarrow> Inr ([Null], db1)
             | Some v \<Rightarrow> Inr ([BulkString v], db1)))"

fun hdel_loop :: "bytes list \<Rightarrow> (bytes \<times> 'v) list \<Rightarrow> int \<Rightarrow> (bytes \<times> 'v) list \<times> int" where
  "hdel_loop [] h removed = (h, removed)"
| "hdel_loop (f # fs) h removed =
     hdel_loop fs (AList.delete f h) (removed + (if f \<in> fst ` set h then 1 else 0))"

definition cmdHDel :: "env \<Rightarrow> database \<Rightarrow> bytes list \<Rightarrow> result" where
  "cmdHDel env db args =
     readContainer env db (args ! 1) HASH [Integer 0]
       (\<lambda>e db1. case get_if_map (odata (evalue e)) of
          None \<Rightarrow> Inl bad_variant_access
        | Some h \<Rightarrow>
            (case hdel_loop (drop 2 args) h 0 of
               (h', removed) \<Rightarrow>
                 let db2 = setData db1 (args ! 1) (DMap h');
                     db3 = (if h' = [] then snd (db_del (mm env) db2 (args ! 1)) else db2)
                 in Inr ([Integer removed], db3)))"

definition cmdHGetAll :: "env \<Rightarrow> database \<Rightarrow> bytes list \<Rightarrow> result" where
  "cmdHGetAll env db args =
     readContainer env db (args ! 1) HASH [ArrayHeader 0]
       (\<lambda>e db1. case get_if_map (odata (evalue e)) of
          None \<Rightarrow> Inl bad_variant_access
        | Some h \<Rightarrow>
            Inr (ArrayHeader (int (length h * 2)) #
                 concat (map (\<lambda>f. [BulkString f, BulkString (the (map_of h f))]) (uorder env (map fst h))), db1))"

definition cmdHLen :: "env \<Rightarrow> database \<Rightarrow> bytes list \<Rightarrow> result" where
  "cmdHLen env db args =
     readContainer env db (args ! 1) HASH [Integer 0]
       (\<lambda>e db1. case get_if_map (odata (evalue e)) of
          None \<Rightarrow> Inl bad_variant_access
        | Some h \<Rightarrow> Inr ([Integer (int (length h))], db1))"

section \<open>SetCommands\<close>

fun sadd_loop :: "bytes list \<Rightarrow> bytes list \<Rightarrow> int \<Rightarrow> bytes list \<times> int" where
  "sadd_loop [] s added = (s, added)"
| "sadd_loop (m # ms) s added =
     (if m \<in> set s then sadd_loop ms s added else sadd_loop ms (s @ [m]) (added + 1))"

definition cmdSAdd :: "env \<Rightarrow> database \<Rightarrow> bytes list \<Rightarrow> result" where
  "cmdSAdd env db args =
     writeContainer env db (args ! 1) SET createSet
       (\<lambda>e db1. case get_if_set (odata (evalue e)) of
          None \<Rightarrow> Inl bad_variant_access
        | Some s \<Rightarrow>
            (case sadd_loop (drop 2 args) s 0 of
               (s', added) \<Rightarrow> Inr ([Integer added], setData db1 (args ! 1) (DSet s'))))"

fun srem_loop :: "bytes list \<Rightarrow> bytes list \<Rightarrow> int \<Rightarrow> bytes list \<times> int" where
  "srem_loop [] s removed = (s, removed)"
| "srem_loop (m # ms) s removed =
     srem_loop ms (filter (\<lambda>x. x \<noteq> m) s) (removed + (if m \<in> set s then 1 else 0))"

definition cmdSRem :: "env \<Rightarrow> database \<Rightarrow> bytes list \<Rightarrow> result" where
  "cmdSRem env db args =
     readContainer env db (args ! 1) SET [Integer 0]
       (\<lambda>e db1. case get_if_set (odata (evalue e)) of
          None \<Rightarrow> Inl bad_variant_access
        | Some s \<Rightarrow>
            (case srem_loop (drop 2 args) s 0 of
               (s', removed) \<Rightarrow>
                 let db2 = setData db1 (args ! 1) (DSet s');
                     db3 = (if s' = [] then snd (db_del (mm env) db2 (args ! 1)) else db2)
                 in Inr ([Integer removed], db3)))"

definition cmdSIsMember :: "env \<Rightarrow> database \<Rightarrow> bytes list \<Rightarrow> result" where
  "cmdSIsMember env db args =
     readContainer env db (args ! 1) SET [Integer 0]
       (\<lambda>e db1. case get_if_set (odata (evalue e)) of
          None \<Rightarrow> Inl bad_variant_access
        | Some s \<Rightarrow> Inr ([Integer (if args ! 2 \<in> set s then 1 else 0)], db1))"

definition cmdSMembers :: "env \<Rightarrow> database \<Rightarrow> bytes list \<Rightarrow> result" where
  "cmdSMembers env db args =
     readContainer env db (args ! 1) SET [ArrayHeader 0]
       (\<lambda>e db1. case get_if_set (odata (evalue e)) of
          None \<Rightarrow> Inl bad_variant_access
        | Some s \<Rightarrow> Inr (ArrayHeader (int (length s)) # map BulkString (uorder env s), db1))"

definition cmdSCard :: "env \<Rightarrow> database \<Rightarrow> bytes list \<Rightarrow> result" where
  "cmdSCard env db args =
     readContainer env db (args ! 1) SET [Integer 0]
       (\<lambda>e db1. case get_if_set (odata (evalue e)) of
          None \<Rightarrow> Inl bad_variant_access
        | Some s \<Rightarrow> Inr ([Integer (int (length s))], db1))"

section \<open>Hashes and sets as containers\<close>

definition hash_obj :: "(bytes \<times> bytes) list \<Rightarrow> RedisObject" where
  "hash_obj h = \<lparr>otype = HASH, encoding = HASHTABLE, odata = DMap h\<rparr>"

definition set_obj :: "bytes list \<Rightarrow> RedisObject" where
  "set_obj s = \<lparr>otype = SET, encoding = HASHTABLE, odata = DSet s\<rparr>"

interpretation hc: container HASH hash_obj DMap get_if_map "\<lambda>h. distinct (map fst h)" "[]"
proof unfold_locales
  show "\<exists>c. v = hash_obj c" if "obj_ok v" "otype v = HASH" for v
    by (rule obj_ok_HASH [OF that]) (use that in \<open>cases v, simp add: hash_obj_def\<close>)
qed (simp_all add: hash_obj_def obj_ok_def)

interpretation sc: container SET set_obj DSet get_if_set distinct "[]"
proof unfold_locales
  show "\<exists>c. v = set_obj c" if "obj_ok v" "otype v = SET" for v
    by (rule obj_ok_SET [OF that]) (use that in \<open>cases v, simp add: set_obj_def\<close>)
qed (simp_all add: set_obj_def obj_ok_def)

lemma create_box: "createHash = hash_obj []" "createSet = set_obj []"
  by (simp_all add: createHash_def createSet_def hash_obj_def set_obj_def)

section \<open>The loops compute on maps and sets\<close>

text \<open>Field-value pairs of an argument list.\<close>

fun pairs_of :: "bytes list \<Rightarrow> (bytes \<times> bytes) list" where
  "pairs_of (f # v # rest) = (f, v) # pairs_of rest"
| "pairs_of _ = []"

lemma hset_loop_ok:
  assumes "distinct (map fst h)" "hset_loop as h n = (h', n')"
  shows "distinct (map fst h')"
    and "map_of h' = map_of h ++ map_of (rev (pairs_of as))"
    and "n' = n + int (card (fst ` set (pairs_of as) - dom (map_of h)))"
proof -
  have "distinct (map fst h') \<and> map_of h' = map_of h ++ map_of (rev (pairs_of as)) \<and>
    n' = n + int (card (fst ` set (pairs_of as) - dom (map_of h)))"
    using assms
  proof (induction as h n rule: hset_loop.induct)
    case (1 f v rest h n)
    let ?P = "fst ` set (pairs_of rest)"
    show ?case
    proof (cases "f \<in> fst ` set h")
      case True
      have d: "distinct (map fst (AList.update f v h))" using "1.prems"(1) by (rule distinct_update)
      have fd: "f \<in> dom (map_of h)" using True by (simp add: dom_map_of_conv_image_fst)
      note m = update_conv' [of f v h]
      have "dom (map_of (AList.update f v h)) = dom (map_of h)" unfolding m using fd by auto
      moreover have "insert f ?P - dom (map_of h) = ?P - dom (map_of h)" using fd by blast
      moreover have "hset_loop rest (AList.update f v h) n = (h', n')" using "1.prems"(2) True by simp
      note ih = "1.IH"(1) [OF True d this]
      have "map_of h ++ map_of [(f, v)] = map_of (AList.update f v h)" unfolding m by simp
      then have "map_of h' = map_of h ++ map_of (rev (pairs_of (f # v # rest)))"
        using ih by (simp only: pairs_of.simps rev.simps map_of_append map_add_assoc)
      ultimately show ?thesis using ih by simp
    next
      case False
      have fd: "f \<notin> dom (map_of h)" using False by (simp add: dom_map_of_conv_image_fst)
      have d: "distinct (map fst (h @ [(f, v)]))" using "1.prems"(1) False by auto
      have comm: "map_of [(f, v)] ++ map_of h = map_of h ++ map_of [(f, v)]"
        using fd by (intro map_add_comm) simp
      have "hset_loop rest (h @ [(f, v)]) (n + 1) = (h', n')" using "1.prems"(2) False by simp
      note ih = "1.IH"(2) [OF False d this]
      have mp: "map_of h' = map_of h ++ map_of (rev (pairs_of (f # v # rest)))"
        using ih comm by (simp only: pairs_of.simps rev.simps map_of_append map_add_assoc)
      have dm: "dom (map_of (h @ [(f, v)])) = insert f (dom (map_of h))" by auto
      have "insert f ?P - dom (map_of h) = insert f (?P - insert f (dom (map_of h)))" using fd by blast
      then have "card (insert f ?P - dom (map_of h)) = Suc (card (?P - insert f (dom (map_of h))))" by simp
      then show ?thesis
        using ih mp unfolding dm by simp
    qed
  qed auto
  then show "distinct (map fst h')" and "map_of h' = map_of h ++ map_of (rev (pairs_of as))"
    and "n' = n + int (card (fst ` set (pairs_of as) - dom (map_of h)))" by blast+
qed

lemma hdel_loop_ok:
  assumes "distinct (map fst h)" "hdel_loop fs h n = (h', n')"
  shows "distinct (map fst h')" and "map_of h' = map_of h |` (- set fs)"
    and "n' = n + int (card (set fs \<inter> dom (map_of h)))"
proof -
  have "distinct (map fst h') \<and> map_of h' = map_of h |` (- set fs) \<and> n' = n + int (card (set fs \<inter> dom (map_of h)))"
    using assms
  proof (induction fs h n rule: hdel_loop.induct)
    case (2 f fs h n)
    have d: "distinct (map fst (AList.delete f h))" using "2.prems"(1) by (rule distinct_delete)
    note ih = "2.IH" [OF d] and m = delete_conv' [of f h]
    have "set (f # fs) \<inter> dom (map_of h) = (if f \<in> fst ` set h then insert f (set fs \<inter> (dom (map_of h) - {f}))
        else set fs \<inter> (dom (map_of h) - {f}))"
      by (auto simp: dom_map_of_conv_image_fst)
    then have "int (card (set (f # fs) \<inter> dom (map_of h))) =
        (if f \<in> fst ` set h then 1 else 0) + int (card (set fs \<inter> (dom (map_of h) - {f})))" by simp
    moreover have "dom (map_of (AList.delete f h)) = dom (map_of h) - {f}" by (auto simp: m)
    moreover have "map_of (AList.delete f h) |` (- set fs) = map_of h |` (- set (f # fs))"
      unfolding m restrict_compl_insert by simp
    ultimately show ?case using ih "2.prems"(2) by simp
  qed (simp add: restrict_map_def)
  then show "distinct (map fst h')" and "map_of h' = map_of h |` (- set fs)"
    and "n' = n + int (card (set fs \<inter> dom (map_of h)))" by blast+
qed

lemma sadd_loop_ok:
  assumes "distinct s" "sadd_loop ms s n = (s', n')"
  shows "distinct s' \<and> set s' = set s \<union> set ms \<and> n' = n + int (card (set ms - set s))"
  using assms
proof (induction ms s n rule: sadd_loop.induct)
  case (2 m ms s n)
  show ?case
  proof (cases "m \<in> set s")
    case True
    then have "set (m # ms) - set s = set ms - set s" by auto
    with "2.IH"(1) [OF True] "2.prems" True show ?thesis by auto
  next
    case False
    then have "set (m # ms) - set s = insert m (set ms - insert m (set s))" by auto
    then have "card (set (m # ms) - set s) = Suc (card (set ms - insert m (set s)))" by simp
    with "2.IH"(2) [OF False] "2.prems" False show ?thesis by auto
  qed
qed simp

lemma srem_loop_ok:
  assumes "distinct s" "srem_loop ms s n = (s', n')"
  shows "distinct s' \<and> set s' = set s - set ms \<and> n' = n + int (card (set ms \<inter> set s))"
  using assms
proof (induction ms s n rule: srem_loop.induct)
  case (2 m ms s n)
  have "set (m # ms) \<inter> set s = (if m \<in> set s then insert m (set ms \<inter> (set s - {m})) else set ms \<inter> (set s - {m}))"
    by auto
  then have "int (card (set (m # ms) \<inter> set s)) = (if m \<in> set s then 1 else 0) + int (card (set ms \<inter> (set s - {m})))"
    by simp
  moreover have "{x. x \<in> set s \<and> x \<noteq> m} = set s - {m}" by auto
  ultimately show ?case using "2.IH" "2.prems" by auto
qed simp

section \<open>The handlers\<close>

abbreviation hash_of :: "database \<Rightarrow> int \<Rightarrow> bytes \<Rightarrow> (bytes \<times> bytes) list" where
  "hash_of db now k \<equiv> fst (hc.content db now k)"

abbreviation set_of :: "database \<Rightarrow> int \<Rightarrow> bytes \<Rightarrow> bytes list" where
  "set_of db now k \<equiv> fst (sc.content db now k)"

lemma hset_ok:
  assumes inv: "db_inv db" and ft: "hc.fits_type db (clk env 0) k" and ev: "even (length fvs)"
  defines "h \<equiv> hash_of db (clk env 0) k"
  shows "\<exists>h' db'. cmdHSet env db ([c, k] @ fvs) =
      Inr ([Integer (int (card (fst ` set (pairs_of fvs) - dom (map_of h))))], db') \<and>
      stores k (hash_obj h') (snd (hc.content db (clk env 0) k)) db db' \<and>
      map_of h' = map_of h ++ map_of (rev (pairs_of fvs))"
proof -
  have dh: "distinct (map fst h)" unfolding h_def by (rule hc.content_okc [OF inv ft])
  obtain h' n where l: "hset_loop fvs h 0 = (h', n)" by fastforce
  note lo = hset_loop_ok [OF dh l]
  have arg: "([c, k] @ fvs) ! 1 = k" "drop 2 ([c, k] @ fvs) = fvs" "length ([c, k] @ fvs) - 2 = length fvs" by simp_all
  have "\<exists>db'. cmdHSet env db ([c, k] @ fvs) = Inr ([Integer n], db') \<and>
      stores k (hash_obj h') (snd (hc.content db (clk env 0) k)) db db'"
    unfolding cmdHSet_def arg using ev
    by (simp, intro hc.write_ok [OF inv ft create_box(1), where c' = h']) (simp_all add: h_def [symmetric] l lo(1))
  with lo show ?thesis by auto
qed

lemma hdel_ok:
  assumes inv: "db_inv db" and a: "alive db (clk env 0) k = Some (hash_obj h, x)"
  shows "\<exists>h' db'. cmdHDel env db ([c, k] @ fs) = Inr ([Integer (int (card (set fs \<inter> dom (map_of h))))], db') \<and>
      map_of h' = map_of h |` (- set fs) \<and> (if h' = [] then without k db db' else stores k (hash_obj h') x db db')"
proof -
  have ft: "hc.fits_type db (clk env 0) k" using a by (simp add: hc.fits_type_def hash_obj_def)
  have c: "hash_of db (clk env 0) k = h" using a by (simp add: hc.content_def hash_obj_def)
  obtain h' n where l: "hdel_loop fs h 0 = (h', n)" by fastforce
  note lo = hdel_loop_ok [OF hc.content_okc [OF inv ft, unfolded c] l]
  have arg: "([c, k] @ fs) ! 1 = k" "drop 2 ([c, k] @ fs) = fs" for c by simp_all
  have "\<exists>db'. cmdHDel env db ([c, k] @ fs) = Inr ([Integer n], db') \<and>
      (if h' = [] then without k db db' else stores k (hash_obj h') x db db')"
    unfolding cmdHDel_def arg by (rule hc.shrink_ok [OF inv a ft]) (simp_all add: c l lo(1))
  then show ?thesis using lo(2) unfolding lo(3) add_0 by blast
qed

lemma hread_ok:
  assumes inv: "db_inv db" and a: "alive db (clk env 0) k = Some (hash_obj h, x)"
  shows "\<exists>db'. cmdHGet env db [c, k, f] = Inr ([case map_of h f of None \<Rightarrow> Null | Some v \<Rightarrow> BulkString v], db') \<and> same_data db db'"
    and "\<exists>db'. cmdHLen env db [c, k] = Inr ([Integer (int (card (dom (map_of h))))], db') \<and> same_data db db'"
    and "\<exists>db'. cmdHGetAll env db [c, k] = Inr (ArrayHeader (2 * int (length h)) #
       concat (map (\<lambda>f. [BulkString f, BulkString (the (map_of h f))]) (uorder env (map fst h))), db') \<and> same_data db db'"
proof -
  have ft: "hc.fits_type db (clk env 0) k" using a by (simp add: hc.fits_type_def hash_obj_def)
  have c: "hash_of db (clk env 0) k = h" using a by (simp add: hc.content_def hash_obj_def)
  have "distinct (map fst h)" using hc.content_okc [OF inv ft] c by simp
  then have card: "card (dom (map_of h)) = length h"
    by (metis distinct_card dom_map_of_conv_image_fst length_map set_map)
  have arg: "[c, k, f] ! 1 = k" "[c, k, f] ! 2 = f" "[c, k] ! 1 = k" by simp_all
  show "\<exists>db'. cmdHGet env db [c, k, f] = Inr ([case map_of h f of None \<Rightarrow> Null | Some v \<Rightarrow> BulkString v], db') \<and> same_data db db'"
    unfolding cmdHGet_def arg by (rule hc.read_ok [OF inv a ft]) (simp add: c split: option.split)
  show "\<exists>db'. cmdHLen env db [c, k] = Inr ([Integer (int (card (dom (map_of h))))], db') \<and> same_data db db'"
    unfolding cmdHLen_def arg by (rule hc.read_ok [OF inv a ft]) (simp add: c card)
  show "\<exists>db'. cmdHGetAll env db [c, k] = Inr (ArrayHeader (2 * int (length h)) #
       concat (map (\<lambda>f. [BulkString f, BulkString (the (map_of h f))]) (uorder env (map fst h))), db') \<and> same_data db db'"
    unfolding cmdHGetAll_def arg by (rule hc.read_ok [OF inv a ft]) (simp add: c mult.commute)
qed

lemma sadd_ok:
  assumes inv: "db_inv db" and ft: "sc.fits_type db (clk env 0) k"
  defines "s \<equiv> set_of db (clk env 0) k"
  shows "\<exists>s' db'. cmdSAdd env db ([c, k] @ ms) = Inr ([Integer (int (card (set ms - set s)))], db') \<and>
      stores k (set_obj s') (snd (sc.content db (clk env 0) k)) db db' \<and> distinct s' \<and> set s' = set s \<union> set ms"
proof -
  have ds: "distinct s" unfolding s_def by (rule sc.content_okc [OF inv ft])
  obtain s' n where l: "sadd_loop ms s 0 = (s', n)" by fastforce
  note lo = sadd_loop_ok [OF ds l]
  have arg: "([c, k] @ ms) ! 1 = k" "drop 2 ([c, k] @ ms) = ms" for c by simp_all
  have "\<exists>db'. cmdSAdd env db ([c, k] @ ms) = Inr ([Integer n], db') \<and>
      stores k (set_obj s') (snd (sc.content db (clk env 0) k)) db db'"
    unfolding cmdSAdd_def arg
    by (rule sc.write_ok [OF inv ft create_box(2)]) (simp_all add: s_def [symmetric] l lo)
  with lo show ?thesis by auto
qed

lemma srem_ok:
  assumes inv: "db_inv db" and a: "alive db (clk env 0) k = Some (set_obj s, x)"
  shows "\<exists>s' db'. cmdSRem env db ([c, k] @ ms) = Inr ([Integer (int (card (set ms \<inter> set s)))], db') \<and>
      distinct s' \<and> set s' = set s - set ms \<and> (if s' = [] then without k db db' else stores k (set_obj s') x db db')"
proof -
  have ft: "sc.fits_type db (clk env 0) k" using a by (simp add: sc.fits_type_def set_obj_def)
  have c: "set_of db (clk env 0) k = s" using a by (simp add: sc.content_def set_obj_def)
  obtain s' n where l: "srem_loop ms s 0 = (s', n)" by fastforce
  note lo = srem_loop_ok [OF sc.content_okc [OF inv ft, unfolded c] l]
  have arg: "([c, k] @ ms) ! 1 = k" "drop 2 ([c, k] @ ms) = ms" for c by simp_all
  have "\<exists>db'. cmdSRem env db ([c, k] @ ms) = Inr ([Integer n], db') \<and>
      (if s' = [] then without k db db' else stores k (set_obj s') x db db')"
    unfolding cmdSRem_def arg by (rule sc.shrink_ok [OF inv a ft]) (simp_all add: c l lo)
  moreover have "n = int (card (set ms \<inter> set s))" "distinct s' \<and> set s' = set s - set ms" using lo by simp_all
  ultimately show ?thesis by blast
qed

lemma sread_ok:
  assumes inv: "db_inv db" and a: "alive db (clk env 0) k = Some (set_obj s, x)"
  shows "\<exists>db'. cmdSIsMember env db [c, k, m] = Inr ([Integer (if m \<in> set s then 1 else 0)], db') \<and> same_data db db'"
    and "\<exists>db'. cmdSCard env db [c, k] = Inr ([Integer (int (card (set s)))], db') \<and> same_data db db'"
    and "\<exists>db'. cmdSMembers env db [c, k] = Inr (ArrayHeader (int (length s)) # map BulkString (uorder env s), db') \<and> same_data db db'"
proof -
  have ft: "sc.fits_type db (clk env 0) k" using a by (simp add: sc.fits_type_def set_obj_def)
  have c: "set_of db (clk env 0) k = s" using a by (simp add: sc.content_def set_obj_def)
  have "distinct s" using sc.content_okc [OF inv ft] c by simp
  then have card: "card (set s) = length s" by (rule distinct_card)
  have arg: "[c, k, m] ! 1 = k" "[c, k, m] ! 2 = m" "[c, k] ! 1 = k" by simp_all
  show "\<exists>db'. cmdSIsMember env db [c, k, m] = Inr ([Integer (if m \<in> set s then 1 else 0)], db') \<and> same_data db db'"
    unfolding cmdSIsMember_def arg by (rule sc.read_ok [OF inv a ft]) (simp add: c)
  show "\<exists>db'. cmdSCard env db [c, k] = Inr ([Integer (int (card (set s)))], db') \<and> same_data db db'"
    unfolding cmdSCard_def arg by (rule sc.read_ok [OF inv a ft]) (simp add: c card)
  show "\<exists>db'. cmdSMembers env db [c, k] = Inr (ArrayHeader (int (length s)) # map BulkString (uorder env s), db') \<and> same_data db db'"
    unfolding cmdSMembers_def arg by (rule sc.read_ok [OF inv a ft]) (simp add: c)
qed

section \<open>Properties\<close>

text \<open>HSET on a key that is absent, expired or a live hash: the fields end up as a finite
  map updated with the pairs from left to right (the last value of a repeated field wins), the reply is
  the number of different fields that were new, and expiry time and other keys are kept. An odd number
  of field arguments is refused without touching the database.\<close>
theorem hset_command:
  assumes "db_inv db" and "hc.fits_type db (clk env 0) k"
  shows "if even (length fvs) then
      (\<exists>h' db'. cmdHSet env db ([c, k] @ fvs) =
         Inr ([Integer (int (card (fst ` set (pairs_of fvs) - dom (map_of (hash_of db (clk env 0) k)))))], db') \<and>
       stores k (hash_obj h') (snd (hc.content db (clk env 0) k)) db db' \<and>
       map_of h' = map_of (hash_of db (clk env 0) k) ++ map_of (rev (pairs_of fvs)))
    else cmdHSet env db ([c, k] @ fvs) = Inr ([Error ''ERR wrong number of arguments for 'hset' command''], db)"
proof (cases "even (length fvs)")
  case True
  with hset_ok [OF assms, of fvs c] show ?thesis by simp
next
  case False
  then show ?thesis by (simp add: cmdHSet_def odd_iff_mod_2_eq_one)
qed

theorem hset_command_witness:
  "\<exists>h' db'. cmdHSet (demo_env 5) demo_db ([''HSET'', ''h''] @ [''f'', ''1'', ''g'', ''2'', ''f'', ''3'']) = Inr ([Integer 2], db') \<and>
     stores ''h'' (hash_obj h') (- 1) demo_db db' \<and> map_of h' ''f'' = Some ''3''"
proof -
  have a: "alive demo_db (clk (demo_env 5) 0) ''h'' = None" by (simp add: alive_def alive_map_def demo_entries)
  then have "hc.fits_type demo_db (clk (demo_env 5) 0) ''h''" by (simp add: hc.fits_type_def)
  moreover have c: "hc.content demo_db (clk (demo_env 5) 0) ''h'' = ([], - 1)" using a by (simp add: hc.content_def)
  moreover have "card {''f'', ''g'', ''f''} = 2" by (simp add: insert_commute)
  ultimately obtain h' db' where
    "cmdHSet (demo_env 5) demo_db ([''HSET'', ''h''] @ [''f'', ''1'', ''g'', ''2'', ''f'', ''3'']) = Inr ([Integer 2], db')"
    "stores ''h'' (hash_obj h') (- 1) demo_db db'" "map_of h' ''f'' = Some ''3''"
    using hset_command [OF db_reach_inv [OF demo_reach], of "demo_env 5" "''h''" "[''f'', ''1'', ''g'', ''2'', ''f'', ''3'']" "''HSET''"]
    by (auto simp: demo_env_def)
  then show ?thesis by blast
qed

text \<open>C36 (functional). On a live hash, HGET replies the value of the field or null, HLEN the number of
  fields, HGETALL twice that number and then every field with its value in the order of the container;
  none changes the state. HDEL removes the named fields, replies how many there were, and deletes the
  key when no field is left.\<close>
theorem hash_commands:
  assumes "db_inv db" and "alive db (clk env 0) k = Some (hash_obj h, x)"
  shows "(\<exists>db'. cmdHGet env db [c, k, f] = Inr ([case map_of h f of None \<Rightarrow> Null | Some v \<Rightarrow> BulkString v], db') \<and> same_data db db') \<and>
    (\<exists>db'. cmdHLen env db [c, k] = Inr ([Integer (int (card (dom (map_of h))))], db') \<and> same_data db db') \<and>
    (\<exists>db'. cmdHGetAll env db [c, k] = Inr (ArrayHeader (2 * int (length h)) #
       concat (map (\<lambda>f. [BulkString f, BulkString (the (map_of h f))]) (uorder env (map fst h))), db') \<and> same_data db db') \<and>
    (\<exists>h' db'. cmdHDel env db ([c, k] @ fs) = Inr ([Integer (int (card (set fs \<inter> dom (map_of h))))], db') \<and>
       map_of h' = map_of h |` (- set fs) \<and> (if h' = [] then without k db db' else stores k (hash_obj h') x db db'))"
  using hread_ok [OF assms] hdel_ok [OF assms] by blast

definition hash_db :: database where
  "hash_db = setData (db_setObject sizes64 new_database ''h'' createHash) ''h'' (DMap [(''f'', ''1''), (''g'', ''2'')])"

lemma hash_db_ok: "db_inv hash_db" "alive hash_db t ''h'' = Some (hash_obj [(''f'', ''1''), (''g'', ''2'')], - 1)"
proof -
  let ?d = "db_setObject sizes64 new_database ''h'' createHash"
  note s = db_setObject_ok [OF db_inv_new(1), of "''h''" createHash sizes64, simplified db_inv_new, simplified]
  have st: "stores ''h'' (createHash\<lparr>odata := DMap [(''f'', ''1''), (''g'', ''2'')]\<rparr>) (- 1) ?d hash_db"
    unfolding hash_db_def by (rule setData_ok) (simp_all add: s, simp add: createHash_def obj_ok_def)
  then show "db_inv hash_db" by (rule stores_inv)
  from stores_alive [OF st, of t] show "alive hash_db t ''h'' = Some (hash_obj [(''f'', ''1''), (''g'', ''2'')], - 1)"
    by (simp add: createHash_def hash_obj_def)
qed

theorem hash_commands_witness:
  "\<exists>db'. cmdHGet (demo_env 5) hash_db [''HGET'', ''h'', ''g''] = Inr ([BulkString ''2''], db') \<and> same_data hash_db db'"
  using hash_commands [OF hash_db_ok(1) hash_db_ok(2) [of "clk (demo_env 5) 0"], of "''HGET''" "''g''"] by auto

text \<open>C37 (functional). The set commands compute on finite sets: SADD forms the union (creating the key
  when it was absent or expired) and replies how many members were new; on a live set, SREM forms the
  difference, replies how many members there were and deletes the key when the set becomes empty;
  SISMEMBER, SCARD and SMEMBERS reply membership, size, and every member once for an order that
  permutes them.\<close>
theorem set_commands:
  assumes "db_inv db" and "sc.fits_type db (clk env 0) k" and "mset (uorder env (set_of db (clk env 0) k)) = mset (set_of db (clk env 0) k)"
  shows "(\<exists>s' db'. cmdSAdd env db ([c, k] @ ms) = Inr ([Integer (int (card (set ms - set (set_of db (clk env 0) k))))], db') \<and>
       stores k (set_obj s') (snd (sc.content db (clk env 0) k)) db db' \<and> distinct s' \<and>
       set s' = set (set_of db (clk env 0) k) \<union> set ms) \<and>
    (\<forall>s x. alive db (clk env 0) k = Some (set_obj s, x) \<longrightarrow>
      (\<exists>s' db'. cmdSRem env db ([c, k] @ ms) = Inr ([Integer (int (card (set ms \<inter> set s)))], db') \<and>
         distinct s' \<and> set s' = set s - set ms \<and> (if s' = [] then without k db db' else stores k (set_obj s') x db db')) \<and>
      (\<exists>db'. cmdSIsMember env db [c, k, m] = Inr ([Integer (if m \<in> set s then 1 else 0)], db') \<and> same_data db db') \<and>
      (\<exists>db'. cmdSCard env db [c, k] = Inr ([Integer (int (card (set s)))], db') \<and> same_data db db') \<and>
      (\<exists>db' r. cmdSMembers env db [c, k] = Inr (ArrayHeader (int (card (set s))) # map BulkString r, db') \<and>
         distinct r \<and> set r = set s \<and> same_data db db'))"
proof -
  have mem: "\<exists>db' r. cmdSMembers env db [c, k] = Inr (ArrayHeader (int (card (set s))) # map BulkString r, db') \<and>
         distinct r \<and> set r = set s \<and> same_data db db'" if a: "alive db (clk env 0) k = Some (set_obj s, x)" for s x
  proof -
    have c: "set_of db (clk env 0) k = s" using a by (simp add: sc.content_def set_obj_def)
    have "distinct s" using sc.content_okc [OF assms(1,2)] c by simp
    then have "distinct (uorder env s)" "set (uorder env s) = set s" "card (set s) = length s"
      using assms(3) c by (metis mset_eq_imp_distinct_iff, metis mset_eq_setD, simp add: distinct_card)
    with sread_ok(3) [OF assms(1) a, of c] show ?thesis by metis
  qed
  show ?thesis
    by (intro conjI allI impI sadd_ok [OF assms(1,2)] srem_ok [OF assms(1)] sread_ok(1,2) [OF assms(1)] mem)
qed

theorem set_commands_witness:
  "\<exists>s' db'. cmdSAdd (demo_env 5) demo_db ([''SADD'', ''s''] @ [''x'', ''y'', ''x'']) = Inr ([Integer 2], db') \<and>
     set s' = {''x'', ''y''} \<and> stores ''s'' (set_obj s') (- 1) demo_db db'"
proof -
  have a: "alive demo_db (clk (demo_env 5) 0) ''s'' = None" by (simp add: alive_def alive_map_def demo_entries)
  then have f: "sc.fits_type demo_db (clk (demo_env 5) 0) ''s''" by (simp add: sc.fits_type_def)
  have o: "uorder (demo_env 5) = id" by (simp add: demo_env_def)
  have c: "sc.content demo_db (clk (demo_env 5) 0) ''s'' = ([], - 1)" using a by (simp add: sc.content_def)
  have n: "int (card (set [''x'', ''y'', ''x''] - set (fst (([], - 1) :: string list \<times> int)))) = 2" by (simp add: insert_commute)
  have m: "mset (uorder (demo_env 5) (set_of demo_db (clk (demo_env 5) 0) ''s'')) = mset (set_of demo_db (clk (demo_env 5) 0) ''s'')"
    by (simp add: o)
  obtain s' db' where "cmdSAdd (demo_env 5) demo_db ([''SADD'', ''s''] @ [''x'', ''y'', ''x'']) = Inr ([Integer 2], db')"
    "stores ''s'' (set_obj s') (- 1) demo_db db'" "set s' = set [] \<union> set [''x'', ''y'', ''x'']"
    using conjunct1 [OF set_commands [OF db_reach_inv [OF demo_reach] f m, of "''SADD''" "[''x'', ''y'', ''x'']"], unfolded c n]
    unfolding fst_conv snd_conv by blast
  moreover from this have "set s' = {''x'', ''y''}" by auto
  ultimately show ?thesis by blast
qed

end
