(* ===== verification/CFloat.thy ===== *)
theory CFloat
  imports Doubles CLib
begin

text \<open>
  The two conversions of the C library that the sorted sets use on scores: \<^verbatim>\<open>strtod\<close> (decimal and
  hexadecimal numbers, infinities and not-a-number, the longest valid prefix, 0 when there is none,
  rounding to the nearest binary64 with ties to even) and \<^verbatim>\<open>printf("%.17g")\<close>. A finite double is
  the rational it denotes; the sign and payload of a not-a-number are not kept.
\<close>

section \<open>Rounding to binary64\<close>

definition half_even :: "rat \<Rightarrow> int" where
  "half_even q = (let f = \<lfloor>q\<rfloor>; d = q - of_int f in
     if d < 1 / 2 \<or> (d = 1 / 2 \<and> even f) then f else f + 1)"

definition pow_int :: "rat \<Rightarrow> int \<Rightarrow> rat" where
  "pow_int b k = (if 0 \<le> k then b ^ nat k else 1 / b ^ nat (- k))"

text \<open>The number of digits of a natural number, and the exponent of a positive rational to a base: the
  greatest \<open>k\<close> with \<open>b\<close> to the \<open>k\<close> at most \<open>r\<close>.\<close>

fun ndigits :: "nat \<Rightarrow> nat \<Rightarrow> nat" where
  "ndigits b n = (if b < 2 \<or> n < b then 1 else Suc (ndigits b (n div b)))"

declare ndigits.simps [simp del]

definition ilog :: "nat \<Rightarrow> rat \<Rightarrow> int" where
  "ilog b r = (if 1 \<le> r then int (ndigits b (nat \<lfloor>r\<rfloor>)) - 1 else - int (ndigits b (nat (\<lceil>1 / r\<rceil> - 1))))"

definition round_double :: "rat \<Rightarrow> dbl" where
  "round_double r =
     (if r = 0 then Fin 0
      else let e = max (- 1074) (ilog 2 r - 52); v = of_int (half_even (r / pow_int 2 e)) * pow_int 2 e in
           if 2 ^ 1024 \<le> v then PInf else Fin v)"

fun dneg :: "dbl \<Rightarrow> dbl" where
  "dneg NaN = NaN" | "dneg NInf = PInf" | "dneg PInf = NInf" | "dneg NegZero = Fin 0"
| "dneg (Fin r) = (if r = 0 then NegZero else Fin (- r))"

section \<open>strtod\<close>

definition isxdigit :: "char \<Rightarrow> bool" where
  "isxdigit c = (isdigit c \<or> tolower c \<in> set ''abcdef'')"

definition xdigit_val :: "char \<Rightarrow> nat" where
  "xdigit_val c = (if isdigit c then digit_val c else of_char (tolower c) - 87)"

text \<open>Digits, an optional point and more digits: the value without the point, the number of digits
  behind it, and the rest; \<open>None\<close> if there is no digit.\<close>

definition scan_mantissa :: "(char \<Rightarrow> bool) \<Rightarrow> nat \<Rightarrow> bytes \<Rightarrow> (nat \<times> nat \<times> bytes) option" where
  "scan_mantissa dig base s =
     (let a = takeWhile dig s; r = dropWhile dig s;
          (b, r') = (case r of c # cs \<Rightarrow> if c = CHR ''.'' then (takeWhile dig cs, dropWhile dig cs) else ([], r) | [] \<Rightarrow> ([], []))
      in if a = [] \<and> b = [] then None
         else Some (foldl (\<lambda>v c. v * base + xdigit_val c) 0 (a @ b), length b, r'))"

text \<open>An exponent counts only when a digit follows.\<close>

definition scan_exponent :: "char \<Rightarrow> bytes \<Rightarrow> int" where
  "scan_exponent mark s =
     (case s of
        [] \<Rightarrow> 0
      | c # cs \<Rightarrow>
          if tolower c \<noteq> mark then 0
          else let (neg, ds) = (case cs of d # ds \<Rightarrow> if d = CHR ''-'' then (True, ds) else if d = CHR ''+'' then (False, ds) else (False, cs)
                                | [] \<Rightarrow> (False, []));
                   v = int (digits_val (takeWhile isdigit ds))
               in if neg then - v else v)"

definition starts_with :: "bytes \<Rightarrow> bytes \<Rightarrow> bool" where
  "starts_with p s = (map tolower (take (length p) s) = p)"

definition strtod_abs :: "bytes \<Rightarrow> dbl" where
  "strtod_abs s =
     (if starts_with ''inf'' s then PInf
      else if starts_with ''nan'' s then NaN
      else case (if starts_with ''0x'' s then scan_mantissa isxdigit 16 (drop 2 s) else None) of
        Some (v, k, r) \<Rightarrow> round_double (of_nat v / 16 ^ k * pow_int 2 (scan_exponent (CHR ''p'') r))
      | None \<Rightarrow>
          (case scan_mantissa isdigit 10 s of
             None \<Rightarrow> Fin 0
           | Some (v, k, r) \<Rightarrow> round_double (of_nat v / 10 ^ k * pow_int 10 (scan_exponent (CHR ''e'') r))))"

text \<open>A sign in front of something that is not a number converts nothing: the result is +0.\<close>

definition strtod :: "bytes \<Rightarrow> dbl" where
  "strtod s0 =
     (let s = dropWhile isspace s0 in
      case s of
        [] \<Rightarrow> Fin 0
      | c # cs \<Rightarrow>
          if c = CHR ''-'' then
            (if strtod_abs cs = Fin 0 \<and> scan_mantissa isdigit 10 cs = None then Fin 0 else dneg (strtod_abs cs))
          else if c = CHR ''+'' then strtod_abs cs else strtod_abs s)"

section \<open>printf \<open>%.17g\<close>\<close>

definition strip_zeros :: "bytes \<Rightarrow> bytes" where
  "strip_zeros ds = rev (dropWhile (\<lambda>c. c = CHR ''0'') (rev ds))"

definition with_fraction :: "bytes \<Rightarrow> bytes \<Rightarrow> bytes" where
  "with_fraction a b = (let b' = strip_zeros b in if b' = [] then a else a @ ''.'' @ b')"

text \<open>The 17 significant digits are \<open>d\<close>, the decimal exponent \<open>x\<close>; fixed notation for exponents from
  -4 to 16.\<close>

definition format_digits :: "nat \<Rightarrow> int \<Rightarrow> bytes" where
  "format_digits d x =
     (let ds = nat_to_string d in
      if - 4 \<le> x \<and> x < 17 then
        (if 0 \<le> x then with_fraction (take (nat x + 1) ds) (drop (nat x + 1) ds)
         else with_fraction ''0'' (replicate (nat (- x) - 1) (CHR ''0'') @ ds))
      else with_fraction (take 1 ds) (drop 1 ds) @ ''e'' @ (if x < 0 then ''-'' else ''+'') @
           (let e = nat_to_string (nat \<bar>x\<bar>) in if length e < 2 then CHR ''0'' # e else e))"

definition format_pos :: "rat \<Rightarrow> bytes" where
  "format_pos r =
     (let x = ilog 10 r; d = half_even (r / pow_int 10 (x - 16)) in
      if d = 10 ^ 17 then format_digits (10 ^ 16) (x + 1) else format_digits (nat d) x)"

fun printf_17g :: "dbl \<Rightarrow> bytes" where
  "printf_17g NaN = ''nan''" | "printf_17g PInf = ''inf''" | "printf_17g NInf = ''-inf''" | "printf_17g NegZero = ''-0''"
| "printf_17g (Fin r) = (if r = 0 then ''0'' else if 0 < r then format_pos r else ''-'' @ format_pos (- r))"


section \<open>Integers\<close>

lemma digit_char_0 [simp]: "digit_char 0 = CHR ''0''"
  by (simp add: digit_char_def char_of_def bit_0 bit_Suc flip: bit_Suc_0_iff)

lemma ndigits_bounds: "0 < n \<Longrightarrow> 2 \<le> b \<Longrightarrow> b ^ (ndigits b n - 1) \<le> n \<and> n < b ^ ndigits b n \<and> 0 < ndigits b n"
proof (induction b n rule: ndigits.induct)
  case (1 b n)
  show ?case
  proof (cases "n < b")
    case True
    then show ?thesis using 1 by (subst (1 2 3) ndigits.simps) simp
  next
    case False
    then have eq: "ndigits b n = Suc (ndigits b (n div b))" using 1 by (subst ndigits.simps) simp
    have pos: "0 < n div b" using False "1.prems" by (simp add: div_greater_zero_iff)
    then have IH: "b ^ (ndigits b (n div b) - 1) \<le> n div b" "n div b < b ^ ndigits b (n div b)" "0 < ndigits b (n div b)"
      using 1 False by auto
    have "b ^ ndigits b (n div b) = b * b ^ (ndigits b (n div b) - 1)" using IH(3) by (metis Suc_diff_1 power_Suc)
    also have "\<dots> \<le> n" using IH(1) by (metis div_le_mono mult.commute mult_le_mono2 nonzero_mult_div_cancel_left times_div_less_eq_dividend le_trans)
    finally have "b ^ ndigits b (n div b) \<le> n" .
    moreover have "n < b * b ^ ndigits b (n div b)" using IH(2) "1.prems" by (simp add: div_less_iff_less_mult mult.commute)
    ultimately show ?thesis by (simp add: eq)
  qed
qed

lemma half_even_int [simp]: "half_even (of_int k) = k"
  by (simp add: half_even_def Let_def)

lemma ilog_nat: "0 < n \<Longrightarrow> ilog b (of_nat n) = int (ndigits b n) - 1"
proof -
  assume "0 < n"
  moreover have "\<lfloor>of_nat n :: rat\<rfloor> = int n" by (metis floor_of_int of_int_of_nat_eq)
  ultimately show ?thesis by (simp add: ilog_def)
qed

lemma round_double_nat:
  assumes n: "n \<le> 2 ^ 53"
  shows "round_double (of_nat n) = Fin (of_nat n)"
proof (cases "n = 0")
  case False
  let ?k = "ndigits 2 n"
  have b: "2 ^ (?k - 1) \<le> n" "0 < ?k" using ndigits_bounds [of n 2] False by auto
  then have "(2::nat) ^ (?k - 1) \<le> 2 ^ 53" using n by linarith
  then have k: "?k \<le> 54" by (subst (asm) power_increasing_iff) auto
  define e where "e = max (- 1074) (ilog 2 (of_nat n) - 52)"
  have e: "e = int ?k - 53" using False k b(2) by (simp add: e_def ilog_nat)
  obtain j :: int where j: "(of_nat n :: rat) / pow_int 2 e = of_int j" "of_int j * pow_int 2 e = (of_nat n :: rat)"
  proof (cases "?k = 54")
    case True
    then have "n = 2 ^ 53" using b n by simp
    then show thesis using that [of "2 ^ 52"] e True by (simp add: pow_int_def)
  next
    case False
    then have "e \<le> 0" using e k by simp
    then have p: "pow_int 2 e = 1 / 2 ^ nat (- e)" by (simp add: pow_int_def)
    show thesis by (rule that [of "int n * 2 ^ nat (- e)"]) (simp_all add: p)
  qed
  have "\<not> (2 ^ 1024 \<le> (of_nat n :: rat))"
  proof -
    have "(of_nat n :: rat) \<le> of_nat (2 ^ 53)" using n by (simp only: of_nat_le_iff)
    also have "\<dots> < 2 ^ 1024" by simp
    finally show ?thesis by simp
  qed
  then show ?thesis using False j by (simp add: round_double_def e_def [symmetric] Let_def)
qed (simp add: round_double_def)

lemma digit_no_letter: "isdigit c \<Longrightarrow> tolower c = c \<and> c \<notin> {CHR ''i'', CHR ''n'', CHR ''x'', CHR ''.''}"
  by (auto simp: isdigit_def tolower_def Let_def)

lemma strtod_abs_nat:
  assumes "n \<le> 2 ^ 53"
  shows "strtod_abs (nat_to_string n) = Fin (of_nat n)"
proof -
  let ?s = "nat_to_string n"
  have dig: "isdigit c" if "c \<in> set ?s" for c using that by (rule nat_to_string_digits)
  have fold: "foldl (\<lambda>v c. v * 10 + xdigit_val c) v ds = foldl (\<lambda>a c. 10 * a + digit_val c) v ds"
    if "\<forall>c \<in> set ds. isdigit c" for v ds
    using that by (induction ds arbitrary: v) (simp_all add: xdigit_val_def mult.commute)
  have d: "dropWhile isdigit ?s = []" using dig by (simp add: dropWhile_eq_Nil_conv)
  have m: "scan_mantissa isdigit 10 ?s = Some (n, 0, [])"
    using fold [of ?s 0] dig digits_val_nat_to_string [of n] by (simp add: scan_mantissa_def Let_def digits_val_def d)
  obtain c cs where s: "?s = c # cs" by (cases ?s) auto
  have c: "tolower c = c" "c \<noteq> CHR ''i''" "c \<noteq> CHR ''n''" using digit_no_letter [of c] dig s by auto
  then have p: "\<not> starts_with ''inf'' ?s" "\<not> starts_with ''nan'' ?s" by (auto simp: starts_with_def s)
  have "\<not> starts_with ''0x'' ?s"
  proof (cases cs)
    case (Cons d ds)
    then show ?thesis using digit_no_letter [of d] dig s by (auto simp: starts_with_def)
  qed (simp add: starts_with_def s)
  then show ?thesis
    using p m round_double_nat [OF assms] by (simp add: strtod_abs_def scan_exponent_def pow_int_def)
qed

definition dint :: "int \<Rightarrow> dbl" where
  "dint i = Fin (of_int i)"

lemma strtod_to_string:
  assumes "\<bar>i\<bar> \<le> 2 ^ 53"
  shows "strtod (to_string i) = dint i"
proof (cases "i < 0")
  case False
  obtain c cs where s: "nat_to_string (nat i) = c # cs" by (cases "nat_to_string (nat i)") auto
  have "isdigit c" using nat_to_string_digits [of c "nat i"] s by simp
  then have "\<not> isspace c" "c \<noteq> CHR ''-''" "c \<noteq> CHR ''+''" using isdigit_not_isspace isdigit_not_sign by auto
  moreover have "strtod_abs (c # cs) = Fin (of_int i)" using strtod_abs_nat [of "nat i"] False assms s by (simp add: of_nat_nat)
  ultimately show ?thesis using False s by (simp add: strtod_def to_string_def dint_def)
next
  case True
  have "strtod_abs (nat_to_string (nat (- i))) = Fin (of_int (- i))"
    using strtod_abs_nat [of "nat (- i)"] True assms by (simp add: of_nat_nat)
  then show ?thesis using True by (simp add: strtod_def to_string_def isspace_def dint_def)
qed

lemma length_nat_to_string: "length (nat_to_string n) = ndigits 10 n"
proof (induction n rule: nat_to_string.induct)
  case (1 n)
  then show ?case by (subst nat_to_string.simps, subst ndigits.simps) simp
qed

lemma nat_to_string_zeros: "0 < n \<Longrightarrow> nat_to_string (n * 10 ^ k) = nat_to_string n @ replicate k (CHR ''0'')"
proof (induction k)
  case (Suc k)
  then have "\<not> n * 10 ^ Suc k < 10" by simp
  then have "nat_to_string (n * 10 ^ Suc k) = nat_to_string (n * 10 ^ k) @ [digit_char 0]"
    by (subst nat_to_string.simps) (simp add: mult.assoc)
  then show ?case using Suc by (simp add: replicate_append_same)
qed simp

lemma format_pos_nat:
  assumes n: "0 < n" "n < 10 ^ 17"
  shows "format_pos (of_nat n) = nat_to_string n"
proof -
  let ?k = "ndigits 10 n"
  have b: "10 ^ (?k - 1) \<le> n" "n < 10 ^ ?k" "0 < ?k" using ndigits_bounds [of n 10] n by auto
  then have "(10::nat) ^ (?k - 1) < 10 ^ 17" using n by linarith
  then have k: "?k \<le> 17" by (subst (asm) power_strict_increasing_iff) auto
  define x where "x = ilog 10 (of_nat n)"
  have x: "x = int ?k - 1" using n by (simp add: x_def ilog_nat)
  define j where "j = 17 - ?k"
  have p: "pow_int 10 (x - 16) = 1 / 10 ^ j"
    using k b(3) x by (auto simp: pow_int_def j_def nat_diff_distrib)
  have "(of_nat n :: rat) / pow_int 10 (x - 16) = of_int (int (n * 10 ^ j))" by (simp add: p)
  then have d: "half_even (of_nat n / pow_int 10 (x - 16)) = int (n * 10 ^ j)" by (metis half_even_int)
  have "n * 10 ^ j < 10 ^ ?k * 10 ^ j" using b(2) by simp
  also have "\<dots> = (10::nat) ^ 17" using k by (simp add: j_def flip: power_add)
  finally have lt: "int (n * 10 ^ j) \<noteq> 10 ^ 17" by (metis nat_less_le of_nat_eq_iff of_nat_numeral of_nat_power)
  have "nat_to_string (n * 10 ^ j) = nat_to_string n @ replicate j (CHR ''0'')" by (rule nat_to_string_zeros [OF n(1)])
  moreover have "nat x + 1 = length (nat_to_string n)" using x b(3) by (simp add: length_nat_to_string)
  moreover have "- 4 \<le> x" "x < 17" "0 \<le> x" using x k b(3) by simp_all
  ultimately have "format_digits (n * 10 ^ j) x = nat_to_string n"
    by (simp add: format_digits_def with_fraction_def strip_zeros_def)
  then show ?thesis unfolding format_pos_def x_def [symmetric] Let_def d nat_int using lt by (simp only: if_False)
qed

lemma printf_dint:
  assumes "\<bar>i\<bar> < 10 ^ 17"
  shows "printf_17g (dint i) = to_string i"
proof -
  have "i = 0 \<or> (0 < i \<and> nat i < 10 ^ 17) \<or> (i < 0 \<and> nat (- i) < 10 ^ 17)" using assms by auto
  then show ?thesis
    using format_pos_nat [of "nat i"] format_pos_nat [of "nat (- i)"]
    by (auto simp: dint_def to_string_def of_nat_nat) (simp add: nat_to_string.simps)
qed

end
