(* ===== verification/ZSet_Commands.thy ===== *)
theory ZSet_Commands
  imports Hash_Set_Commands CFloat
begin

text \<open>
  The sorted set handlers of \<^verbatim>\<open>cmd/ZSetCommands.cpp\<close>. A sorted set keeps every member twice, in the
  skip list ordered by score and member and in a dictionary from member to score; a failing pointer
  operation of the list would end the handler (\<open>null_pointer\<close>). \<open>zset_ok\<close> says that both hold the same
  elements and that no score is NaN; under it the handlers compute on a finite map and its sorted
  enumeration.
\<close>

section \<open>Handlers\<close>

definition formatScore :: "dbl \<Rightarrow> bytes" where
  "formatScore s = printf_17g s"

text \<open>The loop of ZADD over the score and member arguments.\<close>

fun zadd_loop :: "bytes list \<Rightarrow> ZSetData \<Rightarrow> int \<Rightarrow> (ZSetData \<times> int) option" where
  "zadd_loop (sc # m # rest) z added =
     (let s = strtod sc in
      case map_of (zdict z) m of
        Some oldScore \<Rightarrow>
          if \<not> deq oldScore s then do {
            (_, l1) \<leftarrow> sl_remove (zskiplist z) m oldScore;
            l2 \<leftarrow> sl_insert l1 m s;
            zadd_loop rest \<lparr>zskiplist = l2, zdict = AList.update m s (zdict z)\<rparr> added }
          else zadd_loop rest z added
      | None \<Rightarrow> do {
          l1 \<leftarrow> sl_insert (zskiplist z) m s;
          zadd_loop rest \<lparr>zskiplist = l1, zdict = AList.update m s (zdict z)\<rparr> (added + 1) })"
| "zadd_loop _ z added = Some (z, added)"

definition cmdZAdd :: "env \<Rightarrow> database \<Rightarrow> bytes list \<Rightarrow> result" where
  "cmdZAdd env db args =
     (if (length args - 2) mod 2 \<noteq> 0
      then Inr ([Error ''ERR wrong number of arguments for 'zadd' command''], db)
      else writeContainer env db (args ! 1) ZSET (createZSet (seed env))
        (\<lambda>e db1. case get_if_zset (odata (evalue e)) of
           None \<Rightarrow> Inl bad_variant_access
         | Some z \<Rightarrow>
             (case zadd_loop (drop 2 args) z 0 of
                None \<Rightarrow> Inl null_pointer
              | Some (z', added) \<Rightarrow> Inr ([Integer added], setData db1 (args ! 1) (DZSet z')))))"

definition cmdZScore :: "env \<Rightarrow> database \<Rightarrow> bytes list \<Rightarrow> result" where
  "cmdZScore env db args =
     readContainer env db (args ! 1) ZSET [Null]
       (\<lambda>e db1. case get_if_zset (odata (evalue e)) of
          None \<Rightarrow> Inl bad_variant_access
        | Some z \<Rightarrow>
            (case map_of (zdict z) (args ! 2) of
               None \<Rightarrow> Inr ([Null], db1)
             | Some s \<Rightarrow> Inr ([BulkString (formatScore s)], db1)))"

fun rank_loop :: "(bytes \<times> dbl) list \<Rightarrow> bytes \<Rightarrow> dbl \<Rightarrow> int \<Rightarrow> int option" where
  "rank_loop [] m s rank = None"
| "rank_loop ((m', s') # rest) m s rank = (if m' = m \<and> deq s' s then Some rank else rank_loop rest m s (rank + 1))"

definition cmdZRank :: "env \<Rightarrow> database \<Rightarrow> bytes list \<Rightarrow> result" where
  "cmdZRank env db args =
     readContainer env db (args ! 1) ZSET [Null]
       (\<lambda>e db1. case get_if_zset (odata (evalue e)) of
          None \<Rightarrow> Inl bad_variant_access
        | Some z \<Rightarrow>
            (case map_of (zdict z) (args ! 2) of
               None \<Rightarrow> Inr ([Null], db1)
             | Some s \<Rightarrow>
                 (case sl_rangeByRank (zskiplist z) 0 (wrap32 (int (sl_size (zskiplist z))) - 1) of
                    None \<Rightarrow> Inl null_pointer
                  | Some rg \<Rightarrow>
                      (case rank_loop rg (args ! 2) s 0 of
                         Some rank \<Rightarrow> Inr ([Integer rank], db1)
                       | None \<Rightarrow> Inr ([Null], db1)))))"

definition cmdZRange :: "env \<Rightarrow> database \<Rightarrow> bytes list \<Rightarrow> result" where
  "cmdZRange env db args =
     (if length args = 5 \<and> map toupper (args ! 4) \<noteq> ''WITHSCORES'' then Inr ([Error ''ERR syntax error''], db)
      else let withScores = (length args = 5) in
        readContainer env db (args ! 1) ZSET [ArrayHeader 0]
          (\<lambda>e db1. case get_if_zset (odata (evalue e)) of
             None \<Rightarrow> Inl bad_variant_access
           | Some z \<Rightarrow>
               (case stoi (args ! 2) of
                  Inl ex \<Rightarrow> Inl ex
                | Inr start \<Rightarrow>
                    (case stoi (args ! 3) of
                       Inl ex \<Rightarrow> Inl ex
                     | Inr stop \<Rightarrow>
                         (case sl_rangeByRank (zskiplist z) start stop of
                            None \<Rightarrow> Inl null_pointer
                          | Some r \<Rightarrow>
                              if withScores
                              then Inr (ArrayHeader (int (length r) * 2) #
                                     concat (map (\<lambda>(m, s). [BulkString m, BulkString (formatScore s)]) r), db1)
                              else Inr (ArrayHeader (int (length r)) # map (\<lambda>(m, s). BulkString m) r, db1))))))"

definition cmdZCard :: "env \<Rightarrow> database \<Rightarrow> bytes list \<Rightarrow> result" where
  "cmdZCard env db args =
     readContainer env db (args ! 1) ZSET [Integer 0]
       (\<lambda>e db1. case get_if_zset (odata (evalue e)) of
          None \<Rightarrow> Inl bad_variant_access
        | Some z \<Rightarrow> Inr ([Integer (int (sl_size (zskiplist z)))], db1))"

fun zrem_loop :: "bytes list \<Rightarrow> ZSetData \<Rightarrow> int \<Rightarrow> (ZSetData \<times> int) option" where
  "zrem_loop [] z removed = Some (z, removed)"
| "zrem_loop (m # ms) z removed =
     (case map_of (zdict z) m of
        None \<Rightarrow> zrem_loop ms z removed
      | Some s \<Rightarrow> do {
          (_, l1) \<leftarrow> sl_remove (zskiplist z) m s;
          zrem_loop ms \<lparr>zskiplist = l1, zdict = AList.delete m (zdict z)\<rparr> (removed + 1) })"

definition cmdZRem :: "env \<Rightarrow> database \<Rightarrow> bytes list \<Rightarrow> result" where
  "cmdZRem env db args =
     readContainer env db (args ! 1) ZSET [Integer 0]
       (\<lambda>e db1. case get_if_zset (odata (evalue e)) of
          None \<Rightarrow> Inl bad_variant_access
        | Some z \<Rightarrow>
            (case zrem_loop (drop 2 args) z 0 of
               None \<Rightarrow> Inl null_pointer
             | Some (z', removed) \<Rightarrow>
                 let db2 = setData db1 (args ! 1) (DZSet z');
                     db3 = (if zdict z' = [] then snd (db_del (mm env) db2 (args ! 1)) else db2)
                 in Inr ([Integer removed], db3)))"

section \<open>Sorted sets as containers\<close>

definition zset_obj :: "ZSetData \<Rightarrow> RedisObject" where
  "zset_obj z = \<lparr>otype = ZSET, encoding = SKIPLIST, odata = DZSet z\<rparr>"

abbreviation new_zset :: "(nat \<Rightarrow> nat) \<Rightarrow> ZSetData" where
  "new_zset r \<equiv> \<lparr>zskiplist = new_skiplist r, zdict = []\<rparr>"

interpretation zc: container ZSET zset_obj DZSet get_if_zset "\<lambda>z. distinct (map fst (zdict z))" "new_zset r" for r
proof
  show "\<exists>c. v = zset_obj c" if "obj_ok v" "otype v = ZSET" for v
    using obj_ok_ZSET [OF that] that(2) by (metis (full_types) RedisObject.surjective old.unit.exhaust zset_obj_def)
qed (simp_all add: zset_obj_def obj_ok_def)

lemma createZSet_box: "createZSet r = zset_obj (new_zset r)"
  by (simp add: createZSet_def zset_obj_def)

text \<open>The skip list and the dictionary hold the same elements.\<close>

definition zset_ok :: "ZSetData \<Rightarrow> bool" where
  "zset_ok z = sli.synced (zskiplist z) (zdict z)"

text \<open>The elements in the order of scores, and of members among equal scores.\<close>

definition zsorted :: "ZSetData \<Rightarrow> (bytes \<times> dbl) list" where
  "zsorted z = sort_key skey (zdict z)"

lemma zset_ok_rel:
  assumes "zset_ok z"
  shows "sl_rel (zskiplist z) (zsorted z)" and "ordered (zsorted z)" and "length (zsorted z) = length (zdict z)"
    and "set (zsorted z) = set (zdict z)" and "distinct (map fst (zdict z))"
proof -
  obtain xs where xs: "sl_rel (zskiplist z) xs" "set xs = set (zdict z)" and d: "distinct (map fst (zdict z))"
    using assms by (auto simp: zset_ok_def sli.synced_def)
  have o: "ordered xs" by (rule sli.rel_ordered [OF xs(1)])
  have "distinct (zdict z)" using d by (simp add: distinct_map)
  then have m: "mset (zdict z) = mset xs"
    using xs(2) ordered_distinct [OF o] by (simp add: set_eq_iff_mset_eq_distinct)
  have "sorted (map skey xs)" using o unfolding ordered_def sorted_map by (auto elim: sorted_wrt_mono_rel [rotated])
  moreover have "inj_on skey (set (zdict z))"
  proof (rule inj_onI)
    fix a b assume ab: "a \<in> set (zdict z)" "b \<in> set (zdict z)" "skey a = skey b"
    then have "fst a = fst b" by (simp add: skey_def)
    with d ab show "a = b" by (metis eq_key_imp_eq_value prod.collapse)
  qed
  ultimately have eq: "zsorted z = xs" unfolding zsorted_def using m by (intro sort_key_inj_key_eq)
  show "sl_rel (zskiplist z) (zsorted z)" "ordered (zsorted z)" "set (zsorted z) = set (zdict z)" "distinct (map fst (zdict z))"
    using eq xs o d by simp_all
  show "length (zsorted z) = length (zdict z)" by (simp add: zsorted_def)
qed

section \<open>The loops\<close>

text \<open>The members and scores in the arguments of ZADD, and the effect of one pair on the scores: an equal
  score is not written again (0 does not replace -0).\<close>

definition zpairs :: "bytes list \<Rightarrow> (bytes \<times> dbl) list" where
  "zpairs args = map (\<lambda>(sc, m). (m, strtod sc)) (pairs_of args)"

definition zput :: "(bytes \<rightharpoonup> dbl) \<Rightarrow> bytes \<times> dbl \<Rightarrow> (bytes \<rightharpoonup> dbl)" where
  "zput f e = (case f (fst e) of Some old \<Rightarrow> if deq old (snd e) then f else f(fst e \<mapsto> snd e) | None \<Rightarrow> f(fst e \<mapsto> snd e))"

lemma zpairs_simps [simp]: "zpairs (sc # m # rest) = (m, strtod sc) # zpairs rest" "zpairs [] = []" "zpairs [x] = []"
  by (simp_all add: zpairs_def)

lemma update_new: "map_of d m = None \<Longrightarrow> AList.update m s d = d @ [(m, s)]"
  by (induction d) (auto split: if_splits)

lemma zset_ok_new: "zset_ok (new_zset r)"
  by (simp add: zset_ok_def sli.synced_fresh)

lemma zset_ok_insert:
  assumes "zset_ok z" "s \<noteq> NaN" "map_of (zdict z) m = None"
  shows "\<exists>l. sl_insert (zskiplist z) m s = Some l \<and> zset_ok \<lparr>zskiplist = l, zdict = AList.update m s (zdict z)\<rparr>"
  using sli.synced_insert [of "zskiplist z" "zdict z" s m] assms by (simp add: zset_ok_def update_new)

lemma zset_ok_update:
  assumes "zset_ok z" "s \<noteq> NaN" "map_of (zdict z) m = Some old"
  shows "\<exists>l1 l. sl_remove (zskiplist z) m old = Some (True, l1) \<and> sl_insert l1 m s = Some l \<and>
    zset_ok \<lparr>zskiplist = l, zdict = AList.update m s (zdict z)\<rparr>"
  using sli.synced_update [of "zskiplist z" "zdict z" m old s] assms by (simp add: zset_ok_def)

lemma zset_ok_delete:
  assumes "zset_ok z" "map_of (zdict z) m = Some s"
  shows "\<exists>l. sl_remove (zskiplist z) m s = Some (True, l) \<and> zset_ok \<lparr>zskiplist = l, zdict = AList.delete m (zdict z)\<rparr>"
  using sli.synced_remove [of "zskiplist z" "zdict z" m s] assms by (simp add: zset_ok_def)

lemma zadd_loop_ok:
  "zset_ok z \<Longrightarrow> even (length args) \<Longrightarrow> NaN \<notin> snd ` set (zpairs args) \<Longrightarrow>
    \<exists>z'. zadd_loop args z n = Some (z', n + int (card (fst ` set (zpairs args) - dom (map_of (zdict z))))) \<and> zset_ok z' \<and>
      map_of (zdict z') = foldl zput (map_of (zdict z)) (zpairs args)"
proof (induction args z n rule: zadd_loop.induct)
  case (1 sc m rest z n)
  let ?s = "strtod sc" and ?f = "map_of (zdict z)" and ?M = "fst ` set (zpairs rest)"
  have s: "?s \<noteq> NaN" and p: "even (length rest)" "NaN \<notin> snd ` set (zpairs rest)" using "1.prems" by auto
  show ?case
  proof (cases "?f m")
    case None
    obtain l where l: "sl_insert (zskiplist z) m ?s = Some l" "zset_ok \<lparr>zskiplist = l, zdict = AList.update m ?s (zdict z)\<rparr>"
      using zset_ok_insert [OF "1.prems"(1) s None] by blast
    have "insert m ?M - dom ?f = insert m (?M - insert m (dom ?f))" using None by auto
    then have "int (card (insert m ?M - dom ?f)) = 1 + int (card (?M - insert m (dom ?f)))" by simp
    moreover obtain z' where z': "zadd_loop rest \<lparr>zskiplist = l, zdict = AList.update m ?s (zdict z)\<rparr> (n + 1) =
        Some (z', n + 1 + int (card (?M - insert m (dom ?f))))" "zset_ok z'"
      "map_of (zdict z') = foldl zput (?f(m \<mapsto> ?s)) (zpairs rest)"
      using "1.IH"(1) [OF refl None l p] by (simp only: ZSetData.select_convs update_conv' dom_fun_upd option.simps if_False) blast
    moreover have "zput ?f (m, ?s) = ?f(m \<mapsto> ?s)" using None by (simp add: zput_def)
    ultimately show ?thesis using None l(1) by (intro exI [of _ z']) (simp del: map_upds_apply_nontin fun_upd_apply)
  next
    case (Some old)
    have d: "insert m ?M - dom ?f = ?M - dom ?f" "insert m (dom ?f) = dom ?f" using Some by auto
    show ?thesis
    proof (cases "deq old ?s")
      case True
      then show ?thesis using "1.IH"(3) [OF refl Some _ "1.prems"(1) p] Some d by (simp add: zput_def Let_def)
    next
      case False
      obtain l1 l where l: "sl_remove (zskiplist z) m old = Some (True, l1)" "sl_insert l1 m ?s = Some l"
        "zset_ok \<lparr>zskiplist = l, zdict = AList.update m ?s (zdict z)\<rparr>"
        using zset_ok_update [OF "1.prems"(1) s Some] by blast
      moreover obtain z' where z': "zadd_loop rest \<lparr>zskiplist = l, zdict = AList.update m ?s (zdict z)\<rparr> n =
          Some (z', n + int (card (?M - dom ?f)))" "zset_ok z'"
        "map_of (zdict z') = foldl zput (?f(m \<mapsto> ?s)) (zpairs rest)"
        using "1.IH"(2) [OF refl Some False l(1) refl l(2,3) p]
        by (simp only: ZSetData.select_convs update_conv' dom_fun_upd option.simps if_False d(2)) blast
      moreover have "zput ?f (m, ?s) = ?f(m \<mapsto> ?s)" using Some False by (simp add: zput_def)
      ultimately show ?thesis using Some False d(1) by (intro exI [of _ z']) simp
    qed
  qed
qed simp_all

lemma zrem_loop_ok:
  "zset_ok z \<Longrightarrow> \<exists>z'. zrem_loop ms z n = Some (z', n + int (card (set ms \<inter> dom (map_of (zdict z))))) \<and> zset_ok z' \<and>
      map_of (zdict z') = map_of (zdict z) |` (- set ms)"
proof (induction ms z n rule: zrem_loop.induct)
  case (2 m ms z n)
  let ?f = "map_of (zdict z)"
  show ?case
  proof (cases "?f m")
    case None
    then have "?f |` (- set ms) = ?f |` (- insert m (set ms))" "insert m (set ms) \<inter> dom ?f = set ms \<inter> dom ?f"
      by (auto simp: restrict_map_def fun_eq_iff)
    then show ?thesis using "2.IH"(1) [OF None "2.prems"] None by simp
  next
    case (Some s)
    obtain l where l: "sl_remove (zskiplist z) m s = Some (True, l)" "zset_ok \<lparr>zskiplist = l, zdict = AList.delete m (zdict z)\<rparr>"
      using zset_ok_delete [OF "2.prems" Some] by blast
    have "insert m (set ms) \<inter> dom ?f = insert m (set ms \<inter> (dom ?f - {m}))" using Some by auto
    then have "int (card (insert m (set ms) \<inter> dom ?f)) = 1 + int (card (set ms \<inter> (dom ?f - {m})))" by simp
    moreover have "(?f(m := None)) |` (- set ms) = ?f |` (- insert m (set ms))" by (rule restrict_compl_insert)
    moreover obtain z' where "zrem_loop ms \<lparr>zskiplist = l, zdict = AList.delete m (zdict z)\<rparr> (n + 1) =
        Some (z', n + 1 + int (card (set ms \<inter> (dom ?f - {m}))))" "zset_ok z'"
      "map_of (zdict z') = (?f(m := None)) |` (- set ms)"
      using "2.IH"(2) [OF Some l(1) refl l(2)] by (simp only: ZSetData.select_convs delete_conv' dom_fun_upd if_True simp_thms) blast
    ultimately show ?thesis using Some l(1) unfolding list.set by (intro exI [of _ z']) (simp only: zrem_loop.simps option.case Option.bind.bind_lunit case_prod_conv add.assoc simp_thms)
  qed
qed (simp add: restrict_map_def)

lemma rank_loop_ok:
  "ordered xs \<Longrightarrow> (m, s) \<in> set xs \<Longrightarrow> rank_loop xs m s n = Some (n + int (card {e \<in> set xs. skey e < skey (m, s)}))"
proof (induction xs m s n rule: rank_loop.induct)
  case (2 m' s' rest m s n)
  have o: "ordered rest" "\<forall>e \<in> set rest. skey (m', s') < skey e" using "2.prems" by (simp_all add: ordered_def)
  have nn: "s \<noteq> NaN" "s' \<noteq> NaN" using "2.prems" by (auto simp: ordered_def)
  show ?case
  proof (cases "skey (m', s') = skey (m, s)")
    case True
    then have "{e \<in> set ((m', s') # rest). skey e < skey (m, s)} = {}" using o(2) by (auto simp flip: True)
    then show ?thesis using True same_skey [of s' s m' m] nn by (simp del: set_simps)
  next
    case False
    then have ms: "(m, s) \<in> set rest" using "2.prems"(2) by auto
    then have "{e \<in> set ((m', s') # rest). skey e < skey (m, s)} = insert (m', s') {e \<in> set rest. skey e < skey (m, s)}"
      using o(2) by auto
    moreover have "(m', s') \<notin> {e \<in> set rest. skey e < skey (m, s)}" using o(2) by auto
    ultimately have "card {e \<in> set ((m', s') # rest). skey e < skey (m, s)} = Suc (card {e \<in> set rest. skey e < skey (m, s)})"
      by simp
    moreover have "\<not> (m' = m \<and> deq s' s)" using False same_skey [of s' s m' m] nn by auto
    ultimately show ?thesis using "2.IH" [OF _ o(1) ms] by simp
  qed
qed simp

section \<open>The handlers on sorted sets\<close>

abbreviation zset_of :: "env \<Rightarrow> database \<Rightarrow> bytes \<Rightarrow> ZSetData" where
  "zset_of env db k \<equiv> fst (zc.content (seed env) db (clk env 0) k)"

lemma zadd_ok:
  assumes inv: "db_inv db" and ft: "zc.fits_type db (clk env 0) k" and z: "zset_ok (zset_of env db k)"
    and ev: "even (length sms)" and nn: "NaN \<notin> snd ` set (zpairs sms)"
  shows "\<exists>z' db'. cmdZAdd env db ([c, k] @ sms) =
      Inr ([Integer (int (card (fst ` set (zpairs sms) - dom (map_of (zdict (zset_of env db k))))))], db') \<and>
      stores k (zset_obj z') (snd (zc.content (seed env) db (clk env 0) k)) db db' \<and> zset_ok z' \<and>
      map_of (zdict z') = foldl zput (map_of (zdict (zset_of env db k))) (zpairs sms)"
proof -
  obtain z' where l: "zadd_loop sms (zset_of env db k) 0 =
      Some (z', 0 + int (card (fst ` set (zpairs sms) - dom (map_of (zdict (zset_of env db k))))))" "zset_ok z'"
      "map_of (zdict z') = foldl zput (map_of (zdict (zset_of env db k))) (zpairs sms)"
    using zadd_loop_ok [OF z ev nn] by blast
  have arg: "([c, k] @ sms) ! 1 = k" "drop 2 ([c, k] @ sms) = sms" "(length ([c, k] @ sms) - 2) mod 2 = 0" for c
    using ev by auto
  have "\<exists>db'. cmdZAdd env db ([c, k] @ sms) =
      Inr ([Integer (int (card (fst ` set (zpairs sms) - dom (map_of (zdict (zset_of env db k))))))], db') \<and>
      stores k (zset_obj z') (snd (zc.content (seed env) db (clk env 0) k)) db db'"
    unfolding cmdZAdd_def arg simp_thms if_False
    by (rule zc.write_ok [OF inv ft createZSet_box]) (simp_all add: l(1) zset_ok_rel(5) [OF l(2)])
  with l show ?thesis by blast
qed

lemma zset_live:
  assumes "alive db (clk env 0) k = Some (zset_obj z, x)"
  shows "zc.fits_type db (clk env 0) k" and "zc.content r db (clk env 0) k = (z, x)"
  using assms by (simp_all add: zc.fits_type_def zc.content_def zset_obj_def)

lemma zread_ok:
  assumes inv: "db_inv db" and a: "alive db (clk env 0) k = Some (zset_obj z, x)" and z: "zset_ok z"
    and n: "length (zdict z) < 2147483648"
  shows "\<exists>db'. cmdZScore env db [c, k, m] =
      Inr ([case map_of (zdict z) m of None \<Rightarrow> Null | Some s \<Rightarrow> BulkString (formatScore s)], db') \<and> same_data db db'"
    and "\<exists>db'. cmdZCard env db [c, k] = Inr ([Integer (int (card (dom (map_of (zdict z)))))], db') \<and> same_data db db'"
    and "\<exists>db'. cmdZRank env db [c, k, m] =
      Inr ([case map_of (zdict z) m of None \<Rightarrow> Null | Some s \<Rightarrow> Integer (int (card {e \<in> set (zdict z). skey e < skey (m, s)}))], db') \<and>
      same_data db db'"
proof -
  note ft = zset_live(1) [OF a] and c = zset_live(2) [OF a] and o = zset_ok_rel [OF z]
  have arg: "[c, k, m] ! 1 = k" "[c, k, m] ! 2 = m" "[c, k] ! 1 = k" by simp_all
  have size: "sl_size (zskiplist z) = length (zdict z)" using sli.size_rel [OF o(1)] o(3) by simp
  have card: "card (dom (map_of (zdict z))) = length (zdict z)"
    using o(5) by (metis distinct_card dom_map_of_conv_image_fst length_map set_map)
  show "\<exists>db'. cmdZScore env db [c, k, m] =
      Inr ([case map_of (zdict z) m of None \<Rightarrow> Null | Some s \<Rightarrow> BulkString (formatScore s)], db') \<and> same_data db db'"
    unfolding cmdZScore_def arg by (rule zc.read_ok [OF inv a ft]) (simp add: c split: option.split)
  show "\<exists>db'. cmdZCard env db [c, k] = Inr ([Integer (int (card (dom (map_of (zdict z)))))], db') \<and> same_data db db'"
    unfolding cmdZCard_def arg by (rule zc.read_ok [OF inv a ft]) (simp add: c size card)
  have rg: "sl_rangeByRank (zskiplist z) 0 (wrap32 (int (sl_size (zskiplist z))) - 1) = Some (zsorted z)"
    if "map_of (zdict z) m = Some s" for s
  proof -
    have "zdict z \<noteq> []" using that by auto
    have len: "length (zsorted z) < 2147483648" using o(3) n by simp
    have "sl_rangeByRank (zskiplist z) 0 (int (length (zdict z)) - 1) = Some (redis_range (zsorted z) 0 (int (length (zdict z)) - 1))"
      using n by (intro sli.range_rel [OF o(1) len]) simp_all
    moreover have "redis_range (zsorted z) 0 (int (length (zdict z)) - 1) = zsorted z"
      using o(3) \<open>zdict z \<noteq> []\<close> by (auto simp: redis_range_def Let_def)
    ultimately show ?thesis using n by (simp add: size)
  qed
  have rank: "rank_loop (zsorted z) m s 0 = Some (int (card {e \<in> set (zdict z). skey e < skey (m, s)}))"
    if "map_of (zdict z) m = Some s" for s
    using rank_loop_ok [OF o(2), of m s 0] map_of_SomeD [OF that] unfolding o(4) by simp
  show "\<exists>db'. cmdZRank env db [c, k, m] =
      Inr ([case map_of (zdict z) m of None \<Rightarrow> Null | Some s \<Rightarrow> Integer (int (card {e \<in> set (zdict z). skey e < skey (m, s)}))], db') \<and>
      same_data db db'"
    unfolding cmdZRank_def arg
    by (rule zc.read_ok [OF inv a ft]) (use rg rank in \<open>auto simp: c split: option.split\<close>)
qed

lemma zrange_ok:
  assumes inv: "db_inv db" and a: "alive db (clk env 0) k = Some (zset_obj z, x)" and z: "zset_ok z"
    and n: "length (zdict z) < 2147483648" and s: "stoi s1 = Inr start" "stoi s2 = Inr stop"
  defines "r \<equiv> redis_range (zsorted z) start stop"
  shows "\<exists>db'. cmdZRange env db [c, k, s1, s2] = Inr (ArrayHeader (int (length r)) # map (\<lambda>(m, s). BulkString m) r, db') \<and> same_data db db'"
    and "map toupper f = ''WITHSCORES'' \<Longrightarrow> \<exists>db'. cmdZRange env db [c, k, s1, s2, f] =
      Inr (ArrayHeader (2 * int (length r)) # concat (map (\<lambda>(m, s). [BulkString m, BulkString (formatScore s)]) r), db') \<and>
      same_data db db'"
proof -
  note ft = zset_live(1) [OF a] and c = zset_live(2) [OF a] and o = zset_ok_rel [OF z]
  have arg: "[c, k, s1, s2] ! 1 = k" "[c, k, s1, s2] ! 2 = s1" "[c, k, s1, s2] ! 3 = s2" "length [c, k, s1, s2] = 5 \<longleftrightarrow> False"
    "[c, k, s1, s2, f] ! 1 = k" "[c, k, s1, s2, f] ! 2 = s1" "[c, k, s1, s2, f] ! 3 = s2" "[c, k, s1, s2, f] ! 4 = f"
    "length [c, k, s1, s2, f] = 5 \<longleftrightarrow> True" by simp_all
  have rg: "sl_rangeByRank (zskiplist z) start stop = Some r"
    unfolding r_def using n o(3) stoi_range [OF s(1)] stoi_range [OF s(2)] by (intro sli.range_rel [OF o(1)]) simp_all
  show "\<exists>db'. cmdZRange env db [c, k, s1, s2] = Inr (ArrayHeader (int (length r)) # map (\<lambda>(m, s). BulkString m) r, db') \<and> same_data db db'"
    unfolding cmdZRange_def arg simp_thms if_False Let_def
    by (rule zc.read_ok [OF inv a ft]) (simp add: c s rg)
  show "\<exists>db'. cmdZRange env db [c, k, s1, s2, f] =
      Inr (ArrayHeader (2 * int (length r)) # concat (map (\<lambda>(m, s). [BulkString m, BulkString (formatScore s)]) r), db') \<and>
      same_data db db'" if f: "map toupper f = ''WITHSCORES''"
    unfolding cmdZRange_def arg simp_thms if_False if_True Let_def f
    by (rule zc.read_ok [OF inv a ft]) (simp add: c s rg)
qed

lemma zrem_ok:
  assumes inv: "db_inv db" and a: "alive db (clk env 0) k = Some (zset_obj z, x)" and z: "zset_ok z"
  shows "\<exists>z' db'. cmdZRem env db ([c, k] @ ms) = Inr ([Integer (int (card (set ms \<inter> dom (map_of (zdict z)))))], db') \<and>
      zset_ok z' \<and> map_of (zdict z') = map_of (zdict z) |` (- set ms) \<and>
      (if zdict z' = [] then without k db db' else stores k (zset_obj z') x db db')"
proof -
  note ft = zset_live(1) [OF a] and c = zset_live(2) [OF a]
  obtain z' where l: "zrem_loop ms z 0 = Some (z', 0 + int (card (set ms \<inter> dom (map_of (zdict z)))))" "zset_ok z'"
    "map_of (zdict z') = map_of (zdict z) |` (- set ms)" using zrem_loop_ok [OF z] by blast
  have arg: "([c, k] @ ms) ! 1 = k" "drop 2 ([c, k] @ ms) = ms" for c by simp_all
  have "\<exists>db'. cmdZRem env db ([c, k] @ ms) = Inr ([Integer (int (card (set ms \<inter> dom (map_of (zdict z)))))], db') \<and>
      (if zdict z' = [] then without k db db' else stores k (zset_obj z') x db db')"
    unfolding cmdZRem_def arg
    by (rule zc.shrink_ok [OF inv a ft]) (simp_all add: c l(1) zset_ok_rel(5) [OF l(2)])
  with l(2,3) show ?thesis by blast
qed

section \<open>Properties\<close>

text \<open>C33 (functional). ZADD on a key that is absent, expired or a live sorted set, with scores other than
  NaN: the scores become those of the arguments taken in order, except that an equal score is not
  rewritten; the reply is the number of different members that were new; skip list and dictionary
  stay in agreement, expiry time and other keys are kept. An odd number of arguments is refused
  without touching the database.\<close>
theorem zadd_command:
  assumes "db_inv db" and "zc.fits_type db (clk env 0) k" and "zset_ok (zset_of env db k)"
    and "NaN \<notin> snd ` set (zpairs sms)"
  shows "if even (length sms) then
      (\<exists>z' db'. cmdZAdd env db ([c, k] @ sms) =
         Inr ([Integer (int (card (fst ` set (zpairs sms) - dom (map_of (zdict (zset_of env db k))))))], db') \<and>
       stores k (zset_obj z') (snd (zc.content (seed env) db (clk env 0) k)) db db' \<and> zset_ok z' \<and>
       map_of (zdict z') = foldl zput (map_of (zdict (zset_of env db k))) (zpairs sms))
    else cmdZAdd env db ([c, k] @ sms) = Inr ([Error ''ERR wrong number of arguments for 'zadd' command''], db)"
proof (cases "even (length sms)")
  case True
  with zadd_ok [OF assms(1-3) True assms(4), of c] show ?thesis by simp
next
  case False
  then show ?thesis by (simp add: cmdZAdd_def odd_iff_mod_2_eq_one)
qed

lemma demo_no_key:
  assumes "k \<notin> {''a'', ''b''}"
  shows "alive demo_db t k = None"
  using assms by (simp add: alive_def alive_map_def demo_entries)

theorem zadd_command_witness:
  "\<exists>z' db'. cmdZAdd (demo_env 5) demo_db ([''ZADD'', ''z''] @ [''1'', ''x'', ''2'', ''y'', ''3'', ''x'']) = Inr ([Integer 2], db') \<and>
     stores ''z'' (zset_obj z') (- 1) demo_db db' \<and> map_of (zdict z') ''x'' = Some (dint 3)"
proof -
  let ?e = "demo_env 5" and ?sms = "[''1'', ''x'', ''2'', ''y'', ''3'', ''x'']"
  have a: "alive demo_db (clk ?e 0) ''z'' = None" by (rule demo_no_key) simp
  have f: "zc.fits_type demo_db (clk ?e 0) ''z''" using a by (simp add: zc.fits_type_def)
  have c: "zc.content (seed ?e) demo_db (clk ?e 0) ''z'' = (new_zset (seed ?e), - 1)" using a by (simp add: zc.content_def)
  have z: "zset_ok (zset_of ?e demo_db ''z'')" by (simp add: c zset_ok_new)
  have n: "''1'' = to_string 1" "''2'' = to_string 2" "''3'' = to_string 3" by code_simp+
  have p: "zpairs ?sms = [(''x'', dint 1), (''y'', dint 2), (''x'', dint 3)]"
    unfolding n by (simp add: strtod_to_string)
  have nn: "NaN \<notin> snd ` set (zpairs ?sms)" unfolding p by (simp add: dint_def)
  have cd: "int (card (fst ` set [(''x'', dint 1), (''y'', dint 2), (''x'', dint 3)] - dom (map_of []))) = 2"
    by (simp add: insert_commute)
  have fo: "foldl zput (map_of []) [(''x'', dint 1), (''y'', dint 2), (''x'', dint 3)] ''x'' = Some (dint 3)"
    by (simp add: zput_def dint_def deq_def)
  obtain z' db' where "cmdZAdd ?e demo_db ([''ZADD'', ''z''] @ ?sms) = Inr ([Integer 2], db')"
    "stores ''z'' (zset_obj z') (- 1) demo_db db'"
    "map_of (zdict z') = foldl zput (map_of []) [(''x'', dint 1), (''y'', dint 2), (''x'', dint 3)]"
    using zadd_command [OF db_reach_inv [OF demo_reach] f z nn, of "''ZADD''"]
    unfolding c p fst_conv snd_conv ZSetData.select_convs cd by auto
  with fo show ?thesis by metis
qed

text \<open>On a live sorted set, ZSCORE replies the printed score or null, ZCARD the number of
  members, ZRANK the number of elements that come before the member in the order of score and name
  (or null), ZRANGE the members between two ranks of that order, each with its score after
  \<^verbatim>\<open>WITHSCORES\<close>; none changes the state.\<close>
theorem zset_queries:
  assumes "db_inv db" and "alive db (clk env 0) k = Some (zset_obj z, x)" and "zset_ok z"
    and "length (zdict z) < 2 ^ 31" and "stoi s1 = Inr start" and "stoi s2 = Inr stop" and "map toupper f = ''WITHSCORES''"
  shows "(\<exists>db'. cmdZScore env db [c, k, m] =
      Inr ([case map_of (zdict z) m of None \<Rightarrow> Null | Some s \<Rightarrow> BulkString (formatScore s)], db') \<and> same_data db db') \<and>
    (\<exists>db'. cmdZCard env db [c, k] = Inr ([Integer (int (card (dom (map_of (zdict z)))))], db') \<and> same_data db db') \<and>
    (\<exists>db'. cmdZRank env db [c, k, m] =
      Inr ([case map_of (zdict z) m of None \<Rightarrow> Null | Some s \<Rightarrow> Integer (int (card {e \<in> set (zdict z). skey e < skey (m, s)}))], db') \<and>
      same_data db db') \<and>
    (\<exists>db'. cmdZRange env db [c, k, s1, s2] = Inr (ArrayHeader (int (length (redis_range (zsorted z) start stop))) #
      map (\<lambda>(m, s). BulkString m) (redis_range (zsorted z) start stop), db') \<and> same_data db db') \<and>
    (\<exists>db'. cmdZRange env db [c, k, s1, s2, f] = Inr (ArrayHeader (2 * int (length (redis_range (zsorted z) start stop))) #
      concat (map (\<lambda>(m, s). [BulkString m, BulkString (formatScore s)]) (redis_range (zsorted z) start stop)), db') \<and> same_data db db')"
proof -
  have n: "length (zdict z) < 2147483648" using assms(4) by simp
  show ?thesis
    by (intro conjI zread_ok [OF assms(1-3) n] zrange_ok [OF assms(1-3) n assms(5,6)] assms(7))
qed

text \<open>A database with a sorted set, for the examples.\<close>

definition demo_zset :: ZSetData where
  "demo_zset = \<lparr>zskiplist = the (sl_insert (new_skiplist (\<lambda>_. 0)) ''x'' (dint 7)), zdict = [(''x'', dint 7)]\<rparr>"

definition zset_db :: database where
  "zset_db = setData (db_setObject sizes64 new_database ''z'' (createZSet (\<lambda>_. 0))) ''z'' (DZSet demo_zset)"

lemma demo_zset_ok: "zset_ok demo_zset"
proof -
  obtain l where "sl_insert (new_skiplist (\<lambda>_. 0)) ''x'' (dint 7) = Some l" "zset_ok \<lparr>zskiplist = l, zdict = [(''x'', dint 7)]\<rparr>"
    using zset_ok_insert [OF zset_ok_new [of "\<lambda>_. 0"], of "dint 7" "''x''"] by (auto simp: dint_def)
  then show ?thesis by (simp add: demo_zset_def)
qed

lemma zset_db_ok: "db_inv zset_db" "alive zset_db t ''z'' = Some (zset_obj demo_zset, - 1)"
proof -
  let ?d = "db_setObject sizes64 new_database ''z'' (createZSet (\<lambda>_. 0))"
  note s = db_setObject_ok [OF db_inv_new(1), of "''z''" "createZSet (\<lambda>_. 0)" sizes64, simplified db_inv_new, simplified]
  have st: "stores ''z'' ((createZSet (\<lambda>_. 0))\<lparr>odata := DZSet demo_zset\<rparr>) (- 1) ?d zset_db"
    unfolding zset_db_def
    by (rule setData_ok) (simp_all add: s, simp add: createZSet_def obj_ok_def zset_ok_rel(5) [OF demo_zset_ok])
  then show "db_inv zset_db" by (rule stores_inv)
  from stores_alive [OF st, of t] show "alive zset_db t ''z'' = Some (zset_obj demo_zset, - 1)"
    by (simp add: createZSet_def zset_obj_def)
qed

theorem zset_queries_witness:
  "\<exists>db'. cmdZRange (demo_env 5) zset_db [''ZRANGE'', ''z'', ''0'', ''-1''] = Inr ([ArrayHeader 1, BulkString ''x''], db') \<and> same_data zset_db db'"
proof -
  have n: "''0'' = to_string 0" "''-1'' = to_string (- 1)" by code_simp+
  have st: "stoi ''0'' = Inr 0" "stoi ''-1'' = Inr (- 1)" unfolding n by (simp_all add: stoi_to_string)
  have r: "redis_range (zsorted demo_zset) 0 (- 1) = [(''x'', dint 7)]"
    by (simp add: redis_range_all zsorted_def demo_zset_def)
  have l: "length (zdict demo_zset) < 2 ^ 31" by (simp add: demo_zset_def)
  have u: "map toupper ''WithScores'' = ''WITHSCORES''" by code_simp
  note q = zset_queries [OF zset_db_ok(1) zset_db_ok(2) [of "clk (demo_env 5) 0"] demo_zset_ok l st u, of "''ZRANGE''" "''x''", unfolded r]
  from q [THEN conjunct2, THEN conjunct2, THEN conjunct2, THEN conjunct1] show ?thesis by simp
qed

text \<open>ZREM on a live sorted set takes the named members out of both the skip list and the
  dictionary, replies how many there were, and deletes the key when none is left.\<close>
theorem zrem_command:
  assumes "db_inv db" and "alive db (clk env 0) k = Some (zset_obj z, x)" and "zset_ok z"
  shows "\<exists>z' db'. cmdZRem env db ([c, k] @ ms) = Inr ([Integer (int (card (set ms \<inter> dom (map_of (zdict z)))))], db') \<and>
      zset_ok z' \<and> map_of (zdict z') = map_of (zdict z) |` (- set ms) \<and>
      (if zdict z' = [] then without k db db' else stores k (zset_obj z') x db db')"
  by (rule zrem_ok [OF assms])

theorem zrem_command_witness:
  "\<exists>db'. cmdZRem (demo_env 5) zset_db ([''ZREM'', ''z''] @ [''y'', ''x'']) = Inr ([Integer 1], db') \<and> without ''z'' zset_db db'"
proof -
  have c: "int (card (set [''y'', ''x''] \<inter> dom (map_of (zdict demo_zset)))) = 1" by (simp add: demo_zset_def)
  obtain z' db' where r: "cmdZRem (demo_env 5) zset_db ([''ZREM'', ''z''] @ [''y'', ''x'']) = Inr ([Integer 1], db')"
    "map_of (zdict z') = map_of (zdict demo_zset) |` (- set [''y'', ''x''])"
    "if zdict z' = [] then without ''z'' zset_db db' else stores ''z'' (zset_obj z') (- 1) zset_db db'"
    using zrem_command [OF zset_db_ok(1) zset_db_ok(2) [of "clk (demo_env 5) 0"] demo_zset_ok, of "''ZREM''" "[''y'', ''x'']"]
    unfolding c by blast
  have "map_of (zdict z') = Map.empty" unfolding r(2) by (auto simp: demo_zset_def fun_eq_iff restrict_map_def)
  then have "zdict z' = []" by (simp only: map_of_eq_empty_iff)
  with r show ?thesis by auto
qed

text \<open>A score given as an integer of at most 53 bits is stored exactly and printed back
  as it was written.\<close>
theorem integer_scores_roundtrip:
  assumes "\<bar>i\<bar> \<le> 2 ^ 53"
  shows "strtod (to_string i) = dint i \<and> formatScore (strtod (to_string i)) = to_string i"
  using strtod_to_string [OF assms] printf_dint [of i] assms by (simp add: formatScore_def)

theorem integer_scores_roundtrip_witness: "formatScore (strtod (to_string (- 9007199254740992))) = to_string (- 9007199254740992)"
  by (rule conjunct2 [OF integer_scores_roundtrip]) simp

text \<open>The score \<^verbatim>\<open>nan\<close> is accepted and breaks the agreement of the two structures: it is
  different from itself, so adding the same member again does not find the old node, and the skip
  list (and with it ZCARD and ZRANGE) counts the member twice.\<close>
theorem nan_score_duplicates:
  "map_option (\<lambda>(z, added). (sl_size (zskiplist z), zdict z, added)) (zadd_loop [''nan'', ''m'', ''nan'', ''m''] (new_zset (\<lambda>_. 1)) 0) =
    Some (2, [(''m'', NaN)], 1)"
  by code_simp



end
