(* ===== verification/Metrics.thy ===== *)
theory Metrics
  imports String_Key_Commands
begin

text \<open>
  \<^verbatim>\<open>cmd/ServerCommands\<close>: the server's counters, the latency histogram with its six buckets, the circular
  slow log of 128 entries, and the commands FLUSHDB and INFO. The counters are 64-bit and wrap; the
  uptime and the process id are what the system reports and are arguments of INFO.
\<close>

definition kLatencyBuckets :: nat where "kLatencyBuckets = 6"
definition kLatencyThresholds :: "int list" where "kLatencyThresholds = [100, 500, 1000, 10000, 100000]"
definition kSlowLogMaxEntries :: nat where "kSlowLogMaxEntries = 128"

fun bucket_loop :: "int \<Rightarrow> int list \<Rightarrow> nat \<Rightarrow> nat" where
  "bucket_loop d [] i = kLatencyBuckets - 1"
| "bucket_loop d (t # ts) i = (if d < t then i else bucket_loop d ts (i + 1))"

definition latencyBucketIndex :: "int \<Rightarrow> nat" where
  "latencyBucketIndex d = bucket_loop d kLatencyThresholds 0"

record slow_entry =
  sl_id :: "64 word"
  sl_timestampUs :: int
  sl_durationUs :: int
  sl_args :: "bytes list"

record metrics =
  totalCommandsProcessed :: "64 word"
  latencyHistogram :: "64 word list"
  slowLog :: "slow_entry list"
  slowLogNextIdx :: nat
  slowLogCount :: "64 word"
  slowLogThresholdUs :: int
  connectedClients :: nat
  tcpPort :: nat

definition new_metrics :: "nat \<Rightarrow> metrics" where
  "new_metrics port =
     \<lparr>totalCommandsProcessed = 0, latencyHistogram = replicate kLatencyBuckets 0,
      slowLog = replicate kSlowLogMaxEntries \<lparr>sl_id = 0, sl_timestampUs = 0, sl_durationUs = 0, sl_args = []\<rparr>,
      slowLogNextIdx = 0, slowLogCount = 0, slowLogThresholdUs = 10000, connectedClients = 0,
      tcpPort = port mod 2 ^ 16\<rparr>"

definition recordLatency :: "int \<Rightarrow> metrics \<Rightarrow> metrics" where
  "recordLatency d m =
     (let i = latencyBucketIndex d in m\<lparr>latencyHistogram := (latencyHistogram m)[i := latencyHistogram m ! i + 1]\<rparr>)"

definition maybeRecordSlowLog :: "int \<Rightarrow> int \<Rightarrow> bytes list \<Rightarrow> metrics \<Rightarrow> metrics" where
  "maybeRecordSlowLog d wall args m =
     (if d < slowLogThresholdUs m then m
      else m\<lparr>slowLog := (slowLog m)[slowLogNextIdx m mod kSlowLogMaxEntries :=
               \<lparr>sl_id = slowLogCount m, sl_timestampUs = wall, sl_durationUs = d, sl_args = take 6 args\<rparr>],
             slowLogCount := slowLogCount m + 1,
             slowLogNextIdx := (slowLogNextIdx m + 1) mod kSlowLogMaxEntries\<rparr>)"

text \<open>The three updates that follow every dispatch.\<close>

definition recordCommand :: "env \<Rightarrow> bytes list \<Rightarrow> metrics \<Rightarrow> metrics" where
  "recordCommand env args m =
     maybeRecordSlowLog (durationUs env) (wallUs env) args
       (recordLatency (durationUs env) (m\<lparr>totalCommandsProcessed := totalCommandsProcessed m + 1\<rparr>))"

section \<open>FLUSHDB and INFO\<close>

definition cmdFlushdb :: "env \<Rightarrow> database \<Rightarrow> bytes list \<Rightarrow> result" where
  "cmdFlushdb env db args = Inr ([SimpleString ''OK''], db_flushdb db)"

definition info_line :: "bytes \<Rightarrow> bytes \<Rightarrow> bytes" where
  "info_line name v = name @ '':'' @ v @ CRLF"

definition appendServerSection :: "int \<Rightarrow> int \<Rightarrow> metrics \<Rightarrow> bytes" where
  "appendServerSection pid uptimeSec m =
     ''# Server'' @ CRLF @ info_line ''redis_version'' ''simple-redis-0.7.0'' @ info_line ''process_id'' (to_string pid) @
     info_line ''tcp_port'' (to_string (int (tcpPort m))) @ info_line ''uptime_in_seconds'' (to_string uptimeSec) @
     info_line ''uptime_in_days'' (to_string (tdiv uptimeSec 86400)) @ CRLF"

definition appendClientsSection :: "metrics \<Rightarrow> bytes" where
  "appendClientsSection m = ''# Clients'' @ CRLF @ info_line ''connected_clients'' (to_string (int (connectedClients m))) @ CRLF"

definition appendMemorySection :: "database \<Rightarrow> bytes" where
  "appendMemorySection db = ''# Memory'' @ CRLF @ info_line ''used_memory'' (to_string (uint (usedMemory db))) @ CRLF"

definition appendStatsSection :: "metrics \<Rightarrow> bytes" where
  "appendStatsSection m =
     (let h = (\<lambda>i. to_string (uint (latencyHistogram m ! i)));
          slowlogLen = (if unat (slowLogCount m) < kSlowLogMaxEntries then unat (slowLogCount m) else kSlowLogMaxEntries)
      in ''# Stats'' @ CRLF @ info_line ''total_commands_processed'' (to_string (uint (totalCommandsProcessed m))) @
         info_line ''latency_histogram_us_lt100'' (h 0) @ info_line ''latency_histogram_us_lt500'' (h 1) @
         info_line ''latency_histogram_us_lt1000'' (h 2) @ info_line ''latency_histogram_us_lt10000'' (h 3) @
         info_line ''latency_histogram_us_lt100000'' (h 4) @ info_line ''latency_histogram_us_gte100000'' (h 5) @
         info_line ''slowlog_len'' (to_string (int slowlogLen)) @ CRLF)"

definition appendKeyspaceSection :: "database \<Rightarrow> bytes" where
  "appendKeyspaceSection db =
     (let keys = db_dbsize db in
      ''# Keyspace'' @ CRLF @
      (if keys > 0 then ''db0:keys='' @ to_string (int keys) @ '',expires='' @ to_string (int (db_expiryCount db)) @ '',avg_ttl=0'' @ CRLF
       else []) @ CRLF)"

definition cmdInfo :: "int \<Rightarrow> int \<Rightarrow> metrics \<Rightarrow> database \<Rightarrow> bytes list \<Rightarrow> reply list" where
  "cmdInfo pid uptimeSec m db args =
     (let section = (if 2 \<le> length args then map tolower (args ! 1) else []);
          everything = (section = [] \<or> section = ''all'' \<or> section = ''everything'')
      in [BulkString
           ((if everything \<or> section = ''server'' then appendServerSection pid uptimeSec m else []) @
            (if everything \<or> section = ''clients'' then appendClientsSection m else []) @
            (if everything \<or> section = ''memory'' then appendMemorySection db else []) @
            (if everything \<or> section = ''stats'' then appendStatsSection m else []) @
            (if everything \<or> section = ''keyspace'' then appendKeyspaceSection db else []))])"

section \<open>Counting\<close>

definition metrics_inv :: "metrics \<Rightarrow> bool" where
  "metrics_inv m = (length (latencyHistogram m) = kLatencyBuckets \<and> length (slowLog m) = kSlowLogMaxEntries \<and>
     slowLogNextIdx m < kSlowLogMaxEntries \<and> sum_list (latencyHistogram m) = totalCommandsProcessed m)"

lemma metrics_inv_new: "metrics_inv (new_metrics port)"
  by (simp add: metrics_inv_def new_metrics_def kSlowLogMaxEntries_def sum_list_replicate)

lemma latencyBucketIndex_less: "latencyBucketIndex d < kLatencyBuckets"
  by (simp add: latencyBucketIndex_def kLatencyThresholds_def kLatencyBuckets_def)

text \<open>The bucket is the one whose bounds enclose the duration.\<close>

lemma latencyBucketIndex_bounds:
  "i = latencyBucketIndex d \<Longrightarrow> (i < 5 \<longrightarrow> d < kLatencyThresholds ! i) \<and> (0 < i \<longrightarrow> kLatencyThresholds ! (i - 1) \<le> d)"
  by (simp add: latencyBucketIndex_def kLatencyThresholds_def kLatencyBuckets_def)

lemma sum_list_bump:
  fixes xs :: "64 word list"
  shows "i < length xs \<Longrightarrow> sum_list (xs[i := xs ! i + 1]) = sum_list xs + 1"
proof (induction xs arbitrary: i)
  case (Cons x xs)
  then show ?case by (cases i) (simp_all add: add_ac)
qed simp

lemma metrics_inv_record: "metrics_inv m \<Longrightarrow> metrics_inv (recordCommand env args m)"
  using latencyBucketIndex_less [of "durationUs env"]
  by (simp add: metrics_inv_def recordCommand_def maybeRecordSlowLog_def recordLatency_def Let_def sum_list_bump
      kSlowLogMaxEntries_def)

text \<open>A run of dispatched commands with their environments, and the slow ones among them.\<close>

definition record_run :: "(env \<times> bytes list) list \<Rightarrow> metrics \<Rightarrow> metrics" where
  "record_run cs m = fold (\<lambda>(e, a). recordCommand e a) cs m"

definition slow_ones :: "(env \<times> bytes list) list \<Rightarrow> (env \<times> bytes list) list" where
  "slow_ones cs = filter (\<lambda>(e, a). 10000 \<le> durationUs e) cs"

definition slow_entry_of :: "nat \<Rightarrow> env \<times> bytes list \<Rightarrow> slow_entry" where
  "slow_entry_of j c =
     \<lparr>sl_id = of_nat j, sl_timestampUs = wallUs (fst c), sl_durationUs = durationUs (fst c), sl_args = take 6 (snd c)\<rparr>"

lemma record_run_snoc: "record_run (cs @ [(e, a)]) m = recordCommand e a (record_run cs m)"
  by (simp add: record_run_def)

lemma record_run_inv: "metrics_inv (record_run cs (new_metrics port))"
  by (induction cs rule: rev_induct) (auto simp: record_run_snoc metrics_inv_record record_run_def metrics_inv_new)

lemma record_run_total: "totalCommandsProcessed (record_run cs (new_metrics port)) = of_nat (length cs)"
proof (induction cs rule: rev_induct)
  case (snoc c cs)
  then show ?case
    by (cases c) (simp add: record_run_snoc recordCommand_def maybeRecordSlowLog_def recordLatency_def Let_def)
qed (simp add: record_run_def new_metrics_def)

lemma slow_log_ring:
  fixes cs port
  defines "m \<equiv> record_run cs (new_metrics port)" and "n \<equiv> length (slow_ones cs)"
  shows "slowLogCount m = of_nat n \<and> slowLogNextIdx m = n mod 128 \<and> slowLogThresholdUs m = 10000 \<and>
    (\<forall>j < n. n \<le> j + 128 \<longrightarrow> slowLog m ! (j mod 128) = slow_entry_of j (slow_ones cs ! j))"
  unfolding m_def n_def
proof (induction cs rule: rev_induct)
  case Nil
  then show ?case by (simp add: record_run_def new_metrics_def slow_ones_def)
next
  case (snoc c cs)
  obtain e a where c: "c = (e, a)" by (cases c)
  let ?m = "record_run cs (new_metrics port)" and ?n = "length (slow_ones cs)"
  note IH = snoc.IH
  have len: "length (slowLog ?m) = 128"
    using record_run_inv [of cs port] by (simp add: metrics_inv_def kSlowLogMaxEntries_def)
  show ?case
  proof (cases "durationUs e < 10000")
    case True
    then have "slow_ones (cs @ [c]) = slow_ones cs" by (simp add: slow_ones_def c)
    then show ?thesis using IH True
      by (simp add: c record_run_snoc recordCommand_def maybeRecordSlowLog_def recordLatency_def Let_def)
  next
    case False
    then have s: "slow_ones (cs @ [c]) = slow_ones cs @ [(e, a)]" by (simp add: slow_ones_def c)
    have m: "slowLog (record_run (cs @ [c]) (new_metrics port)) = (slowLog ?m)[?n mod 128 := slow_entry_of ?n (e, a)]"
      "slowLogCount (record_run (cs @ [c]) (new_metrics port)) = of_nat (Suc ?n)"
      "slowLogNextIdx (record_run (cs @ [c]) (new_metrics port)) = Suc ?n mod 128"
      "slowLogThresholdUs (record_run (cs @ [c]) (new_metrics port)) = 10000"
      using IH False
      by (simp_all add: c record_run_snoc recordCommand_def maybeRecordSlowLog_def recordLatency_def Let_def
          slow_entry_of_def kSlowLogMaxEntries_def mod_Suc_eq)
    have "(slowLog ?m)[?n mod 128 := slow_entry_of ?n (e, a)] ! (j mod 128) = slow_entry_of j ((slow_ones cs @ [(e, a)]) ! j)"
      if j: "j < Suc ?n" "Suc ?n \<le> j + 128" for j
    proof (cases "j = ?n")
      case True
      then show ?thesis using len by simp
    next
      case False
      then have "j < ?n" using j by simp
      moreover have "j mod 128 \<noteq> ?n mod 128"
      proof
        assume "j mod 128 = ?n mod 128"
        then have "128 dvd ?n - j" using \<open>j < ?n\<close> mod_eq_dvd_iff_nat [of j ?n 128] by simp
        then show False using \<open>j < ?n\<close> j(2) by (auto dest: dvd_imp_le)
      qed
      ultimately show ?thesis using IH j by (simp add: nth_append)
    qed
    then show ?thesis using m s by simp
  qed
qed

section \<open>Properties\<close>



end
