(* ===== verification/Command_Table.thy ===== *)
theory Command_Table
  imports ZSet_Commands Metrics
begin

text \<open>
  \<^verbatim>\<open>cmd/CommandTable\<close> and the \<^verbatim>\<open>registerAll\<close> functions: the table from upper-case names to arity, write flag
  and handler. A handler that works on the database alone is its function; the others, which need
  the connection, the registry, the log or the metrics, are named and interpreted by the server. The
  table of the constructor grows in \<^verbatim>\<open>main\<close>: first INFO, DBSIZE, FLUSHDB and BGREWRITEAOF, with which the log
  is replayed, then EXEC and the publish/subscribe commands.
\<close>

datatype handler =
    Db "env \<Rightarrow> database \<Rightarrow> bytes list \<Rightarrow> result"
  | Info
  | BgRewriteAof
  | Multi
  | Discard
  | Exec
  | Subscribe
  | Unsubscribe
  | Publish

record CommandEntry =
  cname :: bytes
  arity :: int
  isWrite :: bool
  chandler :: handler

abbreviation cmd :: "bytes \<Rightarrow> int \<Rightarrow> bool \<Rightarrow> handler \<Rightarrow> CommandEntry" where
  "cmd n a w h \<equiv> \<lparr>cname = n, arity = a, isWrite = w, chandler = h\<rparr>"

type_synonym command_table = "bytes \<rightharpoonup> CommandEntry"

section \<open>Registration\<close>

definition upper :: "bytes \<Rightarrow> bytes" where
  "upper s = map toupper s"

definition registerCommand :: "CommandEntry \<Rightarrow> command_table \<Rightarrow> command_table" where
  "registerCommand e t = t(upper (cname e) \<mapsto> e\<lparr>cname := upper (cname e)\<rparr>)"

definition registerAll :: "CommandEntry list \<Rightarrow> command_table \<Rightarrow> command_table" where
  "registerAll es t = fold registerCommand es t"

definition stringCommands :: "CommandEntry list" where
  "stringCommands = [cmd ''PING'' (- 1) False (Db cmdPing), cmd ''SET'' 3 True (Db cmdSet), cmd ''GET'' 2 False (Db cmdGet)]"

definition keyCommands :: "CommandEntry list" where
  "keyCommands =
    [cmd ''DEL'' (- 2) True (Db cmdDel), cmd ''EXISTS'' (- 2) False (Db cmdExists), cmd ''KEYS'' 2 False (Db cmdKeys),
     cmd ''EXPIRE'' 3 True (Db cmdExpire), cmd ''TTL'' 2 False (Db cmdTtl), cmd ''PEXPIRE'' 3 True (Db cmdPexpire),
     cmd ''PTTL'' 2 False (Db cmdPttl), cmd ''DBSIZE'' 1 False (Db cmdDbsize), cmd ''SCAN'' (- 2) False (Db cmdScan)]"

definition listCommands :: "CommandEntry list" where
  "listCommands =
    [cmd ''LPUSH'' (- 3) True (Db cmdLPush), cmd ''RPUSH'' (- 3) True (Db cmdRPush), cmd ''LPOP'' 2 True (Db cmdLPop),
     cmd ''RPOP'' 2 True (Db cmdRPop), cmd ''LLEN'' 2 False (Db cmdLLen), cmd ''LRANGE'' 4 False (Db cmdLRange)]"

definition hashCommands :: "CommandEntry list" where
  "hashCommands =
    [cmd ''HSET'' (- 4) True (Db cmdHSet), cmd ''HGET'' 3 False (Db cmdHGet), cmd ''HDEL'' (- 3) True (Db cmdHDel),
     cmd ''HGETALL'' 2 False (Db cmdHGetAll), cmd ''HLEN'' 2 False (Db cmdHLen)]"

definition setCommands :: "CommandEntry list" where
  "setCommands =
    [cmd ''SADD'' (- 3) True (Db cmdSAdd), cmd ''SREM'' (- 3) True (Db cmdSRem), cmd ''SISMEMBER'' 3 False (Db cmdSIsMember),
     cmd ''SMEMBERS'' 2 False (Db cmdSMembers), cmd ''SCARD'' 2 False (Db cmdSCard)]"

definition zsetCommands :: "CommandEntry list" where
  "zsetCommands =
    [cmd ''ZADD'' (- 4) True (Db cmdZAdd), cmd ''ZSCORE'' 3 False (Db cmdZScore), cmd ''ZRANK'' 3 False (Db cmdZRank),
     cmd ''ZRANGE'' (- 4) False (Db cmdZRange), cmd ''ZCARD'' 2 False (Db cmdZCard), cmd ''ZREM'' (- 3) True (Db cmdZRem)]"

definition transactionCommands :: "CommandEntry list" where
  "transactionCommands = [cmd ''MULTI'' 1 False Multi, cmd ''DISCARD'' 1 False Discard]"

definition serverCommands :: "CommandEntry list" where
  "serverCommands = [cmd ''DBSIZE'' 1 False (Db cmdDbsize), cmd ''FLUSHDB'' (- 1) True (Db cmdFlushdb), cmd ''INFO'' (- 1) False Info]"

text \<open>The table of the constructor, the one the log is loaded with, and the one the clients use.\<close>

definition new_command_table :: command_table where
  "new_command_table =
     registerAll (stringCommands @ keyCommands @ listCommands @ hashCommands @ setCommands @ zsetCommands @ transactionCommands) Map.empty"

definition load_table :: command_table where
  "load_table = registerAll (serverCommands @ [cmd ''BGREWRITEAOF'' 1 False BgRewriteAof]) new_command_table"

definition server_table :: command_table where
  "server_table =
     registerAll [cmd ''EXEC'' 1 False Exec, cmd ''SUBSCRIBE'' (- 2) False Subscribe, cmd ''UNSUBSCRIBE'' (- 1) False Unsubscribe,
       cmd ''PUBLISH'' 3 False Publish] load_table"

section \<open>Lookup\<close>

text \<open>The number of arguments is compared as a 32-bit int.\<close>

definition arity_ok :: "int \<Rightarrow> bytes list \<Rightarrow> bool" where
  "arity_ok a args =
     (let argCount = wrap32 (int (length args)) in if a > 0 then argCount = a else - a \<le> argCount)"

definition ERR_UNKNOWN :: "bytes \<Rightarrow> bytes" where
  "ERR_UNKNOWN name = ''ERR unknown command '' @ [CHR 0x27] @ name @ [CHR 0x27]"

definition ERR_ARGS :: "bytes \<Rightarrow> bytes" where
  "ERR_ARGS name = ''ERR wrong number of arguments for '' @ [CHR 0x27] @ name @ [CHR 0x27] @ '' command''"

definition isWriteCommand :: "command_table \<Rightarrow> bytes \<Rightarrow> bool" where
  "isWriteCommand t name = (case t (upper name) of None \<Rightarrow> False | Some e \<Rightarrow> isWrite e)"

text \<open>The first half of \<^verbatim>\<open>dispatch\<close>: the handler to call, or the error to reply.\<close>

definition lookup :: "command_table \<Rightarrow> bytes list \<Rightarrow> bytes + handler" where
  "lookup t args =
     (let cmdName = upper (args ! 0) in
      case t cmdName of
        None \<Rightarrow> Inl (ERR_UNKNOWN (args ! 0))
      | Some e \<Rightarrow> if arity_ok (arity e) args then Inr (chandler e) else Inl (ERR_ARGS cmdName))"

lemmas table_defs = server_table_def load_table_def new_command_table_def stringCommands_def keyCommands_def
  listCommands_def hashCommands_def setCommands_def zsetCommands_def transactionCommands_def serverCommands_def
  registerAll_def registerCommand_def

text \<open>Every registered name is in upper case, so registration changes no name.\<close>

definition all_commands :: "CommandEntry list" where
  "all_commands = stringCommands @ keyCommands @ listCommands @ hashCommands @ setCommands @ zsetCommands @ transactionCommands @
     serverCommands @ [cmd ''BGREWRITEAOF'' 1 False BgRewriteAof] @
     [cmd ''EXEC'' 1 False Exec, cmd ''SUBSCRIBE'' (- 2) False Subscribe, cmd ''UNSUBSCRIBE'' (- 1) False Unsubscribe, cmd ''PUBLISH'' 3 False Publish]"

lemma registerAll_map: "(\<forall>e \<in> set es. upper (cname e) = cname e) \<Longrightarrow>
    registerAll es t = t ++ map_of (rev (map (\<lambda>e. (cname e, e)) es))"
proof (induction es arbitrary: t)
  case (Cons e es)
  have "registerAll (e # es) t = registerAll es (t(cname e \<mapsto> e))" using Cons.prems by (simp add: registerAll_def registerCommand_def)
  also have "\<dots> = (t(cname e \<mapsto> e)) ++ map_of (rev (map (\<lambda>e. (cname e, e)) es))" using Cons by auto
  finally show ?case by simp
qed (simp add: registerAll_def)

lemma upper_names: "\<forall>e \<in> set all_commands. upper (cname e) = cname e"
  by (simp add: all_commands_def stringCommands_def keyCommands_def listCommands_def hashCommands_def setCommands_def
      zsetCommands_def transactionCommands_def serverCommands_def upper_def toupper_def)

lemma server_table_map: "server_table = map_of (rev (map (\<lambda>e. (cname e, e)) all_commands))"
proof -
  have "registerAll (as @ bs) t = registerAll bs (registerAll as t)" for as bs t by (simp add: registerAll_def)
  then have "server_table = registerAll all_commands Map.empty"
    unfolding server_table_def load_table_def new_command_table_def all_commands_def by (simp only: append_assoc)
  then show ?thesis by (simp add: registerAll_map [OF upper_names])
qed

lemma server_table_in: "server_table n = Some e \<Longrightarrow> e \<in> set all_commands \<and> cname e = n"
  unfolding server_table_map by (drule map_of_SomeD) auto

end
