(* ===== verification/Connection.thy ===== *)
theory Connection
  imports Resp
begin

text \<open>
  \<^verbatim>\<open>net/Connection\<close>: the two buffers of a client, its wish flags, the queued commands of an open
  transaction and its subscriptions. \<^verbatim>\<open>read\<close> and \<^verbatim>\<open>write\<close> are system calls: their outcome is an
  argument. The activity time stamp is written but never read by the program and is left out. The
  file descriptor is the key under which the server holds the connection.
\<close>

record connection =
  inb :: buffer
  outb :: buffer
  wantRead :: bool
  wantWrite :: bool
  wantClose :: bool
  txn :: "bytes list list option"
  subscribedChannels :: "bytes list"

definition new_connection :: connection where
  "new_connection =
     \<lparr>inb = new_buffer, outb = new_buffer, wantRead = True, wantWrite = False, wantClose = False,
      txn = None, subscribedChannels = []\<rparr>"

definition inSubscribeMode :: "connection \<Rightarrow> bool" where
  "inSubscribeMode c = (subscribedChannels c \<noteq> [])"

definition kReadBufSize :: nat where "kReadBufSize = 4096"

section \<open>Input and output\<close>

datatype read_result = ReadBytes bytes | ReadEof | ReadAgain | ReadError

text \<open>The kernel stores at most as many bytes as fit behind the write position.\<close>

definition handleRead :: "read_result \<Rightarrow> connection \<Rightarrow> (bool \<times> connection) option" where
  "handleRead r c =
     (let b = ensureWritableBytes (inb c) kReadBufSize in
      case r of
        ReadBytes bs \<Rightarrow>
          (case advanceWrite (memcpy_in b (take (writableBytes b) bs)) (length (take (writableBytes b) bs)) of
             None \<Rightarrow> None
           | Some b' \<Rightarrow> Some (True, c\<lparr>inb := b'\<rparr>))
      | ReadEof \<Rightarrow> Some (False, c\<lparr>inb := b\<rparr>)
      | ReadAgain \<Rightarrow> Some (True, c\<lparr>inb := b\<rparr>)
      | ReadError \<Rightarrow> Some (False, c\<lparr>inb := b\<rparr>))"

datatype write_result = Sent nat | SendAgain | SendError

definition handleWrite :: "write_result \<Rightarrow> connection \<Rightarrow> (bool \<times> connection) option" where
  "handleWrite r c =
     (if readableBytes (outb c) = 0 then Some (True, c)
      else case r of
        Sent n \<Rightarrow>
          (if n > 0 then
             (case consume (outb c) (min n (readableBytes (outb c))) of
                None \<Rightarrow> None
              | Some b' \<Rightarrow> Some (True, c\<lparr>outb := b'\<rparr>))
           else Some (True, c))
      | SendAgain \<Rightarrow> Some (True, c)
      | SendError \<Rightarrow> Some (False, c))"

text \<open>\<^verbatim>\<open>RespSerializer\<close> calls on the outgoing buffer.\<close>

definition send_replies :: "reply list \<Rightarrow> connection \<Rightarrow> connection option" where
  "send_replies rs c = (case write_replies (outb c) rs of None \<Rightarrow> None | Some b \<Rightarrow> Some (c\<lparr>outb := b\<rparr>))"

section \<open>Well-formed connections\<close>

definition conn_inv :: "connection \<Rightarrow> bool" where
  "conn_inv c = (buf_inv (inb c) \<and> buf_inv (outb c) \<and> distinct (subscribedChannels c))"

text \<open>What has been received and not yet parsed, and what is waiting to be sent.\<close>

abbreviation received :: "connection \<Rightarrow> bytes" where "received c \<equiv> readable (inb c)"
abbreviation pending :: "connection \<Rightarrow> bytes" where "pending c \<equiv> readable (outb c)"

lemma conn_inv_new [simp]: "conn_inv new_connection"
  by (simp add: conn_inv_def new_connection_def)

lemma send_replies_ok:
  assumes "conn_inv c"
  shows "\<exists>c'. send_replies rs c = Some c' \<and> conn_inv c' \<and> c' = c\<lparr>outb := outb c'\<rparr> \<and>
    pending c' = pending c @ concat (map reply_bytes rs)"
  using write_replies_ok [of "outb c" rs] assms by (auto simp: send_replies_def conn_inv_def)

text \<open>Reading appends what the kernel delivered to the unparsed input; nothing else of the connection
  changes.\<close>

lemma handleRead_ok:
  assumes "conn_inv c"
  shows "\<exists>ok c'. handleRead r c = Some (ok, c') \<and> conn_inv c' \<and> c' = c\<lparr>inb := inb c'\<rparr> \<and>
    received c' = received c @ (case r of ReadBytes bs \<Rightarrow> take (writableBytes (ensureWritableBytes (inb c) kReadBufSize)) bs | _ \<Rightarrow> []) \<and>
    (ok \<longleftrightarrow> r \<noteq> ReadEof \<and> r \<noteq> ReadError)"
proof -
  have b: "buf_inv (inb c)" using assms by (simp add: conn_inv_def)
  note e = ensureWritableBytes_spec [OF b, of kReadBufSize]
  show ?thesis
  proof (cases r)
    case (ReadBytes bs)
    let ?b = "ensureWritableBytes (inb c) kReadBufSize"
    obtain b' where "advanceWrite (memcpy_in ?b (take (writableBytes ?b) bs)) (length (take (writableBytes ?b) bs)) = Some b'"
      "buf_inv b'" "readable b' = readable ?b @ take (writableBytes ?b) bs"
      using memcpy_in_spec [OF e(1), of "take (writableBytes ?b) bs"] by auto
    then show ?thesis using assms e(2) ReadBytes by (auto simp: handleRead_def Let_def conn_inv_def)
  qed (use assms e in \<open>auto simp: handleRead_def Let_def conn_inv_def\<close>)
qed

lemma handleRead_chunk: "buf_inv b \<Longrightarrow> length bs \<le> kReadBufSize \<Longrightarrow> take (writableBytes (ensureWritableBytes b kReadBufSize)) bs = bs"
  using ensureWritableBytes_spec(3) [of b kReadBufSize] by simp

text \<open>Writing removes what the kernel took from the front of the pending output.\<close>

lemma handleWrite_ok:
  assumes "conn_inv c"
  shows "\<exists>ok c'. handleWrite r c = Some (ok, c') \<and> conn_inv c' \<and> c' = c\<lparr>outb := outb c'\<rparr> \<and>
    pending c' = drop (case r of Sent n \<Rightarrow> n | _ \<Rightarrow> 0) (pending c)"
proof -
  have b: "buf_inv (outb c)" using assms by (simp add: conn_inv_def)
  show ?thesis
  proof (cases "\<exists>n. r = Sent n \<and> 0 < n \<and> readableBytes (outb c) \<noteq> 0")
    case True
    then obtain n where n: "r = Sent n" "0 < n" "readableBytes (outb c) \<noteq> 0" by blast
    let ?k = "min n (readableBytes (outb c))"
    obtain b' where b': "consume (outb c) ?k = Some b'" "buf_inv b'" "readable b' = drop ?k (readable (outb c))"
      using consume_ok [OF b, of ?k] length_readable [OF b] by auto
    have "drop ?k (readable (outb c)) = drop n (readable (outb c))"
      using length_readable [OF b] by (auto simp: min_def)
    then show ?thesis using n b' assms by (auto simp: handleWrite_def conn_inv_def)
  next
    case False
    have "pending c = []" if "readableBytes (outb c) = 0" using length_readable [OF b] that by simp
    then show ?thesis using assms False by (cases r) (auto simp: handleWrite_def)
  qed
qed

end
