(* ===== verification/Pub_Sub.thy ===== *)
theory Pub_Sub
  imports Connection
begin

text \<open>
  \<^verbatim>\<open>cmd/PubSubRegistry\<close>: which connections listen to a channel. The registry holds raw pointers to
  connections; here a connection is named by its file descriptor and following the pointer of one that
  no longer exists is \<open>None\<close>. Registry and connections record each subscription twice, once per channel
  and once per connection; \<open>ps_inv\<close> says that the two agree, and with it that no pointer dangles.
\<close>

type_synonym registry = "bytes \<rightharpoonup> nat list"
type_synonym conns = "nat \<rightharpoonup> connection"

section \<open>Operations\<close>

definition set_insert :: "'a \<Rightarrow> 'a list \<Rightarrow> 'a list" where
  "set_insert x xs = (if x \<in> set xs then xs else xs @ [x])"

definition set_erase :: "'a \<Rightarrow> 'a list \<Rightarrow> 'a list" where
  "set_erase x xs = filter (\<lambda>y. y \<noteq> x) xs"

definition subscribe :: "bytes \<Rightarrow> nat \<Rightarrow> registry \<Rightarrow> connection \<Rightarrow> nat \<times> registry \<times> connection" where
  "subscribe channel fd reg conn =
     (let reg' = reg(channel \<mapsto> set_insert fd (case reg channel of None \<Rightarrow> [] | Some s \<Rightarrow> s));
          conn' = conn\<lparr>subscribedChannels := set_insert channel (subscribedChannels conn)\<rparr>
      in (length (subscribedChannels conn'), reg', conn'))"

text \<open>Take a connection out of one channel; a channel without subscribers is dropped.\<close>

definition leave :: "bytes \<Rightarrow> nat \<Rightarrow> registry \<Rightarrow> registry" where
  "leave channel fd reg =
     (case reg channel of
        None \<Rightarrow> reg
      | Some s \<Rightarrow> let s' = set_erase fd s in if s' = [] then reg(channel := None) else reg(channel \<mapsto> s'))"

definition unsubscribe :: "bytes \<Rightarrow> nat \<Rightarrow> registry \<Rightarrow> connection \<Rightarrow> nat \<times> registry \<times> connection" where
  "unsubscribe channel fd reg conn =
     (let conn' = conn\<lparr>subscribedChannels := set_erase channel (subscribedChannels conn)\<rparr>
      in (length (subscribedChannels conn'), leave channel fd reg, conn'))"

definition push_message :: "bytes \<Rightarrow> bytes \<Rightarrow> reply list" where
  "push_message channel message =
     [ArrayHeader 3, BulkString ''message'', BulkString channel, BulkString message]"

fun deliver :: "bytes \<Rightarrow> bytes \<Rightarrow> nat list \<Rightarrow> nat \<Rightarrow> conns \<Rightarrow> (nat \<times> conns) option" where
  "deliver channel message [] delivered cs = Some (delivered, cs)"
| "deliver channel message (sub # subs) delivered cs =
     (case cs sub of
        None \<Rightarrow> None
      | Some c \<Rightarrow>
          (case send_replies (push_message channel message) c of
             None \<Rightarrow> None
           | Some c' \<Rightarrow> deliver channel message subs (delivered + 1) (cs(sub \<mapsto> c'\<lparr>wantWrite := True\<rparr>))))"

definition publish :: "bytes \<Rightarrow> bytes \<Rightarrow> registry \<Rightarrow> conns \<Rightarrow> (nat \<times> conns) option" where
  "publish channel message reg cs =
     (case reg channel of
        None \<Rightarrow> Some (0, cs)
      | Some subs \<Rightarrow> deliver channel message subs 0 cs)"

definition removeConnection :: "nat \<Rightarrow> registry \<Rightarrow> connection \<Rightarrow> registry \<times> connection" where
  "removeConnection fd reg conn =
     (fold (\<lambda>channel. leave channel fd) (subscribedChannels conn) reg, conn\<lparr>subscribedChannels := []\<rparr>)"

section \<open>Agreement of the two records\<close>

definition listens :: "conns \<Rightarrow> nat \<Rightarrow> bytes \<Rightarrow> bool" where
  "listens cs fd channel = (case cs fd of None \<Rightarrow> False | Some c \<Rightarrow> channel \<in> set (subscribedChannels c))"

definition subscribers :: "registry \<Rightarrow> bytes \<Rightarrow> nat list" where
  "subscribers reg channel = (case reg channel of None \<Rightarrow> [] | Some s \<Rightarrow> s)"

definition ps_inv :: "registry \<Rightarrow> conns \<Rightarrow> bool" where
  "ps_inv reg cs =
     ((\<forall>fd c. cs fd = Some c \<longrightarrow> conn_inv c) \<and>
      (\<forall>channel. distinct (subscribers reg channel) \<and> reg channel \<noteq> Some [] \<and>
        (\<forall>fd. fd \<in> set (subscribers reg channel) \<longleftrightarrow> listens cs fd channel)))"

lemma set_insert_simps [simp]:
  "set (set_insert x xs) = insert x (set xs)" "distinct (set_insert x xs) = distinct xs" "set_insert x xs \<noteq> []"
  by (auto simp: set_insert_def)

lemma set_erase_simps [simp]:
  "set (set_erase x xs) = set xs - {x}" "distinct xs \<Longrightarrow> distinct (set_erase x xs)"
  by (auto simp: set_erase_def)

lemma ps_invD:
  assumes "ps_inv reg cs"
  shows "cs fd = Some c \<Longrightarrow> conn_inv c" and "distinct (subscribers reg ch)" and "reg ch \<noteq> Some []"
    and "fd \<in> set (subscribers reg ch) \<longleftrightarrow> listens cs fd ch"
  using assms by (auto simp: ps_inv_def)

lemma ps_inv_new: "ps_inv Map.empty Map.empty"
  by (simp add: ps_inv_def subscribers_def listens_def)

lemma subscribers_upd [simp]:
  "subscribers (reg(ch \<mapsto> s)) ch' = (if ch' = ch then s else subscribers reg ch')"
  by (simp add: subscribers_def)

lemma subscribers_leave:
  "subscribers (leave ch fd reg) ch' = (if ch' = ch then set_erase fd (subscribers reg ch) else subscribers reg ch')"
  by (auto simp: subscribers_def leave_def Let_def set_erase_def split: option.split)

lemma leave_nonempty: "(\<And>ch. reg ch \<noteq> Some []) \<Longrightarrow> leave ch' fd reg ch \<noteq> Some []"
  by (auto simp: leave_def Let_def split: option.split)

lemma listens_upd: "listens (cs(fd \<mapsto> c)) fd' ch = (if fd' = fd then ch \<in> set (subscribedChannels c) else listens cs fd' ch)"
  by (simp add: listens_def)

lemma conn_inv_channels: "conn_inv c \<Longrightarrow> distinct ss \<Longrightarrow> conn_inv (c\<lparr>subscribedChannels := ss\<rparr>)"
  by (simp add: conn_inv_def)

lemma conn_inv_distinct: "conn_inv c \<Longrightarrow> distinct (subscribedChannels c)"
  by (simp add: conn_inv_def)

lemma subscribe_inv:
  assumes inv: "ps_inv reg cs" and c: "cs fd = Some c" and s: "subscribe ch fd reg c = (n, reg', c')"
  shows "ps_inv reg' (cs(fd \<mapsto> c'))" and "set (subscribedChannels c') = insert ch (set (subscribedChannels c))"
    and "n = card (set (subscribedChannels c'))" and "c' = c\<lparr>subscribedChannels := subscribedChannels c'\<rparr>"
proof -
  have c': "c' = c\<lparr>subscribedChannels := set_insert ch (subscribedChannels c)\<rparr>"
    and reg': "reg' = reg(ch \<mapsto> set_insert fd (subscribers reg ch))" and n: "n = length (subscribedChannels c')"
    using s by (auto simp: subscribe_def Let_def subscribers_def)
  have ci: "conn_inv c'"
    using ps_invD(1) [OF inv c] conn_inv_distinct unfolding c' by (intro conn_inv_channels) auto
  show "set (subscribedChannels c') = insert ch (set (subscribedChannels c))" by (simp add: c')
  show "n = card (set (subscribedChannels c'))" using n conn_inv_distinct [OF ci] by (simp add: distinct_card)
  show "c' = c\<lparr>subscribedChannels := subscribedChannels c'\<rparr>" by (simp add: c')
  have l: "listens cs fd ch' \<longleftrightarrow> ch' \<in> set (subscribedChannels c)" for ch' using c by (simp add: listens_def)
  show "ps_inv reg' (cs(fd \<mapsto> c'))"
    unfolding ps_inv_def listens_upd reg' subscribers_upd
    using ps_invD [OF inv] ci by (auto simp: c' l split: if_splits)
qed

lemma unsubscribe_inv:
  assumes inv: "ps_inv reg cs" and c: "cs fd = Some c" and s: "unsubscribe ch fd reg c = (n, reg', c')"
  shows "ps_inv reg' (cs(fd \<mapsto> c'))" and "set (subscribedChannels c') = set (subscribedChannels c) - {ch}"
    and "n = card (set (subscribedChannels c'))" and "c' = c\<lparr>subscribedChannels := subscribedChannels c'\<rparr>"
proof -
  have c': "c' = c\<lparr>subscribedChannels := set_erase ch (subscribedChannels c)\<rparr>"
    and reg': "reg' = leave ch fd reg" and n: "n = length (subscribedChannels c')"
    using s by (auto simp: unsubscribe_def Let_def)
  have ci: "conn_inv c'"
    using ps_invD(1) [OF inv c] conn_inv_distinct unfolding c' by (intro conn_inv_channels) auto
  show "set (subscribedChannels c') = set (subscribedChannels c) - {ch}" by (simp add: c')
  show "n = card (set (subscribedChannels c'))" using n conn_inv_distinct [OF ci] by (simp add: distinct_card)
  show "c' = c\<lparr>subscribedChannels := subscribedChannels c'\<rparr>" by (simp add: c')
  have l: "listens cs fd ch' \<longleftrightarrow> ch' \<in> set (subscribedChannels c)" for ch' using c by (simp add: listens_def)
  show "ps_inv reg' (cs(fd \<mapsto> c'))"
    unfolding ps_inv_def listens_upd reg' subscribers_leave
    using ps_invD [OF inv] ci leave_nonempty [of reg ch fd] by (auto simp: c' l split: if_splits)
qed

text \<open>After \<^verbatim>\<open>removeConnection\<close> no channel knows the connection, so it can be destroyed.\<close>

lemma fold_leave:
  "subscribers (fold (\<lambda>ch. leave ch fd) chs reg) ch' =
    (if ch' \<in> set chs then set_erase fd (subscribers reg ch') else subscribers reg ch')"
  by (induction chs arbitrary: reg) (auto simp: subscribers_leave set_erase_def)

lemma fold_leave_nonempty: "(\<And>ch. reg ch \<noteq> Some []) \<Longrightarrow> fold (\<lambda>ch. leave ch fd) chs reg ch' \<noteq> Some []"
  by (induction chs arbitrary: reg) (simp_all add: leave_nonempty)

lemma removeConnection_inv:
  assumes inv: "ps_inv reg cs" and c: "cs fd = Some c" and r: "removeConnection fd reg c = (reg', c')"
  shows "ps_inv reg' (cs(fd := None))" and "\<forall>ch. fd \<notin> set (subscribers reg' ch)"
    and "\<forall>ch. set (subscribers reg' ch) = set (subscribers reg ch) - {fd}"
proof -
  have reg': "reg' = fold (\<lambda>ch. leave ch fd) (subscribedChannels c) reg" using r by (simp add: removeConnection_def)
  have l: "listens cs fd ch' \<longleftrightarrow> ch' \<in> set (subscribedChannels c)" for ch' using c by (simp add: listens_def)
  show s: "\<forall>ch. set (subscribers reg' ch) = set (subscribers reg ch) - {fd}"
    unfolding reg' fold_leave using ps_invD(4) [OF inv] l by auto
  then show "\<forall>ch. fd \<notin> set (subscribers reg' ch)" by blast
  have "distinct (subscribers reg' ch)" for ch unfolding reg' fold_leave using ps_invD(2) [OF inv] by simp
  moreover have "reg' ch \<noteq> Some []" for ch unfolding reg' by (rule fold_leave_nonempty) (rule ps_invD(3) [OF inv])
  moreover have "listens (cs(fd := None)) fd' ch = (fd' \<noteq> fd \<and> listens cs fd' ch)" for fd' ch by (simp add: listens_def)
  ultimately show "ps_inv reg' (cs(fd := None))"
    unfolding ps_inv_def using ps_invD(1,4) [OF inv] s by (auto split: if_splits)
qed

text \<open>A message reaches the output of every subscriber once, and nobody else.\<close>

lemma deliver_ok:
  assumes "distinct subs" and "\<And>fd. fd \<in> set subs \<Longrightarrow> \<exists>c. cs fd = Some c \<and> conn_inv c"
  shows "\<exists>cs'. deliver ch msg subs n cs = Some (n + length subs, cs') \<and>
    (\<forall>fd. fd \<notin> set subs \<longrightarrow> cs' fd = cs fd) \<and>
    (\<forall>fd \<in> set subs. \<exists>c c'. cs fd = Some c \<and> cs' fd = Some c' \<and> conn_inv c' \<and>
       c' = c\<lparr>outb := outb c', wantWrite := True\<rparr> \<and>
       pending c' = pending c @ concat (map reply_bytes (push_message ch msg)))"
  using assms
proof (induction subs arbitrary: n cs)
  case (Cons sub subs)
  obtain c where c: "cs sub = Some c" "conn_inv c" using Cons.prems(2) [of sub] by auto
  obtain c' where c': "send_replies (push_message ch msg) c = Some c'" "conn_inv c'" "c' = c\<lparr>outb := outb c'\<rparr>"
    "pending c' = pending c @ concat (map reply_bytes (push_message ch msg))"
    using send_replies_ok [OF c(2)] by blast
  define d where "d = c'\<lparr>wantWrite := True\<rparr>"
  have d: "conn_inv d" "d = c\<lparr>outb := outb d, wantWrite := True\<rparr>" "pending d = pending c'"
  proof -
    show "conn_inv d" "pending d = pending c'" using c'(2) by (simp_all add: d_def conn_inv_def)
    show "d = c\<lparr>outb := outb d, wantWrite := True\<rparr>" unfolding d_def by (subst c'(3)) simp
  qed
  have "\<exists>cs'. deliver ch msg subs (n + 1) (cs(sub \<mapsto> d)) = Some (n + 1 + length subs, cs') \<and>
    (\<forall>fd. fd \<notin> set subs \<longrightarrow> cs' fd = (cs(sub \<mapsto> d)) fd) \<and>
    (\<forall>fd \<in> set subs. \<exists>c c'. (cs(sub \<mapsto> d)) fd = Some c \<and> cs' fd = Some c' \<and> conn_inv c' \<and>
       c' = c\<lparr>outb := outb c', wantWrite := True\<rparr> \<and>
       pending c' = pending c @ concat (map reply_bytes (push_message ch msg)))"
    using Cons.prems by (intro Cons.IH) auto
  then obtain cs' where cs': "deliver ch msg subs (n + 1) (cs(sub \<mapsto> d)) = Some (n + 1 + length subs, cs')"
    "\<And>fd. fd \<notin> set subs \<Longrightarrow> cs' fd = (cs(sub \<mapsto> d)) fd"
    "\<And>fd. fd \<in> set subs \<Longrightarrow> \<exists>c c'. (cs(sub \<mapsto> d)) fd = Some c \<and> cs' fd = Some c' \<and> conn_inv c' \<and>
       c' = c\<lparr>outb := outb c', wantWrite := True\<rparr> \<and>
       pending c' = pending c @ concat (map reply_bytes (push_message ch msg))" by blast
  have "deliver ch msg (sub # subs) n cs = Some (n + length (sub # subs), cs')"
    using c(1) c'(1) cs'(1) by (simp add: d_def)
  moreover have "cs' fd = cs fd" if "fd \<notin> set (sub # subs)" for fd using cs'(2) [of fd] that by simp
  moreover have "\<exists>c c'. cs fd = Some c \<and> cs' fd = Some c' \<and> conn_inv c' \<and> c' = c\<lparr>outb := outb c', wantWrite := True\<rparr> \<and>
       pending c' = pending c @ concat (map reply_bytes (push_message ch msg))" if fd: "fd \<in> set (sub # subs)" for fd
  proof (cases "fd = sub")
    case True
    have "cs' sub = Some d" using cs'(2) [of sub] Cons.prems(1) by simp
    then show ?thesis using True c(1) d c'(4) by auto
  next
    case False
    then show ?thesis using cs'(3) [of fd] fd by simp
  qed
  ultimately show ?case by blast
qed simp

end
