(* ===== verification/AOF_Writer.thy ===== *)
theory AOF_Writer
  imports ZSet_Commands
begin

text \<open>
  \<^verbatim>\<open>persistence/AOFWriter\<close>: the append-only file in RESP format, its fsync policy, and the background
  rewrite. The file system is part of the state: the content of the log file and of the temporary file,
  and how much of the log is known to be on disk. What the system decides is an argument: the outcomes
  of \<^verbatim>\<open>write\<close>, \<^verbatim>\<open>fork\<close>, \<^verbatim>\<open>waitpid\<close>, \<^verbatim>\<open>open\<close> and \<^verbatim>\<open>rename\<close>. The child process works on its copy of the database
  and its output depends on nothing else, so it is computed at the fork; whether the child has
  finished is decided by \<^verbatim>\<open>waitpid\<close>.
\<close>

section \<open>State\<close>

datatype fsync_policy = ALWAYS | EVERYSEC | NO_FSYNC

record aof =
  aof_open :: bool
  policy :: fsync_policy
  lastFsync :: int
  child_running :: bool
  isRewriting :: bool
  rewriteBuffer :: "bytes list"
  aof_file :: bytes
  temp_file :: bytes
  synced :: nat

definition new_aof :: "bool \<Rightarrow> fsync_policy \<Rightarrow> int \<Rightarrow> bytes \<Rightarrow> aof" where
  "new_aof opened pol now content =
     \<lparr>aof_open = opened, policy = pol, lastFsync = now, child_running = False, isRewriting = False,
      rewriteBuffer = [], aof_file = content, temp_file = [], synced = 0\<rparr>"

definition isEnabled :: "aof \<Rightarrow> bool" where
  "isEnabled a = aof_open a"

section \<open>Appending\<close>

text \<open>The loop of \<^verbatim>\<open>writeAll\<close>: what reaches the file. The list gives the outcomes of the calls of
  \<^verbatim>\<open>write\<close>; once it is used up a call writes everything that is left.\<close>

fun writeAll :: "write_outcome list \<Rightarrow> bytes \<Rightarrow> bytes" where
  "writeAll os [] = []"
| "writeAll [] d = d"
| "writeAll (Interrupted # os) d = writeAll os d"
| "writeAll (WriteError # os) d = []"
| "writeAll (Wrote n # os) d = take n d @ writeAll os (drop n d)"

definition writeRespCommand :: "write_outcome list \<Rightarrow> bytes list \<Rightarrow> bytes" where
  "writeRespCommand os args = writeAll os (formatRespCommand args)"

definition fsync :: "aof \<Rightarrow> aof" where
  "fsync a = a\<lparr>synced := length (aof_file a)\<rparr>"

definition aof_log :: "write_outcome list \<Rightarrow> bytes list \<Rightarrow> aof \<Rightarrow> aof" where
  "aof_log os args a =
     (if \<not> aof_open a then a
      else let resp = formatRespCommand args;
               a1 = a\<lparr>aof_file := aof_file a @ writeAll os resp\<rparr>;
               a2 = (if policy a1 = ALWAYS then fsync a1 else a1)
           in if isRewriting a2 then a2\<lparr>rewriteBuffer := rewriteBuffer a2 @ [resp]\<rparr> else a2)"

text \<open>Times are nanoseconds of the steady clock; whole seconds are counted.\<close>

definition aof_tick :: "int \<Rightarrow> aof \<Rightarrow> aof" where
  "aof_tick now a =
     (if policy a \<noteq> EVERYSEC then a
      else if \<not> aof_open a then a
      else if 1 \<le> tdiv (now - lastFsync a) 1000000000 then (fsync a)\<lparr>lastFsync := now\<rparr> else a)"

text \<open>The destructor.\<close>

definition aof_destroy :: "aof \<Rightarrow> aof" where
  "aof_destroy a = (if aof_open a then (fsync a)\<lparr>aof_open := False\<rparr> else a)"

section \<open>Background rewrite\<close>

text \<open>The command that rebuilds a value.\<close>

definition rewrite_value :: "env \<Rightarrow> bytes \<Rightarrow> RedisObject \<Rightarrow> cpp_exception + bytes list list" where
  "rewrite_value env k v =
     (case otype v of
        STRING \<Rightarrow> Inr [[''SET'', k, asString v]]
      | LIST \<Rightarrow>
          (case get_if_deque (odata v) of
             None \<Rightarrow> Inl bad_variant_access
           | Some xs \<Rightarrow> Inr (if xs \<noteq> [] then [[''RPUSH'', k] @ xs] else []))
      | HASH \<Rightarrow>
          (case get_if_map (odata v) of
             None \<Rightarrow> Inl bad_variant_access
           | Some h \<Rightarrow> Inr (if h \<noteq> [] then [[''HSET'', k] @ concat (map (\<lambda>f. [f, the (map_of h f)]) (uorder env (map fst h)))] else []))
      | SET \<Rightarrow>
          (case get_if_set (odata v) of
             None \<Rightarrow> Inl bad_variant_access
           | Some s \<Rightarrow> Inr (if s \<noteq> [] then [[''SADD'', k] @ uorder env s] else []))
      | ZSET \<Rightarrow>
          (case get_if_zset (odata v) of
             None \<Rightarrow> Inl bad_variant_access
           | Some z \<Rightarrow>
               if zdict z \<noteq> [] then
                 (case sl_rangeByRank (zskiplist z) 0 (wrap32 (int (sl_size (zskiplist z))) - 1) of
                    None \<Rightarrow> Inl null_pointer
                  | Some elems \<Rightarrow> Inr [[''ZADD'', k] @ concat (map (\<lambda>(m, s). [printf_17g s, m]) elems)])
               else Inr []))"

text \<open>One key: nothing if it has expired, otherwise its command and, when time is left, a PEXPIRE. The
  clock is read once for the lookup and up to twice for the time to live.\<close>

definition rewrite_key :: "env \<Rightarrow> bytes \<Rightarrow> database \<Rightarrow> cpp_exception + bytes list list \<times> database" where
  "rewrite_key env k db =
     (case db_findEntry (mm env) (clk env 0) db k of
        (None, db1) \<Rightarrow> Inr ([], db1)
      | (Some e, db1) \<Rightarrow>
          (case rewrite_value env k (evalue e) of
             Inl ex \<Rightarrow> Inl ex
           | Inr cmds \<Rightarrow>
               (case db_ttl (clk env 1) (clk env 2) db1 k of
                  (remaining, db2) \<Rightarrow>
                    Inr (cmds @ (if 0 < remaining then [[''PEXPIRE'', k, to_string remaining]] else []), db2))))"

fun rewrite_keys :: "(nat \<Rightarrow> env) \<Rightarrow> nat \<Rightarrow> bytes list \<Rightarrow> database \<Rightarrow> cpp_exception + bytes list list" where
  "rewrite_keys es i [] db = Inr []"
| "rewrite_keys es i (k # ks) db =
     (case rewrite_key (es i) k db of
        Inl ex \<Rightarrow> Inl ex
      | Inr (cmds, db1) \<Rightarrow>
          (case rewrite_keys es (i + 1) ks db1 of Inl ex \<Rightarrow> Inl ex | Inr rest \<Rightarrow> Inr (cmds @ rest)))"

definition rewrite_snapshot :: "(nat \<Rightarrow> env) \<Rightarrow> database \<Rightarrow> cpp_exception + bytes list list" where
  "rewrite_snapshot es db = (case db_keys db of (ks, db1) \<Rightarrow> rewrite_keys es 0 ks db1)"

text \<open>What the child leaves in the temporary file, given the outcomes of its writes: errors of \<^verbatim>\<open>write\<close> are
  printed and otherwise ignored.\<close>

definition rewrite_file :: "(nat \<Rightarrow> write_outcome list) \<Rightarrow> bytes list list \<Rightarrow> bytes" where
  "rewrite_file oss cmds = concat (map (\<lambda>i. writeRespCommand (oss i) (cmds ! i)) [0..<length cmds])"

text \<open>\<^verbatim>\<open>triggerRewrite\<close>: \<open>forked\<close> is the success of \<^verbatim>\<open>fork\<close>. A child that cannot open its file or dies on an
  exception does not exit with 0; its file is never used.\<close>

definition triggerRewrite :: "bool \<Rightarrow> (nat \<Rightarrow> env) \<Rightarrow> (nat \<Rightarrow> write_outcome list) \<Rightarrow> database \<Rightarrow> aof \<Rightarrow> aof" where
  "triggerRewrite forked es oss db a =
     (if isRewriting a then a
      else if \<not> forked then a\<lparr>rewriteBuffer := []\<rparr>
      else a\<lparr>isRewriting := True, rewriteBuffer := [], child_running := True,
             temp_file := (case rewrite_snapshot es db of Inl ex \<Rightarrow> [] | Inr cmds \<Rightarrow> rewrite_file oss cmds)\<rparr>)"

datatype child_status = Running | ExitedOk | ChildFailed

text \<open>\<^verbatim>\<open>checkRewriteComplete\<close>: the status of the child and whether opening the temporary file, renaming it
  and opening the log again succeed; the outcomes of the writes of the buffered commands.\<close>

definition checkRewriteComplete :: "child_status \<Rightarrow> bool \<Rightarrow> bool \<Rightarrow> bool \<Rightarrow> (nat \<Rightarrow> write_outcome list) \<Rightarrow> aof \<Rightarrow> aof" where
  "checkRewriteComplete st tmp_ok rename_ok reopen_ok oss a =
     (if \<not> child_running a then a
      else case st of
        Running \<Rightarrow> a
      | ExitedOk \<Rightarrow>
          (let a1 = (if tmp_ok then
                       (let t = temp_file a @ concat (map (\<lambda>i. writeAll (oss i) (rewriteBuffer a ! i)) [0..<length (rewriteBuffer a)]) in
                        if rename_ok then a\<lparr>aof_file := t, temp_file := [], aof_open := reopen_ok, synced := length t\<rparr>
                        else a\<lparr>temp_file := t\<rparr>)
                     else a)
           in a1\<lparr>rewriteBuffer := [], isRewriting := False, child_running := False\<rparr>)
      | ChildFailed \<Rightarrow>
          a\<lparr>temp_file := [], rewriteBuffer := [], isRewriting := False, child_running := False\<rparr>)"

section \<open>What reaches the file\<close>

lemma writeAll_all [simp]: "writeAll [] d = d"
  by (cases d) simp_all

lemma writeAll_prefix: "prefix (writeAll os d) d"
proof (induction os d rule: writeAll.induct)
  case (5 n os v va)
  then show ?case by (metis append_take_drop_id same_prefix_prefix writeAll.simps(5))
qed simp_all

text \<open>Short and interrupted writes are completed; only an error leaves a partial command.\<close>

lemma writeAll_complete: "WriteError \<notin> set os \<Longrightarrow> writeAll os d = d"
  by (induction os d rule: writeAll.induct) simp_all

lemma rewrite_file_complete:
  "(\<And>i. WriteError \<notin> set (oss i)) \<Longrightarrow> rewrite_file oss cmds = concat (map formatRespCommand cmds)"
  unfolding rewrite_file_def writeRespCommand_def
  by (rule arg_cong [where f = concat]) (rule nth_equalityI; simp add: writeAll_complete)

end
