(* ===== verification/Event_Loop.thy ===== *)
theory Event_Loop
  imports CLib
begin

text \<open>
  \<^verbatim>\<open>net/EventLoop\<close>: the interest set kept by \<^verbatim>\<open>epoll\<close> and the periodic timer. \<^verbatim>\<open>epoll_ctl\<close> fails without
  effect when a descriptor is added twice or changed while unknown, and the code ignores its result.
  \<^verbatim>\<open>epoll_wait\<close> and the steady clock (in nanoseconds) are outside: their results are arguments of
  \<^verbatim>\<open>poll\<close>. A descriptor's interest is the pair of \<^verbatim>\<open>EPOLLIN\<close> and \<^verbatim>\<open>EPOLLOUT\<close>.
\<close>

record event_loop =
  interest :: "nat \<rightharpoonup> bool \<times> bool"
  timerSet :: bool
  timerIntervalMs :: int
  lastTimerFire :: int

definition new_event_loop :: "int \<Rightarrow> event_loop" where
  "new_event_loop now = \<lparr>interest = Map.empty, timerSet = False, timerIntervalMs = 0, lastTimerFire = now\<rparr>"

definition addFd :: "nat \<Rightarrow> bool \<times> bool \<Rightarrow> event_loop \<Rightarrow> event_loop" where
  "addFd fd ev el = (if interest el fd = None then el\<lparr>interest := (interest el)(fd \<mapsto> ev)\<rparr> else el)"

definition modFd :: "nat \<Rightarrow> bool \<times> bool \<Rightarrow> event_loop \<Rightarrow> event_loop" where
  "modFd fd ev el = (if interest el fd = None then el else el\<lparr>interest := (interest el)(fd \<mapsto> ev)\<rparr>)"

definition removeFd :: "nat \<Rightarrow> event_loop \<Rightarrow> event_loop" where
  "removeFd fd el = el\<lparr>interest := (interest el)(fd := None)\<rparr>"

definition setTimerCallback :: "int \<Rightarrow> int \<Rightarrow> event_loop \<Rightarrow> event_loop" where
  "setTimerCallback now intervalMs el = el\<lparr>timerSet := True, timerIntervalMs := intervalMs, lastTimerFire := now\<rparr>"

definition elapsedMs :: "int \<Rightarrow> event_loop \<Rightarrow> int" where
  "elapsedMs now el = tdiv (now - lastTimerFire el) 1000000"

text \<open>The first half of \<^verbatim>\<open>poll\<close>: how long to wait.\<close>

definition poll_timeout :: "int \<Rightarrow> int \<Rightarrow> event_loop \<Rightarrow> int" where
  "poll_timeout timeoutMs now el =
     (if timerSet el \<and> timerIntervalMs el > 0 then
        let remaining = wrap32 (timerIntervalMs el - wrap32 (elapsedMs now el))
        in if remaining \<le> 0 then 0 else if remaining < timeoutMs then remaining else timeoutMs
      else timeoutMs)"

datatype 'e wait_result = Ready "'e list" | WaitInterrupted | WaitFailed

definition kMaxEvents :: nat where "kMaxEvents = 128"

text \<open>The second half: the events to handle (\<open>None\<close> is the return value -1), after the callback has run if
  its interval has passed. An interrupted wait does not run it.\<close>

definition poll :: "('w \<Rightarrow> 'w) \<Rightarrow> int \<Rightarrow> 'e wait_result \<Rightarrow> event_loop \<times> 'w \<Rightarrow> 'e list option \<times> event_loop \<times> 'w" where
  "poll timerCb now r s =
     (case r of
        WaitFailed \<Rightarrow> (None, s)
      | WaitInterrupted \<Rightarrow> (Some [], s)
      | Ready evs \<Rightarrow>
          (Some (take kMaxEvents evs),
           (case s of (el, w) \<Rightarrow>
              if timerSet el \<and> timerIntervalMs el > 0 \<and> elapsedMs now el \<ge> timerIntervalMs el
              then (el\<lparr>lastTimerFire := now\<rparr>, timerCb w) else (el, w))))"

section \<open>Properties\<close>

lemma elapsedMs_div: "lastTimerFire el \<le> now \<Longrightarrow> elapsedMs now el = (now - lastTimerFire el) div 1000000"
  by (simp add: elapsedMs_def tdiv_def)

text \<open>The wait ends at the latest with the caller's timeout and less than a millisecond after the next
  firing of the timer is due. When a wait that was not interrupted ends, the callback runs once if its
  interval has passed since the last time, and otherwise not.\<close>
theorem poll_timer:
  assumes "timerSet el" and "0 < timerIntervalMs el" "timerIntervalMs el < 2 ^ 31" and "0 \<le> timeoutMs"
    and "lastTimerFire el \<le> now" "elapsedMs now el < 2 ^ 31" and "now \<le> now'"
  shows "0 \<le> poll_timeout timeoutMs now el \<and> poll_timeout timeoutMs now el \<le> timeoutMs \<and>
    now + poll_timeout timeoutMs now el * 1000000 < max now (lastTimerFire el + timerIntervalMs el * 1000000) + 1000000 \<and>
    poll cb now' (Ready evs) (el, w) =
      (Some (take 128 evs),
       if lastTimerFire el + timerIntervalMs el * 1000000 \<le> now' then (el\<lparr>lastTimerFire := now'\<rparr>, cb w) else (el, w))"
proof -
  let ?i = "timerIntervalMs el" and ?l = "lastTimerFire el"
  have e: "elapsedMs now el = (now - ?l) div 1000000" "0 \<le> elapsedMs now el" "elapsedMs now' el = (now' - ?l) div 1000000"
    using elapsedMs_div assms(5,7) by (simp_all add: elapsedMs_div)
  have r: "wrap32 (?i - wrap32 (elapsedMs now el)) = ?i - elapsedMs now el"
    using assms(2,3,6) e(2) by (simp add: wrap32_id)
  have "now - ?l < elapsedMs now el * 1000000 + 1000000" unfolding e(1) by linarith
  moreover have "?i \<le> elapsedMs now' el \<longleftrightarrow> ?l + ?i * 1000000 \<le> now'" unfolding e(3) by linarith
  ultimately show ?thesis
    using assms(1,2,4) r by (auto simp: poll_timeout_def poll_def kMaxEvents_def Let_def)
qed

theorem poll_timer_witness:
  "poll_timeout 100 40000000 (setTimerCallback 0 100 (new_event_loop 0)) = 60 \<and>
   poll Suc 100000000 (Ready [()]) (setTimerCallback 0 100 (new_event_loop 0), 0) =
     (Some [()], setTimerCallback 100000000 100 (new_event_loop 0), 1)"
  using poll_timer [of "setTimerCallback 0 100 (new_event_loop 0)" 100 40000000 100000000 Suc "[()]" 0]
  by (simp add: poll_timeout_def setTimerCallback_def new_event_loop_def elapsedMs_def tdiv_def wrap32_def)

end
