(* ===== verification/Server.thy ===== *)
theory Server
  imports Command_Table Pub_Sub AOF_Writer Event_Loop
begin

text \<open>
  \<^verbatim>\<open>main.cpp\<close>, first part: the state of the running server, the second half of \<^verbatim>\<open>CommandTable::dispatch\<close> with
  the handlers that need more than the database, and the parse loop of a client. The environment of a
  command is a sequence, because EXEC runs several; the recursion of EXEC into \<^verbatim>\<open>dispatch\<close> carries its
  depth. \<open>fds\<close> lists the keys of the connection map, whose iteration order no result depends on.
\<close>

section \<open>State\<close>

record world =
  wdb :: database
  conns :: conns
  fds :: "nat list"
  eloop :: event_loop
  channels :: registry
  wmetrics :: metrics
  waof :: aof

type_synonym outcome = "cpp_exception + world"

text \<open>What the system supplies to one command beside the clock: the process id, the uptime and the
  success of \<^verbatim>\<open>fork\<close>, with the environments of the child.\<close>

record sysenv =
  envs :: "nat \<Rightarrow> env"
  pid :: int
  uptimeSec :: int
  fork_ok :: bool
  child_envs :: "nat \<Rightarrow> env"
  child_writes :: "nat \<Rightarrow> write_outcome list"

section \<open>Replies\<close>

definition update_conn :: "nat \<Rightarrow> (connection \<Rightarrow> connection option) \<Rightarrow> world \<Rightarrow> outcome" where
  "update_conn fd f w =
     (case conns w fd of
        None \<Rightarrow> Inl null_pointer
      | Some c \<Rightarrow> (case f c of None \<Rightarrow> Inl assertion_failed | Some c' \<Rightarrow> Inr (w\<lparr>conns := (conns w)(fd \<mapsto> c')\<rparr>)))"

definition reply_to :: "nat \<Rightarrow> reply list \<Rightarrow> world \<Rightarrow> outcome" where
  "reply_to fd rs w = update_conn fd (send_replies rs) w"

definition and_then :: "outcome \<Rightarrow> (world \<Rightarrow> outcome) \<Rightarrow> outcome" where
  "and_then r f = (case r of Inl e \<Rightarrow> Inl e | Inr w \<Rightarrow> f w)"

section \<open>Transactions\<close>

definition cmdMulti :: "nat \<Rightarrow> world \<Rightarrow> outcome" where
  "cmdMulti fd w =
     update_conn fd (\<lambda>c. if txn c \<noteq> None then send_replies [Error ''ERR MULTI calls can not be nested''] c
       else send_replies [SimpleString ''OK''] (c\<lparr>txn := Some []\<rparr>)) w"

definition cmdDiscard :: "nat \<Rightarrow> world \<Rightarrow> outcome" where
  "cmdDiscard fd w =
     update_conn fd (\<lambda>c. if txn c = None then send_replies [Error ''ERR DISCARD without MULTI''] c
       else send_replies [SimpleString ''OK''] (c\<lparr>txn := None\<rparr>)) w"

text \<open>\<^verbatim>\<open>aofWriter.log\<close> for a command that was run.\<close>

definition log_write :: "command_table \<Rightarrow> env \<Rightarrow> bytes list \<Rightarrow> world \<Rightarrow> world" where
  "log_write t env args w =
     (if isEnabled (waof w) \<and> isWriteCommand t (args ! 0) then w\<lparr>waof := aof_log (writes env) args (waof w)\<rparr> else w)"

text \<open>The loop of EXEC; \<open>run\<close> is \<^verbatim>\<open>dispatch\<close>.\<close>

fun exec_loop :: "(sysenv \<Rightarrow> nat \<Rightarrow> bytes list \<Rightarrow> world \<Rightarrow> outcome) \<Rightarrow> command_table \<Rightarrow> sysenv \<Rightarrow> nat \<Rightarrow> nat \<Rightarrow> bytes list list \<Rightarrow> world \<Rightarrow> outcome" where
  "exec_loop run t se i fd [] w = Inr w"
| "exec_loop run t se i fd (q # qs) w =
     and_then (run (se\<lparr>envs := \<lambda>j. envs se (i + j)\<rparr>) fd q w)
       (\<lambda>w1. exec_loop run t se (i + 1) fd qs (log_write t (envs se i) q w1))"

definition cmdExec :: "(sysenv \<Rightarrow> nat \<Rightarrow> bytes list \<Rightarrow> world \<Rightarrow> outcome) \<Rightarrow> command_table \<Rightarrow> sysenv \<Rightarrow> nat \<Rightarrow> world \<Rightarrow> outcome" where
  "cmdExec run t se fd w =
     (case conns w fd of
        None \<Rightarrow> Inl null_pointer
      | Some c \<Rightarrow>
          (case txn c of
             None \<Rightarrow> reply_to fd [Error ''ERR EXEC without MULTI''] w
           | Some queued \<Rightarrow>
               and_then (reply_to fd [ArrayHeader (int (length queued))] w)
                 (\<lambda>w1. and_then (exec_loop run t se 1 fd queued w1)
                   (\<lambda>w2. update_conn fd (\<lambda>c. Some (c\<lparr>txn := None\<rparr>)) w2))))"

section \<open>Publish and subscribe\<close>

definition sub_reply :: "bytes \<Rightarrow> bytes \<Rightarrow> nat \<Rightarrow> reply list" where
  "sub_reply what channel n = [ArrayHeader 3, BulkString what, BulkString channel, Integer (int n)]"

text \<open>One step of the loops over channels: change the registry, then reply the number of subscriptions.\<close>

definition ps_step :: "(bytes \<Rightarrow> nat \<Rightarrow> registry \<Rightarrow> connection \<Rightarrow> nat \<times> registry \<times> connection) \<Rightarrow> bytes \<Rightarrow> nat \<Rightarrow> bytes \<Rightarrow> world \<Rightarrow> outcome" where
  "ps_step f what fd channel w =
     (case conns w fd of
        None \<Rightarrow> Inl null_pointer
      | Some c \<Rightarrow>
          (case f channel fd (channels w) c of
             (n, reg', c') \<Rightarrow>
               reply_to fd (sub_reply what channel n) (w\<lparr>channels := reg', conns := (conns w)(fd \<mapsto> c')\<rparr>)))"

fun ps_loop :: "(bytes \<Rightarrow> nat \<Rightarrow> registry \<Rightarrow> connection \<Rightarrow> nat \<times> registry \<times> connection) \<Rightarrow> bytes \<Rightarrow> nat \<Rightarrow> bytes list \<Rightarrow> world \<Rightarrow> outcome" where
  "ps_loop f what fd [] w = Inr w"
| "ps_loop f what fd (channel # chs) w = and_then (ps_step f what fd channel w) (ps_loop f what fd chs)"

definition cmdSubscribe :: "nat \<Rightarrow> bytes list \<Rightarrow> world \<Rightarrow> outcome" where
  "cmdSubscribe fd args w = ps_loop subscribe ''subscribe'' fd (drop 1 args) w"

text \<open>Without arguments UNSUBSCRIBE leaves every channel, in the order of the container.\<close>

definition cmdUnsubscribe :: "env \<Rightarrow> nat \<Rightarrow> bytes list \<Rightarrow> world \<Rightarrow> outcome" where
  "cmdUnsubscribe env fd args w =
     (case conns w fd of
        None \<Rightarrow> Inl null_pointer
      | Some c \<Rightarrow>
          if length args \<le> 1 then
            (if subscribedChannels c = []
             then reply_to fd [ArrayHeader 3, BulkString ''unsubscribe'', Null, Integer 0] w
             else ps_loop unsubscribe ''unsubscribe'' fd (uorder env (subscribedChannels c)) w)
          else ps_loop unsubscribe ''unsubscribe'' fd (drop 1 args) w)"

definition cmdPublish :: "nat \<Rightarrow> bytes list \<Rightarrow> world \<Rightarrow> outcome" where
  "cmdPublish fd args w =
     (case publish (args ! 1) (args ! 2) (channels w) (conns w) of
        None \<Rightarrow> Inl null_pointer
      | Some (delivered, cs) \<Rightarrow> reply_to fd [Integer (int delivered)] (w\<lparr>conns := cs\<rparr>))"

section \<open>Dispatch\<close>

definition cmdBgRewriteAof :: "sysenv \<Rightarrow> nat \<Rightarrow> world \<Rightarrow> outcome" where
  "cmdBgRewriteAof se fd w =
     reply_to fd [SimpleString ''Background append only file rewriting started'']
       (w\<lparr>waof := triggerRewrite (fork_ok se) (child_envs se) (child_writes se) (wdb w) (waof w)\<rparr>)"

fun call_handler :: "(sysenv \<Rightarrow> nat \<Rightarrow> bytes list \<Rightarrow> world \<Rightarrow> outcome) \<Rightarrow> command_table \<Rightarrow> handler \<Rightarrow> sysenv \<Rightarrow> nat \<Rightarrow> bytes list \<Rightarrow> world \<Rightarrow> outcome" where
  "call_handler run t (Db h) se fd args w =
     (case h (envs se 0) (wdb w) args of
        Inl e \<Rightarrow> Inl e
      | Inr (rs, db') \<Rightarrow> reply_to fd rs (w\<lparr>wdb := db'\<rparr>))"
| "call_handler run t Info se fd args w = reply_to fd (cmdInfo (pid se) (uptimeSec se) (wmetrics w) (wdb w) args) w"
| "call_handler run t BgRewriteAof se fd args w = cmdBgRewriteAof se fd w"
| "call_handler run t Multi se fd args w = cmdMulti fd w"
| "call_handler run t Discard se fd args w = cmdDiscard fd w"
| "call_handler run t Exec se fd args w = cmdExec run t se fd w"
| "call_handler run t Subscribe se fd args w = cmdSubscribe fd args w"
| "call_handler run t Unsubscribe se fd args w = cmdUnsubscribe (envs se 0) fd args w"
| "call_handler run t Publish se fd args w = cmdPublish fd args w"

definition dispatch_with :: "(sysenv \<Rightarrow> nat \<Rightarrow> bytes list \<Rightarrow> world \<Rightarrow> outcome) \<Rightarrow> command_table \<Rightarrow> sysenv \<Rightarrow> nat \<Rightarrow> bytes list \<Rightarrow> world \<Rightarrow> outcome" where
  "dispatch_with run t se fd args w =
     (if args = [] then Inr w
      else case lookup t args of
        Inl msg \<Rightarrow> reply_to fd [Error msg] w
      | Inr h \<Rightarrow> call_handler run t h se fd args w)"

text \<open>The argument is how deep EXEC may still recurse into itself.\<close>

primrec dispatch :: "nat \<Rightarrow> command_table \<Rightarrow> sysenv \<Rightarrow> nat \<Rightarrow> bytes list \<Rightarrow> world \<Rightarrow> outcome" where
  "dispatch 0 t = dispatch_with (\<lambda>se fd args w. Inl stack_overflow) t"
| "dispatch (Suc n) t = dispatch_with (dispatch n t) t"

section \<open>The commands of a client\<close>

definition ERR_SUBSCRIBED :: "bytes \<Rightarrow> bytes" where
  "ERR_SUBSCRIBED name = ''ERR Can'' @ [CHR 0x27] @ ''t execute '' @ [CHR 0x27] @ name @ [CHR 0x27] @
     '': only (P)SUBSCRIBE / (P)UNSUBSCRIBE / PING / QUIT are allowed in this context''"

text \<open>One iteration of the parse loop, once a command is there.\<close>

definition process_command :: "sysenv \<Rightarrow> nat \<Rightarrow> bytes list \<Rightarrow> world \<Rightarrow> outcome" where
  "process_command se fd args w =
     (case conns w fd of
        None \<Rightarrow> Inl null_pointer
      | Some c \<Rightarrow>
          (if args = [] then Inr w
           else let cmdName = upper (args ! 0) in
             if inSubscribeMode c \<and> cmdName \<notin> {''SUBSCRIBE'', ''UNSUBSCRIBE'', ''PING'', ''QUIT''}
             then reply_to fd [Error (ERR_SUBSCRIBED (args ! 0))] w
             else case (if cmdName \<notin> {''EXEC'', ''DISCARD'', ''MULTI''} then txn c else None) of
               Some queued \<Rightarrow>
                 update_conn fd (\<lambda>c. send_replies [SimpleString ''QUEUED''] (c\<lparr>txn := Some (queued @ [args])\<rparr>)) w
             | None \<Rightarrow>
                 and_then (dispatch 1 server_table se fd args w)
                   (\<lambda>w1. let w2 = w1\<lparr>wmetrics := recordCommand (envs se 0) args (wmetrics w1)\<rparr>
                         in Inr (if cmdName \<noteq> ''EXEC'' then log_write server_table (envs se 0) args w2 else w2))))"

text \<open>The parse loop: it ends when the input holds no further complete frame. The first argument bounds
  the number of iterations.\<close>

fun process_input :: "nat \<Rightarrow> (nat \<Rightarrow> sysenv) \<Rightarrow> nat \<Rightarrow> nat \<Rightarrow> world \<Rightarrow> outcome option" where
  "process_input 0 ses i fd w = None"
| "process_input (Suc n) ses i fd w =
     (case conns w fd of
        None \<Rightarrow> Some (Inl null_pointer)
      | Some c \<Rightarrow>
          (case parse (inb c) of
             None \<Rightarrow> Some (Inl assertion_failed)
           | Some (None, b) \<Rightarrow> Some (Inr (w\<lparr>conns := (conns w)(fd \<mapsto> c\<lparr>inb := b\<rparr>)\<rparr>))
           | Some (Some args, b) \<Rightarrow>
               (case process_command (ses i) fd args (w\<lparr>conns := (conns w)(fd \<mapsto> c\<lparr>inb := b\<rparr>)\<rparr>) of
                  Inl e \<Rightarrow> Some (Inl e)
                | Inr w' \<Rightarrow> process_input n ses (i + 1) fd w')))"

end
