(* ===== verification/AOF_Loader.thy ===== *)
theory AOF_Loader
  imports Server
begin

text \<open>
  \<^verbatim>\<open>persistence/AOFLoader\<close>: at the start the log is read into a buffer and its commands are run again,
  with the table as it is before EXEC and the publish/subscribe commands are registered, and with a
  connection of their own whose replies are thrown away. What the file system returns is an argument.
\<close>

section \<open>Loading\<close>

text \<open>The outcome of \<^verbatim>\<open>open\<close> and \<^verbatim>\<open>fstat\<close>, then the chunks \<^verbatim>\<open>read\<close> returns; \<open>ReadAgain\<close> stands for \<^verbatim>\<open>EINTR\<close>.\<close>

datatype aof_source = NotFound | OpenFailed | StatFailed | File nat "read_result list"

fun read_file :: "nat \<Rightarrow> read_result list \<Rightarrow> nat \<Rightarrow> buffer \<Rightarrow> cpp_exception + buffer option" where
  "read_file fileSize [] totalRead b = Inr (Some b)"
| "read_file fileSize (r # rs) totalRead b =
     (if fileSize \<le> totalRead then Inr (Some b)
      else case r of
        ReadBytes bs \<Rightarrow>
          (let got = take (fileSize - totalRead) bs in
           if got = [] then Inr (Some b)
           else case advanceWrite (memcpy_in b got) (length got) of
             None \<Rightarrow> Inl assertion_failed
           | Some b' \<Rightarrow> read_file fileSize rs (totalRead + length got) b')
      | ReadAgain \<Rightarrow> read_file fileSize rs totalRead b
      | ReadError \<Rightarrow> Inr None
      | ReadEof \<Rightarrow> Inr (Some b))"

text \<open>The replies are dropped after every command.\<close>

definition drain :: "nat \<Rightarrow> world \<Rightarrow> outcome" where
  "drain fd w = update_conn fd (\<lambda>c. case consume (outb c) (readableBytes (outb c)) of None \<Rightarrow> None | Some b \<Rightarrow> Some (c\<lparr>outb := b\<rparr>)) w"

text \<open>The replay loop; the first argument bounds its iterations.\<close>

fun load_loop :: "nat \<Rightarrow> (nat \<Rightarrow> sysenv) \<Rightarrow> nat \<Rightarrow> nat \<Rightarrow> buffer \<Rightarrow> world \<Rightarrow> (cpp_exception + nat \<times> world) option" where
  "load_loop 0 ses fd cnt b w = None"
| "load_loop (Suc n) ses fd cnt b w =
     (if readableBytes b = 0 then Some (Inr (cnt, w))
      else case parse b of
        None \<Rightarrow> Some (Inl assertion_failed)
      | Some (None, b') \<Rightarrow> Some (Inr (cnt, w))
      | Some (Some args, b') \<Rightarrow>
          (if args = [] then load_loop n ses fd cnt b' w
           else case and_then (dispatch 0 load_table (ses cnt) fd args w) (drain fd) of
             Inl e \<Rightarrow> Some (Inl e)
           | Inr w' \<Rightarrow> load_loop n ses fd (cnt + 1) b' w'))"

text \<open>\<open>fd\<close> is the write end of the pipe made for the dummy connection, if \<^verbatim>\<open>pipe\<close> succeeds. The result -1
  is \<open>None\<close>; the dummy connection is destroyed at the end.\<close>

definition load :: "aof_source \<Rightarrow> nat option \<Rightarrow> (nat \<Rightarrow> sysenv) \<Rightarrow> world \<Rightarrow> (cpp_exception + nat option \<times> world) option" where
  "load src pipe ses w =
     (case src of
        File fileSize rs \<Rightarrow>
          if fileSize = 0 then Some (Inr (Some 0, w))
          else
            (case read_file fileSize rs 0 (ensureWritableBytes new_buffer fileSize) of
               Inl e \<Rightarrow> Some (Inl e)
             | Inr None \<Rightarrow> Some (Inr (None, w))
             | Inr (Some b) \<Rightarrow>
                 (case pipe of
                    None \<Rightarrow> Some (Inr (None, w))
                  | Some fd \<Rightarrow>
                      (case load_loop (Suc (readableBytes b)) ses fd 0 b (w\<lparr>conns := (conns w)(fd \<mapsto> new_connection)\<rparr>) of
                         None \<Rightarrow> None
                       | Some (Inl e) \<Rightarrow> Some (Inl e)
                       | Some (Inr (cnt, w')) \<Rightarrow> Some (Inr (Some cnt, w'\<lparr>conns := (conns w')(fd := None)\<rparr>)))))
      | _ \<Rightarrow> Some (Inr (None, w)))"

end
