(* ===== verification/Main_Loop.thy ===== *)
theory Main_Loop
  imports AOF_Loader
begin

text \<open>
  \<^verbatim>\<open>main.cpp\<close>, second part: start-up, the timer callback, and the iterations of the event loop. \<^verbatim>\<open>epoll\<close>,
  the sockets and the clocks are outside: an iteration gets the events and the outcomes of the system
  calls as arguments. A result is \<open>None\<close> where the bound on the parse loop would be exceeded.
\<close>

section \<open>Events of one client\<close>

record client_event =
  epollErr :: bool
  epollIn :: bool
  epollOut :: bool
  read_res :: read_result
  write_res :: write_result
  cmd_envs :: "nat \<Rightarrow> sysenv"

definition set_conn :: "nat \<Rightarrow> (connection \<Rightarrow> connection) \<Rightarrow> world \<Rightarrow> world" where
  "set_conn fd f w = w\<lparr>conns := (conns w)(fd := map_option f (conns w fd))\<rparr>"

text \<open>Readable: read once, then run every complete command. Each iteration of the parse loop but the last
  consumes a byte, so the length of the unparsed input bounds them.\<close>

definition read_phase :: "nat \<Rightarrow> client_event \<Rightarrow> connection \<Rightarrow> world \<Rightarrow> outcome option" where
  "read_phase fd ev conn w =
     (case handleRead (read_res ev) conn of
        None \<Rightarrow> Some (Inl assertion_failed)
      | Some (ok, c1) \<Rightarrow>
          (let c2 = (if ok then c1 else c1\<lparr>wantRead := False\<rparr>) in
           case process_input (Suc (readableBytes (inb c2))) (cmd_envs ev) 0 fd (w\<lparr>conns := (conns w)(fd \<mapsto> c2)\<rparr>) of
             None \<Rightarrow> None
           | Some (Inl e) \<Rightarrow> Some (Inl e)
           | Some (Inr w1) \<Rightarrow>
               Some (Inr (set_conn fd (\<lambda>c. if readableBytes (outb c) > 0 then c\<lparr>wantWrite := True\<rparr> else c) w1))))"

definition write_phase :: "client_event \<Rightarrow> connection \<Rightarrow> connection option" where
  "write_phase ev c =
     (if epollOut ev \<and> \<not> wantClose c then
        (case handleWrite (write_res ev) c of
           None \<Rightarrow> None
         | Some (ok, c1) \<Rightarrow>
             Some (if \<not> ok then c1\<lparr>wantClose := True\<rparr>
                   else if readableBytes (outb c1) = 0 then c1\<lparr>wantWrite := False\<rparr> else c1))
      else Some c)"

definition close_phase :: "connection \<Rightarrow> connection" where
  "close_phase c = (if \<not> wantRead c \<and> readableBytes (outb c) = 0 then c\<lparr>wantClose := True\<rparr> else c)"

text \<open>What the connection asks of \<^verbatim>\<open>epoll\<close>.\<close>

definition desired :: "connection \<Rightarrow> bool \<times> bool" where
  "desired c = (wantRead c, wantWrite c)"

definition register :: "nat \<Rightarrow> world \<Rightarrow> world" where
  "register fd w =
     (case conns w fd of
        None \<Rightarrow> w
      | Some c \<Rightarrow> if wantClose c then w else w\<lparr>eloop := modFd fd (desired c) (eloop w)\<rparr>)"

definition handle_client :: "nat \<Rightarrow> client_event \<Rightarrow> world \<Rightarrow> outcome option" where
  "handle_client fd ev w =
     (case conns w fd of
        None \<Rightarrow> Some (Inr w)
      | Some conn \<Rightarrow>
          if epollErr ev then Some (Inr (set_conn fd (\<lambda>c. c\<lparr>wantClose := True\<rparr>) w))
          else
            (case (if epollIn ev then read_phase fd ev conn w else Some (Inr w)) of
               None \<Rightarrow> None
             | Some (Inl e) \<Rightarrow> Some (Inl e)
             | Some (Inr w1) \<Rightarrow>
                 Some (and_then (update_conn fd (write_phase ev) w1)
                   (\<lambda>w2. Inr (register fd (set_conn fd close_phase w2))))))"

section \<open>One iteration\<close>

text \<open>The listener is drained: \<^verbatim>\<open>acceptClient\<close> returns what \<^verbatim>\<open>accept4\<close> returns, and the loop around it makes one
  connection per descriptor until the result is negative.\<close>

definition acceptClient :: "int \<Rightarrow> int" where
  [simp]: "acceptClient accept4 = accept4"

fun accept_loop :: "int list \<Rightarrow> nat list" where
  "accept_loop [] = []"
| "accept_loop (r # rs) =
     (let clientFd = acceptClient r in if clientFd < 0 then [] else nat clientFd # accept_loop rs)"

definition accept_client :: "nat \<Rightarrow> world \<Rightarrow> world" where
  "accept_client fd w =
     w\<lparr>eloop := addFd fd (True, False) (eloop w), conns := (conns w)(fd \<mapsto> new_connection), fds := set_insert fd (fds w)\<rparr>"

datatype event = Listen "int list" | Client nat client_event

fun handle_events :: "event list \<Rightarrow> world \<Rightarrow> outcome option" where
  "handle_events [] w = Some (Inr w)"
| "handle_events (Listen rs # evs) w = handle_events evs (fold accept_client (accept_loop rs) w)"
| "handle_events (Client fd ev # evs) w =
     (case handle_client fd ev w of
        Some (Inr w1) \<Rightarrow> handle_events evs w1
      | r \<Rightarrow> r)"

text \<open>Connections with pending output are registered for writing, because PUBLISH fills the buffers of
  other connections than the one being handled.\<close>

definition sweep_conn :: "nat \<Rightarrow> world \<Rightarrow> world" where
  "sweep_conn fd w =
     (case conns w fd of
        None \<Rightarrow> w
      | Some c \<Rightarrow>
          if \<not> wantClose c \<and> readableBytes (outb c) > 0
          then (let c' = c\<lparr>wantWrite := True\<rparr>
                in w\<lparr>conns := (conns w)(fd \<mapsto> c'), eloop := modFd fd (desired c') (eloop w)\<rparr>)
          else w)"

definition sweep :: "world \<Rightarrow> world" where
  "sweep w = fold sweep_conn (fds w) w"

definition toClose :: "world \<Rightarrow> nat list" where
  "toClose w = filter (\<lambda>fd. case conns w fd of None \<Rightarrow> False | Some c \<Rightarrow> wantClose c) (fds w)"

definition close_conn :: "nat \<Rightarrow> world \<Rightarrow> world" where
  "close_conn fd w =
     (let reg = (case conns w fd of None \<Rightarrow> channels w | Some c \<Rightarrow> fst (removeConnection fd (channels w) c))
      in w\<lparr>channels := reg, eloop := removeFd fd (eloop w), conns := (conns w)(fd := None), fds := set_erase fd (fds w)\<rparr>)"

definition cleanup :: "world \<Rightarrow> world" where
  "cleanup w = fold close_conn (toClose w) w"

text \<open>The timer callback, every 100 ms: expire keys, sync the log, look after the rewriting child.\<close>

record tick_env =
  tick_mm :: mem_model
  tick_ms :: int
  tick_ns :: int
  child :: child_status
  tmp_ok :: bool
  rename_ok :: bool
  reopen_ok :: bool
  tick_writes :: "nat \<Rightarrow> write_outcome list"

definition timer_callback :: "tick_env \<Rightarrow> world \<Rightarrow> world" where
  "timer_callback te w =
     w\<lparr>wdb := db_activeExpireCycle (tick_mm te) (tick_ms te) (wdb w) 200,
       waof := checkRewriteComplete (child te) (tmp_ok te) (rename_ok te) (reopen_ok te) (tick_writes te)
                 (aof_tick (tick_ns te) (waof w))\<rparr>"

record iteration =
  poll_ns :: int
  poll_res :: "event wait_result"
  tick :: tick_env

text \<open>The body of the loop; \<open>False\<close> is the break after an error of \<^verbatim>\<open>epoll_wait\<close>.\<close>

definition iterate :: "iteration \<Rightarrow> world \<Rightarrow> (cpp_exception + bool \<times> world) option" where
  "iterate it w =
     (let w0 = w\<lparr>wmetrics := (wmetrics w)\<lparr>connectedClients := length (fds w)\<rparr>\<rparr> in
      case poll (timer_callback (tick it)) (poll_ns it) (poll_res it) (eloop w0, w0) of
        (None, el, w1) \<Rightarrow> Some (Inr (False, w1\<lparr>eloop := el\<rparr>))
      | (Some evs, el, w1) \<Rightarrow>
          (case handle_events evs (w1\<lparr>eloop := el\<rparr>) of
             None \<Rightarrow> None
           | Some (Inl e) \<Rightarrow> Some (Inl e)
           | Some (Inr w2) \<Rightarrow> Some (Inr (True, cleanup (sweep (w2\<lparr>wdb := db_rehashStep (wdb w2)\<rparr>))))))"

text \<open>The loop runs until a signal arrives (the list ends) or \<^verbatim>\<open>epoll_wait\<close> fails.\<close>

fun main_loop :: "iteration list \<Rightarrow> world \<Rightarrow> outcome option" where
  "main_loop [] w = Some (Inr w)"
| "main_loop (it # its) w =
     (case iterate it w of
        None \<Rightarrow> None
      | Some (Inl e) \<Rightarrow> Some (Inl e)
      | Some (Inr (go_on, w1)) \<Rightarrow> if go_on then main_loop its w1 else Some (Inr w1))"

text \<open>At the end the connections are closed and the destructors run.\<close>

definition shutdown :: "world \<Rightarrow> world" where
  "shutdown w = w\<lparr>eloop := fold removeFd (fds w) (eloop w), conns := Map.empty, fds := [], waof := aof_destroy (waof w)\<rparr>"

section \<open>Start-up\<close>

text \<open>The state before the log is loaded. The log file, opened for appending, keeps its content.\<close>

definition initial_world :: "nat \<Rightarrow> nat \<Rightarrow> bool \<Rightarrow> int \<Rightarrow> bytes \<Rightarrow> world" where
  "initial_world port listen_fd opened now content =
     \<lparr>wdb = new_database, conns = Map.empty, fds = [], eloop = addFd listen_fd (True, False) (new_event_loop now),
      channels = Map.empty, wmetrics = new_metrics port, waof = new_aof opened EVERYSEC now content\<rparr>"

definition startup :: "int \<Rightarrow> aof_source \<Rightarrow> nat option \<Rightarrow> (nat \<Rightarrow> sysenv) \<Rightarrow> world \<Rightarrow> outcome option" where
  "startup now src pipe ses w =
     (case load src pipe ses w of
        None \<Rightarrow> None
      | Some (Inl e) \<Rightarrow> Some (Inl e)
      | Some (Inr (loaded, w1)) \<Rightarrow> Some (Inr (w1\<lparr>eloop := setTimerCallback now 100 (eloop w1)\<rparr>)))"

definition main :: "int \<Rightarrow> aof_source \<Rightarrow> nat option \<Rightarrow> (nat \<Rightarrow> sysenv) \<Rightarrow> iteration list \<Rightarrow> world \<Rightarrow> outcome option" where
  "main now src pipe ses its w =
     (case startup now src pipe ses w of
        Some (Inr w1) \<Rightarrow> (case main_loop its w1 of Some (Inr w2) \<Rightarrow> Some (Inr (shutdown w2)) | r \<Rightarrow> r)
      | r \<Rightarrow> r)"

end
