(* ===== verification/Command_Safety.thy ===== *)
theory Command_Safety
  imports Command_Table
begin

text \<open>
  Type safety of the command layer: on a well-formed database every handler of the table, called with
  the number of arguments its entry asks for, either returns with a well-formed database or throws one
  of the two exceptions of \<^verbatim>\<open>std::stoi\<close>. It never reads the wrong alternative of a variant, never follows a
  null pointer and never leaves the skip list and the dictionary of a sorted set in disagreement. NaN
  scores are excluded.
\<close>

section \<open>Well-formed databases\<close>

definition value_ok :: "RedisObject \<Rightarrow> bool" where
  "value_ok v = (obj_ok v \<and> (\<forall>z. odata v = DZSet z \<longrightarrow> zset_ok z))"

definition good_db :: "database \<Rightarrow> bool" where
  "good_db db = (db_inv db \<and> (\<forall>k e. entry_of db k = Some e \<longrightarrow> value_ok (evalue e)))"

definition safe_result :: "result \<Rightarrow> bool" where
  "safe_result r = (case r of Inl e \<Rightarrow> e = invalid_argument \<or> e = out_of_range | Inr (rs, db) \<Rightarrow> good_db db)"

text \<open>\<open>fewer db db'\<close>: every value of \<open>db'\<close> was there before.\<close>

definition fewer :: "database \<Rightarrow> database \<Rightarrow> bool" where
  "fewer db db' = (db_inv db' \<and> (\<forall>k e'. entry_of db' k = Some e' \<longrightarrow> (\<exists>e. entry_of db k = Some e \<and> evalue e' = evalue e)))"

lemma good_db_inv: "good_db db \<Longrightarrow> db_inv db"
  by (simp add: good_db_def)

lemma good_db_new: "good_db new_database"
  by (simp add: good_db_def db_inv_new)

lemma good_fewer: "good_db db \<Longrightarrow> fewer db db' \<Longrightarrow> good_db db'"
  unfolding good_db_def fewer_def by metis

lemma fewer_refl: "db_inv db \<Longrightarrow> fewer db db"
  by (auto simp: fewer_def)

lemma fewer_trans: "fewer a b \<Longrightarrow> fewer b c \<Longrightarrow> fewer a c"
  unfolding fewer_def by metis

lemma fewer_same: "same_data db db' \<Longrightarrow> fewer db db'"
  by (auto simp: same_data_def fewer_def)

lemma fewer_without: "without k db db' \<Longrightarrow> fewer db db'"
  by (auto simp: without_def fewer_def split: if_splits)

lemma fewer_reaped: "reaped now k db db' \<Longrightarrow> fewer db db'"
  by (auto simp: reaped_def fewer_same fewer_without split: option.splits if_splits)

lemma fewer_del: "db_inv db \<Longrightarrow> fewer db (snd (db_del m db k))"
  using db_del_ok(2) [of db m k] by (cases "db_del m db k") (auto intro: fewer_without)

lemma good_del: "good_db db \<Longrightarrow> good_db (snd (db_del m db k))"
  using fewer_del good_fewer good_db_inv by blast

lemma good_setExpire: "good_db db \<Longrightarrow> db_setExpire m now db k t = (b, db') \<Longrightarrow> good_db db'"
proof -
  assume g: "good_db db" and s: "db_setExpire m now db k t = (b, db')"
  note so = db_setExpire_ok [OF good_db_inv [OF g] s]
  have "fewer db db'"
  proof (cases b)
    case True
    then show ?thesis using so(3) by (auto simp: fewer_def split: if_splits)
  qed (use so(2) fewer_reaped in blast)
  then show "good_db db'" by (rule good_fewer [OF g])
qed

lemma good_upd:
  assumes "good_db db" "db_inv db'" "entry_of db' = (entry_of db)(k \<mapsto> e)" "value_ok (evalue e)"
  shows "good_db db'"
  using assms by (auto simp: good_db_def)

lemma value_ok_string: "value_ok (createString v)"
  using obj_ok_create(1) [of v] by (auto simp: value_ok_def createString_def split: prod.splits if_splits)

lemma good_set:
  assumes g: "good_db db"
  shows "good_db (db_set m db k v)"
  by (rule good_upd [OF g db_set_ok(1,2) [OF good_db_inv [OF g]]]) (simp add: mk_entry_def value_ok_string)

lemma good_setData:
  assumes g: "good_db db" and e: "entry_of db k = Some e" and v: "value_ok ((evalue e)\<lparr>odata := d\<rparr>)"
  shows "good_db (setData db k d)"
proof -
  have "obj_ok ((evalue e)\<lparr>odata := d\<rparr>)" using v by (simp add: value_ok_def)
  from modify_value_ok(1,2) [OF good_db_inv [OF g] e, of "\<lambda>v. v\<lparr>odata := d\<rparr>", OF this]
  have "db_inv (setData db k d)" "entry_of (setData db k d) = (entry_of db)(k \<mapsto> e\<lparr>evalue := (evalue e)\<lparr>odata := d\<rparr>\<rparr>)"
    unfolding setData_def .
  then show ?thesis by (rule good_upd [OF g]) (simp add: v)
qed

lemma good_shrink:
  assumes "good_db db" "entry_of db k = Some e" "value_ok ((evalue e)\<lparr>odata := d\<rparr>)"
  shows "good_db (if b then snd (db_del m (setData db k d) k) else setData db k d)"
  using good_setData [OF assms] good_del by simp

section \<open>The prologue of the container handlers\<close>

lemma good_findEntry:
  assumes "good_db db" "db_findEntry m now db k = (r, db1)"
  shows "good_db db1" and "r = Some e \<Longrightarrow> entry_of db1 k = Some e \<and> value_ok (evalue e)"
    and "r = None \<Longrightarrow> entry_of db1 k = None"
proof -
  note f = db_findEntry_ok [OF good_db_inv [OF assms(1)] assms(2)]
  show g: "good_db db1" by (rule good_fewer [OF assms(1) fewer_reaped [OF f(1)]])
  have "entry_of db1 k = r" using reaped_entry [OF f(1), of k] f(2) by simp
  then show "r = Some e \<Longrightarrow> entry_of db1 k = Some e \<and> value_ok (evalue e)" "r = None \<Longrightarrow> entry_of db1 k = None"
    using g by (auto simp: good_db_def)
qed

lemma safe_read:
  assumes g: "good_db db"
    and body: "\<And>e db1. good_db db1 \<Longrightarrow> entry_of db1 k = Some e \<Longrightarrow> value_ok (evalue e) \<Longrightarrow> otype (evalue e) = ty \<Longrightarrow>
      safe_result (body e db1)"
  shows "safe_result (readContainer env db k ty miss body)"
proof -
  obtain r db1 where f: "db_findEntry (mm env) (clk env 0) db k = (r, db1)" by fastforce
  note gf = good_findEntry [OF g f]
  show ?thesis
    using gf body [OF gf(1)] by (cases r) (auto simp: readContainer_def f safe_result_def split: sum.splits)
qed

lemma safe_write:
  assumes g: "good_db db" and fresh: "value_ok fresh" "otype fresh = ty"
    and body: "\<And>e db1. good_db db1 \<Longrightarrow> entry_of db1 k = Some e \<Longrightarrow> value_ok (evalue e) \<Longrightarrow> otype (evalue e) = ty \<Longrightarrow>
      safe_result (body e db1)"
  shows "safe_result (writeContainer env db k ty fresh body)"
proof -
  obtain r db1 where f: "db_findEntry (mm env) (clk env 0) db k = (r, db1)" by fastforce
  note gf = good_findEntry [OF g f]
  show ?thesis
  proof (cases r)
    case (Some e)
    then show ?thesis using gf body [OF gf(1)] by (auto simp: writeContainer_def f safe_result_def)
  next
    case None
    let ?db2 = "db_setObject (mm env) db1 k fresh"
    have s: "db_inv ?db2" "entry_of ?db2 = (entry_of db1)(k \<mapsto> mk_entry k fresh (- 1))"
      using db_setObject_ok [OF good_db_inv [OF gf(1)] gf(3) [OF None], of fresh "mm env"] fresh(1)
      by (simp_all add: value_ok_def)
    have g2: "good_db ?db2" by (rule good_upd [OF gf(1) s]) (simp add: mk_entry_def fresh(1))
    have a: "alive ?db2 (clk env 1) k = Some (fresh, - 1)"
      by (simp add: alive_def alive_map_def s(2) mk_entry_def expired_def)
    from findEntry_alive [OF s(1) a, of "mm env"] obtain db3 where
      f3: "db_findEntry (mm env) (clk env 1) ?db2 k = (Some (mk_entry k fresh (- 1)), db3)" by blast
    note gf3 = good_findEntry [OF g2 f3]
    have "safe_result (body (mk_entry k fresh (- 1)) db3)"
      using gf3 fresh by (intro body) (simp_all add: mk_entry_def)
    then show ?thesis using None by (simp add: writeContainer_def f f3 del: One_nat_def)
  qed
qed

section \<open>Every handler is safe\<close>

lemma safe_Inr [simp]: "safe_result (Inr (rs, db)) = good_db db"
  by (simp add: safe_result_def)

lemma safe_stoi: "stoi s = Inl e \<Longrightarrow> safe_result (Inl e)"
  by (auto simp: stoi_def safe_result_def split: prod.splits if_splits)

lemma value_cases:
  assumes "value_ok v"
  shows "otype v = LIST \<Longrightarrow> \<exists>xs. get_if_deque (odata v) = Some xs \<and> (\<forall>ys. value_ok (v\<lparr>odata := DDeque ys\<rparr>))"
    and "otype v = HASH \<Longrightarrow> \<exists>h. get_if_map (odata v) = Some h \<and> distinct (map fst h) \<and>
      (\<forall>h'. distinct (map fst h') \<longrightarrow> value_ok (v\<lparr>odata := DMap h'\<rparr>))"
    and "otype v = SET \<Longrightarrow> \<exists>s. get_if_set (odata v) = Some s \<and> distinct s \<and>
      (\<forall>s'. distinct s' \<longrightarrow> value_ok (v\<lparr>odata := DSet s'\<rparr>))"
    and "otype v = ZSET \<Longrightarrow> \<exists>z. get_if_zset (odata v) = Some z \<and> zset_ok z \<and>
      (\<forall>z'. zset_ok z' \<longrightarrow> value_ok (v\<lparr>odata := DZSet z'\<rparr>))"
proof -
  have o: "obj_ok v" using assms by (simp add: value_ok_def)
  show "\<exists>xs. get_if_deque (odata v) = Some xs \<and> (\<forall>ys. value_ok (v\<lparr>odata := DDeque ys\<rparr>))" if "otype v = LIST"
    by (rule obj_ok_LIST [OF o that]) (simp add: value_ok_def obj_ok_def that)
  show "\<exists>h. get_if_map (odata v) = Some h \<and> distinct (map fst h) \<and>
      (\<forall>h'. distinct (map fst h') \<longrightarrow> value_ok (v\<lparr>odata := DMap h'\<rparr>))" if "otype v = HASH"
    by (rule obj_ok_HASH [OF o that]) (simp add: value_ok_def obj_ok_def that)
  show "\<exists>s. get_if_set (odata v) = Some s \<and> distinct s \<and> (\<forall>s'. distinct s' \<longrightarrow> value_ok (v\<lparr>odata := DSet s'\<rparr>))"
    if "otype v = SET"
    by (rule obj_ok_SET [OF o that]) (simp add: value_ok_def obj_ok_def that)
  show "\<exists>z. get_if_zset (odata v) = Some z \<and> zset_ok z \<and> (\<forall>z'. zset_ok z' \<longrightarrow> value_ok (v\<lparr>odata := DZSet z'\<rparr>))"
    if "otype v = ZSET"
    by (rule obj_ok_ZSET [OF o that]) (use assms zset_ok_rel(5) in \<open>auto simp: value_ok_def obj_ok_def that\<close>)
qed

lemma value_ok_create: "value_ok createList" "value_ok createHash" "value_ok createSet" "value_ok (createZSet r)"
  using obj_ok_create zset_ok_new
  by (auto simp: value_ok_def createList_def createHash_def createSet_def createZSet_def)

lemma safe_string:
  assumes g: "good_db db"
  shows "safe_result (cmdPing env db args)" "safe_result (cmdSet env db args)" "safe_result (cmdGet env db args)"
proof -
  show "safe_result (cmdPing env db args)" "safe_result (cmdSet env db args)"
    by (simp_all add: cmdPing_def cmdSet_def g good_set)
  obtain r db1 where f: "db_findEntry (mm env) (clk env 0) db (args ! 1) = (r, db1)" by fastforce
  then show "safe_result (cmdGet env db args)"
    using good_findEntry(1) [OF g f] by (cases r) (simp_all add: cmdGet_def)
qed

lemma good_del_loop: "good_db db \<Longrightarrow> del_loop m ks n db = (r, db') \<Longrightarrow> good_db db'"
proof (induction m ks n db rule: del_loop.induct)
  case (2 m k ks n db)
  obtain b db1 where d: "db_del m db k = (b, db1)" by fastforce
  then have "good_db db1" using good_del [OF "2.prems"(1), of m k] by simp
  then show ?case using "2.IH" [OF d [symmetric]] "2.prems"(2) d by simp
qed simp

lemma good_exists_loop: "good_db db \<Longrightarrow> exists_loop m c i ks n db = (r, db') \<Longrightarrow> good_db db'"
proof (induction m c i ks n db rule: exists_loop.induct)
  case (2 m c i k ks n db)
  obtain r db1 where f: "db_findEntry m (c i) db k = (r, db1)" by fastforce
  then have e: "db_exists m (c i) db k = (r \<noteq> None, db1)" by (simp add: db_exists_findEntry)
  have "good_db db1" by (rule good_findEntry(1) [OF "2.prems"(1) f])
  then show ?case using "2.IH" [OF e [symmetric]] "2.prems"(2) e by simp
qed simp

lemma fewer_scan_filter: "db_inv db \<Longrightarrow> scan_filter m c i pat ks db = (r, db') \<Longrightarrow> fewer db db'"
proof (induction m c i pat ks db arbitrary: r db' rule: scan_filter.induct)
  case (2 m c i pat k ks db)
  show ?case
  proof (cases "ht_find (dtable db) k")
    case None
    then show ?thesis using 2 by simp
  next
    case (Some e)
    obtain x db1 where ce: "checkAndExpire m (c i) db k e = (x, db1)" by fastforce
    have f1: "fewer db db1"
      using checkAndExpire_ok(2) [OF "2.prems"(1) ce] fewer_without fewer_refl [OF "2.prems"(1)] by (auto split: if_splits)
    then have i1: "db_inv db1" by (simp add: fewer_def)
    obtain r2 db2 where s: "scan_filter m c (i + 1) pat ks db1 = (r2, db2)" by fastforce
    then have "db' = db2" using "2.prems"(2) Some ce by (auto split: if_splits)
    moreover have "fewer db1 db2"
      using "2.IH"(2) [OF Some ce [symmetric] _ i1 s] "2.IH"(3) [OF Some ce [symmetric] _ i1 s] by blast
    ultimately show ?thesis using fewer_trans [OF f1] by simp
  qed
qed (simp add: fewer_refl)

lemma good_scan: "good_db db \<Longrightarrow> good_db (snd (db_scan m c db cur n pat))"
proof -
  assume g: "good_db db"
  let ?db1 = "db\<lparr>dtable := rehashStep (dtable db) kRehashBatchSize\<rparr>"
  have s: "same_data db ?db1" by (rule same_data_rehash [OF good_db_inv [OF g]])
  obtain nc raw where sc: "ht_scan (dtable ?db1) cur n = (nc, raw)" by fastforce
  obtain f db2 where fl: "scan_filter m c 0 pat raw ?db1 = (f, db2)" by fastforce
  have "fewer db db2" using fewer_trans [OF fewer_same [OF s] fewer_scan_filter [OF same_data_inv [OF s] fl]] .
  then show ?thesis using good_fewer [OF g] sc fl by (simp add: db_scan_def Let_def)
qed

lemma good_ttl: "good_db db \<Longrightarrow> db_ttl n1 n2 db k = (r, db') \<Longrightarrow> good_db db'"
  using db_ttl_ok(1) good_db_inv good_fewer fewer_reaped by metis

lemma safe_key:
  assumes g: "good_db db"
  shows "safe_result (cmdDel env db args)" "safe_result (cmdExists env db args)" "safe_result (cmdKeys env db args)"
    "safe_result (cmdExpire env db args)" "safe_result (cmdTtl env db args)" "safe_result (cmdPexpire env db args)"
    "safe_result (cmdPttl env db args)" "safe_result (cmdDbsize env db args)" "safe_result (cmdScan env db args)"
    "safe_result (cmdFlushdb env db args)"
proof -
  show "safe_result (cmdDel env db args)" using good_del_loop [OF g] by (auto simp: cmdDel_def split: prod.split)
  show "safe_result (cmdExists env db args)" using good_exists_loop [OF g] by (auto simp: cmdExists_def split: prod.split)
  show "safe_result (cmdKeys env db args)"
    using good_fewer [OF g fewer_same [OF same_data_rehash [OF good_db_inv [OF g]]]] by (simp add: cmdKeys_def db_keys_def Let_def)
  show "safe_result (cmdExpire env db args)" "safe_result (cmdPexpire env db args)"
    using good_setExpire [OF g] g by (auto simp: cmdExpire_def cmdPexpire_def Let_def split: prod.split option.split)
  show "safe_result (cmdTtl env db args)" "safe_result (cmdPttl env db args)"
    using good_ttl [OF g] by (auto simp: cmdTtl_def cmdPttl_def split: prod.split)
  show "safe_result (cmdDbsize env db args)" by (simp add: cmdDbsize_def g)
  have "good_db db'" if "db_scan m c db cur n pat = (x, db')" for m c cur n pat x db'
    using good_scan [OF g, of m c cur n pat] that by simp
  then show "safe_result (cmdScan env db args)"
    using g by (auto simp: cmdScan_def split: option.split sum.split prod.split)
  show "safe_result (cmdFlushdb env db args)"
    using db_flushdb_ok [OF good_db_inv [OF g]] by (simp add: cmdFlushdb_def good_db_def)
qed

text \<open>A handler that reads the payload of its type sees a payload, and may store any admissible one.\<close>

lemma safe_body:
  assumes vc: "\<And>v. value_ok v \<Longrightarrow> otype v = ty \<Longrightarrow>
      \<exists>c. get (odata v) = Some c \<and> P c \<and> (\<forall>c'. P c' \<longrightarrow> value_ok (v\<lparr>odata := wrap c'\<rparr>))"
    and f: "\<And>c db1. good_db db1 \<Longrightarrow> P c \<Longrightarrow> (\<And>c'. P c' \<Longrightarrow> good_db (setData db1 k (wrap c'))) \<Longrightarrow> safe_result (f c db1)"
    and e: "good_db db1" "entry_of db1 k = Some e" "value_ok (evalue e)" "otype (evalue e) = ty"
  shows "safe_result (case get (odata (evalue e)) of None \<Rightarrow> Inl bad_variant_access | Some c \<Rightarrow> f c db1)"
proof -
  from vc [OF e(3,4)] obtain c where c: "get (odata (evalue e)) = Some c" "P c"
    "\<And>c'. P c' \<Longrightarrow> value_ok ((evalue e)\<lparr>odata := wrap c'\<rparr>)" by blast
  show ?thesis using f [OF e(1) c(2) good_setData [OF e(1,2) c(3)]] c(1) by simp
qed

lemma list_payload: "value_ok v \<Longrightarrow> otype v = LIST \<Longrightarrow>
    \<exists>c. get_if_deque (odata v) = Some c \<and> True \<and> (\<forall>c'. True \<longrightarrow> value_ok (v\<lparr>odata := DDeque c'\<rparr>))"
  using value_cases(1) by simp

lemmas list_body = safe_body [where P = "\<lambda>_. True" and get = get_if_deque and wrap = DDeque, OF list_payload]
lemmas hash_body = safe_body [where P = "\<lambda>h. distinct (map fst h)", OF value_cases(2)]
lemmas set_body = safe_body [where P = distinct, OF value_cases(3)]
lemmas zset_body = safe_body [where P = zset_ok, OF value_cases(4)]

lemma safe_list:
  assumes g: "good_db db"
  shows "safe_result (cmdLPush env db args)" "safe_result (cmdRPush env db args)" "safe_result (cmdLPop env db args)"
    "safe_result (cmdRPop env db args)" "safe_result (cmdLLen env db args)" "safe_result (cmdLRange env db args)"
proof -
  note r = safe_read [OF g list_body] and w = safe_write [OF g value_ok_create(1) _ list_body]
  show "safe_result (cmdLPush env db args)" "safe_result (cmdRPush env db args)"
    unfolding cmdLPush_def cmdRPush_def by (rule w; simp add: createList_def Let_def)+
  show "safe_result (cmdLPop env db args)" "safe_result (cmdRPop env db args)" "safe_result (cmdLLen env db args)"
    unfolding cmdLPop_def cmdRPop_def cmdLLen_def by (rule r; simp add: Let_def good_del)+
  show "safe_result (cmdLRange env db args)"
    unfolding cmdLRange_def by (rule r; simp add: Let_def safe_stoi split: sum.split)
qed

lemma safe_hash:
  assumes g: "good_db db"
  shows "safe_result (cmdHSet env db args)" "safe_result (cmdHGet env db args)" "safe_result (cmdHDel env db args)"
    "safe_result (cmdHGetAll env db args)" "safe_result (cmdHLen env db args)"
proof -
  note r = safe_read [OF g hash_body] and w = safe_write [OF g value_ok_create(2) _ hash_body]
  show "safe_result (cmdHSet env db args)"
  proof (cases "(length args - 2) mod 2 = 0")
    case True
    show ?thesis by (simp only: cmdHSet_def True simp_thms if_False)
        (rule w; auto simp: createHash_def dest: hset_loop_ok(1) split: prod.split)
  qed (simp add: cmdHSet_def g)
  show "safe_result (cmdHDel env db args)"
    unfolding cmdHDel_def by (rule r; auto simp: Let_def good_del dest: hdel_loop_ok(1) split: prod.split)
  show "safe_result (cmdHGet env db args)" "safe_result (cmdHGetAll env db args)" "safe_result (cmdHLen env db args)"
    unfolding cmdHGet_def cmdHGetAll_def cmdHLen_def by (rule r; simp split: option.split)+
qed

lemma safe_set:
  assumes g: "good_db db"
  shows "safe_result (cmdSAdd env db args)" "safe_result (cmdSRem env db args)" "safe_result (cmdSIsMember env db args)"
    "safe_result (cmdSMembers env db args)" "safe_result (cmdSCard env db args)"
proof -
  note r = safe_read [OF g set_body] and w = safe_write [OF g value_ok_create(3) _ set_body]
  show "safe_result (cmdSAdd env db args)"
    unfolding cmdSAdd_def by (rule w; auto simp: createSet_def dest: sadd_loop_ok split: prod.split)
  show "safe_result (cmdSRem env db args)"
    unfolding cmdSRem_def by (rule r; auto simp: Let_def good_del dest: srem_loop_ok split: prod.split)
  show "safe_result (cmdSIsMember env db args)" "safe_result (cmdSMembers env db args)" "safe_result (cmdSCard env db args)"
    unfolding cmdSIsMember_def cmdSMembers_def cmdSCard_def by (rule r; simp)+
qed

text \<open>A range of ranks is read without following a null pointer, however the int arithmetic wraps.\<close>

lemma range_total:
  assumes "zset_ok z"
  shows "\<exists>r. sl_rangeByRank (zskiplist z) i j = Some r"
proof -
  obtain ps where inv: "sl_inv (zskiplist z) ps" using zset_ok_rel(1) [OF assms] by (auto simp: sl_rel_def)
  let ?h = "nodes (zskiplist z)"
  have "tall (zskiplist z) 0 ps = ps" by (rule tall_0 [OF inv]) simp
  then have l: "linked (fwd ?h) 0 (header (zskiplist z)) ps"
    using inv_links [OF inv, of 0] by (simp add: tall_def kMaxLevel_def)
  have x0: "fwd ?h (header (zskiplist z)) 0 = Some (first ps)" using linked_head [OF l] unfolding first_def .
  have "collect_nodes k ?h (first (drop n ps)) = Some (map (elem ?h) (take k (drop n ps)))" for k n
    using inv_dom [OF inv] by (intro collect_nodes_ok [OF linked_drop [OF l]]) (auto dest: in_set_dropD)
  then show ?thesis using skip_nodes_ok [OF l] x0 by (simp add: sl_rangeByRank_def Let_def)
qed

lemma safe_zset:
  assumes g: "good_db db"
  shows "NaN \<notin> snd ` set (zpairs (drop 2 args)) \<Longrightarrow> 2 \<le> length args \<Longrightarrow> safe_result (cmdZAdd env db args)"
    and "safe_result (cmdZScore env db args)" "safe_result (cmdZRank env db args)"
    "safe_result (cmdZRange env db args)" "safe_result (cmdZCard env db args)" "safe_result (cmdZRem env db args)"
proof -
  note r = safe_read [OF g zset_body] and w = safe_write [OF g value_ok_create(4) _ zset_body]
  show "safe_result (cmdZAdd env db args)" if nn: "NaN \<notin> snd ` set (zpairs (drop 2 args))" "2 \<le> length args"
  proof (cases "(length args - 2) mod 2 = 0")
    case True
    then have ev: "even (length (drop 2 args))" by (simp add: even_iff_mod_2_eq_zero)
    show ?thesis
    proof (simp only: cmdZAdd_def True simp_thms if_False, rule w)
      fix z db1 assume "zset_ok z" "\<And>z'. zset_ok z' \<Longrightarrow> good_db (setData db1 (args ! 1) (DZSet z'))"
      then show "safe_result (case zadd_loop (drop 2 args) z 0 of None \<Rightarrow> Inl null_pointer
          | Some (z', added) \<Rightarrow> Inr ([Integer added], setData db1 (args ! 1) (DZSet z')))"
        using zadd_loop_ok [OF _ ev nn(1), of z 0] by auto
    qed (simp_all add: createZSet_def)
  qed (simp add: cmdZAdd_def g)
  show "safe_result (cmdZRem env db args)" unfolding cmdZRem_def
  proof (rule r)
    fix z db1 assume "zset_ok z" "\<And>z'. zset_ok z' \<Longrightarrow> good_db (setData db1 (args ! 1) (DZSet z'))"
    then show "safe_result (case zrem_loop (drop 2 args) z 0 of
               None \<Rightarrow> Inl null_pointer
             | Some (z', removed) \<Rightarrow>
                 let db2 = setData db1 (args ! 1) (DZSet z');
                     db3 = (if zdict z' = [] then snd (db_del (mm env) db2 (args ! 1)) else db2)
                 in Inr ([Integer removed], db3))"
      using zrem_loop_ok [of z "drop 2 args" 0] by (auto simp: Let_def good_del)
  qed
  show "safe_result (cmdZScore env db args)" "safe_result (cmdZCard env db args)"
    unfolding cmdZScore_def cmdZCard_def by (rule r; simp split: option.split)+
  show "safe_result (cmdZRank env db args)"
    unfolding cmdZRank_def
  proof (rule r)
    fix z db1 assume "good_db db1" "zset_ok z"
    then show "safe_result (case map_of (zdict z) (args ! 2) of
               None \<Rightarrow> Inr ([Null], db1)
             | Some s \<Rightarrow>
                 (case sl_rangeByRank (zskiplist z) 0 (wrap32 (int (sl_size (zskiplist z))) - 1) of
                    None \<Rightarrow> Inl null_pointer
                  | Some rg \<Rightarrow>
                      (case rank_loop rg (args ! 2) s 0 of
                         Some rank \<Rightarrow> Inr ([Integer rank], db1)
                       | None \<Rightarrow> Inr ([Null], db1))))"
      using range_total [of z 0 "wrap32 (int (sl_size (zskiplist z))) - 1"] by (auto split: option.split)
  qed
  have "safe_result (readContainer env db k ZSET miss (\<lambda>e db1. case get_if_zset (odata (evalue e)) of
      None \<Rightarrow> Inl bad_variant_access | Some z \<Rightarrow> (case stoi a of Inl ex \<Rightarrow> Inl ex | Inr i \<Rightarrow> (case stoi b of Inl ex \<Rightarrow> Inl ex
      | Inr j \<Rightarrow> (case sl_rangeByRank (zskiplist z) i j of None \<Rightarrow> Inl null_pointer | Some l \<Rightarrow>
          if ws then Inr (f l, db1) else Inr (h l, db1))))))" for k miss a b ws f h
  proof (rule r)
    fix z db1 assume z: "good_db db1" "zset_ok z"
    have "\<not> sl_rangeByRank (zskiplist z) i j = None" for i j using range_total [OF z(2), of i j] by auto
    then show "safe_result (case stoi a of Inl ex \<Rightarrow> Inl ex | Inr i \<Rightarrow> (case stoi b of Inl ex \<Rightarrow> Inl ex
      | Inr j \<Rightarrow> (case sl_rangeByRank (zskiplist z) i j of None \<Rightarrow> Inl null_pointer | Some l \<Rightarrow>
          if ws then Inr (f l, db1) else Inr (h l, db1))))"
      using z(1) safe_stoi by (simp del: not_None_eq split: sum.split option.split)
  qed
  then show "safe_result (cmdZRange env db args)"
    unfolding cmdZRange_def Let_def by (simp only: safe_Inr g split: if_split) blast
qed

lemma safe_handler:
  assumes "good_db db" "e \<in> set all_commands" "chandler e = Db h" "arity_ok (arity e) args"
    and "length args < 2147483648" "cname e = ''ZADD'' \<Longrightarrow> NaN \<notin> snd ` set (zpairs (drop 2 args))"
  shows "safe_result (h env db args)"
proof -
  have "2 \<le> length args" if "arity e = - 4" using assms(4,5) that by (simp add: arity_ok_def wrap32_id)
  then show ?thesis
    using assms(2,3,6) safe_string [OF assms(1)] safe_key [OF assms(1)] safe_list [OF assms(1)] safe_hash [OF assms(1)]
      safe_set [OF assms(1)] safe_zset [OF assms(1)]
    unfolding all_commands_def stringCommands_def keyCommands_def listCommands_def hashCommands_def setCommands_def
      zsetCommands_def transactionCommands_def serverCommands_def
    by auto
qed

section \<open>Properties\<close>

text \<open>C12 (type). The type safety of the command layer: on a well-formed database every database handler of the
  command table, called with a number of arguments its entry admits and, for ZADD, without NaN scores,
  returns and leaves a well-formed database - every object carries the payload its type tag announces,
  hash fields and set members are distinct, skip list and dictionary of a sorted set agree, the TTL
  heap and the table agree - or it throws one of the two exceptions of \<^verbatim>\<open>std::stoi\<close>. No handler reads the
  wrong alternative of a variant or follows a null pointer.\<close>
theorem commands_safe:
  assumes "good_db db" and "e \<in> set all_commands" and "chandler e = Db h" and "arity_ok (arity e) args"
    and "length args < 2147483648" and "cname e = ''ZADD'' \<Longrightarrow> NaN \<notin> snd ` set (zpairs (drop 2 args))"
  shows "safe_result (h env db args)"
  using assms by (rule safe_handler)

theorem commands_safe_witness: "safe_result (cmdZAdd (demo_env 0) new_database [''ZADD'', ''k'', ''1.5'', ''m''])"
proof (rule commands_safe [where e = "cmd ''ZADD'' (- 4) True (Db cmdZAdd)", OF good_db_new])
  show "NaN \<notin> snd ` set (zpairs (drop 2 [''ZADD'', ''k'', ''1.5'', ''m'']))" by code_simp
qed (simp_all add: all_commands_def zsetCommands_def arity_ok_def wrap32_id)

end
