(* ===== verification/Server_Safety.thy ===== *)
theory Server_Safety
  imports Main_Loop Command_Safety
begin

text \<open>
  The invariant of the running server and its preservation by every command: the database is well
  formed, subscriptions are recorded consistently and no pointer to a connection dangles, queues of
  transactions hold only commands that may be queued, the histogram adds up. \<open>step_ok\<close> is the contract
  of an operation on the server; it composes along \<open>and_then\<close>.
\<close>

section \<open>The contract of a step\<close>

text \<open>Commands that can be queued: not empty, not one of the transaction commands. NaN scores and
  argument counts beyond 32 bits are excluded throughout.\<close>

definition tame :: "bytes list \<Rightarrow> bool" where
  "tame args = (length args < 2147483648 \<and> (upper (args ! 0) = ''ZADD'' \<longrightarrow> NaN \<notin> snd ` set (zpairs (drop 2 args))))"

definition queueable :: "bytes list \<Rightarrow> bool" where
  "queueable q = (q \<noteq> [] \<and> tame q \<and> upper (q ! 0) \<notin> {''EXEC'', ''DISCARD'', ''MULTI''})"

definition conn_ok :: "connection \<Rightarrow> bool" where
  "conn_ok c = (conn_inv c \<and> (\<forall>qs. txn c = Some qs \<longrightarrow> (\<forall>q \<in> set qs. queueable q)))"

definition world_ok :: "world \<Rightarrow> bool" where
  "world_ok w = (good_db (wdb w) \<and> ps_inv (channels w) (conns w) \<and> metrics_inv (wmetrics w) \<and>
     (\<forall>fd c. conns w fd = Some c \<longrightarrow> conn_ok c))"

text \<open>What a step leaves alone: the set of connections, the interest set, the unparsed input (except that
  of the connections in \<open>R\<close>), the wish to read or close; output only grows, and the wish to write changes
  only when there is output.\<close>

definition keeps_conn :: "bool \<Rightarrow> connection \<Rightarrow> connection \<Rightarrow> bool" where
  "keeps_conn rd c c' = ((rd \<or> inb c' = inb c) \<and> wantRead c' = wantRead c \<and> wantClose c' = wantClose c \<and>
     (wantWrite c' = wantWrite c \<or> pending c' \<noteq> []) \<and> prefix (pending c) (pending c'))"

definition keeps :: "nat set \<Rightarrow> world \<Rightarrow> world \<Rightarrow> bool" where
  "keeps R w w' = (fds w' = fds w \<and> eloop w' = eloop w \<and>
     (\<forall>fd. rel_option (keeps_conn (fd \<in> R)) (conns w fd) (conns w' fd)))"

definition stoi_error :: "cpp_exception \<Rightarrow> bool" where
  "stoi_error e = (e = invalid_argument \<or> e = out_of_range)"

definition step_ok :: "nat set \<Rightarrow> world \<Rightarrow> outcome \<Rightarrow> bool" where
  "step_ok R w r = (case r of Inl e \<Rightarrow> stoi_error e | Inr w' \<Rightarrow> world_ok w' \<and> keeps R w w')"

lemma step_ok_simps [simp]:
  "step_ok R w (Inl e) = stoi_error e" "step_ok R w (Inr w') = (world_ok w' \<and> keeps R w w')"
  by (simp_all add: step_ok_def)

lemma keeps_conn_refl [simp]: "keeps_conn rd c c"
  by (simp add: keeps_conn_def)

lemma keeps_refl [simp]: "keeps R w w"
  by (simp add: keeps_def option.rel_refl)

lemma keeps_conn_trans: "keeps_conn rd a b \<Longrightarrow> keeps_conn rd b c \<Longrightarrow> keeps_conn rd a c"
  by (auto simp: keeps_conn_def prefix_def)

lemma keeps_trans:
  assumes "keeps R w w1" "keeps R w1 w2"
  shows "keeps R w w2"
proof -
  have "rel_option (keeps_conn (fd \<in> R)) (conns w fd) (conns w2 fd)" for fd
  proof -
    have "rel_option (keeps_conn (fd \<in> R)) (conns w fd) (conns w1 fd)" "rel_option (keeps_conn (fd \<in> R)) (conns w1 fd) (conns w2 fd)"
      using assms by (simp_all add: keeps_def)
    then show ?thesis by (cases "conns w fd"; cases "conns w1 fd"; cases "conns w2 fd") (auto intro: keeps_conn_trans)
  qed
  then show ?thesis using assms by (simp add: keeps_def)
qed

lemma keepsD:
  assumes "keeps R w w'" "conns w fd = Some c"
  obtains c' where "conns w' fd = Some c'" "keeps_conn (fd \<in> R) c c'"
  using assms unfolding keeps_def by (metis option.rel_cases option.distinct(1) option.inject)

lemma keeps_dom: "keeps R w w' \<Longrightarrow> dom (conns w') = dom (conns w)"
  unfolding keeps_def dom_def by (metis option.rel_distinct(1) option.rel_distinct(2) option.exhaust)

lemma step_trans: "keeps R w w1 \<Longrightarrow> step_ok R w1 r \<Longrightarrow> step_ok R w r"
  by (cases r) (auto intro: keeps_trans)

lemma step_and_then:
  assumes "step_ok R w r" and "\<And>w1. world_ok w1 \<Longrightarrow> keeps R w w1 \<Longrightarrow> step_ok R w1 (f w1)"
  shows "step_ok R w (and_then r f)"
  using assms step_trans by (cases r) (auto simp: and_then_def)

lemma world_okD:
  assumes "world_ok w"
  shows "good_db (wdb w)" "ps_inv (channels w) (conns w)" "metrics_inv (wmetrics w)"
    and "conns w fd = Some c \<Longrightarrow> conn_ok c"
  using assms by (auto simp: world_ok_def)

lemma world_ok_db: "world_ok w \<Longrightarrow> good_db db \<Longrightarrow> world_ok (w\<lparr>wdb := db\<rparr>)"
  by (simp add: world_ok_def)

lemma world_ok_aof: "world_ok (w\<lparr>waof := a\<rparr>) = world_ok w"
  by (simp add: world_ok_def)

lemma keeps_eq: "conns w' = conns w \<Longrightarrow> fds w' = fds w \<Longrightarrow> eloop w' = eloop w \<Longrightarrow> keeps R w w'"
  by (simp add: keeps_def option.rel_refl)

section \<open>Replies\<close>

lemma ps_inv_conn:
  assumes "ps_inv reg cs" "cs fd = Some c" "conn_inv c'" "subscribedChannels c' = subscribedChannels c"
  shows "ps_inv reg (cs(fd \<mapsto> c'))"
proof -
  have "listens (cs(fd \<mapsto> c')) = listens cs" using assms by (intro ext) (auto simp: listens_upd listens_def)
  then show ?thesis using assms unfolding ps_inv_def by (auto split: if_splits)
qed

lemma step_update:
  assumes w: "world_ok w" and c: "conns w fd = Some c" and f: "f c = Some c'"
    and c': "conn_ok c'" "subscribedChannels c' = subscribedChannels c" "keeps_conn (fd \<in> R) c c'"
  shows "step_ok R w (update_conn fd f w)"
proof -
  let ?w = "w\<lparr>conns := (conns w)(fd \<mapsto> c')\<rparr>"
  have "ps_inv (channels w) ((conns w)(fd \<mapsto> c'))"
    by (rule ps_inv_conn [OF world_okD(2) [OF w] c _ c'(2)]) (use c'(1) in \<open>simp add: conn_ok_def\<close>)
  then have "world_ok ?w" using w c'(1) by (auto simp: world_ok_def split: if_splits)
  moreover have "keeps R w ?w" using c c'(3) by (auto simp: keeps_def option.rel_refl)
  ultimately show ?thesis using c f by (simp add: update_conn_def)
qed

lemma conn_ok_send:
  assumes "conn_ok c"
  obtains c' where "send_replies rs c = Some c'" "conn_ok c'" "c' = c\<lparr>outb := outb c'\<rparr>"
    "pending c' = pending c @ concat (map reply_bytes rs)"
proof -
  obtain c' where c': "send_replies rs c = Some c'" "conn_inv c'" "c' = c\<lparr>outb := outb c'\<rparr>"
    "pending c' = pending c @ concat (map reply_bytes rs)"
    using send_replies_ok assms unfolding conn_ok_def by blast
  have "txn c' = txn c" by (subst c'(3)) simp
  with that [OF c'(1) _ c'(3,4)] c'(2) assms show thesis by (simp add: conn_ok_def)
qed

lemma send_same:
  assumes "c' = c\<lparr>outb := outb c'\<rparr>"
  shows "inb c' = inb c" "wantRead c' = wantRead c" "wantClose c' = wantClose c" "subscribedChannels c' = subscribedChannels c"
    "txn c' = txn c" "wantWrite c' = wantWrite c"
  by (subst assms, simp)+

text \<open>Reply after a change of the transaction state that keeps the queue queueable.\<close>

lemma step_send:
  assumes w: "world_ok w" and c: "conns w fd = Some c"
    and t: "\<forall>qs. t = Some qs \<longrightarrow> (\<forall>q \<in> set qs. queueable q)"
    and f: "f c = send_replies rs (c\<lparr>txn := t\<rparr>)"
  shows "step_ok R w (update_conn fd f w)"
proof -
  have "conn_ok (c\<lparr>txn := t\<rparr>)" using world_okD(4) [OF w c] t by (auto simp: conn_ok_def conn_inv_def)
  then obtain c' where c': "send_replies rs (c\<lparr>txn := t\<rparr>) = Some c'" "conn_ok c'" "c' = (c\<lparr>txn := t\<rparr>)\<lparr>outb := outb c'\<rparr>"
    "pending c' = pending (c\<lparr>txn := t\<rparr>) @ concat (map reply_bytes rs)" by (rule conn_ok_send)
  note s = send_same [OF c'(3)]
  show ?thesis
    by (rule step_update [where c' = c', OF w c]) (use f c'(1,2,4) s in \<open>simp_all add: keeps_conn_def\<close>)
qed

lemma step_send_only:
  assumes w: "world_ok w" and c: "conns w fd = Some c" and f: "f c = send_replies rs c"
  shows "step_ok R w (update_conn fd f w)"
  using world_okD(4) [OF w c] f by (intro step_send [where t = "txn c", OF w c]) (simp_all add: conn_ok_def)

lemma step_reply:
  assumes w: "world_ok w" and c: "conns w fd = Some c"
  shows "step_ok R w (reply_to fd rs w)"
  unfolding reply_to_def by (rule step_send_only [OF w c]) (rule refl)

lemma step_reply_db:
  assumes w: "world_ok w" and c: "conns w fd = Some c" and "good_db db"
  shows "step_ok R w (reply_to fd rs (w\<lparr>wdb := db\<rparr>))"
proof -
  have k: "keeps R w (w\<lparr>wdb := db\<rparr>)" by (rule keeps_eq) simp_all
  show ?thesis
    by (rule step_trans [OF k step_reply [OF world_ok_db [OF w assms(3)], of fd c]]) (simp add: c)
qed

section \<open>Handlers of the server\<close>

lemma step_multi:
  assumes w: "world_ok w" and c: "conns w fd = Some c"
  shows "step_ok R w (cmdMulti fd w)" "step_ok R w (cmdDiscard fd w)"
proof -
  show "step_ok R w (cmdMulti fd w)" unfolding cmdMulti_def
  proof (cases "txn c = None")
    case True
    show "step_ok R w (update_conn fd (\<lambda>c. if txn c \<noteq> None then send_replies [Error ''ERR MULTI calls can not be nested''] c
       else send_replies [SimpleString ''OK''] (c\<lparr>txn := Some []\<rparr>)) w)"
      by (rule step_send [where t = "Some []", OF w c]) (simp_all add: True)
  next
    case False
    then show "step_ok R w (update_conn fd (\<lambda>c. if txn c \<noteq> None then send_replies [Error ''ERR MULTI calls can not be nested''] c
       else send_replies [SimpleString ''OK''] (c\<lparr>txn := Some []\<rparr>)) w)"
      by (intro step_send_only [OF w c]) auto
  qed
  show "step_ok R w (cmdDiscard fd w)" unfolding cmdDiscard_def
  proof (cases "txn c = None")
    case True
    then show "step_ok R w (update_conn fd (\<lambda>c. if txn c = None then send_replies [Error ''ERR DISCARD without MULTI''] c
       else send_replies [SimpleString ''OK''] (c\<lparr>txn := None\<rparr>)) w)"
      by (intro step_send_only [OF w c]) auto
  next
    case False
    then show "step_ok R w (update_conn fd (\<lambda>c. if txn c = None then send_replies [Error ''ERR DISCARD without MULTI''] c
       else send_replies [SimpleString ''OK''] (c\<lparr>txn := None\<rparr>)) w)"
      by (intro step_send [where t = None, OF w c]) auto
  qed
qed

text \<open>Subscriptions: \<open>f\<close> changes the registry and the set of channels of the connection together.\<close>

lemma step_ps:
  assumes w: "world_ok w" and c: "conns w fd = Some c"
    and f: "\<And>n reg' c'. f ch fd (channels w) c = (n, reg', c') \<Longrightarrow>
      ps_inv reg' ((conns w)(fd \<mapsto> c')) \<and> c' = c\<lparr>subscribedChannels := subscribedChannels c'\<rparr>"
  shows "step_ok R w (ps_step f what fd ch w)"
proof -
  obtain n reg' c' where e: "f ch fd (channels w) c = (n, reg', c')" by (metis prod_cases3)
  from f [OF e] have i: "ps_inv reg' ((conns w)(fd \<mapsto> c'))" and s: "c' = c\<lparr>subscribedChannels := subscribedChannels c'\<rparr>" by auto
  let ?w = "w\<lparr>channels := reg', conns := (conns w)(fd \<mapsto> c')\<rparr>"
  have same: "txn c' = txn c" "keeps_conn rd c c'" for rd by (subst s, simp add: keeps_conn_def)+
  have "conn_ok c'" using ps_invD(1) [OF i, of fd c'] world_okD(4) [OF w c] same by (simp add: conn_ok_def)
  then have "world_ok ?w" using w i by (auto simp: world_ok_def split: if_splits)
  moreover have "keeps R w ?w" using c same(2) by (auto simp: keeps_def option.rel_refl)
  ultimately show ?thesis
    using c e step_trans [OF _ step_reply [of ?w fd c']] by (simp add: ps_step_def)
qed

lemma step_ps_loop:
  assumes "world_ok w" "fd \<in> dom (conns w)" and f: "f = subscribe \<or> f = unsubscribe"
  shows "step_ok R w (ps_loop f what fd chs w)"
  using assms(1,2)
proof (induction chs arbitrary: w)
  case (Cons ch chs)
  obtain c where c: "conns w fd = Some c" using Cons.prems(2) by auto
  note i = subscribe_inv [OF world_okD(2) [OF Cons.prems(1)] c] unsubscribe_inv [OF world_okD(2) [OF Cons.prems(1)] c]
  have "step_ok R w (ps_step f what fd ch w)" using f i by (intro step_ps [OF Cons.prems(1) c]) auto
  then show ?case unfolding ps_loop.simps by (rule step_and_then) (use Cons keeps_dom in blast)
qed simp

lemma publish_ok:
  assumes "ps_inv reg cs"
  shows "\<exists>cs'. publish ch msg reg cs = Some (length (subscribers reg ch), cs') \<and>
    (\<forall>fd. \<not> listens cs fd ch \<longrightarrow> cs' fd = cs fd) \<and>
    (\<forall>fd. listens cs fd ch \<longrightarrow> (\<exists>c c'. cs fd = Some c \<and> cs' fd = Some c' \<and> conn_inv c' \<and>
       c' = c\<lparr>outb := outb c', wantWrite := True\<rparr> \<and>
       pending c' = pending c @ concat (map reply_bytes (push_message ch msg))))"
proof -
  note i = ps_invD [OF assms]
  have "\<exists>c. cs fd = Some c \<and> conn_inv c" if "fd \<in> set (subscribers reg ch)" for fd
    using that i(1) i(4) by (auto simp: listens_def split: option.splits)
  then have d: "\<exists>cs'. deliver ch msg (subscribers reg ch) 0 cs = Some (0 + length (subscribers reg ch), cs') \<and>
    (\<forall>fd. fd \<notin> set (subscribers reg ch) \<longrightarrow> cs' fd = cs fd) \<and>
    (\<forall>fd \<in> set (subscribers reg ch). \<exists>c c'. cs fd = Some c \<and> cs' fd = Some c' \<and> conn_inv c' \<and>
       c' = c\<lparr>outb := outb c', wantWrite := True\<rparr> \<and>
       pending c' = pending c @ concat (map reply_bytes (push_message ch msg)))"
    by (rule deliver_ok [OF i(2)])
  moreover have "publish ch msg reg cs = deliver ch msg (subscribers reg ch) 0 cs"
    by (simp add: publish_def subscribers_def split: option.split)
  ultimately show ?thesis using i(4) [of _ ch] by auto
qed

lemma step_publish:
  assumes w: "world_ok w" and fd: "fd \<in> dom (conns w)"
  shows "step_ok R w (cmdPublish fd args w)"
proof -
  note i = world_okD(2) [OF w]
  obtain n cs where p: "publish (args ! 1) (args ! 2) (channels w) (conns w) = Some (n, cs)"
    and same: "\<And>f. \<not> listens (conns w) f (args ! 1) \<Longrightarrow> cs f = conns w f"
    and told: "\<And>f. listens (conns w) f (args ! 1) \<Longrightarrow> \<exists>c c'. conns w f = Some c \<and> cs f = Some c' \<and> conn_inv c' \<and>
       c' = c\<lparr>outb := outb c', wantWrite := True\<rparr> \<and> pending c' = pending c @ concat (map reply_bytes (push_message (args ! 1) (args ! 2)))"
    using publish_ok [OF i, of "args ! 1" "args ! 2"] by blast
  have upd: "conns w f = None \<and> cs f = None \<or> (\<exists>c c'. conns w f = Some c \<and> cs f = Some c' \<and> conn_ok c' \<and>
      subscribedChannels c' = subscribedChannels c \<and> keeps_conn rd c c')" for f rd
  proof (cases "listens (conns w) f (args ! 1)")
    case False
    then show ?thesis using same [OF False] world_okD(4) [OF w, of f] by (cases "conns w f") auto
  next
    case True
    from told [OF True] obtain c c' where c': "conns w f = Some c" "cs f = Some c'" "conn_inv c'"
      "c' = c\<lparr>outb := outb c', wantWrite := True\<rparr>" "prefix (pending c) (pending c')"
      "pending c' = pending c @ concat (map reply_bytes (push_message (args ! 1) (args ! 2)))" by fastforce
    have "inb c' = inb c" "wantRead c' = wantRead c" "wantClose c' = wantClose c" "subscribedChannels c' = subscribedChannels c"
      "txn c' = txn c" by (subst c'(4), simp)+
    moreover have "pending c' \<noteq> []" unfolding c'(6) by (simp add: push_message_def)
    ultimately show ?thesis using c' world_okD(4) [OF w c'(1)] by (auto simp: keeps_conn_def conn_ok_def)
  qed
  let ?w = "w\<lparr>conns := cs\<rparr>"
  have "listens cs f ch = listens (conns w) f ch" for f ch using upd [of f True] by (auto simp: listens_def)
  then have l: "listens cs = listens (conns w)" by (intro ext)
  have ok: "conn_ok c" if "cs f = Some c" for f c using upd [of f True] that by auto
  have "ps_inv (channels w) cs" unfolding ps_inv_def l using i ok by (auto simp: ps_inv_def conn_ok_def)
  then have "world_ok ?w" using w ok by (auto simp: world_ok_def)
  moreover have "rel_option (keeps_conn rd) (conns w f) (cs f)" for f rd using upd [of f rd] by auto
  then have "keeps R w ?w" by (simp add: keeps_def)
  moreover obtain c' where "conns ?w fd = Some c'" using upd [of fd True] fd by auto
  ultimately show ?thesis using p step_trans [OF _ step_reply] by (simp add: cmdPublish_def)
qed

section \<open>Dispatch\<close>

text \<open>A handler other than EXEC.\<close>

lemma step_handler:
  assumes w: "world_ok w" and c: "conns w fd = Some c" and t: "tame args"
    and e: "e \<in> set all_commands" "arity_ok (arity e) args" "chandler e \<noteq> Exec" "upper (args ! 0) = cname e"
  shows "step_ok R w (call_handler run tb (chandler e) se fd args w)"
proof (cases "chandler e")
  case (Db h)
  have "safe_result (h (envs se 0) (wdb w) args)"
    using safe_handler [OF world_okD(1) [OF w] e(1) Db e(2)] t e(4) by (simp add: tame_def)
  then show ?thesis
    using Db step_reply_db [OF w c] by (auto simp: safe_result_def stoi_error_def split: sum.split)
next
  case BgRewriteAof
  have "keeps R w (w\<lparr>waof := a\<rparr>)" for a by (rule keeps_eq) simp_all
  then show ?thesis
    using BgRewriteAof step_trans [OF _ step_reply [of "w\<lparr>waof := _\<rparr>" fd c]] w c by (simp add: cmdBgRewriteAof_def world_ok_aof)
next
  case Unsubscribe
  then show ?thesis using c step_reply [OF w c] step_ps_loop [OF w] by (simp add: cmdUnsubscribe_def domI)
qed (use c step_reply [OF w c] step_multi [OF w c] step_ps_loop [OF w] step_publish [OF w] e(3) in
    \<open>simp_all add: cmdSubscribe_def domI\<close>)

text \<open>Only EXEC has the handler of EXEC.\<close>

lemma exec_entry: "e \<in> set all_commands \<Longrightarrow> chandler e = Exec \<longleftrightarrow> cname e = ''EXEC''"
  by (auto simp: all_commands_def stringCommands_def keyCommands_def listCommands_def hashCommands_def setCommands_def
      zsetCommands_def transactionCommands_def serverCommands_def)

lemma step_dispatch_with:
  assumes w: "world_ok w" and c: "conns w fd = Some c" and t: "tame args"
    and tb: "\<And>n e. tb n = Some e \<Longrightarrow> e \<in> set all_commands \<and> cname e = n"
    and ex: "\<And>e. tb ''EXEC'' = Some e \<Longrightarrow> upper (args ! 0) = ''EXEC'' \<Longrightarrow> step_ok R w (cmdExec run tb se fd w)"
  shows "step_ok R w (dispatch_with run tb se fd args w)"
proof (cases "tb (upper (args ! 0))")
  case None
  then show ?thesis using step_reply [OF w c] w by (simp add: dispatch_with_def lookup_def)
next
  case (Some e)
  note e = tb [OF Some]
  have "step_ok R w (call_handler run tb (chandler e) se fd args w)" if a: "arity_ok (arity e) args"
  proof (cases "chandler e = Exec")
    case True
    then show ?thesis using ex e Some exec_entry [of e] by simp
  next
    case False
    then show ?thesis using step_handler [OF w c t _ a] e by simp
  qed
  then show ?thesis using Some step_reply [OF w c] w by (simp add: dispatch_with_def lookup_def)
qed

lemma step_log: "world_ok w \<Longrightarrow> world_ok (log_write t env args w) \<and> keeps R w (log_write t env args w)"
  by (auto simp: log_write_def world_ok_aof intro: keeps_eq)

lemma step_exec_loop:
  assumes "world_ok w" "fd \<in> dom (conns w)" "\<forall>q \<in> set qs. queueable q"
  shows "step_ok R w (exec_loop (dispatch 0 server_table) server_table se i fd qs w)"
  using assms
proof (induction qs arbitrary: i w)
  case (Cons q qs)
  obtain c where c: "conns w fd = Some c" using Cons.prems(2) by auto
  have q: "tame q" "upper (q ! 0) \<noteq> ''EXEC''" using Cons.prems(3) by (auto simp: queueable_def)
  have "step_ok R w (dispatch 0 server_table (se\<lparr>envs := \<lambda>j. envs se (i + j)\<rparr>) fd q w)"
    unfolding dispatch.simps by (rule step_dispatch_with [OF Cons.prems(1) c q(1) server_table_in]) (simp_all add: q(2))
  then show ?case unfolding exec_loop.simps
  proof (rule step_and_then)
    fix w1 assume w1: "world_ok w1" "keeps R w w1"
    let ?w2 = "log_write server_table (envs se i) q w1"
    have l: "world_ok ?w2" "keeps R w1 ?w2" using step_log [OF w1(1)] by auto
    have "fd \<in> dom (conns ?w2)" using Cons.prems(2) keeps_dom [OF w1(2)] keeps_dom [OF l(2)] by simp
    then have "step_ok R ?w2 (exec_loop (dispatch 0 server_table) server_table se (i + 1) fd qs ?w2)"
      using Cons.IH [OF l(1)] Cons.prems(3) by simp
    then show "step_ok R w1 (exec_loop (dispatch 0 server_table) server_table se (i + 1) fd qs ?w2)"
      by (rule step_trans [OF l(2)])
  qed
qed simp

lemma step_exec:
  assumes w: "world_ok w" and c: "conns w fd = Some c"
  shows "step_ok R w (cmdExec (dispatch 0 server_table) server_table se fd w)"
proof (cases "txn c")
  case None
  then show ?thesis using c step_reply [OF w c] by (simp add: cmdExec_def)
next
  case (Some queued)
  have q: "\<forall>q \<in> set queued. queueable q" using world_okD(4) [OF w c] Some by (simp add: conn_ok_def)
  have clear: "step_ok R w2 (update_conn fd (\<lambda>c. Some (c\<lparr>txn := None\<rparr>)) w2)" if w2: "world_ok w2" "fd \<in> dom (conns w2)" for w2
  proof -
    obtain c2 where c2: "conns w2 fd = Some c2" using w2(2) by auto
    show ?thesis
      by (rule step_update [OF w2(1) c2 refl]) (use world_okD(4) [OF w2(1) c2] in \<open>simp_all add: conn_ok_def conn_inv_def keeps_conn_def\<close>)
  qed
  have "step_ok R w (and_then (reply_to fd [ArrayHeader (int (length queued))] w)
      (\<lambda>w1. and_then (exec_loop (dispatch 0 server_table) server_table se 1 fd queued w1)
        (\<lambda>w2. update_conn fd (\<lambda>c. Some (c\<lparr>txn := None\<rparr>)) w2)))"
    using c keeps_dom by (intro step_and_then step_reply [OF w c] step_exec_loop q clear) (blast dest: keeps_dom)+
  then show ?thesis using c Some by (simp add: cmdExec_def)
qed

lemma step_dispatch:
  assumes "world_ok w" "conns w fd = Some c" "tame args"
  shows "step_ok R w (dispatch 1 server_table se fd args w)"
  using step_dispatch_with [OF assms server_table_in] step_exec [OF assms(1,2)] by simp

lemma step_process_command:
  assumes w: "world_ok w" and c: "conns w fd = Some c" and t: "tame args"
  shows "step_ok R w (process_command se fd args w)"
proof -
  have mt: "world_ok (w1\<lparr>wmetrics := recordCommand env args (wmetrics w1)\<rparr>)" "keeps R w1 (w1\<lparr>wmetrics := m\<rparr>)"
    if "world_ok w1" for w1 env m
    using that metrics_inv_record by (auto simp: world_ok_def intro: keeps_eq)
  have d: "step_ok R w (and_then (dispatch 1 server_table se fd args w)
                   (\<lambda>w1. let w2 = w1\<lparr>wmetrics := recordCommand (envs se 0) args (wmetrics w1)\<rparr>
                         in Inr (if b then log_write server_table (envs se 0) args w2 else w2)))" for b
    using mt step_log [OF mt(1)] keeps_trans [OF mt(2) step_log [OF mt(1), THEN conjunct2]]
    by (intro step_and_then [OF step_dispatch [OF w c t]]) (auto simp: Let_def)
  have q: "step_ok R w (update_conn fd (\<lambda>c. send_replies [SimpleString ''QUEUED''] (c\<lparr>txn := Some (queued @ [args])\<rparr>)) w)"
    if "txn c = Some queued" "queueable args" for queued
    by (rule step_send [where t = "Some (queued @ [args])", OF w c]) (use world_okD(4) [OF w c] that in \<open>auto simp: conn_ok_def\<close>)
  have "queueable args" if "args \<noteq> []" "upper (args ! 0) \<notin> {''EXEC'', ''DISCARD'', ''MULTI''}"
    using that t by (simp add: queueable_def)
  then show ?thesis
    unfolding process_command_def c option.case Let_def using w step_reply [OF w c] d [of True] d [of False] q
    by (auto simp: Let_def split: option.split)
qed

section \<open>The parse loop\<close>

definition with_input :: "nat \<Rightarrow> buffer \<Rightarrow> world \<Rightarrow> world" where
  "with_input fd b w = set_conn fd (\<lambda>c. c\<lparr>inb := b\<rparr>) w"

text \<open>Running a list of commands, one after the other until one of them throws; when all have run, \<open>rest\<close>
  is what stays in the input.\<close>

inductive serves :: "(nat \<Rightarrow> sysenv) \<Rightarrow> nat \<Rightarrow> bytes \<Rightarrow> nat \<Rightarrow> bytes list list \<Rightarrow> world \<Rightarrow> outcome \<Rightarrow> bool"
  for ses fd rest where
  served: "buf_inv b \<Longrightarrow> readable b = rest \<Longrightarrow> serves ses fd rest i [] w (Inr (with_input fd b w))"
| thrown: "buf_inv b \<Longrightarrow> process_command (ses i) fd args (with_input fd b w) = Inl e \<Longrightarrow> serves ses fd rest i (args # cmds) w (Inl e)"
| ran: "buf_inv b \<Longrightarrow> process_command (ses i) fd args (with_input fd b w) = Inr w1 \<Longrightarrow> serves ses fd rest (i + 1) cmds w1 r \<Longrightarrow>
    serves ses fd rest i (args # cmds) w r"

inductive_simps serves_Nil: "serves ses fd rest i [] w r"
inductive_simps serves_Cons: "serves ses fd rest i (args # cmds) w r"

lemma with_input_eq: "conns w fd = Some c \<Longrightarrow> with_input fd b w = w\<lparr>conns := (conns w)(fd \<mapsto> c\<lparr>inb := b\<rparr>)\<rparr>"
  by (simp add: with_input_def set_conn_def)

lemma keeps_mono: "keeps R w w' \<Longrightarrow> R \<subseteq> R' \<Longrightarrow> keeps R' w w'"
proof -
  assume k: "keeps R w w'" and s: "R \<subseteq> R'"
  have "rel_option (keeps_conn (f \<in> R')) (conns w f) (conns w' f)" for f
  proof (rule option.rel_mono_strong)
    show "rel_option (keeps_conn (f \<in> R)) (conns w f) (conns w' f)" using k by (simp add: keeps_def)
  qed (use s in \<open>auto simp: keeps_conn_def\<close>)
  then show ?thesis using k by (simp add: keeps_def)
qed

lemma with_input_ok:
  assumes w: "world_ok w" and c: "conns w fd = Some c" and b: "buf_inv b" and fd: "fd \<in> R"
  shows "world_ok (with_input fd b w)" "keeps R w (with_input fd b w)" "conns (with_input fd b w) fd = Some (c\<lparr>inb := b\<rparr>)"
proof -
  have "step_ok R w (update_conn fd (\<lambda>c. Some (c\<lparr>inb := b\<rparr>)) w)"
    by (rule step_update [OF w c refl])
      (use world_okD(4) [OF w c] b fd in \<open>simp_all add: conn_ok_def conn_inv_def keeps_conn_def\<close>)
  then show "world_ok (with_input fd b w)" "keeps R w (with_input fd b w)"
    using c by (simp_all add: update_conn_def with_input_eq)
  show "conns (with_input fd b w) fd = Some (c\<lparr>inb := b\<rparr>)" using c by (simp add: with_input_eq)
qed

lemma process_input_serves:
  assumes "world_ok w" "conns w fd = Some c" "length (received c) < n"
    and "\<forall>args \<in> set (fst (rf.decode_all (received c))). tame args"
  shows "\<exists>r. process_input n ses i fd w = Some r \<and> step_ok {fd} w r \<and>
    serves ses fd (snd (rf.decode_all (received c))) i (fst (rf.decode_all (received c))) w r"
  using assms
proof (induction n arbitrary: i w c)
  case (Suc n)
  have inv: "buf_inv (inb c)" using world_okD(4) [OF Suc.prems(1,2)] by (simp add: conn_ok_def conn_inv_def)
  note p = parse_decodeFrame [OF inv]
  show ?case
  proof (cases "decodeFrame (received c)")
    case None
    then have "parse (inb c) = Some (None, inb c)" using p by simp
    moreover have "rf.decode_all (received c) = ([], received c)" using None by (rule rf.decode_all_None)
    moreover have "c\<lparr>inb := inb c\<rparr> = c" by simp
    ultimately show ?thesis
      using Suc.prems(1,2) inv with_input_eq [OF Suc.prems(2), of "inb c"]
      by (auto simp: fun_upd_idem serves_Nil intro!: exI [of _ "inb c"])
  next
    case (Some ak)
    obtain args k where ak: "ak = (args, k)" by (cases ak)
    obtain b where b: "parse (inb c) = Some (Some args, b)" "buf_inv b" "readable b = drop k (received c)"
      using p Some ak by auto
    have k: "0 < k" "k \<le> length (received c)" using Some ak parseFrame_bound by (auto split: if_splits)
    note dec = rf.decode_all_Some [OF Some [unfolded ak]]
    let ?w = "with_input fd b w"
    note wi = with_input_ok [OF Suc.prems(1,2) b(2), of "{fd}"]
    have st: "step_ok {} ?w (process_command (ses i) fd args ?w)"
      using Suc.prems(4) dec by (intro step_process_command [OF wi(1,3)]) simp_all
    show ?thesis
    proof (cases "process_command (ses i) fd args ?w")
      case (Inl e)
      then show ?thesis using Suc.prems(2) b(1,2) st dec by (auto simp: with_input_eq serves_Cons)
    next
      case (Inr w1)
      then have w1: "world_ok w1" "keeps {} ?w w1" using st by simp_all
      obtain c1 where c1: "conns w1 fd = Some c1" "inb c1 = b"
        using keepsD [OF w1(2) wi(3)] by (auto simp: keeps_conn_def)
      have "length (received c1) < n" using c1(2) b(3) k Suc.prems(3) by simp
      then obtain r where r: "process_input n ses (i + 1) fd w1 = Some r" "step_ok {fd} w1 r"
        "serves ses fd (snd (rf.decode_all (received c1))) (i + 1) (fst (rf.decode_all (received c1))) w1 r"
        using Suc.IH [OF w1(1) c1(1), of "i + 1"] Suc.prems(4) dec c1(2) b(3) by auto
      have "keeps {fd} w w1" using keeps_trans [OF wi(2) keeps_mono [OF w1(2)]] by simp
      then have "step_ok {fd} w r" using r(2) step_trans by blast
      moreover have "process_input (Suc n) ses i fd w = Some r"
        using Suc.prems(2) b(1) Inr r(1) by (simp add: with_input_eq)
      ultimately show ?thesis using r(3) Inr dec c1(2) b(2,3) by (auto simp: serves_Cons)
    qed
  qed
qed simp

end
