(* ===== verification/AOF_Replay.thy ===== *)
theory AOF_Replay
  imports Server_Safety
begin

text \<open>
  What a restart makes of the log: the loader runs exactly the commands the file decodes to, in order.
  With the framing of the protocol this gives back what was logged, and after a crash in the middle of
  a write the commands before it.
\<close>

section \<open>The loader runs the commands of the file\<close>

fun replay :: "(nat \<Rightarrow> sysenv) \<Rightarrow> nat \<Rightarrow> nat \<Rightarrow> bytes list list \<Rightarrow> world \<Rightarrow> cpp_exception + nat \<times> world" where
  "replay ses fd i [] w = Inr (i, w)"
| "replay ses fd i (args # cmds) w =
     (if args = [] then replay ses fd i cmds w
      else case and_then (dispatch 0 load_table (ses i) fd args w) (drain fd) of
        Inl e \<Rightarrow> Inl e
      | Inr w' \<Rightarrow> replay ses fd (i + 1) cmds w')"

text \<open>The bytes that are read.\<close>

fun file_bytes :: "nat \<Rightarrow> read_result list \<Rightarrow> nat \<Rightarrow> bytes" where
  "file_bytes fileSize [] totalRead = []"
| "file_bytes fileSize (r # rs) totalRead =
     (if fileSize \<le> totalRead then []
      else case r of
        ReadBytes bs \<Rightarrow>
          (let got = take (fileSize - totalRead) bs in
           if got = [] then [] else got @ file_bytes fileSize rs (totalRead + length got))
      | ReadAgain \<Rightarrow> file_bytes fileSize rs totalRead
      | _ \<Rightarrow> [])"

lemma memcpy_in_space:
  assumes "advanceWrite (memcpy_in b bs) (length bs) = Some b'" "buf_inv b" "length bs \<le> writableBytes b"
  shows "writableBytes b' = writableBytes b - length bs"
  using assms by (auto simp: advanceWrite_def memcpy_in_def writableBytes_def buf_inv_def split: if_splits)

lemma read_file_ok:
  assumes "buf_inv b" "fileSize - totalRead \<le> writableBytes b"
  shows "\<exists>ob. read_file fileSize rs totalRead b = Inr ob \<and>
    (\<forall>b'. ob = Some b' \<longrightarrow> buf_inv b' \<and> readable b' = readable b @ file_bytes fileSize rs totalRead) \<and>
    (ob = None \<longrightarrow> ReadError \<in> set rs)"
  using assms
proof (induction rs arbitrary: totalRead b)
  case (Cons r rs)
  show ?case
  proof (cases r)
    case (ReadBytes bs)
    let ?got = "take (fileSize - totalRead) bs"
    show ?thesis
    proof (cases "fileSize \<le> totalRead \<or> ?got = []")
      case True
      then show ?thesis using Cons.prems ReadBytes by (auto simp: Let_def)
    next
      case False
      have g: "length ?got \<le> writableBytes b" using Cons.prems(2) by simp
      obtain b' where b': "advanceWrite (memcpy_in b ?got) (length ?got) = Some b'" "buf_inv b'" "readable b' = readable b @ ?got"
        using memcpy_in_spec [OF Cons.prems(1) g] by blast
      have "fileSize - (totalRead + length ?got) \<le> writableBytes b'"
        using memcpy_in_space [OF b'(1) Cons.prems(1) g] Cons.prems(2) by (auto simp: min_def)
      from Cons.IH [OF b'(2) this] show ?thesis using False ReadBytes b' by (auto simp: Let_def)
    qed
  qed (use Cons in \<open>auto\<close>)
qed simp

lemma load_loop_replay:
  assumes "buf_inv b" "length (readable b) < n"
  shows "load_loop n ses fd cnt b w = Some (replay ses fd cnt (fst (rf.decode_all (readable b))) w)"
  using assms
proof (induction n arbitrary: cnt b w)
  case (Suc n)
  note p = parse_decodeFrame [OF Suc.prems(1)]
  have z: "readableBytes b = 0 \<longleftrightarrow> readable b = []" using length_readable [OF Suc.prems(1)] by (metis length_0_conv)
  show ?case
  proof (cases "decodeFrame (readable b)")
    case None
    then show ?thesis using p rf.decode_all_None [OF None] by simp
  next
    case (Some ak)
    obtain args k where ak: "ak = (args, k)" by (cases ak)
    obtain b' where b': "parse b = Some (Some args, b')" "buf_inv b'" "readable b' = drop k (readable b)"
      using p Some ak by auto
    have k: "0 < k" "k \<le> length (readable b)" "readable b \<noteq> []" using Some ak parseFrame_bound by (auto split: if_splits)
    then have "length (readable b') < n" using b'(3) Suc.prems(2) by simp
    note IH = Suc.IH [OF b'(2) this]
    show ?thesis
      using z k(3) b'(1,3) IH rf.decode_all_Some [OF Some [unfolded ak]] by (auto split: sum.split)
  qed
qed simp

lemma load_file:
  assumes "fileSize \<noteq> 0" and "ReadError \<notin> set rs"
  shows "load (File fileSize rs) (Some fd) ses w =
    Some (case replay ses fd 0 (fst (rf.decode_all (file_bytes fileSize rs 0))) (w\<lparr>conns := (conns w)(fd \<mapsto> new_connection)\<rparr>) of
        Inl e \<Rightarrow> Inl e
      | Inr (cnt, w') \<Rightarrow> Inr (Some cnt, w'\<lparr>conns := (conns w')(fd := None)\<rparr>))"
proof -
  let ?b = "ensureWritableBytes new_buffer fileSize"
  have inv: "buf_inv ?b" "readable ?b = []" "fileSize - 0 \<le> writableBytes ?b"
    using ensureWritableBytes_spec [OF buf_inv_new, of fileSize] by simp_all
  obtain b where b: "read_file fileSize rs 0 ?b = Inr (Some b)" "buf_inv b" "readable b = file_bytes fileSize rs 0"
    using read_file_ok [OF inv(1,3), of rs] assms(2) inv(2) by (metis append_Nil option.exhaust)
  have "load_loop (Suc (readableBytes b)) ses fd 0 b w' =
      Some (replay ses fd 0 (fst (rf.decode_all (file_bytes fileSize rs 0))) w')" for w'
    using load_loop_replay [OF b(2), of "Suc (readableBytes b)" ses fd 0 w'] length_readable [OF b(2)] b(3) by simp
  then show ?thesis using assms(1) b(1) by (simp add: load_def del: load_loop.simps split: sum.split prod.split)
qed

lemma file_bytes_once: "file_bytes (length bs) [ReadBytes bs] 0 = bs"
  by (cases bs) simp_all

section \<open>Replaying keeps the invariant\<close>

lemma load_table_map:
  "load_table = map_of (rev (map (\<lambda>e. (cname e, e)) (stringCommands @ keyCommands @ listCommands @ hashCommands @ setCommands @
     zsetCommands @ transactionCommands @ serverCommands @ [cmd ''BGREWRITEAOF'' 1 False BgRewriteAof])))"
  (is "_ = map_of (rev (map _ ?es))")
proof -
  have "set ?es \<subseteq> set all_commands" by (auto simp: all_commands_def)
  then have up: "\<forall>e \<in> set ?es. upper (cname e) = cname e" using upper_names by blast
  have "registerAll (as @ bs) t = registerAll bs (registerAll as t)" for as bs t by (simp add: registerAll_def)
  then have "load_table = registerAll ?es Map.empty"
    unfolding load_table_def new_command_table_def by (simp only: append_assoc)
  then show ?thesis by (simp only: registerAll_map [OF up] empty_map_add)
qed

lemma load_table_in: "load_table n = Some e \<Longrightarrow> e \<in> set all_commands \<and> cname e = n"
proof -
  assume a: "load_table n = Some e"
  let ?es = "stringCommands @ keyCommands @ listCommands @ hashCommands @ setCommands @ zsetCommands @ transactionCommands @
     serverCommands @ [cmd ''BGREWRITEAOF'' 1 False BgRewriteAof]"
  have "(n, e) \<in> (\<lambda>e. (cname e, e)) ` set ?es"
    using a unfolding load_table_map by (drule_tac map_of_SomeD) (simp only: set_rev set_map)
  moreover have "set ?es \<subseteq> set all_commands" by (auto simp: all_commands_def)
  ultimately show ?thesis by blast
qed

lemma load_table_no_exec: "load_table ''EXEC'' = None"
  by code_simp

text \<open>While the log is loaded nothing is subscribed.\<close>

lemma update_conn_channels: "update_conn fd f w = Inr w' \<Longrightarrow> channels w' = channels w"
  by (auto simp: update_conn_def split: option.splits)

lemma load_channels:
  assumes "dispatch 0 load_table se fd args w = Inr w'"
  shows "channels w' = channels w"
proof (cases "load_table (upper (args ! 0))")
  case None
  then show ?thesis using assms by (auto simp: dispatch_with_def lookup_def reply_to_def dest: update_conn_channels split: if_splits)
next
  case (Some e)
  have "chandler e \<notin> {Exec, Subscribe, Unsubscribe, Publish}"
  proof
    assume "chandler e \<in> {Exec, Subscribe, Unsubscribe, Publish}"
    then have "cname e \<in> {''EXEC'', ''SUBSCRIBE'', ''UNSUBSCRIBE'', ''PUBLISH''}"
      using load_table_in [OF Some] by (auto simp: all_commands_def stringCommands_def keyCommands_def listCommands_def
          hashCommands_def setCommands_def zsetCommands_def transactionCommands_def serverCommands_def)
    moreover have "\<forall>n \<in> {''EXEC'', ''SUBSCRIBE'', ''UNSUBSCRIBE'', ''PUBLISH''}. load_table n = None" by code_simp
    ultimately show False using Some load_table_in [OF Some] by auto
  qed
  then have "call_handler run tb (chandler e) se fd args w = Inr w' \<Longrightarrow> channels w' = channels w" for run tb
    by (cases "chandler e") (auto simp: reply_to_def cmdBgRewriteAof_def cmdMulti_def cmdDiscard_def dest!: update_conn_channels split: sum.splits)
  then show ?thesis
    using assms Some by (auto simp: dispatch_with_def lookup_def reply_to_def dest: update_conn_channels split: if_splits)
qed

definition load_ok :: "nat \<Rightarrow> world \<Rightarrow> world \<Rightarrow> bool" where
  "load_ok fd w w' = (world_ok w' \<and> fds w' = fds w \<and> eloop w' = eloop w \<and> channels w' = channels w \<and> dom (conns w') = dom (conns w))"

lemma drain_ok:
  assumes w: "world_ok w" and c: "conns w fd = Some c"
  shows "\<exists>w'. drain fd w = Inr w' \<and> load_ok fd w w'"
proof -
  have ok: "conn_ok c" by (rule world_okD(4) [OF w c])
  then have b: "buf_inv (outb c)" by (simp add: conn_ok_def conn_inv_def)
  obtain o' where o': "consume (outb c) (readableBytes (outb c)) = Some o'" "buf_inv o'"
    using consume_ok [OF b, of "readableBytes (outb c)"] length_readable [OF b] by auto
  let ?c = "c\<lparr>outb := o'\<rparr>"
  have c': "conn_ok ?c" using ok o'(2) by (simp add: conn_ok_def conn_inv_def)
  have "ps_inv (channels w) ((conns w)(fd \<mapsto> ?c))"
    by (rule ps_inv_conn [OF world_okD(2) [OF w] c]) (use c' in \<open>simp_all add: conn_ok_def\<close>)
  then have "world_ok (w\<lparr>conns := (conns w)(fd \<mapsto> ?c)\<rparr>)" using w c' by (simp add: world_ok_def)
  moreover have "dom ((conns w)(fd \<mapsto> ?c)) = dom (conns w)" using c by auto
  ultimately show ?thesis using c o'(1) by (simp add: drain_def update_conn_def load_ok_def)
qed

lemma replay_ok:
  assumes "world_ok w" "fd \<in> dom (conns w)" "\<forall>args \<in> set cmds. tame args"
  shows "case replay ses fd i cmds w of Inl e \<Rightarrow> stoi_error e | Inr (n, w') \<Rightarrow> load_ok fd w w'"
  using assms
proof (induction cmds arbitrary: i w)
  case (Cons args cmds)
  obtain c where c: "conns w fd = Some c" using Cons.prems(2) by auto
  have st: "step_ok {} w (dispatch 0 load_table (ses i) fd args w)" unfolding dispatch.simps
    using Cons.prems(3) load_table_no_exec by (intro step_dispatch_with [OF Cons.prems(1) c _ load_table_in]) simp_all
  show ?case
  proof (cases "dispatch 0 load_table (ses i) fd args w")
    case (Inl e)
    then show ?thesis using st Cons by (auto simp: and_then_def)
  next
    case (Inr w1)
    then have w1: "world_ok w1" "keeps {} w w1" using st by simp_all
    have ch: "channels w1 = channels w" by (rule load_channels [OF Inr])
    obtain c1 where c1: "conns w1 fd = Some c1" using keepsD [OF w1(2) c] by blast
    obtain w2 where w2: "drain fd w1 = Inr w2" "load_ok fd w1 w2" using drain_ok [OF w1(1) c1] by blast
    have l2: "load_ok fd w w2"
      using w2(2) w1(2) ch keeps_dom [OF w1(2)] by (simp add: load_ok_def keeps_def)
    have "load_ok fd w w'" if "load_ok fd w2 w'" for w' using l2 that by (simp add: load_ok_def)
    moreover have "case replay ses fd (i + 1) cmds w2 of Inl e \<Rightarrow> stoi_error e | Inr (n, w') \<Rightarrow> load_ok fd w2 w'"
      using l2 Cons.prems by (intro Cons.IH) (auto simp: load_ok_def)
    ultimately show ?thesis using Inr w2(1) Cons by (auto simp: and_then_def split: sum.splits)
  qed
qed (simp add: load_ok_def)

fun source_bytes :: "aof_source \<Rightarrow> bytes" where
  "source_bytes (File fileSize rs) = file_bytes fileSize rs 0"
| "source_bytes _ = []"

lemma ps_inv_add:
  assumes "ps_inv reg Map.empty" "conn_inv c" "subscribedChannels c = []"
  shows "ps_inv reg [fd \<mapsto> c]"
proof -
  have "listens [fd \<mapsto> c] = listens Map.empty" using assms(3) by (intro ext) (simp add: listens_def)
  then show ?thesis using assms by (auto simp: ps_inv_def split: if_splits)
qed

lemma load_safe:
  assumes w: "world_ok w" and c: "conns w = Map.empty" and t: "\<forall>args \<in> set (fst (rf.decode_all (source_bytes src))). tame args"
  shows "\<exists>x. load src pipe ses w = Some x \<and>
    (case x of Inl e \<Rightarrow> stoi_error e
     | Inr (n, w') \<Rightarrow> world_ok w' \<and> conns w' = Map.empty \<and> fds w' = fds w \<and> eloop w' = eloop w)"
proof (cases "\<exists>fileSize rs fd. src = File fileSize rs \<and> fileSize \<noteq> 0 \<and> pipe = Some fd")
  case False
  have "\<exists>n. load src pipe ses w = Some (Inr (n, w))"
  proof (cases src)
    case (File fileSize rs)
    obtain ob where "read_file fileSize rs 0 (ensureWritableBytes new_buffer fileSize) = Inr ob"
      using read_file_ok [of "ensureWritableBytes new_buffer fileSize" fileSize 0 rs] ensureWritableBytes_spec [OF buf_inv_new, of fileSize]
      by auto
    then show ?thesis using False File by (cases pipe; cases ob) (auto simp: load_def)
  qed (simp_all add: load_def)
  then show ?thesis using w c by auto
next
  case True
  then obtain fileSize rs fd where s: "src = File fileSize rs" "fileSize \<noteq> 0" "pipe = Some fd" by blast
  let ?b = "ensureWritableBytes new_buffer fileSize"
  have "\<exists>ob. read_file fileSize rs 0 ?b = Inr ob \<and>
      (\<forall>b'. ob = Some b' \<longrightarrow> buf_inv b' \<and> readable b' = file_bytes fileSize rs 0)"
    using read_file_ok [of ?b fileSize 0 rs] ensureWritableBytes_spec [OF buf_inv_new, of fileSize] by auto
  then obtain ob where ob: "read_file fileSize rs 0 ?b = Inr ob"
    "\<And>b'. ob = Some b' \<Longrightarrow> buf_inv b' \<and> readable b' = file_bytes fileSize rs 0" by blast
  show ?thesis
  proof (cases ob)
    case None
    then show ?thesis using s ob(1) w c by (simp add: load_def)
  next
    case (Some b)
    let ?w = "w\<lparr>conns := [fd \<mapsto> new_connection]\<rparr>"
    have b: "buf_inv b" "readable b = file_bytes fileSize rs 0" using ob(2) [OF Some] by auto
    have "ps_inv (channels w) [fd \<mapsto> new_connection]"
      using world_okD(2) [OF w] c by (intro ps_inv_add conn_inv_new) (simp_all add: new_connection_def)
    moreover have "conn_ok new_connection" using conn_inv_new by (simp add: conn_ok_def new_connection_def)
    ultimately have wk: "world_ok ?w" using w by (auto simp: world_ok_def split: if_splits)
    let ?r = "replay ses fd 0 (fst (rf.decode_all (file_bytes fileSize rs 0))) ?w"
    have r: "case ?r of Inl e \<Rightarrow> stoi_error e | Inr (n, w') \<Rightarrow> load_ok fd ?w w'"
      using t s(1) by (intro replay_ok [OF wk]) simp_all
    have fin: "world_ok (w'\<lparr>conns := Map.empty\<rparr>) \<and> (conns w')(fd := None) = Map.empty" if l: "load_ok fd ?w w'" for w'
    proof
      have "ps_inv (channels w) Map.empty" using world_okD(2) [OF w] c by simp
      then show "world_ok (w'\<lparr>conns := Map.empty\<rparr>)" using l by (simp add: load_ok_def world_ok_def)
      have "dom (conns w') = {fd}" using l by (simp add: load_ok_def)
      then have "dom ((conns w')(fd := None)) = {}" by simp
      then show "(conns w')(fd := None) = Map.empty" by (simp only: dom_eq_empty_conv)
    qed
    have "load src pipe ses w = Some (case ?r of Inl e \<Rightarrow> Inl e
      | Inr (cnt, w') \<Rightarrow> Inr (Some cnt, w'\<lparr>conns := (conns w')(fd := None)\<rparr>))"
      using s ob(1) Some load_loop_replay [OF b(1), of "Suc (readableBytes b)" ses fd 0 ?w] length_readable [OF b(1)] b(2) c
      by (simp add: load_def del: load_loop.simps split: sum.split prod.split)
    then show ?thesis
      using r fin by (cases ?r) (auto simp: load_ok_def)
  qed
qed

end
