(* ===== verification/Loop_Safety.thy ===== *)
theory Loop_Safety
  imports AOF_Replay
begin

text \<open>
  The event loop keeps the server's invariant, and between two iterations no connection is forgotten:
  each one is registered with \<^verbatim>\<open>epoll\<close> for exactly what it waits for, and waits for something.
\<close>

section \<open>The invariant of the loop\<close>

text \<open>What holds of a connection that no handler is working on.\<close>

definition idle_ok :: "event_loop \<Rightarrow> nat \<Rightarrow> connection \<Rightarrow> bool" where
  "idle_ok el fd c = (wantClose c \<or>
     ((wantRead c \<or> pending c \<noteq> []) \<and> (interest el fd = Some (desired c) \<or> pending c \<noteq> [])))"

text \<open>\<open>lfd\<close> is the descriptor of the listener; \<open>X\<close> the connections being worked on.\<close>

definition loop_ok :: "nat \<Rightarrow> nat set \<Rightarrow> world \<Rightarrow> bool" where
  "loop_ok lfd X w = (world_ok w \<and> distinct (fds w) \<and> set (fds w) = dom (conns w) \<and>
     dom (interest (eloop w)) = insert lfd (dom (conns w)) \<and> lfd \<notin> dom (conns w) \<and>
     (\<forall>fd c. conns w fd = Some c \<longrightarrow> (wantWrite c \<and> \<not> wantClose c \<longrightarrow> pending c \<noteq> []) \<and> (fd \<in> X \<or> idle_ok (eloop w) fd c)))"

text \<open>Between iterations: nobody wants to close, the interest set is exact.\<close>

definition between :: "nat \<Rightarrow> world \<Rightarrow> bool" where
  "between lfd w = (loop_ok lfd {} w \<and>
     (\<forall>fd c. conns w fd = Some c \<longrightarrow> \<not> wantClose c \<and> (wantRead c \<or> pending c \<noteq> []) \<and>
        interest (eloop w) fd = Some (wantRead c, pending c \<noteq> [])))"

lemma loop_okD:
  assumes "loop_ok lfd X w"
  shows "world_ok w" "distinct (fds w)" "set (fds w) = dom (conns w)"
    "dom (interest (eloop w)) = insert lfd (dom (conns w))" "lfd \<notin> dom (conns w)"
    "conns w fd = Some c \<Longrightarrow> wantWrite c \<Longrightarrow> wantClose c \<or> pending c \<noteq> []"
    "conns w fd = Some c \<Longrightarrow> fd \<notin> X \<Longrightarrow> idle_ok (eloop w) fd c"
  using assms by (auto simp: loop_ok_def)

lemma loop_mono: "loop_ok lfd X w \<Longrightarrow> X \<subseteq> Y \<Longrightarrow> loop_ok lfd Y w"
  unfolding loop_ok_def by blast

lemma keepsD':
  assumes "keeps R w w'" "conns w' fd = Some c'"
  obtains c where "conns w fd = Some c" "keeps_conn (fd \<in> R) c c'"
  using assms unfolding keeps_def by (metis option.rel_cases option.distinct(1) option.inject)

lemma loop_keeps:
  assumes l: "loop_ok lfd X w" and w': "world_ok w'" and k: "keeps R w w'"
  shows "loop_ok lfd X w'"
proof -
  have e: "fds w' = fds w" "eloop w' = eloop w" using k by (simp_all add: keeps_def)
  have "(wantWrite c' \<and> \<not> wantClose c' \<longrightarrow> pending c' \<noteq> []) \<and> (fd \<in> X \<or> idle_ok (eloop w) fd c')" if c': "conns w' fd = Some c'" for fd c'
  proof -
    obtain c where c: "conns w fd = Some c" "keeps_conn (fd \<in> R) c c'" by (rule keepsD' [OF k c'])
    have "pending c' \<noteq> []" if "pending c \<noteq> []" using c(2) that by (auto simp: keeps_conn_def)
    then show ?thesis
      using loop_okD(6,7) [OF l c(1)] c(2) by (auto simp: keeps_conn_def idle_ok_def desired_def)
  qed
  then show ?thesis
    using loop_okD(2-5) [OF l] w' unfolding loop_ok_def e keeps_dom [OF k] by simp
qed

lemma pending_iff: "conn_ok c \<Longrightarrow> readableBytes (outb c) = 0 \<longleftrightarrow> pending c = []"
  using length_readable [of "outb c"] by (metis conn_inv_def conn_ok_def length_0_conv)

text \<open>Replacing one connection that is being worked on.\<close>

lemma loop_set_conn:
  assumes l: "loop_ok lfd {fd} w" and c: "conns w fd = Some c" and c': "conn_ok c'"
    "subscribedChannels c' = subscribedChannels c" "wantWrite c' \<Longrightarrow> wantClose c' \<or> pending c' \<noteq> []"
  shows "loop_ok lfd {fd} (w\<lparr>conns := (conns w)(fd \<mapsto> c')\<rparr>)"
proof -
  have "ps_inv (channels w) ((conns w)(fd \<mapsto> c'))"
    by (rule ps_inv_conn [OF world_okD(2) [OF loop_okD(1) [OF l]] c _ c'(2)]) (use c'(1) in \<open>simp add: conn_ok_def\<close>)
  then have "world_ok (w\<lparr>conns := (conns w)(fd \<mapsto> c')\<rparr>)"
    using loop_okD(1) [OF l] c'(1) by (auto simp: world_ok_def split: if_splits)
  moreover have "dom ((conns w)(fd \<mapsto> c')) = dom (conns w)" using c by auto
  ultimately show ?thesis using l c'(3) unfolding loop_ok_def by auto
qed

lemma loop_interest:
  assumes l: "loop_ok lfd {fd} w" and i: "interest (eloop w) fd \<noteq> None"
  shows "loop_ok lfd {fd} (w\<lparr>eloop := (eloop w)\<lparr>interest := (interest (eloop w))(fd \<mapsto> ev)\<rparr>\<rparr>)" (is "loop_ok _ _ ?w")
proof -
  have "fd' = fd \<or> idle_ok (eloop ?w) fd' c" if "conns w fd' = Some c" for fd' c
    using loop_okD(7) [OF l that] by (auto simp: idle_ok_def)
  moreover have "world_ok ?w" using loop_okD(1) [OF l] by (simp add: world_ok_def)
  moreover have "dom (interest (eloop ?w)) = dom (interest (eloop w))" using i by auto
  moreover have "conns ?w = conns w" "fds ?w = fds w" by simp_all
  ultimately show ?thesis using l unfolding loop_ok_def by (simp only: singleton_iff) blast
qed

lemma loop_done:
  assumes l: "loop_ok lfd {fd} w" and c: "conns w fd = Some c" and i: "idle_ok (eloop w) fd c"
  shows "loop_ok lfd {} w"
proof -
  have "idle_ok (eloop w) f c'" if "conns w f = Some c'" for f c'
    using that loop_okD(7) [OF l that] c i by (cases "f = fd") simp_all
  then show ?thesis using l unfolding loop_ok_def by blast
qed

section \<open>Events of one client\<close>

text \<open>The bytes that reach the parser in an event are those already there and those just read.\<close>

definition input_of :: "client_event \<Rightarrow> connection \<Rightarrow> bytes" where
  "input_of ev c = received c @
     (case read_res ev of ReadBytes bs \<Rightarrow> take (writableBytes (ensureWritableBytes (inb c) kReadBufSize)) bs | _ \<Rightarrow> [])"

definition client_tame :: "nat \<Rightarrow> client_event \<Rightarrow> world \<Rightarrow> bool" where
  "client_tame fd ev w =
     (case conns w fd of None \<Rightarrow> True
      | Some c \<Rightarrow> epollErr ev \<or> \<not> epollIn ev \<or> (\<forall>args \<in> set (fst (rf.decode_all (input_of ev c))). tame args))"

definition loop_result :: "nat \<Rightarrow> nat set \<Rightarrow> world \<Rightarrow> outcome option \<Rightarrow> bool" where
  "loop_result lfd X w r = (\<exists>x. r = Some x \<and> (case x of Inl e \<Rightarrow> stoi_error e | Inr w' \<Rightarrow> loop_ok lfd X w' \<and> fds w' = fds w))"

lemma conn_ok_flags [simp]:
  "conn_ok (c\<lparr>wantRead := b\<rparr>) = conn_ok c" "conn_ok (c\<lparr>wantWrite := b\<rparr>) = conn_ok c" "conn_ok (c\<lparr>wantClose := b\<rparr>) = conn_ok c"
  by (simp_all add: conn_ok_def conn_inv_def)

lemma read_phase_ok:
  assumes l: "loop_ok lfd {} w" and c: "conns w fd = Some c"
    and t: "\<forall>args \<in> set (fst (rf.decode_all (input_of ev c))). tame args"
  shows "loop_result lfd {fd} w (read_phase fd ev c w)"
proof -
  note ok = world_okD(4) [OF loop_okD(1) [OF l] c]
  obtain okay c1 where c1: "handleRead (read_res ev) c = Some (okay, c1)" "conn_inv c1" "c1 = c\<lparr>inb := inb c1\<rparr>"
    "received c1 = input_of ev c"
    using handleRead_ok [of c "read_res ev"] ok unfolding conn_ok_def input_of_def by blast
  define c2 where "c2 = (if okay then c1 else c1\<lparr>wantRead := False\<rparr>)"
  let ?w = "w\<lparr>conns := (conns w)(fd \<mapsto> c2)\<rparr>"
  have same: "txn c2 = txn c" "subscribedChannels c2 = subscribedChannels c" "wantWrite c2 = wantWrite c"
    "wantClose c2 = wantClose c" "outb c2 = outb c" "inb c2 = inb c1"
    unfolding c2_def by (subst c1(3), simp)+
  have "conn_ok c2" using c1(2) ok same unfolding conn_ok_def by (auto simp: c2_def conn_inv_def)
  then have l1: "loop_ok lfd {fd} ?w"
    using loop_okD(6) [OF l c] same by (intro loop_set_conn [OF loop_mono [OF l] c]) auto
  have c2: "conns ?w fd = Some c2" by simp
  have inv: "buf_inv (inb c2)" using \<open>conn_ok c2\<close> by (simp add: conn_ok_def conn_inv_def)
  have rc: "received c2 = input_of ev c" using same(6) c1(4) by simp
  have "\<exists>r. process_input (Suc (readableBytes (inb c2))) (cmd_envs ev) 0 fd ?w = Some r \<and> step_ok {fd} ?w r"
    using process_input_serves [OF loop_okD(1) [OF l1] c2, of "Suc (readableBytes (inb c2))" "cmd_envs ev" 0]
      length_readable [OF inv] t unfolding rc by auto
  then obtain r where r: "process_input (Suc (readableBytes (inb c2))) (cmd_envs ev) 0 fd ?w = Some r" "step_ok {fd} ?w r" by blast
  have rp: "read_phase fd ev c w = (case r of Inl e \<Rightarrow> Some (Inl e)
      | Inr w1 \<Rightarrow> Some (Inr (set_conn fd (\<lambda>c. if readableBytes (outb c) > 0 then c\<lparr>wantWrite := True\<rparr> else c) w1)))"
    using r(1) unfolding c2_def by (simp only: read_phase_def c1(1) Let_def option.case prod.case)
  show ?thesis
  proof (cases r)
    case (Inl e)
    then show ?thesis using rp r(2) by (simp add: loop_result_def)
  next
    case (Inr w1)
    then have w1: "world_ok w1" "keeps {fd} ?w w1" using r(2) by auto
    obtain c3 where c3: "conns w1 fd = Some c3" using keepsD [OF w1(2) c2] by blast
    note l3 = loop_keeps [OF l1 w1]
    let ?c4 = "if readableBytes (outb c3) > 0 then c3\<lparr>wantWrite := True\<rparr> else c3"
    have "conn_ok c3" by (rule world_okD(4) [OF w1(1) c3])
    then have "loop_ok lfd {fd} (w1\<lparr>conns := (conns w1)(fd \<mapsto> ?c4)\<rparr>)"
      using pending_iff [of c3] loop_okD(6) [OF l3 c3] by (intro loop_set_conn [OF l3 c3]) (auto split: if_splits)
    moreover have "fds w1 = fds w" using w1(2) by (simp add: keeps_def)
    ultimately show ?thesis using rp Inr c3 by (simp add: loop_result_def set_conn_def)
  qed
qed

lemma write_phase_ok:
  assumes ok: "conn_ok c" and ww: "wantWrite c \<Longrightarrow> wantClose c \<or> pending c \<noteq> []"
  shows "\<exists>c'. write_phase ev c = Some c' \<and> conn_ok c' \<and> subscribedChannels c' = subscribedChannels c \<and>
    (wantWrite c' \<longrightarrow> wantClose c' \<or> pending c' \<noteq> [])"
proof (cases "epollOut ev \<and> \<not> wantClose c")
  case True
  obtain okay c1 where c1: "handleWrite (write_res ev) c = Some (okay, c1)" "conn_inv c1" "c1 = c\<lparr>outb := outb c1\<rparr>"
    using handleWrite_ok [of c "write_res ev"] ok unfolding conn_ok_def by blast
  note s = send_same [OF c1(3)]
  have ok1: "conn_ok c1" using c1(2) ok s by (simp add: conn_ok_def)
  then show ?thesis using True c1(1) s pending_iff [OF ok1] by (auto simp: write_phase_def)
qed (use ok ww in \<open>auto simp: write_phase_def\<close>)

text \<open>At the end of an event the connection is either to be closed or registered for what it waits for.\<close>

lemma finish_client:
  assumes l: "loop_ok lfd {fd} w" and c: "conns w fd = Some c"
  shows "loop_ok lfd {} (register fd (set_conn fd close_phase w))" "fds (register fd (set_conn fd close_phase w)) = fds w"
proof -
  have ok: "conn_ok c" by (rule world_okD(4) [OF loop_okD(1) [OF l] c])
  let ?c = "close_phase c" and ?w = "set_conn fd close_phase w"
  have w1: "?w = w\<lparr>conns := (conns w)(fd \<mapsto> ?c)\<rparr>" using c by (simp add: set_conn_def)
  have l1: "loop_ok lfd {fd} ?w" unfolding w1
    by (rule loop_set_conn [OF l c]) (use ok loop_okD(6) [OF l c] in \<open>auto simp: close_phase_def\<close>)
  have c1: "conns ?w fd = Some ?c" by (simp add: w1)
  have cl: "wantClose ?c \<or> wantRead ?c \<or> pending ?c \<noteq> []" using pending_iff [OF ok] by (simp add: close_phase_def)
  have i: "interest (eloop ?w) fd \<noteq> None" using loop_okD(4) [OF l1] c1 by blast
  show "fds (register fd ?w) = fds w" by (simp add: register_def w1 split: option.split)
  show "loop_ok lfd {} (register fd ?w)"
  proof (cases "wantClose ?c")
    case True
    then have "register fd ?w = ?w" using c1 by (simp add: register_def)
    moreover have "idle_ok (eloop ?w) fd ?c" using True by (simp add: idle_ok_def)
    ultimately show ?thesis using loop_done [OF l1 c1] by simp
  next
    case False
    let ?el = "(eloop ?w)\<lparr>interest := (interest (eloop ?w))(fd \<mapsto> desired ?c)\<rparr>"
    have r: "register fd ?w = ?w\<lparr>eloop := ?el\<rparr>" using False c1 i by (auto simp: register_def modFd_def)
    show ?thesis unfolding r
      by (rule loop_done [OF loop_interest [OF l1 i], where c = ?c]) (use c1 cl False in \<open>simp_all add: idle_ok_def\<close>)
  qed
qed

lemma handle_client_ok:
  assumes l: "loop_ok lfd {} w" and t: "client_tame fd ev w"
  shows "loop_result lfd {} w (handle_client fd ev w)"
proof (cases "conns w fd")
  case None
  then show ?thesis using l by (simp add: handle_client_def loop_result_def)
next
  case (Some c)
  have ok: "conn_ok c" by (rule world_okD(4) [OF loop_okD(1) [OF l] Some])
  have lf: "loop_ok lfd {fd} w" using loop_mono [OF l] by simp
  show ?thesis
  proof (cases "epollErr ev")
    case True
    let ?c = "c\<lparr>wantClose := True\<rparr>" and ?w = "w\<lparr>conns := (conns w)(fd \<mapsto> c\<lparr>wantClose := True\<rparr>)\<rparr>"
    have "loop_ok lfd {fd} ?w" by (rule loop_set_conn [OF lf Some]) (use ok in simp_all)
    then have "loop_ok lfd {} ?w" by (rule loop_done [where c = ?c]) (simp_all add: idle_ok_def)
    then show ?thesis using Some True by (simp add: handle_client_def loop_result_def set_conn_def)
  next
    case False
    have "loop_result lfd {fd} w (if epollIn ev then read_phase fd ev c w else Some (Inr w))"
      using read_phase_ok [OF l Some] t Some False lf by (auto simp: client_tame_def loop_result_def)
    then obtain x where x: "(if epollIn ev then read_phase fd ev c w else Some (Inr w)) = Some x"
      "case x of Inl e \<Rightarrow> stoi_error e | Inr w' \<Rightarrow> loop_ok lfd {fd} w' \<and> fds w' = fds w" unfolding loop_result_def by blast
    show ?thesis
    proof (cases x)
      case (Inl e)
      then show ?thesis using x Some False by (simp add: handle_client_def loop_result_def)
    next
      case (Inr w1)
      then have l1: "loop_ok lfd {fd} w1" "fds w1 = fds w" using x(2) by auto
      have "fd \<in> dom (conns w1)" using loop_okD(3) [OF l1(1)] loop_okD(3) [OF l] l1(2) Some by auto
      then obtain c1 where c1: "conns w1 fd = Some c1" by blast
      obtain c2 where c2: "write_phase ev c1 = Some c2" "conn_ok c2" "subscribedChannels c2 = subscribedChannels c1"
        "wantWrite c2 \<Longrightarrow> wantClose c2 \<or> pending c2 \<noteq> []"
        using write_phase_ok [OF world_okD(4) [OF loop_okD(1) [OF l1(1)] c1] loop_okD(6) [OF l1(1) c1]] by blast
      have "loop_ok lfd {fd} (w1\<lparr>conns := (conns w1)(fd \<mapsto> c2)\<rparr>)" by (rule loop_set_conn [OF l1(1) c1 c2(2-4)])
      from finish_client [OF this, of c2] show ?thesis
        using x(1) Inr Some False c1 c2(1) l1(2) by (simp add: handle_client_def loop_result_def update_conn_def and_then_def)
    qed
  qed
qed

section \<open>The events of an iteration\<close>

text \<open>The kernel returns descriptors that are not in use, and the commands are tame.\<close>

fun inputs_ok :: "nat \<Rightarrow> event list \<Rightarrow> world \<Rightarrow> bool" where
  "inputs_ok lfd [] w = True"
| "inputs_ok lfd (Listen rs # evs) w =
     (let cfds = accept_loop rs in
      distinct cfds \<and> set cfds \<inter> insert lfd (set (fds w)) = {} \<and> inputs_ok lfd evs (fold accept_client cfds w))"
| "inputs_ok lfd (Client fd ev # evs) w =
     (client_tame fd ev w \<and> (case handle_client fd ev w of Some (Inr w1) \<Rightarrow> inputs_ok lfd evs w1 | _ \<Rightarrow> True))"

lemma accept_ok:
  assumes l: "loop_ok lfd {} w" and fd: "fd \<noteq> lfd" "fd \<notin> set (fds w)"
  shows "loop_ok lfd {} (accept_client fd w)" "set (fds (accept_client fd w)) = insert fd (set (fds w))"
proof -
  have n: "conns w fd = None" "interest (eloop w) fd = None" using loop_okD(3,4) [OF l] fd by auto
  let ?el = "(eloop w)\<lparr>interest := (interest (eloop w))(fd \<mapsto> (True, False))\<rparr>"
  have a: "accept_client fd w = w\<lparr>eloop := ?el, conns := (conns w)(fd \<mapsto> new_connection), fds := fds w @ [fd]\<rparr>"
    using n(2) fd(2) by (simp add: accept_client_def addFd_def set_insert_def)
  have new: "conn_ok new_connection" "subscribedChannels new_connection = []" "wantRead new_connection"
    "\<not> wantWrite new_connection" "pending new_connection = []"
    using conn_inv_new by (simp_all add: conn_ok_def new_connection_def)
  have "listens ((conns w)(fd \<mapsto> new_connection)) = listens (conns w)"
    using n(1) new(2) by (intro ext) (simp add: listens_upd listens_def)
  then have "ps_inv (channels w) ((conns w)(fd \<mapsto> new_connection))"
    using world_okD(2) [OF loop_okD(1) [OF l]] unfolding ps_inv_def by simp
  then have "world_ok (accept_client fd w)"
    using loop_okD(1) [OF l] new(1) unfolding a by (simp add: world_ok_def)
  moreover have "idle_ok ?el f c \<and> (wantWrite c \<and> \<not> wantClose c \<longrightarrow> pending c \<noteq> [])" if "((conns w)(fd \<mapsto> new_connection)) f = Some c" for f c
    using that new loop_okD(6,7) [OF l, of f c] by (cases "f = fd") (auto simp: idle_ok_def desired_def)
  ultimately show "loop_ok lfd {} (accept_client fd w)"
    using loop_okD(2-5) [OF l] fd unfolding a loop_ok_def by auto
  show "set (fds (accept_client fd w)) = insert fd (set (fds w))" by (simp add: a)
qed

lemma accepts_ok:
  "loop_ok lfd {} w \<Longrightarrow> distinct cfds \<Longrightarrow> set cfds \<inter> insert lfd (set (fds w)) = {} \<Longrightarrow> loop_ok lfd {} (fold accept_client cfds w)"
proof (induction cfds arbitrary: w)
  case (Cons fd cfds)
  have "fd \<noteq> lfd" "fd \<notin> set (fds w)" using Cons.prems(3) by auto
  note a = accept_ok [OF Cons.prems(1) this]
  have "set cfds \<inter> insert lfd (set (fds (accept_client fd w))) = {}" using Cons.prems(2,3) a(2) by auto
  then show ?case using Cons.IH [OF a(1)] Cons.prems(2) by simp
qed simp

lemma handle_events_ok:
  "loop_ok lfd {} w \<Longrightarrow> inputs_ok lfd evs w \<Longrightarrow>
    \<exists>x. handle_events evs w = Some x \<and> (case x of Inl e \<Rightarrow> stoi_error e | Inr w' \<Rightarrow> loop_ok lfd {} w')"
proof (induction evs w rule: handle_events.induct)
  case (2 rs evs w)
  then show ?case using accepts_ok by (simp add: Let_def)
next
  case (3 fd ev evs w)
  have t: "client_tame fd ev w" using "3.prems"(2) by simp
  obtain x where x: "handle_client fd ev w = Some x" "case x of Inl e \<Rightarrow> stoi_error e | Inr w' \<Rightarrow> loop_ok lfd {} w' \<and> fds w' = fds w"
    using handle_client_ok [OF "3.prems"(1) t] unfolding loop_result_def by blast
  show ?case using 3 x by (cases x) auto
qed simp

text \<open>After the sweep every connection that stays open is registered for exactly what it waits for.\<close>

definition swept :: "event_loop \<Rightarrow> nat \<Rightarrow> connection \<Rightarrow> bool" where
  "swept el fd c = (wantClose c \<or> (wantWrite c = (pending c \<noteq> []) \<and> interest el fd = Some (desired c)))"

lemma sweep_conn_ok:
  assumes l: "loop_ok lfd {} w" and fd: "fd \<in> set (fds w)"
  shows "loop_ok lfd {} (sweep_conn fd w)" "fds (sweep_conn fd w) = fds w"
    "conns (sweep_conn fd w) fd = Some c \<Longrightarrow> swept (eloop (sweep_conn fd w)) fd c"
    "f \<noteq> fd \<Longrightarrow> conns (sweep_conn fd w) f = conns w f \<and> interest (eloop (sweep_conn fd w)) f = interest (eloop w) f"
proof -
  obtain c0 where c0: "conns w fd = Some c0" using loop_okD(3) [OF l] fd by auto
  have ok: "conn_ok c0" by (rule world_okD(4) [OF loop_okD(1) [OF l] c0])
  note pe = pending_iff [OF ok]
  let ?P = "\<not> wantClose c0 \<and> readableBytes (outb c0) > 0"
  let ?c = "c0\<lparr>wantWrite := True\<rparr>"
  let ?el = "(eloop w)\<lparr>interest := (interest (eloop w))(fd \<mapsto> desired ?c)\<rparr>"
  have i: "interest (eloop w) fd \<noteq> None" using loop_okD(4) [OF l] c0 by blast
  then have s: "sweep_conn fd w = (if ?P then (w\<lparr>conns := (conns w)(fd \<mapsto> ?c)\<rparr>)\<lparr>eloop := ?el\<rparr> else w)"
    using c0 by (auto simp: sweep_conn_def Let_def modFd_def)
  have l1: "loop_ok lfd {fd} (w\<lparr>conns := (conns w)(fd \<mapsto> ?c)\<rparr>)" if ?P
    by (rule loop_set_conn [OF loop_mono [OF l] c0]) (use ok pe that in auto)
  show "fds (sweep_conn fd w) = fds w" by (simp add: s)
  show "f \<noteq> fd \<Longrightarrow> conns (sweep_conn fd w) f = conns w f \<and> interest (eloop (sweep_conn fd w)) f = interest (eloop w) f"
    by (simp add: s)
  show "conns (sweep_conn fd w) fd = Some c \<Longrightarrow> swept (eloop (sweep_conn fd w)) fd c"
    using pe c0 loop_okD(6,7) [OF l c0] by (auto simp: s swept_def idle_ok_def split: if_splits)
  have "loop_ok lfd {} ((w\<lparr>conns := (conns w)(fd \<mapsto> ?c)\<rparr>)\<lparr>eloop := ?el\<rparr>)" if ?P
  proof (rule loop_done [where c = ?c])
    show "loop_ok lfd {fd} ((w\<lparr>conns := (conns w)(fd \<mapsto> ?c)\<rparr>)\<lparr>eloop := ?el\<rparr>)"
      using loop_interest [OF l1 [OF that], of "desired ?c"] i by simp
  qed (use that pe in \<open>auto simp: idle_ok_def\<close>)
  then show "loop_ok lfd {} (sweep_conn fd w)" using l by (simp add: s)
qed

lemma sweep_ok:
  assumes l: "loop_ok lfd {} w"
  shows "loop_ok lfd {} (sweep w)" "fds (sweep w) = fds w" "conns (sweep w) fd = Some c \<Longrightarrow> swept (eloop (sweep w)) fd c"
proof -
  have "loop_ok lfd {} (fold sweep_conn xs v) \<and> fds (fold sweep_conn xs v) = fds v \<and>
      (\<forall>fd c. (fd \<in> set xs \<or> (\<forall>c. conns v fd = Some c \<longrightarrow> swept (eloop v) fd c)) \<and> conns (fold sweep_conn xs v) fd = Some c \<longrightarrow>
         swept (eloop (fold sweep_conn xs v)) fd c)"
    if "loop_ok lfd {} v" "set xs \<subseteq> set (fds v)" for xs v
    using that
  proof (induction xs arbitrary: v)
    case (Cons x xs)
    have x: "x \<in> set (fds v)" using Cons.prems(2) by simp
    note s = sweep_conn_ok [OF Cons.prems(1) x]
    have sw: "\<forall>c. conns (sweep_conn x v) fd = Some c \<longrightarrow> swept (eloop (sweep_conn x v)) fd c"
      if "fd = x \<or> (\<forall>c. conns v fd = Some c \<longrightarrow> swept (eloop v) fd c)" for fd
      using that s(3) s(4) [of fd] by (cases "fd = x") (auto simp: swept_def)
    show ?case using Cons.IH [OF s(1)] Cons.prems(2) s(2) sw by auto
  qed simp
  note f = this [OF l subset_refl, folded sweep_def]
  then show s: "loop_ok lfd {} (sweep w)" "fds (sweep w) = fds w" by simp_all
  show "conns (sweep w) fd = Some c \<Longrightarrow> swept (eloop (sweep w)) fd c"
    using f loop_okD(3) [OF s(1)] s(2) by (metis domI)
qed

lemma close_conn_ok:
  assumes l: "loop_ok lfd {} w" and fd: "fd \<in> set (fds w)"
  shows "loop_ok lfd {} (close_conn fd w)" "set (fds (close_conn fd w)) = set (fds w) - {fd}"
    "conns (close_conn fd w) = (conns w)(fd := None)" "f \<noteq> fd \<Longrightarrow> interest (eloop (close_conn fd w)) f = interest (eloop w) f"
proof -
  obtain c where c: "conns w fd = Some c" using loop_okD(3) [OF l] fd by auto
  obtain reg' c' where r: "removeConnection fd (channels w) c = (reg', c')" by fastforce
  have cl: "close_conn fd w = w\<lparr>channels := reg', eloop := removeFd fd (eloop w), conns := (conns w)(fd := None),
      fds := set_erase fd (fds w)\<rparr>" using c r by (simp add: close_conn_def Let_def)
  show "set (fds (close_conn fd w)) = set (fds w) - {fd}" "conns (close_conn fd w) = (conns w)(fd := None)"
    "f \<noteq> fd \<Longrightarrow> interest (eloop (close_conn fd w)) f = interest (eloop w) f"
    by (simp_all add: cl removeFd_def)
  have "ps_inv reg' ((conns w)(fd := None))"
    using removeConnection_inv(1) [OF world_okD(2) [OF loop_okD(1) [OF l]] c r] .
  then have "world_ok (close_conn fd w)" using loop_okD(1) [OF l] unfolding cl by (simp add: world_ok_def)
  moreover have "idle_ok (removeFd fd (eloop w)) f c \<and> (wantWrite c \<and> \<not> wantClose c \<longrightarrow> pending c \<noteq> [])"
    if "((conns w)(fd := None)) f = Some c" for f c
    using that loop_okD(6,7) [OF l, of f c] by (cases "f = fd") (auto simp: idle_ok_def removeFd_def)
  moreover have "lfd \<noteq> fd" using loop_okD(5) [OF l] c by auto
  ultimately show "loop_ok lfd {} (close_conn fd w)"
    using loop_okD(2-5) [OF l] unfolding cl loop_ok_def by (auto simp: removeFd_def)
qed

lemma cleanup_ok:
  assumes l: "loop_ok lfd {} w"
  shows "loop_ok lfd {} (cleanup w)"
    "conns (cleanup w) fd = (if fd \<in> set (toClose w) then None else conns w fd)"
    "fd \<notin> set (toClose w) \<Longrightarrow> interest (eloop (cleanup w)) fd = interest (eloop w) fd"
proof -
  have "loop_ok lfd {} (fold close_conn xs v) \<and>
      (\<forall>fd. conns (fold close_conn xs v) fd = (if fd \<in> set xs then None else conns v fd) \<and>
         (fd \<notin> set xs \<longrightarrow> interest (eloop (fold close_conn xs v)) fd = interest (eloop v) fd))"
    if "loop_ok lfd {} v" "set xs \<subseteq> set (fds v)" "distinct xs" for xs v
    using that
  proof (induction xs arbitrary: v)
    case (Cons x xs)
    have x: "x \<in> set (fds v)" using Cons.prems(2) by simp
    note s = close_conn_ok [OF Cons.prems(1) x]
    have "set xs \<subseteq> set (fds (close_conn x v))" using s(2) Cons.prems(2,3) by auto
    from Cons.IH [OF s(1) this] Cons.prems(3) show ?case using s(3,4) by auto
  qed simp
  moreover have "set (toClose w) \<subseteq> set (fds w)" "distinct (toClose w)"
    using loop_okD(2) [OF l] by (simp_all add: toClose_def)
  ultimately show "loop_ok lfd {} (cleanup w)"
    "conns (cleanup w) fd = (if fd \<in> set (toClose w) then None else conns w fd)"
    "fd \<notin> set (toClose w) \<Longrightarrow> interest (eloop (cleanup w)) fd = interest (eloop w) fd"
    unfolding cleanup_def using l by blast+
qed

lemma between_iterations:
  assumes l: "loop_ok lfd {} w"
  shows "between lfd (cleanup (sweep w))"
proof -
  let ?s = "sweep w"
  note s = sweep_ok [OF l]
  note c = cleanup_ok [OF s(1)]
  have cl: "fd \<in> set (toClose ?s) \<longleftrightarrow> (\<exists>c. conns ?s fd = Some c \<and> wantClose c)" for fd
    using loop_okD(3) [OF s(1)] by (auto simp: toClose_def split: option.splits)
  have "\<not> wantClose c \<and> (wantRead c \<or> pending c \<noteq> []) \<and> interest (eloop (cleanup ?s)) fd = Some (wantRead c, pending c \<noteq> [])"
    if "conns (cleanup ?s) fd = Some c" for fd c
  proof -
    have n: "fd \<notin> set (toClose ?s)" and cs: "conns ?s fd = Some c" using that c(2) [of fd] by (auto split: if_splits)
    then have "\<not> wantClose c" using cl by blast
    then show ?thesis
      using s(3) [OF cs] loop_okD(7) [OF s(1) cs] c(3) [OF n] by (auto simp: swept_def idle_ok_def desired_def)
  qed
  then show ?thesis using c(1) by (simp add: between_def)
qed

section \<open>Iterations\<close>

definition iteration_ok :: "nat \<Rightarrow> iteration \<Rightarrow> world \<Rightarrow> bool" where
  "iteration_ok lfd it w =
     (let w0 = w\<lparr>wmetrics := (wmetrics w)\<lparr>connectedClients := length (fds w)\<rparr>\<rparr> in
      case poll (timer_callback (tick it)) (poll_ns it) (poll_res it) (eloop w0, w0) of
        (None, _) \<Rightarrow> True
      | (Some evs, el, w1) \<Rightarrow> inputs_ok lfd evs (w1\<lparr>eloop := el\<rparr>))"

text \<open>The states of the server between iterations.\<close>

inductive reachable :: "nat \<Rightarrow> world \<Rightarrow> bool" for lfd where
  booted: "startup now src pipe ses (initial_world port lfd opened t content) = Some (Inr w) \<Longrightarrow>
    \<forall>args \<in> set (fst (rf.decode_all (source_bytes src))). tame args \<Longrightarrow> reachable lfd w"
| iterated: "reachable lfd w \<Longrightarrow> iteration_ok lfd it w \<Longrightarrow> iterate it w = Some (Inr (True, w')) \<Longrightarrow> reachable lfd w'"

lemma good_activeExpire: "good_db db \<Longrightarrow> good_db (db_activeExpireCycle m now db n)"
proof -
  assume g: "good_db db"
  obtain ks h where p: "popExpired (ttlHeap db) now n = (ks, h)" by fastforce
  note a = db_activeExpireCycle_ok(1,2) [OF good_db_inv [OF g] p, of m]
  have "fewer db (db_activeExpireCycle m now db n)"
    unfolding fewer_def a(2) using a(1) by (auto simp: restrict_map_def split: if_splits)
  then show ?thesis by (rule good_fewer [OF g])
qed

lemma good_rehash: "good_db db \<Longrightarrow> good_db (db_rehashStep db)"
  using good_fewer fewer_same same_data_rehash good_db_inv unfolding db_rehashStep_def by blast

lemma loop_ok_db: "loop_ok lfd X w \<Longrightarrow> good_db db \<Longrightarrow> loop_ok lfd X (w\<lparr>wdb := db\<rparr>)"
  unfolding loop_ok_def world_ok_def by simp

lemma loop_timer: "loop_ok lfd X w \<Longrightarrow> loop_ok lfd X (timer_callback te w)"
  using good_activeExpire [OF world_okD(1) [OF loop_okD(1)]] by (simp add: loop_ok_def world_ok_def timer_callback_def)

lemma loop_polled:
  assumes l0: "loop_ok lfd {} w0" and p: "poll (timer_callback te) ns res (eloop w0, w0) = (oevs, el, w1)"
  shows "loop_ok lfd {} (w1\<lparr>eloop := el\<rparr>)"
proof -
  have "w1 = w0 \<or> w1 = timer_callback te w0" and "interest el = interest (eloop w0)"
    using p by (auto simp: poll_def split: wait_result.splits if_splits)
  moreover from this(1) l0 have "loop_ok lfd {} w1" using loop_timer by blast
  moreover from calculation(1) have "eloop w1 = eloop w0" by (auto simp: timer_callback_def)
  ultimately show ?thesis unfolding loop_ok_def world_ok_def idle_ok_def by simp
qed

lemma iterate_ok:
  assumes b: "between lfd w" and i: "iteration_ok lfd it w"
  shows "\<exists>x. iterate it w = Some x \<and> (case x of Inl e \<Rightarrow> stoi_error e | Inr (go_on, w') \<Rightarrow> go_on \<longrightarrow> between lfd w')"
proof -
  let ?w0 = "w\<lparr>wmetrics := (wmetrics w)\<lparr>connectedClients := length (fds w)\<rparr>\<rparr>"
  have l0: "loop_ok lfd {} ?w0" using b by (simp add: between_def loop_ok_def world_ok_def metrics_inv_def)
  obtain oevs el w1 where p: "poll (timer_callback (tick it)) (poll_ns it) (poll_res it) (eloop ?w0, ?w0) = (oevs, el, w1)"
    by (metis prod_cases3)
  have l1: "loop_ok lfd {} (w1\<lparr>eloop := el\<rparr>)" by (rule loop_polled [OF l0 p])
  show ?thesis
  proof (cases oevs)
    case None
    then show ?thesis using p by (simp add: iterate_def Let_def)
  next
    case (Some evs)
    then have "inputs_ok lfd evs (w1\<lparr>eloop := el\<rparr>)" using i p by (simp add: iteration_ok_def Let_def)
    from handle_events_ok [OF l1 this] obtain x where
      x: "handle_events evs (w1\<lparr>eloop := el\<rparr>) = Some x" "case x of Inl e \<Rightarrow> stoi_error e | Inr w' \<Rightarrow> loop_ok lfd {} w'" by blast
    show ?thesis
    proof (cases x)
      case (Inl e)
      then show ?thesis using x p Some by (simp add: iterate_def Let_def)
    next
      case (Inr w2)
      then have l2: "loop_ok lfd {} w2" using x(2) by simp
      have "loop_ok lfd {} (w2\<lparr>wdb := db_rehashStep (wdb w2)\<rparr>)"
        by (rule loop_ok_db [OF l2 good_rehash [OF world_okD(1) [OF loop_okD(1) [OF l2]]]])
      from between_iterations [OF this] show ?thesis using x(1) Inr p Some by (simp add: iterate_def Let_def)
    qed
  qed
qed

lemma startup_ok:
  assumes "\<forall>args \<in> set (fst (rf.decode_all (source_bytes src))). tame args"
  shows "\<exists>x. startup now src pipe ses (initial_world port lfd opened t content) = Some x \<and>
    (case x of Inl e \<Rightarrow> stoi_error e | Inr w \<Rightarrow> between lfd w)"
proof -
  let ?w = "initial_world port lfd opened t content"
  have w: "world_ok ?w"
    using good_db_new ps_inv_new metrics_inv_new by (simp add: world_ok_def initial_world_def)
  obtain x where x: "load src pipe ses ?w = Some x" "case x of Inl e \<Rightarrow> stoi_error e
     | Inr (n, w') \<Rightarrow> world_ok w' \<and> conns w' = Map.empty \<and> fds w' = fds ?w \<and> eloop w' = eloop ?w"
    using load_safe [OF w _ assms, of pipe ses] by (auto simp: initial_world_def)
  show ?thesis
  proof (cases x)
    case (Inl e)
    then show ?thesis using x by (simp add: startup_def)
  next
    case (Inr nw)
    obtain n w' where nw: "nw = (n, w')" by (cases nw)
    then have w': "world_ok w'" "conns w' = Map.empty" "fds w' = []" "eloop w' = addFd lfd (True, False) (new_event_loop t)"
      using x(2) Inr by (simp_all add: initial_world_def)
    have "dom (interest (eloop w')) = {lfd}" unfolding w'(4) by (simp add: addFd_def new_event_loop_def)
    then have "between lfd (w'\<lparr>eloop := setTimerCallback now 100 (eloop w')\<rparr>)"
      using w'(1-3) by (simp add: between_def loop_ok_def world_ok_def setTimerCallback_def)
    then show ?thesis using x(1) Inr nw by (simp add: startup_def)
  qed
qed

lemma reachable_between: "reachable lfd w \<Longrightarrow> between lfd w"
proof (induction rule: reachable.induct)
  case (booted now src pipe ses port opened t content w)
  then show ?case using startup_ok [OF booted(2), of now pipe ses port lfd opened t content] by simp
next
  case (iterated w it w')
  then show ?case using iterate_ok [OF iterated.IH iterated.hyps(2)] by auto
qed

end
