(* ===== verification/Server_Properties.thy ===== *)
theory Server_Properties
  imports Loop_Safety
begin

text \<open>
  The properties of the running server: its invariant and the progress of the event loop, the parse
  loop of a client, transactions, errors of dispatch, and publish/subscribe.
\<close>

section \<open>Sequential execution of queued commands\<close>

text \<open>Commands whose handler needs the database only, or that are refused by the table.\<close>

definition plain :: "bytes list \<Rightarrow> bool" where
  "plain q = (case lookup server_table q of Inl msg \<Rightarrow> True | Inr (Db h) \<Rightarrow> True | _ \<Rightarrow> False)"

definition run_one :: "env \<Rightarrow> bytes list \<Rightarrow> database \<Rightarrow> result" where
  "run_one env q db =
     (case lookup server_table q of
        Inl msg \<Rightarrow> Inr ([Error msg], db)
      | Inr (Db h) \<Rightarrow> h env db q
      | _ \<Rightarrow> Inr ([], db))"

fun run_queue :: "(nat \<Rightarrow> env) \<Rightarrow> nat \<Rightarrow> bytes list list \<Rightarrow> database \<Rightarrow> result" where
  "run_queue es i [] db = Inr ([], db)"
| "run_queue es i (q # qs) db =
     (case run_one (es i) q db of
        Inl e \<Rightarrow> Inl e
      | Inr (rs, db1) \<Rightarrow>
          (case run_queue es (i + 1) qs db1 of Inl e \<Rightarrow> Inl e | Inr (rs', db2) \<Rightarrow> Inr (rs @ rs', db2)))"

fun log_queue :: "(nat \<Rightarrow> env) \<Rightarrow> nat \<Rightarrow> bytes list list \<Rightarrow> aof \<Rightarrow> aof" where
  "log_queue es i [] a = a"
| "log_queue es i (q # qs) a =
     log_queue es (i + 1) qs (if isEnabled a \<and> isWriteCommand server_table (q ! 0) then aof_log (writes (es i)) q a else a)"

lemma reply_to_eq:
  assumes "conns w fd = Some c" "conn_ok c"
  shows "\<exists>c'. reply_to fd rs w = Inr (w\<lparr>conns := (conns w)(fd \<mapsto> c')\<rparr>) \<and> conn_ok c' \<and> c' = c\<lparr>outb := outb c'\<rparr> \<and>
    pending c' = pending c @ concat (map reply_bytes rs)"
proof -
  obtain c' where "send_replies rs c = Some c'" "conn_ok c'" "c' = c\<lparr>outb := outb c'\<rparr>"
    "pending c' = pending c @ concat (map reply_bytes rs)" by (rule conn_ok_send [OF assms(2)])
  then show ?thesis using assms(1) by (auto simp: reply_to_def update_conn_def)
qed

lemma dispatch_plain:
  assumes c: "conns w fd = Some c" "conn_ok c" and q: "q \<noteq> []" "plain q"
  shows "case run_one (envs se 0) q (wdb w) of
      Inl e \<Rightarrow> dispatch n server_table se fd q w = Inl e
    | Inr (rs, db') \<Rightarrow> \<exists>c'. dispatch n server_table se fd q w = Inr (w\<lparr>wdb := db', conns := (conns w)(fd \<mapsto> c')\<rparr>) \<and> conn_ok c' \<and>
        c' = c\<lparr>outb := outb c'\<rparr> \<and> pending c' = pending c @ concat (map reply_bytes rs)"
proof -
  obtain run where d: "dispatch n server_table = dispatch_with run server_table" by (cases n) auto
  show ?thesis
  proof (cases "lookup server_table q")
    case (Inl msg)
    have "w\<lparr>wdb := wdb w, conns := x\<rparr> = w\<lparr>conns := x\<rparr>" for x by simp
    then show ?thesis using reply_to_eq [OF c, of "[Error msg]"] Inl q(1) by (simp add: d dispatch_with_def run_one_def)
  next
    case (Inr h)
    then obtain f where f: "lookup server_table q = Inr (Db f)" using q(2) by (cases h) (simp_all add: plain_def)
    have "\<exists>c'. reply_to fd rs (w\<lparr>wdb := db'\<rparr>) = Inr (w\<lparr>wdb := db', conns := (conns w)(fd \<mapsto> c')\<rparr>) \<and> conn_ok c' \<and>
        c' = c\<lparr>outb := outb c'\<rparr> \<and> pending c' = pending c @ concat (map reply_bytes rs)" for rs db'
      using reply_to_eq [of "w\<lparr>wdb := db'\<rparr>" fd c rs] c by simp
    then show ?thesis using f q(1) by (simp add: d dispatch_with_def run_one_def split: sum.split prod.split)
  qed
qed

lemma exec_loop_queue:
  assumes "conns w fd = Some c" "conn_ok c" "\<forall>q \<in> set qs. q \<noteq> [] \<and> plain q"
  shows "case run_queue (envs se) i qs (wdb w) of
      Inl e \<Rightarrow> exec_loop (dispatch n server_table) server_table se i fd qs w = Inl e
    | Inr (rs, db') \<Rightarrow> \<exists>c'. exec_loop (dispatch n server_table) server_table se i fd qs w =
          Inr (w\<lparr>wdb := db', conns := (conns w)(fd \<mapsto> c'), waof := log_queue (envs se) i qs (waof w)\<rparr>) \<and>
        conn_ok c' \<and> c' = c\<lparr>outb := outb c'\<rparr> \<and> pending c' = pending c @ concat (map reply_bytes rs)"
  using assms
proof (induction qs arbitrary: i w c)
  case (Cons q qs)
  have q: "q \<noteq> []" "plain q" using Cons.prems(3) by auto
  let ?se = "se\<lparr>envs := \<lambda>j. envs se (i + j)\<rparr>"
  note d = dispatch_plain [OF Cons.prems(1,2) q, where se = ?se and n = n]
  show ?case
  proof (cases "run_one (envs se i) q (wdb w)")
    case (Inl e)
    then show ?thesis using d by (simp add: and_then_def)
  next
    case (Inr rdb)
    obtain rs db1 where rd: "rdb = (rs, db1)" by (cases rdb)
    obtain c1 where c1: "dispatch n server_table ?se fd q w = Inr (w\<lparr>wdb := db1, conns := (conns w)(fd \<mapsto> c1)\<rparr>)" "conn_ok c1"
      "c1 = c\<lparr>outb := outb c1\<rparr>" "pending c1 = pending c @ concat (map reply_bytes rs)"
      using d Inr rd by auto
    let ?a = "if isEnabled (waof w) \<and> isWriteCommand server_table (q ! 0) then aof_log (writes (envs se i)) q (waof w) else waof w"
    let ?w1 = "w\<lparr>wdb := db1, conns := (conns w)(fd \<mapsto> c1), waof := ?a\<rparr>"
    have w1: "log_write server_table (envs se i) q (w\<lparr>wdb := db1, conns := (conns w)(fd \<mapsto> c1)\<rparr>) = ?w1"
      by (simp add: log_write_def)
    have cc: "c1\<lparr>outb := x\<rparr> = c\<lparr>outb := x\<rparr>" for x by (subst c1(3)) simp
    have IH: "case run_queue (envs se) (i + 1) qs db1 of
        Inl e \<Rightarrow> exec_loop (dispatch n server_table) server_table se (i + 1) fd qs ?w1 = Inl e
      | Inr (rs', db') \<Rightarrow> \<exists>c'. exec_loop (dispatch n server_table) server_table se (i + 1) fd qs ?w1 =
          Inr (?w1\<lparr>wdb := db', conns := (conns ?w1)(fd \<mapsto> c'), waof := log_queue (envs se) (i + 1) qs (waof ?w1)\<rparr>) \<and>
        conn_ok c' \<and> c' = c1\<lparr>outb := outb c'\<rparr> \<and> pending c' = pending c1 @ concat (map reply_bytes rs')"
      using Cons.IH [of ?w1 c1 "i + 1"] Cons.prems(3) c1(2) by simp
    show ?thesis
    proof (cases "run_queue (envs se) (i + 1) qs db1")
      case (Inl e)
      then show ?thesis using Inr rd c1(1) w1 IH by (simp add: and_then_def)
    next
      case (Inr rdb')
      obtain rs' db' where rd': "rdb' = (rs', db')" by (cases rdb')
      obtain c' where c': "exec_loop (dispatch n server_table) server_table se (i + 1) fd qs ?w1 =
          Inr (?w1\<lparr>wdb := db', conns := (conns ?w1)(fd \<mapsto> c'), waof := log_queue (envs se) (i + 1) qs (waof ?w1)\<rparr>)"
        "conn_ok c'" "c' = c1\<lparr>outb := outb c'\<rparr>" "pending c' = pending c1 @ concat (map reply_bytes rs')"
        using IH Inr rd' by auto
      have "exec_loop (dispatch n server_table) server_table se i fd (q # qs) w =
          Inr (w\<lparr>wdb := db', conns := (conns w)(fd \<mapsto> c'), waof := log_queue (envs se) i (q # qs) (waof w)\<rparr>)"
        using c1(1) w1 c'(1) by (simp add: and_then_def)
      moreover have "c' = c\<lparr>outb := outb c'\<rparr>" using c'(3) cc by simp
      moreover have "pending c' = pending c @ concat (map reply_bytes (rs @ rs'))" using c'(4) c1(4) by simp
      moreover have "run_queue (envs se) i (q # qs) (wdb w) = Inr (rs @ rs', db')"
        using \<open>run_one (envs se i) q (wdb w) = Inr rdb\<close> rd Inr rd' by simp
      ultimately show ?thesis using c'(2) by auto
    qed
  qed
next
  case Nil
  have "w = w\<lparr>wdb := wdb w, conns := (conns w)(fd \<mapsto> c), waof := waof w\<rparr>" using Nil(1) by (simp add: fun_upd_idem)
  then show ?case using Nil(2) by (simp del: world.update_convs) (rule exI [of _ c], simp)
qed

section \<open>Transactions\<close>

lemma server_entries:
  "server_table ''EXEC'' = Some (cmd ''EXEC'' 1 False Exec)" "server_table ''DISCARD'' = Some (cmd ''DISCARD'' 1 False Discard)"
  "server_table ''MULTI'' = Some (cmd ''MULTI'' 1 False Multi)"
  by (simp_all add: server_table_map all_commands_def stringCommands_def keyCommands_def listCommands_def hashCommands_def
      setCommands_def zsetCommands_def transactionCommands_def serverCommands_def)

lemma upper_names_txn: "upper ''EXEC'' = ''EXEC''" "upper ''DISCARD'' = ''DISCARD''" "upper ''MULTI'' = ''MULTI''"
  by code_simp+

lemma arity_one: "arity_ok 1 [x]"
  by (simp add: arity_ok_def wrap32_def)

lemma dispatch_one: "dispatch 1 t = dispatch_with (dispatch 0 t) t"
  by simp

lemma queue_command:
  assumes c: "conns w fd = Some c" "conn_ok c" "\<not> inSubscribeMode c" "txn c = Some qs" and q: "queueable args"
  shows "\<exists>c'. process_command se fd args w = Inr (w\<lparr>conns := (conns w)(fd \<mapsto> c')\<rparr>) \<and>
    c' = c\<lparr>txn := Some (qs @ [args]), outb := outb c'\<rparr> \<and> pending c' = pending c @ reply_bytes (SimpleString ''QUEUED'')"
proof -
  have "conn_ok (c\<lparr>txn := Some (qs @ [args])\<rparr>)" using c(2,4) q by (auto simp: conn_ok_def conn_inv_def)
  then obtain c' where c': "send_replies [SimpleString ''QUEUED''] (c\<lparr>txn := Some (qs @ [args])\<rparr>) = Some c'"
    "c' = (c\<lparr>txn := Some (qs @ [args])\<rparr>)\<lparr>outb := outb c'\<rparr>"
    "pending c' = pending c @ reply_bytes (SimpleString ''QUEUED'')"
    by (rule conn_ok_send [where rs = "[SimpleString ''QUEUED'']"]) auto
  have "process_command se fd args w = Inr (w\<lparr>conns := (conns w)(fd \<mapsto> c')\<rparr>)"
    using q c c'(1) by (simp add: process_command_def queueable_def Let_def update_conn_def)
  then show ?thesis using c'(2,3) by auto
qed

lemma exec_command:
  assumes c: "conns w fd = Some c" "conn_ok c" "\<not> inSubscribeMode c" "txn c = Some qs" and q: "\<forall>q \<in> set qs. plain q"
  shows "case run_queue (envs se) 1 qs (wdb w) of
      Inl e \<Rightarrow> process_command se fd [''EXEC''] w = Inl e
    | Inr (rs, db') \<Rightarrow> \<exists>w' c'. process_command se fd [''EXEC''] w = Inr w' \<and> wdb w' = db' \<and>
        conns w' = (conns w)(fd \<mapsto> c') \<and> c' = c\<lparr>txn := None, outb := outb c'\<rparr> \<and> channels w' = channels w \<and>
        pending c' = pending c @ concat (map reply_bytes (ArrayHeader (int (length qs)) # rs)) \<and>
        waof w' = log_queue (envs se) 1 qs (waof w)"
proof -
  have qs: "\<forall>q \<in> set qs. q \<noteq> [] \<and> plain q" using q c(2,4) by (auto simp: conn_ok_def queueable_def)
  obtain c1 where c1: "reply_to fd [ArrayHeader (int (length qs))] w = Inr (w\<lparr>conns := (conns w)(fd \<mapsto> c1)\<rparr>)" "conn_ok c1"
    "c1 = c\<lparr>outb := outb c1\<rparr>" "pending c1 = pending c @ reply_bytes (ArrayHeader (int (length qs)))"
    using reply_to_eq [OF c(1,2), of "[ArrayHeader (int (length qs))]"] by auto
  let ?w1 = "w\<lparr>conns := (conns w)(fd \<mapsto> c1)\<rparr>"
  have p: "process_command se fd [''EXEC''] w =
      and_then (and_then (exec_loop (dispatch 0 server_table) server_table se 1 fd qs ?w1)
          (update_conn fd (\<lambda>c. Some (c\<lparr>txn := None\<rparr>))))
        (\<lambda>w1. Inr (w1\<lparr>wmetrics := recordCommand (envs se 0) [''EXEC''] (wmetrics w1)\<rparr>))"
    using c(1,3,4) c1(1)
    by (simp add: process_command_def upper_names_txn server_entries dispatch_with_def lookup_def arity_one cmdExec_def and_then_def
        Let_def dispatch_one del: One_nat_def dispatch.simps)
  have "conns ?w1 fd = Some c1" by simp
  note x = exec_loop_queue [OF this c1(2) qs, where se = se and i = 1 and n = 0]
  show ?thesis
  proof (cases "run_queue (envs se) 1 qs (wdb w)")
    case (Inl e)
    then show ?thesis using x unfolding p by (simp add: and_then_def del: One_nat_def)
  next
    case (Inr rd)
    obtain rs db' where rd: "rd = (rs, db')" by (cases rd)
    obtain c2 where c2: "exec_loop (dispatch 0 server_table) server_table se 1 fd qs ?w1 =
        Inr (?w1\<lparr>wdb := db', conns := (conns ?w1)(fd \<mapsto> c2), waof := log_queue (envs se) 1 qs (waof ?w1)\<rparr>)"
      "c2 = c1\<lparr>outb := outb c2\<rparr>" "pending c2 = pending c1 @ concat (map reply_bytes rs)"
      using x Inr rd by (auto simp del: One_nat_def)
    let ?w2 = "w\<lparr>wdb := db', conns := (conns w)(fd \<mapsto> c2\<lparr>txn := None\<rparr>), waof := log_queue (envs se) 1 qs (waof w)\<rparr>"
    have "process_command se fd [''EXEC''] w = Inr (?w2\<lparr>wmetrics := recordCommand (envs se 0) [''EXEC''] (wmetrics w)\<rparr>)"
      unfolding p c2(1) by (simp add: and_then_def update_conn_def del: One_nat_def)
    moreover have "c2\<lparr>txn := None\<rparr> = c\<lparr>txn := None, outb := outb (c2\<lparr>txn := None\<rparr>)\<rparr>" by (subst c2(2), subst c1(3)) simp
    moreover have "pending (c2\<lparr>txn := None\<rparr>) = pending c @ concat (map reply_bytes (ArrayHeader (int (length qs)) # rs))"
      using c2(3) c1(4) by simp
    ultimately show ?thesis using Inr rd
      by (simp del: One_nat_def) (intro exI [of _ "?w2\<lparr>wmetrics := recordCommand (envs se 0) [''EXEC''] (wmetrics w)\<rparr>"] exI [of _ "c2\<lparr>txn := None\<rparr>"] conjI; simp del: One_nat_def)
  qed
qed

lemma discard_command:
  assumes c: "conns w fd = Some c" "conn_ok c" "\<not> inSubscribeMode c" "txn c = Some qs"
  shows "\<exists>w' c'. process_command se fd [''DISCARD''] w = Inr w' \<and> wdb w' = wdb w \<and> waof w' = waof w \<and>
    conns w' = (conns w)(fd \<mapsto> c') \<and> txn c' = None \<and> pending c' = pending c @ reply_bytes (SimpleString ''OK'')"
proof -
  have "conn_ok (c\<lparr>txn := None\<rparr>)" using c(2) by (simp add: conn_ok_def conn_inv_def)
  then obtain c' where c': "send_replies [SimpleString ''OK''] (c\<lparr>txn := None\<rparr>) = Some c'"
    "c' = (c\<lparr>txn := None\<rparr>)\<lparr>outb := outb c'\<rparr>" "pending c' = pending c @ reply_bytes (SimpleString ''OK'')"
    by (rule conn_ok_send [where rs = "[SimpleString ''OK'']"]) auto
  have t: "txn c' = None" by (subst c'(2)) simp
  have nw: "\<not> isWriteCommand server_table ''DISCARD''" by (simp add: isWriteCommand_def upper_names_txn server_entries)
  have "process_command se fd [''DISCARD''] w = Inr (w\<lparr>conns := (conns w)(fd \<mapsto> c'),
      wmetrics := recordCommand (envs se 0) [''DISCARD''] (wmetrics w)\<rparr>)"
    using c c'(1) nw by (simp add: process_command_def upper_names_txn server_entries dispatch_with_def lookup_def arity_one
        cmdDiscard_def update_conn_def and_then_def log_write_def)
  then show ?thesis using t c'(3) by (intro exI [of _ "w\<lparr>conns := (conns w)(fd \<mapsto> c'), wmetrics := recordCommand (envs se 0) [''DISCARD''] (wmetrics w)\<rparr>"] exI [of _ c']) simp
qed

text \<open>A server that has accepted one client, under descriptor 7.\<close>

definition demo_world :: world where
  "demo_world = accept_client 7 (initial_world 6379 3 True 0 [])"

definition demo_sysenv :: sysenv where
  "demo_sysenv = \<lparr>envs = (\<lambda>i. demo_env 0), pid = 1, uptimeSec = 0, fork_ok = True, child_envs = (\<lambda>i. demo_env 0), child_writes = (\<lambda>i. [])\<rparr>"

definition demo_client :: "connection \<Rightarrow> world" where
  "demo_client c = demo_world\<lparr>conns := [7 \<mapsto> c]\<rparr>"

lemma demo_booted: "startup 0 NotFound None ses (initial_world 6379 3 True 0 []) =
    Some (Inr ((initial_world 6379 3 True 0 [])\<lparr>eloop := setTimerCallback 0 100 (eloop (initial_world 6379 3 True 0 []))\<rparr>))"
  by (simp add: startup_def load_def)

lemma demo_client_ok:
  assumes "conn_ok c" "subscribedChannels c = []" "\<not> wantWrite c"
  shows "world_ok (demo_client c)"
proof -
  have "between 3 ((initial_world 6379 3 True 0 [])\<lparr>eloop := setTimerCallback 0 100 (eloop (initial_world 6379 3 True 0 []))\<rparr>)"
    using startup_ok [of NotFound 0 None undefined 6379 3 True 0 "[]"] demo_booted rf.decode_all_None [of "[]"] by auto
  then have "world_ok (initial_world 6379 3 True 0 [])" by (simp add: between_def loop_ok_def world_ok_def)
  moreover have "ps_inv Map.empty [7 \<mapsto> c]"
    using assms by (intro ps_inv_add ps_inv_new) (simp_all add: conn_ok_def)
  ultimately show ?thesis
    using assms(1) by (simp add: demo_client_def demo_world_def accept_client_def world_ok_def initial_world_def)
qed

lemma new_conn_ok: "conn_ok new_connection"
  using conn_inv_new by (simp add: conn_ok_def new_connection_def)



section \<open>Errors\<close>

text \<open>C29 (error). Refused commands. In subscriber mode a command other than SUBSCRIBE, UNSUBSCRIBE, PING and QUIT is
  answered with an error and changes nothing. Otherwise, outside of a transaction, a command that the
  table does not know or that has the wrong number of arguments is answered with the table's error:
  database, subscriptions and all other connections stay as they are - but a refused write command is
  appended to the log.\<close>
theorem refused_commands:
  assumes "world_ok w" and "conns w fd = Some c" and "args \<noteq> []"
  shows "(inSubscribeMode c \<and> upper (args ! 0) \<notin> {''SUBSCRIBE'', ''UNSUBSCRIBE'', ''PING'', ''QUIT''} \<longrightarrow>
      (\<exists>c'. process_command se fd args w = Inr (w\<lparr>conns := (conns w)(fd \<mapsto> c')\<rparr>) \<and> c' = c\<lparr>outb := outb c'\<rparr> \<and>
         pending c' = pending c @ reply_bytes (Error (ERR_SUBSCRIBED (args ! 0))))) \<and>
    (\<not> inSubscribeMode c \<and> txn c = None \<and> lookup server_table args = Inl msg \<longrightarrow>
      (\<exists>w' c'. process_command se fd args w = Inr w' \<and> wdb w' = wdb w \<and> channels w' = channels w \<and> fds w' = fds w \<and>
         conns w' = (conns w)(fd \<mapsto> c') \<and> c' = c\<lparr>outb := outb c'\<rparr> \<and> pending c' = pending c @ reply_bytes (Error msg) \<and>
         waof w' = (if isEnabled (waof w) \<and> isWriteCommand server_table (args ! 0)
                    then aof_log (writes (envs se 0)) args (waof w) else waof w)))"
proof -
  have ok: "conn_ok c" by (rule world_okD(4) [OF assms(1,2)])
  show ?thesis
  proof (intro conjI impI)
    assume "inSubscribeMode c \<and> upper (args ! 0) \<notin> {''SUBSCRIBE'', ''UNSUBSCRIBE'', ''PING'', ''QUIT''}"
    then show "\<exists>c'. process_command se fd args w = Inr (w\<lparr>conns := (conns w)(fd \<mapsto> c')\<rparr>) \<and> c' = c\<lparr>outb := outb c'\<rparr> \<and>
         pending c' = pending c @ reply_bytes (Error (ERR_SUBSCRIBED (args ! 0)))"
      using reply_to_eq [OF assms(2) ok, of "[Error (ERR_SUBSCRIBED (args ! 0))]"] assms(2,3)
      by (auto simp: process_command_def Let_def)
  next
    assume a: "\<not> inSubscribeMode c \<and> txn c = None \<and> lookup server_table args = Inl msg"
    obtain c' where c': "reply_to fd [Error msg] w = Inr (w\<lparr>conns := (conns w)(fd \<mapsto> c')\<rparr>)" "c' = c\<lparr>outb := outb c'\<rparr>"
      "pending c' = pending c @ reply_bytes (Error msg)"
      using reply_to_eq [OF assms(2) ok, of "[Error msg]"] by auto
    have "\<not> isWriteCommand server_table (args ! 0)" if "upper (args ! 0) = ''EXEC''"
      using that by (simp add: isWriteCommand_def server_entries)
    then have "process_command se fd args w = Inr (w\<lparr>conns := (conns w)(fd \<mapsto> c'), wmetrics := recordCommand (envs se 0) args (wmetrics w),
        waof := (if isEnabled (waof w) \<and> isWriteCommand server_table (args ! 0)
                    then aof_log (writes (envs se 0)) args (waof w) else waof w)\<rparr>)"
      using a assms(2,3) c'(1) by (auto simp: process_command_def Let_def dispatch_with_def and_then_def log_write_def split: option.split)
    then show "\<exists>w' c'. process_command se fd args w = Inr w' \<and> wdb w' = wdb w \<and> channels w' = channels w \<and> fds w' = fds w \<and>
         conns w' = (conns w)(fd \<mapsto> c') \<and> c' = c\<lparr>outb := outb c'\<rparr> \<and> pending c' = pending c @ reply_bytes (Error msg) \<and>
         waof w' = (if isEnabled (waof w) \<and> isWriteCommand server_table (args ! 0)
                    then aof_log (writes (envs se 0)) args (waof w) else waof w)"
      using c'(2,3) by (intro exI [of _ "w\<lparr>conns := _, wmetrics := _, waof := _\<rparr>"] exI [of _ c']) (auto split del: if_split)
  qed
qed

theorem refused_commands_witness:
  "\<exists>w' c'. process_command demo_sysenv 7 [''SET'', ''k''] (demo_client new_connection) = Inr w' \<and> wdb w' = new_database \<and>
    conns w' 7 = Some c' \<and> pending c' = reply_bytes (Error (ERR_ARGS ''SET'')) \<and>
    aof_file (waof w') = formatRespCommand [''SET'', ''k'']"
proof -
  have s: "server_table ''SET'' = Some (cmd ''SET'' 3 True (Db cmdSet))" "upper ''SET'' = ''SET''"
    by (simp add: server_table_map all_commands_def stringCommands_def keyCommands_def listCommands_def hashCommands_def
      setCommands_def zsetCommands_def transactionCommands_def serverCommands_def) code_simp
  have l: "lookup server_table [''SET'', ''k''] = Inl (ERR_ARGS ''SET'')" by (simp add: lookup_def s arity_ok_def wrap32_def)
  have w: "world_ok (demo_client new_connection)" by (rule demo_client_ok [OF new_conn_ok]) (simp_all add: new_connection_def)
  have c: "conns (demo_client new_connection) 7 = Some new_connection" "\<not> inSubscribeMode new_connection" "txn new_connection = None"
    "pending new_connection = []" "wdb (demo_client new_connection) = new_database" "waof (demo_client new_connection) = new_aof True EVERYSEC 0 []"
    by (simp_all add: demo_client_def demo_world_def accept_client_def initial_world_def inSubscribeMode_def new_connection_def)
  have "\<not> inSubscribeMode new_connection \<and> txn new_connection = None \<and> lookup server_table [''SET'', ''k''] = Inl (ERR_ARGS ''SET'')"
    using c l by simp
  from mp [OF refused_commands [OF w c(1), THEN conjunct2, of "[''SET'', ''k'']"] this, of demo_sysenv]
  obtain w' c' where w': "process_command demo_sysenv 7 [''SET'', ''k''] (demo_client new_connection) = Inr w'"
    "wdb w' = wdb (demo_client new_connection)" "conns w' = (conns (demo_client new_connection))(7 \<mapsto> c')"
    "pending c' = pending new_connection @ reply_bytes (Error (ERR_ARGS ''SET''))"
    "waof w' = (if isEnabled (waof (demo_client new_connection)) \<and> isWriteCommand server_table ([''SET'', ''k''] ! 0)
       then aof_log (writes (envs demo_sysenv 0)) [''SET'', ''k''] (waof (demo_client new_connection)) else waof (demo_client new_connection))"
    by blast
  have "aof_file (waof w') = formatRespCommand [''SET'', ''k'']" unfolding w'(5) c(6)
    by (simp add: isWriteCommand_def s isEnabled_def new_aof_def aof_log_def demo_sysenv_def demo_env_def Let_def writeAll_all)
  then show ?thesis using w'(1-4) c(4,5) by simp
qed

section \<open>Publish and subscribe\<close>

text \<open>C27 (invariant). Subscriptions are recorded twice, in the registry and in the connections, and every operation keeps
  the two records equal: subscribing and unsubscribing change exactly the one pair and return the
  number of channels the connection then listens to, and after the removal of a connection nothing in
  the registry points to it, so that it can be destroyed.\<close>
theorem subscriptions_agree:
  assumes "ps_inv reg cs" and "cs fd = Some c"
  shows "(\<forall>n reg' c'. subscribe ch fd reg c = (n, reg', c') \<longrightarrow>
      ps_inv reg' (cs(fd \<mapsto> c')) \<and> set (subscribedChannels c') = insert ch (set (subscribedChannels c)) \<and>
      n = card (set (subscribedChannels c'))) \<and>
    (\<forall>n reg' c'. unsubscribe ch fd reg c = (n, reg', c') \<longrightarrow>
      ps_inv reg' (cs(fd \<mapsto> c')) \<and> set (subscribedChannels c') = set (subscribedChannels c) - {ch} \<and>
      n = card (set (subscribedChannels c'))) \<and>
    (\<forall>reg' c'. removeConnection fd reg c = (reg', c') \<longrightarrow>
      ps_inv reg' (cs(fd := None)) \<and> (\<forall>ch. set (subscribers reg' ch) = set (subscribers reg ch) - {fd}))"
  by (intro conjI allI impI; elim subscribe_inv(1-3) [OF assms] unsubscribe_inv(1-3) [OF assms]
      removeConnection_inv(1) [OF assms] removeConnection_inv(3) [OF assms, rule_format])

theorem subscriptions_agree_witness:
  "ps_inv [''news'' \<mapsto> [7]] [7 \<mapsto> new_connection\<lparr>subscribedChannels := [''news'']\<rparr>]"
proof -
  have "ps_inv Map.empty [7 \<mapsto> new_connection]"
    by (rule ps_inv_add [OF ps_inv_new conn_inv_new]) (simp add: new_connection_def)
  moreover have "subscribe ''news'' 7 Map.empty new_connection =
      (1, [''news'' \<mapsto> [7]], new_connection\<lparr>subscribedChannels := [''news'']\<rparr>)"
    by (simp add: subscribe_def Let_def set_insert_def new_connection_def)
  ultimately show ?thesis using subscriptions_agree [of Map.empty "[7 \<mapsto> new_connection]" 7 new_connection "''news''"] by simp
qed

text \<open>C26 (functional). PUBLISH. While the records agree, publishing never meets a connection that is gone; the message is
  appended once to the output of each connection that listens to the channel, which is marked for
  writing, no other connection changes, and the number returned is that of the listeners.\<close>
theorem publish_delivers:
  assumes "ps_inv reg cs"
  shows "\<exists>n cs'. publish ch msg reg cs = Some (n, cs') \<and> n = card {fd. listens cs fd ch} \<and>
    (\<forall>fd. \<not> listens cs fd ch \<longrightarrow> cs' fd = cs fd) \<and>
    (\<forall>fd. listens cs fd ch \<longrightarrow> (\<exists>c c'. cs fd = Some c \<and> cs' fd = Some c' \<and> c' = c\<lparr>outb := outb c', wantWrite := True\<rparr> \<and>
       pending c' = pending c @ formatRespCommand [''message'', ch, msg]))"
proof -
  have "{fd. listens cs fd ch} = set (subscribers reg ch)" using ps_invD(4) [OF assms] by auto
  then have "length (subscribers reg ch) = card {fd. listens cs fd ch}" using ps_invD(2) [OF assms] by (simp add: distinct_card)
  moreover have "concat (map reply_bytes (push_message ch msg)) = formatRespCommand [''message'', ch, msg]"
    using bulk_list_bytes [of "[''message'', ch, msg]"] by (simp add: push_message_def)
  ultimately show ?thesis using publish_ok [OF assms, of ch msg] by metis
qed

theorem publish_delivers_witness:
  "\<exists>cs'. publish ''news'' ''hi'' [''news'' \<mapsto> [7]] [7 \<mapsto> new_connection\<lparr>subscribedChannels := [''news'']\<rparr>] = Some (1, cs')"
proof -
  let ?cs = "[7 \<mapsto> new_connection\<lparr>subscribedChannels := [''news'']\<rparr>]"
  have "ps_inv [''news'' \<mapsto> [7]] ?cs"
    using conn_inv_new by (auto simp: ps_inv_def subscribers_def listens_def conn_inv_def split: option.splits if_splits)
  moreover have "{fd. listens ?cs fd ''news''} = {7}" by (auto simp: listens_def split: option.splits if_splits)
  ultimately show ?thesis using publish_delivers [of "[''news'' \<mapsto> [7]]" ?cs "''news''" "''hi''"] by auto
qed

section \<open>The running server\<close>

text \<open>The state of the booted demo server, and an iteration in which a client connects.\<close>

definition booted_world :: world where
  "booted_world = (initial_world 6379 3 True 0 [])\<lparr>eloop := setTimerCallback 0 100 (eloop (initial_world 6379 3 True 0 []))\<rparr>"

definition demo_tick :: tick_env where
  "demo_tick = \<lparr>tick_mm = sizes64, tick_ms = 0, tick_ns = 0, child = Running, tmp_ok = True, rename_ok = True, reopen_ok = True,
     tick_writes = (\<lambda>i. [])\<rparr>"

definition demo_iteration :: iteration where
  "demo_iteration = \<lparr>poll_ns = 0, poll_res = Ready [Listen [7]], tick = demo_tick\<rparr>"

lemma booted_reachable: "reachable 3 booted_world"
  by (rule reachable.booted [OF demo_booted [of undefined, folded booted_world_def]]) (simp add: rf.decode_all_None)

lemma demo_iteration_ok: "iteration_ok 3 demo_iteration booted_world"
  by (simp add: iteration_ok_def demo_iteration_def poll_def booted_world_def initial_world_def setTimerCallback_def kMaxEvents_def
      elapsedMs_def tdiv_def Let_def)

text \<open>The state after that iteration.\<close>

definition accepted_world :: world where
  "accepted_world = accept_client 7 (booted_world\<lparr>wmetrics := (wmetrics booted_world)\<lparr>connectedClients := 0\<rparr>,
      wdb := db_rehashStep (wdb booted_world)\<rparr>)"

lemma accepted_conns: "conns accepted_world = [7 \<mapsto> new_connection]" "fds accepted_world = [7]"
  by (simp_all add: accepted_world_def accept_client_def booted_world_def initial_world_def set_insert_def)

lemma demo_iterate: "iterate demo_iteration booted_world = Some (Inr (True, accepted_world))"
proof -
  have "readableBytes (outb new_connection) = 0" "\<not> wantClose new_connection" by code_simp+
  then have s: "cleanup (sweep accepted_world) = accepted_world"
    using accepted_conns by (simp add: cleanup_def toClose_def sweep_def sweep_conn_def)
  have "handle_events [Listen [7]] (booted_world\<lparr>wmetrics := (wmetrics booted_world)\<lparr>connectedClients := 0\<rparr>\<rparr>) =
      Some (Inr (accept_client 7 (booted_world\<lparr>wmetrics := (wmetrics booted_world)\<lparr>connectedClients := 0\<rparr>\<rparr>)))" by simp
  then have "iterate demo_iteration booted_world = Some (Inr (True, cleanup (sweep accepted_world)))"
    by (simp add: iterate_def demo_iteration_def poll_def booted_world_def initial_world_def setTimerCallback_def kMaxEvents_def
      elapsedMs_def tdiv_def Let_def accept_client_def accepted_world_def)
  then show ?thesis using s by simp
qed





text \<open>C24 (liveness). No connection is forgotten. Between two iterations every open connection waits for something - it
  still reads, or it has output to send - and \<^verbatim>\<open>epoll\<close> watches its descriptor for exactly that: for input
  as long as it reads, for output precisely when output is pending, also when another connection's
  PUBLISH put it there.\<close>
theorem no_stalled_connection:
  assumes "reachable lfd w" and "conns w fd = Some c"
  shows "\<not> wantClose c \<and> (wantRead c \<or> pending c \<noteq> []) \<and> interest (eloop w) fd = Some (wantRead c, pending c \<noteq> [])"
  using reachable_between [OF assms(1)] assms(2) by (simp add: between_def)

theorem no_stalled_connection_witness:
  "\<exists>w. iterate demo_iteration booted_world = Some (Inr (True, w)) \<and> interest (eloop w) 7 = Some (True, False)"
proof -
  have "reachable 3 accepted_world" by (rule reachable.iterated [OF booted_reachable demo_iteration_ok demo_iterate])
  moreover have "conns accepted_world 7 = Some new_connection" "pending new_connection = []" "wantRead new_connection"
    by (simp_all add: accepted_conns new_connection_def)
  ultimately show ?thesis using no_stalled_connection [of 3 accepted_world 7 new_connection] demo_iterate by auto
qed



end
