(* ===== verification/AOF_Properties.thy ===== *)
theory AOF_Properties
  imports AOF_Replay
begin

text \<open>
  The properties of persistence: what a restart finds in the log after a crash, and that the commands
  of a rewritten log rebuild the values they were made from.
\<close>

section \<open>The log after a crash\<close>

lemma log_fold:
  assumes "aof_open a" "\<forall>l \<in> set logs. WriteError \<notin> set (fst l)"
  shows "aof_file (fold (\<lambda>(os, args). aof_log os args) logs a) = aof_file a @ concat (map formatRespCommand (map snd logs))"
  using assms
proof (induction logs arbitrary: a)
  case (Cons l logs)
  obtain os args where l: "l = (os, args)" by (cases l)
  have "writeAll os (formatRespCommand args) = formatRespCommand args" using Cons.prems(2) l by (simp add: writeAll_complete)
  then have "aof_open (aof_log os args a)" "aof_file (aof_log os args a) = aof_file a @ formatRespCommand args"
    using Cons.prems(1) by (simp_all add: aof_log_def Let_def fsync_def)
  then show ?case using Cons l by simp
qed simp

lemma decoded_all:
  assumes k: "p = concat (map formatRespCommand (take k ms)) @ r" "r = [] \<or> k < length ms \<and> strict_prefix r (formatRespCommand (ms ! k))"
    and j: "j \<le> length ms" "length (concat (map formatRespCommand (take j ms))) \<le> length p"
  shows "j \<le> k"
proof (rule ccontr)
  assume "\<not> j \<le> k"
  then have kj: "k < j" "k < length ms" using j(1) by auto
  have "length (concat (map formatRespCommand (take (Suc k) ms))) \<le> length (concat (map formatRespCommand (take j ms)))"
    using kj(1) take_add [of "Suc k" "j - Suc k" ms] by simp
  then have "length (formatRespCommand (ms ! k)) \<le> length r"
    using j(2) k(1) kj(2) by (simp add: take_Suc_conv_app_nth)
  moreover have "0 < length (formatRespCommand (ms ! k))" by (simp add: formatRespCommand_def)
  ultimately show False using k(2) prefix_length_less by fastforce
qed

text \<open>Restart after a crash. Take a log that holds the commands \<open>old\<close> and append commands to it, with
  short and interrupted writes but no write error. Whatever prefix of the file survives a crash, the
  loader runs exactly a prefix of the sequence of commands, in order: every command whose bytes
  survived completely, and nothing of a torn one.\<close>
theorem aof_reload:
  assumes "aof_open a" and "aof_file a = concat (map formatRespCommand old)" and "\<forall>l \<in> set logs. WriteError \<notin> set (fst l)"
    and "length (aof_file (fold (\<lambda>(os, args). aof_log os args) logs a)) < 2147483648"
    and "prefix p (aof_file (fold (\<lambda>(os, args). aof_log os args) logs a))" and "p \<noteq> []"
  shows "\<exists>k. load (File (length p) [ReadBytes p]) (Some fd) ses w =
      Some (case replay ses fd 0 (take k (old @ map snd logs)) (w\<lparr>conns := (conns w)(fd \<mapsto> new_connection)\<rparr>) of
          Inl e \<Rightarrow> Inl e
        | Inr (cnt, w') \<Rightarrow> Inr (Some cnt, w'\<lparr>conns := (conns w')(fd := None)\<rparr>)) \<and>
    (\<forall>j \<le> length (old @ map snd logs).
       length (concat (map formatRespCommand (take j (old @ map snd logs)))) \<le> length p \<longrightarrow> j \<le> k)"
proof -
  let ?ms = "old @ map snd logs"
  have f: "aof_file (fold (\<lambda>(os, args). aof_log os args) logs a) = concat (map formatRespCommand ?ms)"
    using log_fold [OF assms(1,3)] assms(2) by simp
  obtain k r where k: "rf.decode_all p = (take k ?ms, r)" "p = concat (map formatRespCommand (take k ?ms)) @ r"
    "r = [] \<or> k < length ?ms \<and> strict_prefix r (formatRespCommand (?ms ! k))"
    using rf.decode_all_prefix [of ?ms p] assms(4,5) unfolding f by auto
  have "\<forall>j \<le> length ?ms. length (concat (map formatRespCommand (take j ?ms))) \<le> length p \<longrightarrow> j \<le> k"
    using decoded_all [OF k(2,3)] by blast
  moreover have "load (File (length p) [ReadBytes p]) (Some fd) ses w =
      Some (case replay ses fd 0 (take k ?ms) (w\<lparr>conns := (conns w)(fd \<mapsto> new_connection)\<rparr>) of
          Inl e \<Rightarrow> Inl e | Inr (cnt, w') \<Rightarrow> Inr (Some cnt, w'\<lparr>conns := (conns w')(fd := None)\<rparr>))"
    using load_file [of "length p" "[ReadBytes p]" fd ses w] assms(6) file_bytes_once [of p] k(1) by simp
  ultimately show ?thesis by blast
qed

theorem aof_reload_witness:
  "\<forall>ses w. \<exists>k. load (File 30 [ReadBytes (take 30 (formatRespCommand [''SET'', ''k'', ''v''] @ formatRespCommand [''DEL'', ''k'']))]) (Some 9) ses w =
      Some (case replay ses 9 0 (take k [[''SET'', ''k'', ''v''], [''DEL'', ''k'']]) (w\<lparr>conns := (conns w)(9 \<mapsto> new_connection)\<rparr>) of
          Inl e \<Rightarrow> Inl e
        | Inr (cnt, w') \<Rightarrow> Inr (Some cnt, w'\<lparr>conns := (conns w')(9 := None)\<rparr>)) \<and> 1 \<le> k"
proof (intro allI)
  fix ses w
  let ?a = "new_aof True EVERYSEC 0 []" and ?ms = "[[''SET'', ''k'', ''v''], [''DEL'', ''k'']]"
  let ?logs = "[([Wrote 3, Interrupted], [''SET'', ''k'', ''v'']), ([], [''DEL'', ''k''])]"
  let ?d = "formatRespCommand [''SET'', ''k'', ''v''] @ formatRespCommand [''DEL'', ''k'']"
  have f: "aof_file (fold (\<lambda>(os, args). aof_log os args) ?logs ?a) = ?d" by code_simp
  have n: "length ?d = 47" "length (formatRespCommand [''SET'', ''k'', ''v'']) = 27" by code_simp+
  define p where "p = take 30 ?d"
  have p: "length p = 30" unfolding p_def length_take n(1) by simp
  have m: "[] @ map snd ?logs = ?ms" by simp
  have "\<exists>k. load (File (length p) [ReadBytes p]) (Some 9) ses w =
      Some (case replay ses 9 0 (take k ([] @ map snd ?logs)) (w\<lparr>conns := (conns w)(9 \<mapsto> new_connection)\<rparr>) of
          Inl e \<Rightarrow> Inl e
        | Inr (cnt, w') \<Rightarrow> Inr (Some cnt, w'\<lparr>conns := (conns w')(9 := None)\<rparr>)) \<and>
      (\<forall>j \<le> length ([] @ map snd ?logs). length (concat (map formatRespCommand (take j ([] @ map snd ?logs)))) \<le> length p \<longrightarrow> j \<le> k)"
  proof (intro aof_reload [of ?a])
    show "length (aof_file (fold (\<lambda>(os, args). aof_log os args) ?logs ?a)) < 2147483648" unfolding f n(1) by simp
    show "prefix p (aof_file (fold (\<lambda>(os, args). aof_log os args) ?logs ?a))" unfolding f p_def by (rule take_is_prefix)
    show "p \<noteq> []" using p by auto
  qed (simp_all add: new_aof_def)
  then obtain k where k: "load (File 30 [ReadBytes p]) (Some 9) ses w =
      Some (case replay ses 9 0 (take k ?ms) (w\<lparr>conns := (conns w)(9 \<mapsto> new_connection)\<rparr>) of
          Inl e \<Rightarrow> Inl e | Inr (cnt, w') \<Rightarrow> Inr (Some cnt, w'\<lparr>conns := (conns w')(9 := None)\<rparr>))"
    "\<forall>j \<le> length ?ms. length (concat (map formatRespCommand (take j ?ms))) \<le> 30 \<longrightarrow> j \<le> k"
    unfolding p m by blast
  have "1 \<le> k" using k(2) [rule_format, of 1] n(2) by simp
  with k(1) show "\<exists>k. load (File 30 [ReadBytes (take 30 ?d)]) (Some 9) ses w =
      Some (case replay ses 9 0 (take k ?ms) (w\<lparr>conns := (conns w)(9 \<mapsto> new_connection)\<rparr>) of
          Inl e \<Rightarrow> Inl e | Inr (cnt, w') \<Rightarrow> Inr (Some cnt, w'\<lparr>conns := (conns w')(9 := None)\<rparr>)) \<and> 1 \<le> k"
    unfolding p_def by blast
qed

section \<open>Rewriting\<close>

text \<open>Two values that no command tells apart, apart from the order of unordered containers.\<close>

definition same_value :: "RedisObject \<Rightarrow> RedisObject \<Rightarrow> bool" where
  "same_value v v' = (otype v = otype v' \<and>
     (case otype v of
        STRING \<Rightarrow> asString v = asString v'
      | LIST \<Rightarrow> get_if_deque (odata v) = get_if_deque (odata v')
      | HASH \<Rightarrow> map_option map_of (get_if_map (odata v)) = map_option map_of (get_if_map (odata v'))
      | SET \<Rightarrow> map_option set (get_if_set (odata v)) = map_option set (get_if_set (odata v'))
      | ZSET \<Rightarrow> map_option (map_of \<circ> zdict) (get_if_zset (odata v)) = map_option (map_of \<circ> zdict) (get_if_zset (odata v'))))"

lemma pairs_of_concat: "pairs_of (concat (map (\<lambda>x. [f x, g x]) xs)) = map (\<lambda>x. (f x, g x)) xs"
  by (induction xs) simp_all

lemma even_concat: "even (length (concat (map (\<lambda>x. [f x, g x]) xs)))"
  by (induction xs) simp_all

lemma foldl_zput:
  "distinct (map fst xs) \<Longrightarrow> fst ` set xs \<inter> dom f = {} \<Longrightarrow> foldl zput f xs = f ++ map_of xs"
proof (induction xs arbitrary: f)
  case (Cons x xs)
  have n: "f (fst x) = None" using Cons.prems(2) by auto
  then have z: "zput f x = f(fst x \<mapsto> snd x)" by (simp add: zput_def)
  have "foldl zput (f(fst x \<mapsto> snd x)) xs = f(fst x \<mapsto> snd x) ++ map_of xs" 
  proof (rule Cons.IH)
    have "fst x \<notin> fst ` set xs" "fst ` set xs \<inter> dom f = {}" using Cons.prems by auto
    then show "fst ` set xs \<inter> dom (f(fst x \<mapsto> snd x)) = {}" by (simp add: dom_fun_upd del: fun_upd_apply)
  qed (use Cons.prems in simp)
  moreover have "f(fst x \<mapsto> snd x) ++ map_of xs = f ++ map_of (x # xs)"
    using Cons.prems(1) by (cases x) (simp add: map_add_upd_left dom_map_of_conv_image_fst)
  ultimately show ?case unfolding foldl.simps z by (simp only:)
qed simp

lemma perm_map_of:
  assumes "distinct (map fst h)" "mset fs = mset (map fst h)"
  shows "map_of (rev (map (\<lambda>f. (f, the (map_of h f))) fs)) = map_of h"
proof
  fix x
  have d: "distinct fs" "set fs = dom (map_of h)"
    using assms mset_eq_imp_distinct_iff [OF assms(2)] mset_eq_setD [OF assms(2)] by (auto simp: dom_map_of_conv_image_fst)
  have "map_of (rev (map (\<lambda>f. (f, the (map_of h f))) fs)) = map_of (map (\<lambda>f. (f, the (map_of h f))) fs)"
    using d(1) by (intro map_of_inject_set [THEN iffD2]) (simp_all add: rev_map comp_def)
  then show "map_of (rev (map (\<lambda>f. (f, the (map_of h f))) fs)) x = map_of h x"
    using d by (auto simp: map_of_map_restrict restrict_map_def comp_def)
qed

lemma load_entries:
  "load_table ''SET'' = Some (cmd ''SET'' 3 True (Db cmdSet))" "load_table ''RPUSH'' = Some (cmd ''RPUSH'' (- 3) True (Db cmdRPush))"
  "load_table ''HSET'' = Some (cmd ''HSET'' (- 4) True (Db cmdHSet))" "load_table ''SADD'' = Some (cmd ''SADD'' (- 3) True (Db cmdSAdd))"
  "load_table ''ZADD'' = Some (cmd ''ZADD'' (- 4) True (Db cmdZAdd))"
  by (simp_all add: load_table_map stringCommands_def keyCommands_def listCommands_def hashCommands_def
      setCommands_def zsetCommands_def transactionCommands_def serverCommands_def)

lemma load_uppers: "upper ''SET'' = ''SET''" "upper ''RPUSH'' = ''RPUSH''" "upper ''HSET'' = ''HSET''" "upper ''SADD'' = ''SADD''"
  "upper ''ZADD'' = ''ZADD''"
  by code_simp+

text \<open>Running one command of a rewritten log on a database where the key is not alive.\<close>

definition rebuilds :: "env \<Rightarrow> database \<Rightarrow> bytes \<Rightarrow> RedisObject \<Rightarrow> bytes list \<Rightarrow> bool" where
  "rebuilds env db k v args = (\<exists>h rs db' v'. lookup load_table args = Inr (Db h) \<and> h env db args = Inr (rs, db') \<and>
     stores k v' (- 1) db db' \<and> same_value v v')"

lemma rebuildsI:
  assumes "load_table c = Some (cmd c a b (Db h))" "upper c = c" "arity_ok a (c # args)"
    and "h env db (c # args) = Inr (rs, db')" "stores k v' (- 1) db db'" "same_value v v'"
  shows "rebuilds env db k v (c # args)"
  using assms by (auto simp: rebuilds_def lookup_def Let_def)

lemma arity_atleast: "length args < 2147483648 \<Longrightarrow> n \<le> length args \<Longrightarrow> 0 < n \<Longrightarrow> arity_ok (- int n) args"
  by (simp add: arity_ok_def wrap32_id)

lemma rebuild_string:
  assumes "db_inv db" "v = createString s"
  shows "rebuilds env db k v [''SET'', k, asString v]"
proof (rule rebuildsI [OF load_entries(1) load_uppers(1)])
  note s = db_set_ok [OF assms(1), of "mm env" k "asString v"]
  have "same_value v (createString (asString v))"
    unfolding assms(2) by (simp add: same_value_def asString_createString canonical_idem)
  then show "same_value v (createString (asString v))" .
  show "cmdSet env db [''SET'', k, asString v] = Inr ([SimpleString ''OK''], db_set (mm env) db k (asString v))" by (simp add: cmdSet_def)
  show "stores k (createString (asString v)) (- 1) db (db_set (mm env) db k (asString v))" using s by (simp add: stores_def map_le_def)
qed (simp add: arity_ok_def wrap32_def)

lemma rebuild_list:
  assumes "db_inv db" "alive db (clk env 0) k = None" "v = list_obj xs" "xs \<noteq> []" "length xs < 2147483640"
  shows "rebuilds env db k v ([''RPUSH'', k] @ xs)"
proof -
  have "lc.fits_type db (clk env 0) k" "lc.content db (clk env 0) k = ([], - 1)"
    using assms(2) by (simp_all add: lc.fits_type_def lc.content_def)
  then obtain db' rs where "cmdRPush env db ([''RPUSH'', k] @ xs) = Inr (rs, db')" "stores k (list_obj xs) (- 1) db db'"
    using push_ok(2) [OF assms(1), of env k "''RPUSH''" xs] by auto
  moreover have "same_value v (list_obj xs)" unfolding assms(3) by (simp add: same_value_def list_obj_def)
  moreover have "arity_ok (- 3) ([''RPUSH'', k] @ xs)"
    using arity_atleast [of "[''RPUSH'', k] @ xs" 3] assms(4,5) by (cases xs) simp_all
  ultimately show ?thesis using rebuildsI [OF load_entries(2) load_uppers(2), of "k # xs" env db rs db' k] by simp
qed

lemma rebuild_hash:
  assumes "db_inv db" "alive db (clk env 0) k = None" "v = hash_obj h" "h \<noteq> []" "distinct (map fst h)"
    and "mset fs = mset (map fst h)" "length h < 1073741800"
  shows "rebuilds env db k v ([''HSET'', k] @ concat (map (\<lambda>f. [f, the (map_of h f)]) fs))" (is "rebuilds _ _ _ _ ([_, _] @ ?fvs)")
proof -
  have c: "hc.fits_type db (clk env 0) k" "hc.content db (clk env 0) k = ([], - 1)"
    using assms(2) by (simp_all add: hc.fits_type_def hc.content_def)
  have p: "pairs_of ?fvs = map (\<lambda>f. (f, the (map_of h f))) fs" by (rule pairs_of_concat)
  obtain h' db' rs where "cmdHSet env db ([''HSET'', k] @ ?fvs) = Inr (rs, db')" "stores k (hash_obj h') (- 1) db db'"
    "map_of h' = map_of (rev (pairs_of ?fvs))"
    using hset_ok [OF assms(1) c(1), of ?fvs "''HSET''"] even_concat [of "\<lambda>f. f" "\<lambda>f. the (map_of h f)" fs] c(2) by auto
  moreover from this(3) have "same_value v (hash_obj h')"
    unfolding assms(3) p perm_map_of [OF assms(5,6)] by (simp add: same_value_def hash_obj_def)
  moreover have l: "length ?fvs = 2 * length h"
    using size_mset [of fs] size_mset [of "map fst h"] assms(6) by (simp add: length_concat comp_def sum_list_triv)
  then have "arity_ok (- 4) ([''HSET'', k] @ ?fvs)"
    using arity_atleast [of "[''HSET'', k] @ ?fvs" 4] assms(4,7) by (cases h) auto
  ultimately show ?thesis using rebuildsI [OF load_entries(3) load_uppers(3), of "k # ?fvs" env db rs db' k] by simp
qed

lemma rebuild_set:
  assumes "db_inv db" "alive db (clk env 0) k = None" "v = set_obj s" "s \<noteq> []" "mset ms = mset s" "length s < 2147483640"
  shows "rebuilds env db k v ([''SADD'', k] @ ms)"
proof -
  have c: "sc.fits_type db (clk env 0) k" "sc.content db (clk env 0) k = ([], - 1)"
    using assms(2) by (simp_all add: sc.fits_type_def sc.content_def)
  obtain s' db' rs where "cmdSAdd env db ([''SADD'', k] @ ms) = Inr (rs, db')" "stores k (set_obj s') (- 1) db db'" "set s' = set ms"
    using sadd_ok [OF assms(1) c(1), of "''SADD''" ms] c(2) by auto
  moreover from this(3) have "same_value v (set_obj s')"
    unfolding assms(3) using mset_eq_setD [OF assms(5)] by (simp add: same_value_def set_obj_def)
  moreover have "length ms = length s" using assms(5) by (metis size_mset)
  then have "arity_ok (- 3) ([''SADD'', k] @ ms)"
    using arity_atleast [of "[''SADD'', k] @ ms" 3] assms(4,6) by (cases s) simp_all
  ultimately show ?thesis using rebuildsI [OF load_entries(4) load_uppers(4), of "k # ms" env db rs db' k] by simp
qed

lemma zset_elems:
  assumes "zset_ok z" "zdict z \<noteq> []" "length (zdict z) < 2147483648"
  shows "sl_rangeByRank (zskiplist z) 0 (wrap32 (int (sl_size (zskiplist z))) - 1) = Some (zsorted z)"
proof -
  note o = zset_ok_rel [OF assms(1)]
  have n: "sl_size (zskiplist z) = length (zdict z)" using sli.size_rel [OF o(1)] o(3) by simp
  have "sl_rangeByRank (zskiplist z) 0 (int (length (zdict z)) - 1) = Some (redis_range (zsorted z) 0 (int (length (zdict z)) - 1))"
    using assms(3) o(3) by (intro sli.range_rel [OF o(1)]) simp_all
  moreover have "redis_range (zsorted z) 0 (int (length (zdict z)) - 1) = zsorted z"
    using o(3) assms(2) by (auto simp: redis_range_def Let_def)
  ultimately show ?thesis using assms(3) n by (simp add: wrap32_id)
qed

lemma rebuild_zset:
  assumes "db_inv db" "alive db (clk env 0) k = None" "v = zset_obj z" "zset_ok z" "zdict z \<noteq> []" "length (zdict z) < 1073741800"
    and "\<And>s. s \<in> snd ` set (zdict z) \<Longrightarrow> \<exists>i. \<bar>i\<bar> \<le> 2 ^ 53 \<and> s = dint i"
  shows "rebuilds env db k v ([''ZADD'', k] @ concat (map (\<lambda>(m, s). [printf_17g s, m]) (zsorted z)))" (is "rebuilds _ _ _ _ ([_, _] @ ?sms)")
proof -
  have c: "zc.fits_type db (clk env 0) k" "zc.content (seed env) db (clk env 0) k = (new_zset (seed env), - 1)"
    using assms(2) by (simp_all add: zc.fits_type_def zc.content_def)
  note o = zset_ok_rel [OF assms(4)]
  have sms: "?sms = concat (map (\<lambda>e. [printf_17g (snd e), fst e]) (zsorted z))" unfolding case_prod_beta' ..
  have st: "strtod (printf_17g (snd e)) = snd e" if "e \<in> set (zsorted z)" for e
    using assms(7) [of "snd e"] that o(4) printf_dint strtod_to_string by auto
  have p: "zpairs ?sms = zsorted z"
    unfolding zpairs_def sms pairs_of_concat by (simp add: case_prod_beta comp_def st cong: map_cong)
  have nn: "NaN \<notin> snd ` set (zpairs ?sms)" unfolding p o(4) using assms(7) by (force simp: dint_def)
  have ev: "even (length ?sms)" unfolding sms by (rule even_concat)
  obtain z' db' rs where z': "cmdZAdd env db ([''ZADD'', k] @ ?sms) = Inr (rs, db')" "stores k (zset_obj z') (- 1) db db'"
    "map_of (zdict z') = foldl zput Map.empty (zpairs ?sms)"
    using zadd_ok [OF assms(1) c(1) _ ev nn, of "''ZADD''"] c(2) zset_ok_new by auto
  have d: "distinct (map fst (zsorted z))" using o(5) by (simp add: zsorted_def distinct_map)
  have "map_of (zdict z') = map_of (zsorted z)" unfolding z'(3) p using foldl_zput [OF d, of Map.empty] by simp
  also have "\<dots> = map_of (zdict z)" using d o(4,5) by (intro map_of_inject_set [THEN iffD2]) simp_all
  finally have "same_value v (zset_obj z')" unfolding assms(3) by (simp add: same_value_def zset_obj_def)
  moreover have "length ?sms = 2 * length (zdict z)" unfolding sms using o(3) by (simp add: length_concat comp_def sum_list_triv)
  then have "arity_ok (- 4) ([''ZADD'', k] @ ?sms)"
    using arity_atleast [of "[''ZADD'', k] @ ?sms" 4] assms(5,6) by (cases "zdict z") auto
  ultimately show ?thesis using rebuildsI [OF load_entries(5) load_uppers(5), of "k # ?sms" env db rs db' k] z'(1,2) by simp
qed

definition elements :: "RedisObject \<Rightarrow> nat" where
  "elements v = (case odata v of DDeque xs \<Rightarrow> length xs | DMap h \<Rightarrow> length h | DSet s \<Rightarrow> length s | DZSet z \<Rightarrow> length (zdict z) | _ \<Rightarrow> 0)"

text \<open>C13 (equivalence). The rewritten log rebuilds the values. For a well-formed value the child writes at most one command,
  and none only for an empty container; replayed by the loader, whatever the iteration order of the
  containers was, on a database where the key is not alive, the command stores under the key, without
  expiry time, a value with the same content: the same bytes, elements, fields, members, scores. Scores
  are integers of at most 53 bits here and containers are smaller than the 32-bit counts allow.\<close>
theorem rewrite_rebuilds:
  assumes "value_ok v" and "otype v = STRING \<Longrightarrow> \<exists>s. v = createString s" and "elements v < 1073741800"
    and "\<And>xs. mset (uorder env xs) = mset xs"
    and "\<And>z s. odata v = DZSet z \<Longrightarrow> s \<in> snd ` set (zdict z) \<Longrightarrow> \<exists>i. \<bar>i\<bar> \<le> 2 ^ 53 \<and> s = dint i"
    and "db_inv db" and "alive db (clk env' 0) k = None"
  shows "\<exists>cmds. rewrite_value env k v = Inr cmds \<and>
    (cmds = [] \<and> otype v \<noteq> STRING \<and> elements v = 0 \<or> (\<exists>args. cmds = [args] \<and> rebuilds env' db k v args))"
proof -
  have o: "obj_ok v" using assms(1) by (simp add: value_ok_def)
  show ?thesis
  proof (cases "otype v")
    case STRING
    then obtain s where "v = createString s" using assms(2) by blast
    from rebuild_string [OF assms(6) this, of env' k] show ?thesis using STRING by (simp add: rewrite_value_def)
  next
    case LIST
    obtain xs where v: "odata v = DDeque xs" "encoding v = LINKEDLIST" by (rule obj_ok_LIST [OF o LIST])
    then have "v = list_obj xs" using LIST by (cases v) (simp add: list_obj_def)
    from rebuild_list [OF assms(6,7) this] show ?thesis
      using assms(3) LIST v by (cases "xs = []") (simp_all add: rewrite_value_def elements_def)
  next
    case HASH
    obtain h where v: "odata v = DMap h" "encoding v = HASHTABLE" "distinct (map fst h)" by (rule obj_ok_HASH [OF o HASH])
    then have "v = hash_obj h" using HASH by (cases v) (simp add: hash_obj_def)
    from rebuild_hash [OF assms(6,7) this _ v(3) assms(4)] show ?thesis
      using assms(3) HASH v(1) by (cases "h = []") (simp_all add: rewrite_value_def elements_def)
  next
    case SET
    obtain s where v: "odata v = DSet s" "encoding v = HASHTABLE" "distinct s" by (rule obj_ok_SET [OF o SET])
    then have "v = set_obj s" using SET by (cases v) (simp add: set_obj_def)
    from rebuild_set [OF assms(6,7) this _ assms(4)] show ?thesis
      using assms(3) SET v(1) by (cases "s = []") (simp_all add: rewrite_value_def elements_def)
  next
    case ZSET
    obtain z where v: "odata v = DZSet z" "encoding v = SKIPLIST" by (rule obj_ok_ZSET [OF o ZSET])
    then have vz: "v = zset_obj z" using ZSET by (cases v) (simp add: zset_obj_def)
    have z: "zset_ok z" "length (zdict z) < 1073741800" using assms(1,3) v(1) by (simp_all add: value_ok_def elements_def)
    show ?thesis
    proof (cases "zdict z = []")
      case False
      have "rewrite_value env k v = Inr [[''ZADD'', k] @ concat (map (\<lambda>(m, s). [printf_17g s, m]) (zsorted z))]"
        using zset_elems [OF z(1) False] z(2) False ZSET v(1) by (simp add: rewrite_value_def)
      moreover have "rebuilds env' db k v ([''ZADD'', k] @ concat (map (\<lambda>(m, s). [printf_17g s, m]) (zsorted z)))"
        by (rule rebuild_zset [OF assms(6,7) vz z(1) False z(2) assms(5) [OF v(1)]])
      ultimately show ?thesis by blast
    qed (use ZSET v(1) in \<open>simp add: rewrite_value_def elements_def\<close>)
  qed
qed

theorem rewrite_rebuilds_witness:
  "\<exists>args. rewrite_value (demo_env 0) ''l'' (list_obj [''x'', ''y'']) = Inr [args] \<and>
    rebuilds (demo_env 0) new_database ''l'' (list_obj [''x'', ''y'']) args"
proof -
  let ?v = "list_obj [''x'', ''y'']"
  have "value_ok ?v" by (simp add: value_ok_def obj_ok_def list_obj_def)
  moreover have "otype ?v \<noteq> STRING" "elements ?v = 2" "\<And>z. odata ?v \<noteq> DZSet z" by (simp_all add: list_obj_def elements_def)
  moreover have "\<And>xs. mset (uorder (demo_env 0) xs) = mset xs" by (simp add: demo_env_def)
  moreover have "alive new_database (clk (demo_env 0) 0) ''l'' = None" by (simp add: alive_def alive_map_def db_inv_new)
  ultimately show ?thesis
    using rewrite_rebuilds [of ?v "demo_env 0" new_database "demo_env 0" "''l''"] db_inv_new by fastforce
qed

text \<open>A key that expires while the child is looking at it becomes permanent: the child finds the key
  alive and writes its value, but when it then asks for the remaining time the key has expired, and the
  negative answer is taken for a key without expiry time.\<close>
theorem rewrite_race:
  "\<exists>db'. rewrite_key (demo_env 0\<lparr>clk := \<lambda>i. if i = 0 then 499 else 500\<rparr>) ''a'' demo_db = Inr ([[''SET'', ''a'', ''1'']], db') \<and>
    alive demo_db 499 ''a'' = Some (createString ''1'', 500) \<and> alive demo_db 500 ''a'' = None"
proof -
  have "map_sum id fst (rewrite_key (demo_env 0\<lparr>clk := \<lambda>i. if i = 0 then 499 else 500\<rparr>) ''a'' demo_db) = Inr [[''SET'', ''a'', ''1'']]"
    by code_simp
  then have "\<exists>db'. rewrite_key (demo_env 0\<lparr>clk := \<lambda>i. if i = 0 then 499 else 500\<rparr>) ''a'' demo_db = Inr ([[''SET'', ''a'', ''1'']], db')"
    by (cases "rewrite_key (demo_env 0\<lparr>clk := \<lambda>i. if i = 0 then 499 else 500\<rparr>) ''a'' demo_db") auto
  moreover have "alive demo_db 499 ''a'' = Some (createString ''1'', 500)" "alive demo_db 500 ''a'' = None"
    by (simp_all add: alive_def alive_map_def demo_entries mk_entry_def expired_def)
  ultimately show ?thesis by blast
qed

text \<open>The log while a rewrite is going on: it receives every command, and so does the rewrite buffer.\<close>

lemma log_rewriting:
  assumes "aof_open a" "isRewriting a" "\<forall>l \<in> set logs. WriteError \<notin> set (fst l)"
  defines "a' \<equiv> fold (\<lambda>(os, args). aof_log os args) logs a"
  shows "aof_open a' \<and> isRewriting a' \<and> child_running a' = child_running a \<and> temp_file a' = temp_file a \<and>
    rewriteBuffer a' = rewriteBuffer a @ map formatRespCommand (map snd logs)"
  unfolding a'_def using assms(1-3)
proof (induction logs arbitrary: a)
  case (Cons l logs)
  obtain os args where l: "l = (os, args)" by (cases l)
  let ?a = "aof_log os args a"
  have "aof_open ?a" "isRewriting ?a" "child_running ?a = child_running a" "temp_file ?a = temp_file a"
    "rewriteBuffer ?a = rewriteBuffer a @ [formatRespCommand args]"
    using Cons.prems(1,2) by (simp_all add: aof_log_def Let_def fsync_def)
  then show ?case using Cons l by simp
qed simp



end
