(* ===== verification/Store_Spec.thy ===== *)
theory Store_Spec
  imports Command_Safety
begin

text \<open>
  The abstract store: what the commands of the database promise to a client, without hash tables, heaps,
  encodings, skip lists or reaping. A key holds a content - bytes, a list, a finite map, a set, a map of
  scores - and an expiry time. Expired keys simply stop being visible. A specification takes the clock
  readings of the command, its arguments and the store, and gives the replies it allows and the new
  store, or the exception that ends the server. The theory \<open>Store_Refinement\<close> shows that the handlers
  implement these specifications.
\<close>

section \<open>Contents and stores\<close>

datatype content =
    Str bytes
  | Lst "bytes list"
  | Hsh "bytes \<rightharpoonup> bytes"
  | Mem "bytes set"
  | Scores "bytes \<rightharpoonup> dbl"

type_synonym store = "bytes \<rightharpoonup> content \<times> int"

type_synonym spec = "(nat \<Rightarrow> int) \<Rightarrow> bytes list \<Rightarrow> store \<Rightarrow> cpp_exception + reply list set \<times> store"

text \<open>What is visible at a time. Expiry times below 0 mean none.\<close>

definition view :: "int \<Rightarrow> store \<Rightarrow> store" where
  "view t s k = (case s k of None \<Rightarrow> None | Some (c, x) \<Rightarrow> if 0 \<le> x \<and> x \<le> t then None else Some (c, x))"

fun sel_str :: "content \<Rightarrow> bytes option" where
  "sel_str (Str v) = Some v"
| "sel_str _ = None"

fun sel_lst :: "content \<Rightarrow> bytes list option" where
  "sel_lst (Lst xs) = Some xs"
| "sel_lst _ = None"

fun sel_hsh :: "content \<Rightarrow> (bytes \<rightharpoonup> bytes) option" where
  "sel_hsh (Hsh h) = Some h"
| "sel_hsh _ = None"

fun sel_mem :: "content \<Rightarrow> bytes set option" where
  "sel_mem (Mem m) = Some m"
| "sel_mem _ = None"

fun sel_scores :: "content \<Rightarrow> (bytes \<rightharpoonup> dbl) option" where
  "sel_scores (Scores f) = Some f"
| "sel_scores _ = None"

text \<open>The number of elements of a list or of a sorted set, whose ranks the code computes with 32 bits.\<close>

fun ranks :: "content \<Rightarrow> nat" where
  "ranks (Lst xs) = length xs"
| "ranks (Scores f) = card (dom f)"
| "ranks _ = 0"

definition bounded :: "nat \<Rightarrow> store \<Rightarrow> bool" where
  "bounded n s = (\<forall>k c x. s k = Some (c, x) \<longrightarrow> ranks c \<le> n)"

lemma boundedD: "bounded n s \<Longrightarrow> s k = Some (c, x) \<Longrightarrow> ranks c \<le> n"
  by (auto simp: bounded_def)

lemma bounded_mono: "bounded n s \<Longrightarrow> n \<le> m \<Longrightarrow> bounded m s"
  unfolding bounded_def by (meson le_trans)

abbreviation exactly :: "reply list \<Rightarrow> store \<Rightarrow> cpp_exception + reply list set \<times> store" where
  "exactly rs s \<equiv> Inr ({rs}, s)"

text \<open>A command on one key of one type: an answer for a missing key, the error for another type.\<close>

definition on_key ::
  "(content \<Rightarrow> 'a option) \<Rightarrow> int \<Rightarrow> store \<Rightarrow> bytes \<Rightarrow> (cpp_exception + reply list set \<times> store) \<Rightarrow>
    ('a \<Rightarrow> int \<Rightarrow> cpp_exception + reply list set \<times> store) \<Rightarrow> cpp_exception + reply list set \<times> store" where
  "on_key sel t s k missing f =
     (case view t s k of
        None \<Rightarrow> missing
      | Some (c, x) \<Rightarrow> (case sel c of None \<Rightarrow> exactly [Error WRONGTYPE] s | Some a \<Rightarrow> f a x))"

text \<open>Replace the content of a key; an empty container is removed.\<close>

definition put :: "bytes \<Rightarrow> content \<Rightarrow> int \<Rightarrow> bool \<Rightarrow> store \<Rightarrow> store" where
  "put k c x gone s = (if gone then s(k := None) else s(k \<mapsto> (c, x)))"

section \<open>Strings and keys\<close>

definition specPing :: spec where
  "specPing tm args s = exactly (if length args = 1 then [SimpleString ''PONG''] else [BulkString (args ! 1)]) s"

definition specSet :: spec where
  "specSet tm args s = exactly [SimpleString ''OK''] (s(args ! 1 \<mapsto> (Str (canonical (args ! 2)), - 1)))"

definition specGet :: spec where
  "specGet tm args s = on_key sel_str (tm 0) s (args ! 1) (exactly [Null] s) (\<lambda>v x. exactly [BulkString v] s)"

text \<open>DEL does not look at the clock: whether it counts an expired key depends on whether that was already
  reaped. The count lies between the visible keys and all keys ever stored and not deleted.\<close>

definition specDel :: spec where
  "specDel tm args s =
     (let K = set (drop 1 args) in
      Inr ({[Integer n] | n. int (card (K \<inter> dom (view (tm 0) s))) \<le> n \<and> n \<le> int (card (K \<inter> dom s))}, s |` (- K)))"

definition specExists :: spec where
  "specExists tm args s =
     (let ks = drop 1 args in
      exactly [Integer (int (length (filter (\<lambda>(k, j). view (tm j) s k \<noteq> None) (zip ks [0..<length ks]))))] s)"

definition specKeys :: spec where
  "specKeys tm args s =
     Inr ({ArrayHeader (int (length ks)) # map BulkString ks | ks.
       distinct ks \<and> dom (view (tm 0) s) \<subseteq> set ks \<and> set ks \<subseteq> dom s}, s)"

definition specDbsize :: spec where
  "specDbsize tm args s =
     Inr ({[Integer n] | n. int (card (dom (view (tm 0) s))) \<le> n \<and> n \<le> int (card (dom s))}, s)"

definition spec_deadline :: "int \<Rightarrow> (nat \<Rightarrow> int) \<Rightarrow> bytes \<Rightarrow> store \<Rightarrow> cpp_exception + reply list set \<times> store" where
  "spec_deadline d tm k s =
     (case view (tm 1) s k of
        None \<Rightarrow> exactly [Integer 0] s
      | Some (c, x) \<Rightarrow> exactly [Integer 1] (s(k \<mapsto> (c, d))))"

definition specExpire :: spec where
  "specExpire tm args s =
     (case parseInteger (args ! 2) of
        None \<Rightarrow> exactly [Error ERR_NOT_INT] s
      | Some n \<Rightarrow> spec_deadline (tm 0 + n * 1000) tm (args ! 1) s)"

definition specPexpire :: spec where
  "specPexpire tm args s =
     (case parseInteger (args ! 2) of
        None \<Rightarrow> exactly [Error ERR_NOT_INT] s
      | Some n \<Rightarrow> spec_deadline (tm 0 + n) tm (args ! 1) s)"

definition remaining :: "(nat \<Rightarrow> int) \<Rightarrow> bytes \<Rightarrow> store \<Rightarrow> int" where
  "remaining tm k s = (case view (tm 0) s k of None \<Rightarrow> - 2 | Some (c, x) \<Rightarrow> if x < 0 then - 1 else x - tm 1)"

definition specPttl :: spec where
  "specPttl tm args s = exactly [Integer (remaining tm (args ! 1) s)] s"

definition specTtl :: spec where
  "specTtl tm args s =
     (let r = remaining tm (args ! 1) s
      in exactly [Integer (if r = - 1 \<or> r = - 2 then r else tdiv r 1000)] s)"

text \<open>One call of SCAN promises visible keys that match, each once; that a whole iteration finds every key
  is a property of the table (\<open>Hash_Table.scan_complete\<close>).\<close>

definition specScan :: spec where
  "specScan tm args s =
     (case parseInteger (args ! 1) of
        None \<Rightarrow> exactly [Error ''ERR invalid cursor''] s
      | Some cur \<Rightarrow>
          if cur < 0 then exactly [Error ''ERR invalid cursor''] s
          else (case scan_options (drop 2 args) 10 ''*'' of
             Inl _ \<Rightarrow> exactly [Error ''ERR syntax error''] s
           | Inr (n, pat) \<Rightarrow>
               Inr ({[ArrayHeader 2, BulkString (to_string (int nc)), ArrayHeader (int (length ks))] @ map BulkString ks | nc ks.
                 distinct ks \<and> (\<forall>k \<in> set ks. view (tm 0) s k \<noteq> None \<and> pat_ok pat k)}, s)))"

definition specFlushdb :: spec where
  "specFlushdb tm args s = exactly [SimpleString ''OK''] Map.empty"

section \<open>Lists\<close>

definition specLPush :: spec where
  "specLPush tm args s =
     (let k = args ! 1; new = drop 2 args;
          push = (\<lambda>xs x. exactly [Integer (int (length new + length xs))] (s(k \<mapsto> (Lst (rev new @ xs), x))))
      in on_key sel_lst (tm 0) s k (push [] (- 1)) push)"

definition specRPush :: spec where
  "specRPush tm args s =
     (let k = args ! 1; new = drop 2 args;
          push = (\<lambda>xs x. exactly [Integer (int (length new + length xs))] (s(k \<mapsto> (Lst (xs @ new), x))))
      in on_key sel_lst (tm 0) s k (push [] (- 1)) push)"

definition specLPop :: spec where
  "specLPop tm args s =
     on_key sel_lst (tm 0) s (args ! 1) (exactly [Null] s)
       (\<lambda>xs x. if xs = [] then exactly [Null] s
         else exactly [BulkString (hd xs)] (put (args ! 1) (Lst (tl xs)) x (tl xs = []) s))"

definition specRPop :: spec where
  "specRPop tm args s =
     on_key sel_lst (tm 0) s (args ! 1) (exactly [Null] s)
       (\<lambda>xs x. if xs = [] then exactly [Null] s
         else exactly [BulkString (last xs)] (put (args ! 1) (Lst (butlast xs)) x (butlast xs = []) s))"

definition specLLen :: spec where
  "specLLen tm args s =
     on_key sel_lst (tm 0) s (args ! 1) (exactly [Integer 0] s) (\<lambda>xs x. exactly [Integer (int (length xs))] s)"

definition specLRange :: spec where
  "specLRange tm args s =
     on_key sel_lst (tm 0) s (args ! 1) (exactly [ArrayHeader 0] s)
       (\<lambda>xs x. case stoi (args ! 2) of Inl ex \<Rightarrow> Inl ex | Inr i \<Rightarrow>
         (case stoi (args ! 3) of Inl ex \<Rightarrow> Inl ex | Inr j \<Rightarrow>
           (let r = redis_range xs i j in exactly (ArrayHeader (int (length r)) # map BulkString r) s)))"

section \<open>Hashes and sets\<close>

definition specHSet :: spec where
  "specHSet tm args s =
     (let k = args ! 1; fvs = drop 2 args;
          upd = (\<lambda>h x. exactly [Integer (int (card (fst ` set (pairs_of fvs) - dom h)))]
                   (s(k \<mapsto> (Hsh (h ++ map_of (rev (pairs_of fvs))), x))))
      in if odd (length fvs) then exactly [Error ''ERR wrong number of arguments for 'hset' command''] s
         else on_key sel_hsh (tm 0) s k (upd Map.empty (- 1)) upd)"

definition specHGet :: spec where
  "specHGet tm args s =
     on_key sel_hsh (tm 0) s (args ! 1) (exactly [Null] s)
       (\<lambda>h x. exactly [case h (args ! 2) of None \<Rightarrow> Null | Some v \<Rightarrow> BulkString v] s)"

definition specHDel :: spec where
  "specHDel tm args s =
     (let F = set (drop 2 args) in
      on_key sel_hsh (tm 0) s (args ! 1) (exactly [Integer 0] s)
        (\<lambda>h x. exactly [Integer (int (card (F \<inter> dom h)))] (put (args ! 1) (Hsh (h |` (- F))) x (dom h \<subseteq> F) s)))"

definition specHGetAll :: spec where
  "specHGetAll tm args s =
     on_key sel_hsh (tm 0) s (args ! 1) (exactly [ArrayHeader 0] s)
       (\<lambda>h x. Inr ({ArrayHeader (2 * int (card (dom h))) # concat (map (\<lambda>f. [BulkString f, BulkString (the (h f))]) fs) | fs.
          distinct fs \<and> set fs = dom h}, s))"

definition specHLen :: spec where
  "specHLen tm args s =
     on_key sel_hsh (tm 0) s (args ! 1) (exactly [Integer 0] s) (\<lambda>h x. exactly [Integer (int (card (dom h)))] s)"

definition specSAdd :: spec where
  "specSAdd tm args s =
     (let k = args ! 1; M = set (drop 2 args);
          add = (\<lambda>m x. exactly [Integer (int (card (M - m)))] (s(k \<mapsto> (Mem (m \<union> M), x))))
      in on_key sel_mem (tm 0) s k (add {} (- 1)) add)"

definition specSRem :: spec where
  "specSRem tm args s =
     (let M = set (drop 2 args) in
      on_key sel_mem (tm 0) s (args ! 1) (exactly [Integer 0] s)
        (\<lambda>m x. exactly [Integer (int (card (M \<inter> m)))] (put (args ! 1) (Mem (m - M)) x (m \<subseteq> M) s)))"

definition specSIsMember :: spec where
  "specSIsMember tm args s =
     on_key sel_mem (tm 0) s (args ! 1) (exactly [Integer 0] s)
       (\<lambda>m x. exactly [Integer (if args ! 2 \<in> m then 1 else 0)] s)"

definition specSMembers :: spec where
  "specSMembers tm args s =
     on_key sel_mem (tm 0) s (args ! 1) (exactly [ArrayHeader 0] s)
       (\<lambda>m x. Inr ({ArrayHeader (int (card m)) # map BulkString ms | ms. distinct ms \<and> set ms = m}, s))"

definition specSCard :: spec where
  "specSCard tm args s =
     on_key sel_mem (tm 0) s (args ! 1) (exactly [Integer 0] s) (\<lambda>m x. exactly [Integer (int (card m))] s)"

section \<open>Sorted sets\<close>

definition specZAdd :: spec where
  "specZAdd tm args s =
     (let k = args ! 1; sms = drop 2 args;
          add = (\<lambda>f x. exactly [Integer (int (card (fst ` set (zpairs sms) - dom f)))]
                   (s(k \<mapsto> (Scores (foldl zput f (zpairs sms)), x))))
      in if odd (length sms) then exactly [Error ''ERR wrong number of arguments for 'zadd' command''] s
         else on_key sel_scores (tm 0) s k (add Map.empty (- 1)) add)"

definition specZScore :: spec where
  "specZScore tm args s =
     on_key sel_scores (tm 0) s (args ! 1) (exactly [Null] s)
       (\<lambda>f x. exactly [case f (args ! 2) of None \<Rightarrow> Null | Some d \<Rightarrow> BulkString (formatScore d)] s)"

definition specZRank :: spec where
  "specZRank tm args s =
     on_key sel_scores (tm 0) s (args ! 1) (exactly [Null] s)
       (\<lambda>f x. exactly [case f (args ! 2) of None \<Rightarrow> Null
         | Some d \<Rightarrow> Integer (int (card {e \<in> Map.graph f. skey e < skey (args ! 2, d)}))] s)"

text \<open>\<open>ranking f es\<close>: the elements of \<open>f\<close> in the order of their scores, then of their names.\<close>

definition ranking :: "(bytes \<rightharpoonup> dbl) \<Rightarrow> (bytes \<times> dbl) list \<Rightarrow> bool" where
  "ranking f es = (ordered es \<and> set es = Map.graph f)"

definition specZRange :: spec where
  "specZRange tm args s =
     (if length args = 5 \<and> map toupper (args ! 4) \<noteq> ''WITHSCORES'' then exactly [Error ''ERR syntax error''] s
      else on_key sel_scores (tm 0) s (args ! 1) (exactly [ArrayHeader 0] s)
        (\<lambda>f x. case stoi (args ! 2) of Inl ex \<Rightarrow> Inl ex | Inr i \<Rightarrow>
          (case stoi (args ! 3) of Inl ex \<Rightarrow> Inl ex | Inr j \<Rightarrow>
            Inr ({let r = redis_range es i j in
                  if length args = 5
                  then ArrayHeader (2 * int (length r)) # concat (map (\<lambda>(m, d). [BulkString m, BulkString (formatScore d)]) r)
                  else ArrayHeader (int (length r)) # map (\<lambda>(m, d). BulkString m) r | es. ranking f es}, s))))"

definition specZCard :: spec where
  "specZCard tm args s =
     on_key sel_scores (tm 0) s (args ! 1) (exactly [Integer 0] s) (\<lambda>f x. exactly [Integer (int (card (dom f)))] s)"

definition specZRem :: spec where
  "specZRem tm args s =
     (let M = set (drop 2 args) in
      on_key sel_scores (tm 0) s (args ! 1) (exactly [Integer 0] s)
        (\<lambda>f x. exactly [Integer (int (card (M \<inter> dom f)))] (put (args ! 1) (Scores (f |` (- M))) x (dom f \<subseteq> M) s)))"

section \<open>The table of specifications\<close>

definition spec_table :: "(bytes \<times> spec) list" where
  "spec_table =
    [(''PING'', specPing), (''SET'', specSet), (''GET'', specGet), (''DEL'', specDel), (''EXISTS'', specExists),
     (''KEYS'', specKeys), (''EXPIRE'', specExpire), (''TTL'', specTtl), (''PEXPIRE'', specPexpire), (''PTTL'', specPttl),
     (''DBSIZE'', specDbsize), (''SCAN'', specScan), (''FLUSHDB'', specFlushdb),
     (''LPUSH'', specLPush), (''RPUSH'', specRPush), (''LPOP'', specLPop), (''RPOP'', specRPop), (''LLEN'', specLLen),
     (''LRANGE'', specLRange), (''HSET'', specHSet), (''HGET'', specHGet), (''HDEL'', specHDel), (''HGETALL'', specHGetAll),
     (''HLEN'', specHLen), (''SADD'', specSAdd), (''SREM'', specSRem), (''SISMEMBER'', specSIsMember),
     (''SMEMBERS'', specSMembers), (''SCARD'', specSCard), (''ZADD'', specZAdd), (''ZSCORE'', specZScore),
     (''ZRANK'', specZRank), (''ZRANGE'', specZRange), (''ZCARD'', specZCard), (''ZREM'', specZRem)]"

end
