(* ===== verification/Store_Refinement.thy ===== *)
theory Store_Refinement
  imports Store_Spec
begin

text \<open>
  The handlers implement the abstract store. \<open>reflects\<close> relates a database to a store: every entry is what
  the store says, and what the store has and the database no longer has is past its expiry time. Each
  handler, run in related states, gives a reply that its specification allows and a related state, or the
  exception the specification gives. The locale \<open>content_type\<close> adds to \<open>container\<close> how a payload is read as a
  content; its lemmas reduce a handler to what it does with the payload.
\<close>

section \<open>The relation\<close>

definition content_of :: "RedisObject \<Rightarrow> content" where
  "content_of v =
     (case odata v of
        DDeque xs \<Rightarrow> Lst xs
      | DMap h \<Rightarrow> Hsh (map_of h)
      | DSet xs \<Rightarrow> Mem (set xs)
      | DZSet z \<Rightarrow> Scores (map_of (zdict z))
      | _ \<Rightarrow> Str (asString v))"

definition reflects :: "int \<Rightarrow> database \<Rightarrow> store \<Rightarrow> bool" where
  "reflects now db s =
     ((\<forall>k t. due db k = Some t \<longrightarrow> 0 \<le> t) \<and> finite (dom s) \<and>
      (\<forall>k e. entry_of db k = Some e \<longrightarrow> s k = Some (content_of (evalue e), expireAt e)) \<and>
      (\<forall>k c x. s k = Some (c, x) \<longrightarrow> entry_of db k = None \<longrightarrow> 0 \<le> x \<and> x \<le> now))"

text \<open>\<open>pruned now db db'\<close>: some entries that have expired have gone.\<close>

definition pruned :: "int \<Rightarrow> database \<Rightarrow> database \<Rightarrow> bool" where
  "pruned now db db' =
     (db_inv db' \<and> entry_of db' \<subseteq>\<^sub>m entry_of db \<and> due db' \<subseteq>\<^sub>m due db \<and>
      (\<forall>k e. entry_of db k = Some e \<longrightarrow> entry_of db' k = None \<longrightarrow> expired now e))"

lemma reflects_new: "reflects now new_database Map.empty"
  by (simp add: reflects_def db_inv_new)

lemma reflects_later: "reflects now db s \<Longrightarrow> now \<le> now' \<Longrightarrow> reflects now' db s"
  unfolding reflects_def by (meson order_trans)

lemma reflects_view:
  assumes "reflects now db s" "now \<le> t"
  shows "view t s k = map_option (\<lambda>(v, x). (content_of v, x)) (alive db t k)"
proof (cases "entry_of db k")
  case None
  then have "\<forall>c x. s k = Some (c, x) \<longrightarrow> 0 \<le> x \<and> x \<le> t" using assms by (fastforce simp: reflects_def)
  with None show ?thesis by (auto simp: view_def alive_def alive_map_def split: option.split)
next
  case (Some e)
  then have "s k = Some (content_of (evalue e), expireAt e)" using assms(1) by (simp add: reflects_def)
  with Some show ?thesis by (auto simp: view_def alive_def alive_map_def expired_def)
qed

lemma reflects_dom:
  assumes "reflects now db s"
  shows "dom (entry_of db) \<subseteq> dom s" and "now \<le> t \<Longrightarrow> dom (view t s) \<subseteq> dom (entry_of db)"
    and "finite (dom (entry_of db))"
proof -
  show d: "dom (entry_of db) \<subseteq> dom s" using assms by (auto simp: reflects_def)
  then show "finite (dom (entry_of db))" using assms by (auto simp: reflects_def intro: finite_subset)
  show "dom (view t s) \<subseteq> dom (entry_of db)" if "now \<le> t"
  proof
    fix k assume "k \<in> dom (view t s)"
    then have "alive db t k \<noteq> None" using reflects_view [OF assms that, of k] by (metis domIff option.map_disc_iff)
    then show "k \<in> dom (entry_of db)" by (auto simp: alive_def alive_map_def split: option.splits)
  qed
qed

lemma pruned_same: "same_data db db' \<Longrightarrow> pruned now db db'"
  by (simp add: pruned_def same_data_def)

lemma pruned_refl: "db_inv db \<Longrightarrow> pruned now db db"
  by (rule pruned_same [OF same_data_refl])

lemma pruned_reaped: "reaped now k db db' \<Longrightarrow> pruned now db db'"
  using reaped_due [of now k db db'] reaped_inv [of now k db db'] reaped_entry [of now k db db']
  by (auto simp: pruned_def map_le_def split: if_splits option.splits)

lemma pruned_trans:
  assumes "pruned t1 a b" "pruned t2 b c" "t1 \<le> t2"
  shows "pruned t2 a c"
proof -
  have "expired t2 e" if e: "entry_of a k = Some e" "entry_of c k = None" for k e
  proof (cases "entry_of b k")
    case None
    then show ?thesis using assms(1,3) e by (fastforce simp: pruned_def expired_def)
  next
    case (Some e')
    then have "e' = e" using assms(1) e(1) by (force simp: pruned_def map_le_def dom_def)
    with Some assms(2) e(2) show ?thesis by (simp add: pruned_def)
  qed
  with assms(1,2) show ?thesis unfolding pruned_def by (meson map_le_trans)
qed

lemma reflects_pruned:
  assumes m: "reflects now db s" and p: "pruned now' db db'" and "now \<le> now'"
  shows "reflects now' db' s"
proof -
  have "0 \<le> t" if "due db' k = Some t" for k t
    using p m that unfolding pruned_def reflects_def map_le_def by (metis domI)
  moreover have "s k = Some (content_of (evalue e), expireAt e)" if "entry_of db' k = Some e" for k e
    using p m that unfolding pruned_def reflects_def map_le_def by (metis domI)
  moreover have "0 \<le> x \<and> x \<le> now'" if s: "s k = Some (c, x)" "entry_of db' k = None" for k c x
  proof (cases "entry_of db k")
    case None
    then show ?thesis using m s assms(3) by (fastforce simp: reflects_def)
  next
    case (Some e)
    then have "expired now' e" using p s(2) by (simp add: pruned_def)
    moreover have "expireAt e = x" using m Some s(1) by (simp add: reflects_def)
    ultimately show ?thesis by (simp add: expired_def)
  qed
  ultimately show ?thesis using m by (simp add: reflects_def)
qed

lemma reflects_stores:
  assumes "reflects now db s" "stores k v x db db'"
  shows "reflects now db' (s(k \<mapsto> (content_of v, x)))"
proof -
  have "0 \<le> t" if "due db' j = Some t" for j t
    using assms that unfolding stores_def reflects_def map_le_def by (metis domI)
  with assms show ?thesis by (auto simp: reflects_def stores_def mk_entry_def split: if_splits)
qed

lemma reflects_without:
  assumes "reflects now db s" "without k db db'"
  shows "reflects now db' (s(k := None))"
  using assms by (auto simp: reflects_def without_def split: if_splits)

section \<open>Agreement of a handler with its specification\<close>

text \<open>What a handler is run with: a well-formed database related to the store at \<open>now\<close>, clock readings that
  do not run backwards and end by \<open>now'\<close>, and an iteration order that visits every element once.\<close>

definition ready :: "int \<Rightarrow> int \<Rightarrow> env \<Rightarrow> database \<Rightarrow> store \<Rightarrow> bool" where
  "ready now now' env db s =
     (good_db db \<and> reflects now db s \<and> (\<forall>i. now \<le> clk env i \<and> clk env i \<le> now') \<and> mono (clk env) \<and>
      (\<forall>xs. mset (uorder env xs) = mset xs))"

definition agrees :: "int \<Rightarrow> result \<Rightarrow> cpp_exception + reply list set \<times> store \<Rightarrow> bool" where
  "agrees now' r a =
     (case a of
        Inl e \<Rightarrow> r = Inl e
      | Inr (R, s') \<Rightarrow> \<exists>rs db'. r = Inr (rs, db') \<and> rs \<in> R \<and> reflects now' db' s')"

lemma readyD:
  assumes "ready now now' env db s"
  shows "good_db db" "db_inv db" "reflects now db s" "now \<le> clk env i" "clk env i \<le> now'" "mono (clk env)" "now \<le> now'"
    "mset (uorder env xs) = mset xs"
  using assms good_db_inv [of db] order_trans [of now "clk env 0" now'] by (simp_all add: ready_def)

lemma ready_view:
  assumes "ready now now' env db s"
  shows "view (clk env i) s k = map_option (\<lambda>(v, x). (content_of v, x)) (alive db (clk env i) k)"
  by (rule reflects_view [OF readyD(3,4) [OF assms]])

lemma agrees_pruned:
  assumes "ready now now' env db s" "pruned now' db db'" "r = Inr (rs, db')" "rs \<in> R"
  shows "agrees now' r (Inr (R, s))"
  using assms reflects_pruned [OF readyD(3) [OF assms(1)] assms(2) readyD(7) [OF assms(1)]] by (auto simp: agrees_def)

lemma agrees_same:
  assumes "ready now now' env db s" "\<exists>db'. r = Inr (rs, db') \<and> same_data db db'" "rs \<in> R"
  shows "agrees now' r (Inr (R, s))"
  using assms agrees_pruned [OF assms(1) pruned_same] by blast

lemma agrees_unchanged:
  assumes "ready now now' env db s"
  shows "agrees now' (Inr (rs, db)) (exactly rs s)"
  using agrees_same [OF assms] same_data_refl [OF readyD(2) [OF assms]] by blast

lemma agrees_if:
  "(b \<Longrightarrow> agrees now' r1 a1) \<Longrightarrow> (\<not> b \<Longrightarrow> agrees now' r2 a2) \<Longrightarrow> agrees now' (if b then r1 else r2) (if b then a1 else a2)"
  by simp

lemma agrees_reaped:
  assumes "ready now now' env db s" "\<exists>db'. r = Inr (rs, db') \<and> reaped (clk env i) k db db'" "rs \<in> R"
  shows "agrees now' r (Inr (R, s))"
proof -
  obtain db' where d: "r = Inr (rs, db')" "reaped (clk env i) k db db'" using assms(2) by blast
  have "pruned now' db db'"
    using pruned_trans [OF pruned_reaped [OF d(2)] pruned_refl [OF reaped_inv [OF d(2)]] readyD(5) [OF assms(1)]] .
  then show ?thesis using agrees_pruned [OF assms(1) _ d(1) assms(3)] by blast
qed

lemma agrees_stores:
  assumes "ready now now' env db s" "r = Inr (rs, db')" "stores k v x db db'" "rs \<in> R" "content_of v = c"
  shows "agrees now' r (Inr (R, s(k \<mapsto> (c, x))))"
  using reflects_later [OF reflects_stores [OF readyD(3) [OF assms(1)] assms(3)] readyD(7) [OF assms(1)]] assms
  by (auto simp: agrees_def)

lemma agrees_put:
  assumes "ready now now' env db s" "r = Inr (rs, db')" "rs \<in> R" "content_of v = c"
    and "if gone then without k db db' else stores k v x db db'"
  shows "agrees now' r (Inr (R, put k c x gone s))"
  using reflects_later [OF reflects_without [OF readyD(3) [OF assms(1)], of k db'] readyD(7) [OF assms(1)]]
    agrees_stores [OF assms(1,2) _ assms(3,4), of k x] assms(2,3,5)
  by (auto simp: put_def agrees_def)

section \<open>Types with a content\<close>

locale content_type = container ty box inj prj okc nil
  for ty :: DataType and box :: "'c \<Rightarrow> RedisObject" and inj :: "'c \<Rightarrow> RedisData"
    and prj :: "RedisData \<Rightarrow> 'c option" and okc :: "'c \<Rightarrow> bool" and nil :: 'c +
  fixes sel :: "content \<Rightarrow> 'a option" and wrap :: "'a \<Rightarrow> content" and meaning :: "'c \<Rightarrow> 'a"
  assumes content_box: "content_of (box c) = wrap (meaning c)"
    and sel_wrap: "sel (wrap a) = Some a"
    and sel_other: "obj_ok v \<Longrightarrow> otype v \<noteq> ty \<Longrightarrow> sel (content_of v) = None"
begin

text \<open>The three cases of a command on a key.\<close>

lemma on_key_cases:
  assumes r: "ready now now' env db s"
    and none: "alive db (clk env 0) k = None \<Longrightarrow> agrees now' r miss"
    and wrong: "\<not> fits_type db (clk env 0) k \<Longrightarrow> \<exists>db'. r = Inr ([Error WRONGTYPE], db') \<and> same_data db db'"
    and some: "\<And>c x. alive db (clk env 0) k = Some (box c, x) \<Longrightarrow> okc c \<Longrightarrow> agrees now' r (f (meaning c) x)"
  shows "agrees now' r (on_key sel (clk env 0) s k miss f)"
proof (cases "alive db (clk env 0) k")
  case None
  with none show ?thesis using ready_view [OF r, of 0 k] by (simp add: on_key_def)
next
  case (Some vx)
  obtain v x where a: "alive db (clk env 0) k = Some (v, x)" using Some by (cases vx) simp
  have vw: "view (clk env 0) s k = Some (content_of v, x)" using ready_view [OF r, of 0 k] a by simp
  show ?thesis
  proof (cases "otype v = ty")
    case True
    then have "fits_type db (clk env 0) k" using a by (simp add: fits_type_def)
    then obtain c where "v = box c" "okc c" using alive_box [OF readyD(2) [OF r] _ a] by blast
    with some a vw show ?thesis by (simp add: on_key_def content_box sel_wrap)
  next
    case False
    then have "\<not> fits_type db (clk env 0) k" using a by (simp add: fits_type_def)
    with sel_other [OF alive_entry(2) [OF readyD(2) [OF r] a] False] vw show ?thesis
      using agrees_same [OF r wrong, of "{[Error WRONGTYPE]}"] by (simp add: on_key_def)
  qed
qed

lemma read_agrees:
  assumes r: "ready now now' env db s"
    and body: "\<And>c x e db1. alive db (clk env 0) k = Some (box c, x) \<Longrightarrow> okc c \<Longrightarrow> prj (odata (evalue e)) = Some c \<Longrightarrow>
      same_data db db1 \<Longrightarrow> agrees now' (body e db1) (f (meaning c) x)"
  shows "agrees now' (readContainer env db k ty miss body) (on_key sel (clk env 0) s k (exactly miss s) f)"
proof (rule on_key_cases [OF r])
  note inv = readyD(2) [OF r]
  show "agrees now' (readContainer env db k ty miss body) (exactly miss s)" if "alive db (clk env 0) k = None"
    using agrees_reaped [OF r read_missing [OF inv that], of miss] by blast
  show "\<exists>db'. readContainer env db k ty miss body = Inr ([Error WRONGTYPE], db') \<and> same_data db db'"
    if "\<not> fits_type db (clk env 0) k" by (rule wrong_type(1) [OF inv that])
  show "agrees now' (readContainer env db k ty miss body) (f (meaning c) x)"
    if a: "alive db (clk env 0) k = Some (box c, x)" "okc c" for c x
  proof -
    obtain db1 where d: "db_findEntry (mm env) (clk env 0) db k = (Some (mk_entry k (box c) x), db1)" "same_data db db1"
      using findEntry_alive [OF inv a(1), of "mm env"] by blast
    have "agrees now' (body (mk_entry k (box c) x) db1) (f (meaning c) x)"
      by (rule body [OF a _ d(2)]) (simp add: mk_entry_def prj_box)
    with d(1) show ?thesis by (simp add: readContainer_def mk_entry_def type_box)
  qed
qed

text \<open>A handler that assigns a new payload, created for a missing key; \<open>P\<close> is what is known of the payload.\<close>

lemma write_agrees:
  assumes r: "ready now now' env db s" and fresh: "fresh = box nil"
    and P: "P nil" "\<And>c x. alive db (clk env 0) k = Some (box c, x) \<Longrightarrow> okc c \<Longrightarrow> P c"
    and body: "\<And>c e db1. P c \<Longrightarrow> prj (odata (evalue e)) = Some c \<Longrightarrow> body e db1 = Inr (rep c, setData db1 k (inj (upd c)))"
    and ok: "\<And>c. P c \<Longrightarrow> okc (upd c)"
    and f: "\<And>c x. P c \<Longrightarrow> f (meaning c) x = exactly (rep c) (s(k \<mapsto> (wrap (meaning (upd c)), x)))"
  shows "agrees now' (writeContainer env db k ty fresh body) (on_key sel (clk env 0) s k (f (meaning nil) (- 1)) f)"
    (is "agrees now' ?r _")
proof (rule on_key_cases [OF r])
  note inv = readyD(2) [OF r]
  have fits: "agrees now' ?r (f (meaning c) x)"
    if c: "content db (clk env 0) k = (c, x)" "P c" "fits_type db (clk env 0) k" for c x
  proof -
    obtain db' where d: "?r = Inr (rep c, db')" "stores k (box (upd c)) x db db'"
      using write_ok [OF inv c(3) fresh, where rep = "rep c" and c' = "upd c" and body = body] body ok c(1,2) by auto
    show ?thesis unfolding f [OF c(2)] by (rule agrees_stores [OF r d _ content_box]) simp
  qed
  show "agrees now' ?r (f (meaning nil) (- 1))" if "alive db (clk env 0) k = None"
    using fits that P(1) by (simp add: fits_type_def content_def)
  show "agrees now' ?r (f (meaning c) x)" if "alive db (clk env 0) k = Some (box c, x)" "okc c" for c x
    using fits that P(2) by (simp add: fits_type_def content_def type_box prj_box)
  show "\<exists>db'. ?r = Inr ([Error WRONGTYPE], db') \<and> same_data db db'" if "\<not> fits_type db (clk env 0) k"
    by (rule wrong_type(2) [OF inv that])
qed

text \<open>A handler that assigns a new payload to an existing key, and deletes the key if it is empty.\<close>

lemma shrink_agrees:
  assumes r: "ready now now' env db s"
    and P: "\<And>c x. alive db (clk env 0) k = Some (box c, x) \<Longrightarrow> okc c \<Longrightarrow> P c"
    and body: "\<And>c e db1. P c \<Longrightarrow> prj (odata (evalue e)) = Some c \<Longrightarrow> body e db1 =
      Inr (if skip c then (miss, db1)
        else (rep c, if gone c then snd (db_del (mm env) (setData db1 k (inj (upd c))) k) else setData db1 k (inj (upd c))))"
    and ok: "\<And>c. P c \<Longrightarrow> okc (upd c)"
    and f: "\<And>c x. P c \<Longrightarrow> f (meaning c) x =
      (if skip c then exactly miss s else exactly (rep c) (put k (wrap (meaning (upd c))) x (gone c) s))"
  shows "agrees now' (readContainer env db k ty miss body) (on_key sel (clk env 0) s k (exactly miss s) f)"
    (is "agrees now' ?r _")
proof (rule on_key_cases [OF r])
  note inv = readyD(2) [OF r]
  show "agrees now' ?r (exactly miss s)" if "alive db (clk env 0) k = None"
    using agrees_reaped [OF r read_missing [OF inv that], of miss] by blast
  show "\<exists>db'. ?r = Inr ([Error WRONGTYPE], db') \<and> same_data db db'" if "\<not> fits_type db (clk env 0) k"
    by (rule wrong_type(1) [OF inv that])
  show "agrees now' ?r (f (meaning c) x)" if a: "alive db (clk env 0) k = Some (box c, x)" "okc c" for c x
  proof -
    have pc: "P c" using P a by blast
    have ft: "fits_type db (clk env 0) k" "fst (content db (clk env 0) k) = c"
      using a by (simp_all add: fits_type_def content_def type_box prj_box)
    show ?thesis
    proof (cases "skip c")
      case True
      have "\<exists>db1. ?r = Inr (miss, db1) \<and> same_data db db1"
        by (rule read_ok [OF inv a(1) ft(1)]) (use ft(2) body pc True in simp)
      then show ?thesis using f [OF pc] True agrees_same [OF r, of ?r miss "{miss}"] by simp
    next
      case False
      obtain db' where d: "?r = Inr (rep c, db')" "if gone c then without k db db' else stores k (box (upd c)) x db db'"
        using shrink_ok [OF inv a(1) ft(1), where rep = "rep c" and c' = "upd c" and gone = "gone c" and body = body and miss = miss]
          ft(2) body ok pc False by auto
      show ?thesis using f [OF pc] False agrees_put [OF r d(1) _ content_box d(2), of "{rep c}"] by simp
    qed
  qed
qed

end

section \<open>The container types\<close>

lemma content_of_obj:
  "content_of (list_obj xs) = Lst xs" "content_of (hash_obj h) = Hsh (map_of h)" "content_of (set_obj m) = Mem (set m)"
  "content_of (zset_obj z) = Scores (map_of (zdict z))" "content_of (createString v) = Str (canonical v)"
  by (simp_all add: content_of_def list_obj_def hash_obj_def set_obj_def zset_obj_def asString_createString [symmetric])
    (simp add: createString_def split: prod.split)

lemma content_of_type:
  assumes "obj_ok v"
  shows "otype v = STRING \<Longrightarrow> content_of v = Str (asString v)"
    and "otype v \<noteq> LIST \<Longrightarrow> sel_lst (content_of v) = None"
    and "otype v \<noteq> HASH \<Longrightarrow> sel_hsh (content_of v) = None"
    and "otype v \<noteq> SET \<Longrightarrow> sel_mem (content_of v) = None"
    and "otype v \<noteq> ZSET \<Longrightarrow> sel_scores (content_of v) = None"
    and "otype v \<noteq> STRING \<Longrightarrow> sel_str (content_of v) = None"
  using assms
  by (cases "otype v"; cases "encoding v"; cases "odata v"; simp add: obj_ok_def content_of_def)+

interpretation lst: content_type LIST list_obj DDeque get_if_deque "\<lambda>_. True" "[]" sel_lst Lst "\<lambda>xs. xs"
  by unfold_locales (simp_all add: content_of_obj content_of_type)

interpretation hsh: content_type HASH hash_obj DMap get_if_map "\<lambda>h. distinct (map fst h)" "[]" sel_hsh Hsh map_of
  by unfold_locales (simp_all add: content_of_obj content_of_type)

interpretation mem: content_type SET set_obj DSet get_if_set distinct "[]" sel_mem Mem set
  by unfold_locales (simp_all add: content_of_obj content_of_type)

interpretation scr: content_type ZSET zset_obj DZSet get_if_zset "\<lambda>z. distinct (map fst (zdict z))" "new_zset r"
  sel_scores Scores "\<lambda>z. map_of (zdict z)" for r
  by unfold_locales (simp_all add: content_of_obj content_of_type)

end
