(* ===== verification/Command_Refinement.thy ===== *)
theory Command_Refinement
  imports Store_Refinement
begin

text \<open>
  Every database handler implements its specification, one lemma per handler, and the table of handlers
  implements the table of specifications.
\<close>

section \<open>Lists\<close>

lemma LPush_agrees:
  assumes "ready now now' env db s"
  shows "agrees now' (cmdLPush env db args) (specLPush (clk env) args s)"
  unfolding specLPush_def cmdLPush_def Let_def foldl_push_front
  by (rule lst.write_agrees [OF assms createList_box, where P = "\<lambda>_. True" and upd = "\<lambda>xs. rev (drop 2 args) @ xs"
        and f = "\<lambda>xs x. exactly [Integer (int (length (drop 2 args) + length xs))] (s(args ! 1 \<mapsto> (Lst (rev (drop 2 args) @ xs), x)))"])
    simp_all

lemma RPush_agrees:
  assumes "ready now now' env db s"
  shows "agrees now' (cmdRPush env db args) (specRPush (clk env) args s)"
  unfolding specRPush_def cmdRPush_def Let_def foldl_push_back
  by (rule lst.write_agrees [OF assms createList_box, where P = "\<lambda>_. True" and upd = "\<lambda>xs. xs @ drop 2 args"
        and f = "\<lambda>xs x. exactly [Integer (int (length (drop 2 args) + length xs))] (s(args ! 1 \<mapsto> (Lst (xs @ drop 2 args), x)))"])
    simp_all

lemma LPop_agrees:
  assumes "ready now now' env db s"
  shows "agrees now' (cmdLPop env db args) (specLPop (clk env) args s)"
  unfolding specLPop_def cmdLPop_def Let_def
  by (rule lst.shrink_agrees [OF assms, where P = "\<lambda>_. True" and skip = "\<lambda>xs. xs = []" and upd = tl and gone = "\<lambda>xs. tl xs = []"])
    simp_all

lemma RPop_agrees:
  assumes "ready now now' env db s"
  shows "agrees now' (cmdRPop env db args) (specRPop (clk env) args s)"
  unfolding specRPop_def cmdRPop_def Let_def
  by (rule lst.shrink_agrees [OF assms, where P = "\<lambda>_. True" and skip = "\<lambda>xs. xs = []" and upd = butlast
        and gone = "\<lambda>xs. butlast xs = []"]) simp_all

lemma LLen_agrees:
  assumes "ready now now' env db s"
  shows "agrees now' (cmdLLen env db args) (specLLen (clk env) args s)"
  unfolding specLLen_def cmdLLen_def
  by (rule lst.read_agrees [OF assms]) (auto intro: agrees_same [OF assms])

lemma ready_live:
  assumes "ready now now' env db s" "alive db (clk env i) k = Some (v, x)"
  shows "s k = Some (content_of v, x)" and "value_ok v"
proof -
  have e: "entry_of db k = Some (mk_entry k v x)" by (rule alive_entry(1) [OF readyD(2) [OF assms(1)] assms(2)])
  then show "s k = Some (content_of v, x)" using readyD(3) [OF assms(1)] by (auto simp: reflects_def mk_entry_def)
  show "value_ok v" using readyD(1) [OF assms(1)] e by (force simp: good_db_def mk_entry_def)
qed

lemma LRange_agrees:
  assumes r: "ready now now' env db s" and b: "bounded 2147483647 s" and n: "length args = 4"
  shows "agrees now' (cmdLRange env db args) (specLRange (clk env) args s)"
proof -
  note inv = readyD(2) [OF r]
  obtain c k i j where args: "args = [c, k, i, j]" using n by (auto simp: numeral_eq_Suc length_Suc_conv)
  have arg: "args ! 1 = k" "args ! 2 = i" "args ! 3 = j" by (simp_all add: args)
  show ?thesis
    unfolding specLRange_def arg
  proof (rule lst.on_key_cases [OF r])
    show "agrees now' (cmdLRange env db args) (exactly [ArrayHeader 0] s)" if "alive db (clk env 0) k = None"
      unfolding cmdLRange_def arg using agrees_reaped [OF r lc.read_missing [OF inv that], of "[ArrayHeader 0]"] by blast
    show "\<exists>db'. cmdLRange env db args = Inr ([Error WRONGTYPE], db') \<and> same_data db db'" if "\<not> lc.fits_type db (clk env 0) k"
      unfolding cmdLRange_def arg by (rule lc.wrong_type(1) [OF inv that])
    fix xs x assume a: "alive db (clk env 0) k = Some (list_obj xs, x)"
    have len: "length xs < 2147483648"
      using boundedD [OF b ready_live(1) [OF r a]] by (simp add: content_of_obj)
    have ft: "lc.fits_type db (clk env 0) k" using a by (simp add: lc.fits_type_def list_obj_def)
    have throws: "cmdLRange env db args = Inl ex" if "stoi i = Inl ex \<or> (\<exists>n. stoi i = Inr n) \<and> stoi j = Inl ex" for ex
    proof -
      have "\<exists>db1. cmdLRange env db args = Inl ex \<and> same_data db db1"
        unfolding cmdLRange_def arg by (rule lc.read_ok [OF inv a ft]) (use that in \<open>auto simp: Let_def\<close>)
      then show ?thesis by blast
    qed
    show "agrees now' (cmdLRange env db args) (case stoi i of Inl ex \<Rightarrow> Inl ex | Inr i \<Rightarrow> (case stoi j of Inl ex \<Rightarrow> Inl ex
        | Inr j \<Rightarrow> let r = redis_range xs i j in exactly (ArrayHeader (int (length r)) # map BulkString r) s))"
    proof (cases "stoi i")
      case (Inl ex)
      then show ?thesis using throws by (simp add: agrees_def)
    next
      case i: (Inr n1)
      show ?thesis
      proof (cases "stoi j")
        case (Inl ex)
        then show ?thesis using throws i by (simp add: agrees_def)
      next
        case (Inr n2)
        show ?thesis using agrees_same [OF r lrange_ok [OF inv a len i Inr, of c]] by (simp add: i Inr args Let_def)
      qed
    qed
  qed
qed

section \<open>Hashes and sets\<close>

lemma mod_2_odd: "(length args - 2) mod 2 \<noteq> 0 \<longleftrightarrow> odd (length (drop 2 args))" for args :: "bytes list"
  by (simp only: length_drop odd_iff_mod_2_eq_one not_mod_2_eq_0_eq_1)

lemma restrict_gone: "f |` (- F) = Map.empty \<longleftrightarrow> dom f \<subseteq> F"
  by (auto simp: restrict_map_def fun_eq_iff)

lemma HSet_agrees:
  assumes r: "ready now now' env db s"
  shows "agrees now' (cmdHSet env db args) (specHSet (clk env) args s)"
proof -
  let ?fvs = "drop 2 args" and ?D = "\<lambda>h :: (bytes \<times> bytes) list. distinct (map fst h)"
  let ?upd = "\<lambda>h x. exactly [Integer (int (card (fst ` set (pairs_of ?fvs) - dom h)))]
    (s(args ! 1 \<mapsto> (Hsh (h ++ map_of (rev (pairs_of ?fvs))), x)))"
  have l: "snd (hset_loop ?fvs h 0) = int (card (fst ` set (pairs_of ?fvs) - dom (map_of h)))"
    "?D (fst (hset_loop ?fvs h 0))" "map_of (fst (hset_loop ?fvs h 0)) = map_of h ++ map_of (rev (pairs_of ?fvs))"
    if "?D h" for h
    using hset_loop_ok [OF that prod.collapse [symmetric], of ?fvs 0] by (simp_all only: add_0)
  have "agrees now' (writeContainer env db (args ! 1) HASH createHash
        (\<lambda>e db1. case get_if_map (odata (evalue e)) of None \<Rightarrow> Inl bad_variant_access
         | Some h \<Rightarrow> (case hset_loop ?fvs h 0 of (h', added) \<Rightarrow> Inr ([Integer added], setData db1 (args ! 1) (DMap h')))))
      (on_key sel_hsh (clk env 0) s (args ! 1) (?upd (map_of []) (- 1)) ?upd)"
    by (rule hsh.write_agrees [OF r create_box(1), where P = ?D and upd = "\<lambda>h. fst (hset_loop ?fvs h 0)" and f = ?upd
          and rep = "\<lambda>h. [Integer (int (card (fst ` set (pairs_of ?fvs) - dom (map_of h))))]"])
      (simp_all add: l case_prod_beta)
  then show ?thesis
    unfolding specHSet_def cmdHSet_def Let_def mod_2_odd map_of.simps by (intro agrees_if agrees_unchanged [OF r])
qed

lemma HGet_agrees:
  assumes "ready now now' env db s"
  shows "agrees now' (cmdHGet env db args) (specHGet (clk env) args s)"
  unfolding specHGet_def cmdHGet_def
  by (rule hsh.read_agrees [OF assms]) (auto intro: agrees_same [OF assms] split: option.split)

lemma HDel_agrees:
  assumes r: "ready now now' env db s"
  shows "agrees now' (cmdHDel env db args) (specHDel (clk env) args s)"
  unfolding specHDel_def cmdHDel_def Let_def
proof (rule hsh.shrink_agrees [OF r, where P = "\<lambda>h. distinct (map fst h)" and skip = "\<lambda>_. False"
      and upd = "\<lambda>h. fst (hdel_loop (drop 2 args) h 0)" and gone = "\<lambda>h. fst (hdel_loop (drop 2 args) h 0) = []"
      and rep = "\<lambda>h. [Integer (snd (hdel_loop (drop 2 args) h 0))]"])
  fix h :: "(bytes \<times> bytes) list" assume d: "distinct (map fst h)"
  obtain h' n where l: "hdel_loop (drop 2 args) h 0 = (h', n)" by fastforce
  note lo = hdel_loop_ok [OF d l]
  show "distinct (map fst (fst (hdel_loop (drop 2 args) h 0)))" using lo(1) l by simp
  have "(h' = []) = (dom (map_of h) \<subseteq> set (drop 2 args))"
    using lo(2) restrict_gone [of "map_of h" "set (drop 2 args)"] by (metis map_of_eq_empty_iff)
  then show "exactly [Integer (int (card (set (drop 2 args) \<inter> dom (map_of h))))]
      (put (args ! 1) (Hsh (map_of h |` (- set (drop 2 args)))) x (dom (map_of h) \<subseteq> set (drop 2 args)) s) =
    (if False then exactly [Integer 0] s else exactly [Integer (snd (hdel_loop (drop 2 args) h 0))]
      (put (args ! 1) (Hsh (map_of (fst (hdel_loop (drop 2 args) h 0)))) x (fst (hdel_loop (drop 2 args) h 0) = []) s))" for x
    unfolding l fst_conv snd_conv lo(2,3) by simp
qed (auto split: prod.split)

lemma perm_keys:
  assumes "ready now now' env db s" "distinct xs"
  shows "distinct (uorder env xs)" and "set (uorder env xs) = set xs"
  using readyD(8) [OF assms(1), of xs] assms(2) by (metis mset_eq_imp_distinct_iff, metis mset_eq_setD)

lemma card_keys: "distinct (map fst h) \<Longrightarrow> card (dom (map_of h)) = length h"
  by (metis distinct_card dom_map_of_conv_image_fst length_map set_map)

lemma HGetAll_agrees:
  assumes r: "ready now now' env db s"
  shows "agrees now' (cmdHGetAll env db args) (specHGetAll (clk env) args s)"
  unfolding specHGetAll_def cmdHGetAll_def
proof (rule hsh.read_agrees [OF r])
  fix h :: "(bytes \<times> bytes) list" and e :: "RedisObject htentry" and db1
  assume h: "distinct (map fst h)" "get_if_map (odata (evalue e)) = Some h" "same_data db db1"
  have "ArrayHeader (2 * int (card (dom (map_of h)))) # concat (map (\<lambda>f. [BulkString f, BulkString (the (map_of h f))]) (uorder env (map fst h)))
      \<in> {ArrayHeader (2 * int (card (dom (map_of h)))) # concat (map (\<lambda>f. [BulkString f, BulkString (the (map_of h f))]) fs) | fs.
          distinct fs \<and> set fs = dom (map_of h)}"
    using perm_keys [OF r h(1)] by (auto simp: dom_map_of_conv_image_fst)
  with h show "agrees now' (case get_if_map (odata (evalue e)) of None \<Rightarrow> Inl bad_variant_access
      | Some h \<Rightarrow> Inr (ArrayHeader (int (length h * 2)) # concat (map (\<lambda>f. [BulkString f, BulkString (the (map_of h f))]) (uorder env (map fst h))), db1))
    (Inr ({ArrayHeader (2 * int (card (dom (map_of h)))) # concat (map (\<lambda>f. [BulkString f, BulkString (the (map_of h f))]) fs) | fs.
          distinct fs \<and> set fs = dom (map_of h)}, s))"
    by (intro agrees_same [OF r]) (auto simp: card_keys mult.commute)
qed

lemma HLen_agrees:
  assumes "ready now now' env db s"
  shows "agrees now' (cmdHLen env db args) (specHLen (clk env) args s)"
  unfolding specHLen_def cmdHLen_def
  by (rule hsh.read_agrees [OF assms]) (auto intro: agrees_same [OF assms] simp: card_keys)

lemma SAdd_agrees:
  assumes r: "ready now now' env db s"
  shows "agrees now' (cmdSAdd env db args) (specSAdd (clk env) args s)"
proof -
  let ?ms = "drop 2 args"
  let ?add = "\<lambda>m x. exactly [Integer (int (card (set ?ms - m)))] (s(args ! 1 \<mapsto> (Mem (m \<union> set ?ms), x)))"
  have l: "snd (sadd_loop ?ms m 0) = int (card (set ?ms - set m))" "distinct (fst (sadd_loop ?ms m 0))"
    "set (fst (sadd_loop ?ms m 0)) = set m \<union> set ?ms" if "distinct m" for m
    using sadd_loop_ok [OF that prod.collapse [symmetric], of ?ms 0] by (simp_all only: add_0)
  have "agrees now' (cmdSAdd env db args) (on_key sel_mem (clk env 0) s (args ! 1) (?add (set []) (- 1)) ?add)"
    unfolding cmdSAdd_def
    by (rule mem.write_agrees [OF r create_box(2), where P = distinct and upd = "\<lambda>m. fst (sadd_loop ?ms m 0)" and f = ?add
          and rep = "\<lambda>m. [Integer (int (card (set ?ms - set m)))]"]) (simp_all add: l case_prod_beta)
  then show ?thesis by (simp only: specSAdd_def Let_def list.set)
qed

lemma SRem_agrees:
  assumes r: "ready now now' env db s"
  shows "agrees now' (cmdSRem env db args) (specSRem (clk env) args s)"
proof -
  let ?ms = "drop 2 args"
  have l: "snd (srem_loop ?ms m 0) = int (card (set ?ms \<inter> set m))" "distinct (fst (srem_loop ?ms m 0))"
    "set (fst (srem_loop ?ms m 0)) = set m - set ?ms" if "distinct m" for m
    using srem_loop_ok [OF that prod.collapse [symmetric], of ?ms 0] by (simp_all only: add_0)
  have gone: "fst (srem_loop ?ms m 0) = [] \<longleftrightarrow> set m \<subseteq> set ?ms" if "distinct m" for m
    using l(3) [OF that] by (metis Diff_eq_empty_iff set_empty)
  show ?thesis
    unfolding specSRem_def cmdSRem_def Let_def
    by (rule mem.shrink_agrees [OF r, where P = distinct and skip = "\<lambda>_. False" and upd = "\<lambda>m. fst (srem_loop ?ms m 0)"
          and gone = "\<lambda>m. set m \<subseteq> set ?ms" and rep = "\<lambda>m. [Integer (int (card (set ?ms \<inter> set m)))]"])
      (simp_all add: l gone case_prod_beta)
qed

lemma SIsMember_agrees:
  assumes "ready now now' env db s"
  shows "agrees now' (cmdSIsMember env db args) (specSIsMember (clk env) args s)"
  unfolding specSIsMember_def cmdSIsMember_def
  by (rule mem.read_agrees [OF assms]) (auto intro: agrees_same [OF assms])

lemma SMembers_agrees:
  assumes r: "ready now now' env db s"
  shows "agrees now' (cmdSMembers env db args) (specSMembers (clk env) args s)"
  unfolding specSMembers_def cmdSMembers_def
proof (rule mem.read_agrees [OF r])
  fix m :: "bytes list" and e :: "RedisObject htentry" and db1
  assume m: "distinct m" "get_if_set (odata (evalue e)) = Some m" "same_data db db1"
  have "ArrayHeader (int (card (set m))) # map BulkString (uorder env m)
      \<in> {ArrayHeader (int (card (set m))) # map BulkString ms | ms. distinct ms \<and> set ms = set m}"
    using perm_keys [OF r m(1)] by blast
  with m show "agrees now' (case get_if_set (odata (evalue e)) of None \<Rightarrow> Inl bad_variant_access
      | Some s \<Rightarrow> Inr (ArrayHeader (int (length s)) # map BulkString (uorder env s), db1))
    (Inr ({ArrayHeader (int (card (set m))) # map BulkString ms | ms. distinct ms \<and> set ms = set m}, s))"
    by (intro agrees_same [OF r]) (auto simp: distinct_card)
qed

lemma SCard_agrees:
  assumes "ready now now' env db s"
  shows "agrees now' (cmdSCard env db args) (specSCard (clk env) args s)"
  unfolding specSCard_def cmdSCard_def
  by (rule mem.read_agrees [OF assms]) (auto intro: agrees_same [OF assms] simp: distinct_card)

section \<open>Sorted sets\<close>

lemma live_zset:
  assumes "ready now now' env db s" "alive db (clk env i) k = Some (zset_obj z, x)"
  shows "zset_ok z" and "bounded n s \<Longrightarrow> length (zdict z) \<le> n"
proof -
  show z: "zset_ok z" using ready_live(2) [OF assms] by (simp add: value_ok_def zset_obj_def)
  show "length (zdict z) \<le> n" if "bounded n s"
    using boundedD [OF that ready_live(1) [OF assms]] card_keys [OF zset_ok_rel(5) [OF z]] by (simp add: content_of_obj)
qed

lemma ZAdd_agrees:
  assumes r: "ready now now' env db s" and nn: "NaN \<notin> snd ` set (zpairs (drop 2 args))"
  shows "agrees now' (cmdZAdd env db args) (specZAdd (clk env) args s)"
proof -
  let ?sms = "drop 2 args"
  let ?add = "\<lambda>f x. exactly [Integer (int (card (fst ` set (zpairs ?sms) - dom f)))] (s(args ! 1 \<mapsto> (Scores (foldl zput f (zpairs ?sms)), x)))"
  have "agrees now' (writeContainer env db (args ! 1) ZSET (createZSet (seed env))
        (\<lambda>e db1. case get_if_zset (odata (evalue e)) of None \<Rightarrow> Inl bad_variant_access
         | Some z \<Rightarrow> (case zadd_loop ?sms z 0 of None \<Rightarrow> Inl null_pointer
              | Some (z', added) \<Rightarrow> Inr ([Integer added], setData db1 (args ! 1) (DZSet z')))))
      (on_key sel_scores (clk env 0) s (args ! 1) (?add (map_of (zdict (new_zset (seed env)))) (- 1)) ?add)"
    if ev: "even (length ?sms)"
  proof -
    define upd where "upd z = fst (the (zadd_loop ?sms z 0))" for z
    have l: "zadd_loop ?sms z 0 = Some (upd z, int (card (fst ` set (zpairs ?sms) - dom (map_of (zdict z)))))"
      "zset_ok (upd z)" "map_of (zdict (upd z)) = foldl zput (map_of (zdict z)) (zpairs ?sms)" if "zset_ok z" for z
      using zadd_loop_ok [OF that ev nn, of 0] by (auto simp: upd_def)
    show ?thesis
      by (rule scr.write_agrees [OF r createZSet_box, where P = zset_ok and upd = upd and f = ?add
            and rep = "\<lambda>z. [Integer (int (card (fst ` set (zpairs ?sms) - dom (map_of (zdict z)))))]"])
        (use l live_zset(1) [OF r] in \<open>simp_all add: zset_ok_new zset_ok_rel(5)\<close>)
  qed
  then show ?thesis
    unfolding specZAdd_def cmdZAdd_def Let_def mod_2_odd ZSetData.select_convs map_of.simps
    by (intro agrees_if agrees_unchanged [OF r]) simp
qed

lemma ZRem_agrees:
  assumes r: "ready now now' env db s"
  shows "agrees now' (cmdZRem env db args) (specZRem (clk env) args s)"
proof -
  let ?ms = "drop 2 args"
  define upd where "upd z = fst (the (zrem_loop ?ms z 0))" for z
  have l: "zrem_loop ?ms z 0 = Some (upd z, int (card (set ?ms \<inter> dom (map_of (zdict z)))))"
    "zset_ok (upd z)" "map_of (zdict (upd z)) = map_of (zdict z) |` (- set ?ms)" if "zset_ok z" for z
    using zrem_loop_ok [OF that, of ?ms 0] by (auto simp: upd_def)
  have gone: "zdict (upd z) = [] \<longleftrightarrow> dom (map_of (zdict z)) \<subseteq> set ?ms" if "zset_ok z" for z
    using l(3) [OF that] restrict_gone [of "map_of (zdict z)"] by (metis map_of_eq_empty_iff)
  show ?thesis
    unfolding specZRem_def cmdZRem_def Let_def
    by (rule scr.shrink_agrees [OF r, where P = zset_ok and skip = "\<lambda>_. False" and upd = upd
          and gone = "\<lambda>z. zdict (upd z) = []" and rep = "\<lambda>z. [Integer (int (card (set ?ms \<inter> dom (map_of (zdict z)))))]"])
      (use live_zset(1) [OF r] in \<open>simp_all add: l gone zset_ok_rel(5)\<close>)
qed

lemma ZScore_agrees:
  assumes "ready now now' env db s"
  shows "agrees now' (cmdZScore env db args) (specZScore (clk env) args s)"
  unfolding specZScore_def cmdZScore_def
  by (rule scr.read_agrees [OF assms]) (auto intro: agrees_same [OF assms] split: option.split)

text \<open>The missing key and the wrong type, for handlers whose last case is proved on its own.\<close>

lemma zset_read_cases:
  assumes r: "ready now now' env db s" and h: "h = readContainer env db k ZSET miss body"
    and some: "\<And>z x. alive db (clk env 0) k = Some (zset_obj z, x) \<Longrightarrow> zset_ok z \<Longrightarrow> agrees now' h (f (map_of (zdict z)) x)"
  shows "agrees now' h (on_key sel_scores (clk env 0) s k (exactly miss s) f)"
proof (rule scr.on_key_cases [OF r])
  note inv = readyD(2) [OF r]
  show "agrees now' h (exactly miss s)" if "alive db (clk env 0) k = None"
    unfolding h using agrees_reaped [OF r zc.read_missing [OF inv that], of miss] by blast
  show "\<exists>db'. h = Inr ([Error WRONGTYPE], db') \<and> same_data db db'" if "\<not> zc.fits_type db (clk env 0) k"
    unfolding h by (rule zc.wrong_type(1) [OF inv that])
  show "agrees now' h (f (map_of (zdict z)) x)" if "alive db (clk env 0) k = Some (zset_obj z, x)" for z x
    by (rule some [OF that live_zset(1) [OF r that]])
qed

lemma ZCard_agrees:
  assumes r: "ready now now' env db s" and b: "bounded 2147483647 s" and n: "length args = 2"
  shows "agrees now' (cmdZCard env db args) (specZCard (clk env) args s)"
  unfolding specZCard_def
proof (rule zset_read_cases [OF r cmdZCard_def])
  fix z x assume a: "alive db (clk env 0) (args ! 1) = Some (zset_obj z, x)" "zset_ok z"
  have "args = [args ! 0, args ! 1]" using n by (auto simp: numeral_eq_Suc length_Suc_conv)
  then show "agrees now' (cmdZCard env db args) (exactly [Integer (int (card (dom (map_of (zdict z)))))] s)"
    using live_zset(2) [OF r a(1) b] zread_ok(2) [OF readyD(2) [OF r] a, of "args ! 0"] by (intro agrees_same [OF r]) simp_all
qed

lemma ZRank_agrees:
  assumes r: "ready now now' env db s" and b: "bounded 2147483647 s" and n: "length args = 3"
  shows "agrees now' (cmdZRank env db args) (specZRank (clk env) args s)"
  unfolding specZRank_def
proof (rule zset_read_cases [OF r cmdZRank_def])
  fix z x assume a: "alive db (clk env 0) (args ! 1) = Some (zset_obj z, x)" "zset_ok z"
  have g: "set (zdict z) = Map.graph (map_of (zdict z))"
    using graph_map_of_if_distinct_dom [OF zset_ok_rel(5) [OF a(2)]] by simp
  have "args = [args ! 0, args ! 1, args ! 2]" using n by (auto simp: numeral_eq_Suc length_Suc_conv)
  then show "agrees now' (cmdZRank env db args) (exactly [case map_of (zdict z) (args ! 2) of None \<Rightarrow> Null
      | Some d \<Rightarrow> Integer (int (card {e \<in> Map.graph (map_of (zdict z)). skey e < skey (args ! 2, d)}))] s)"
    using live_zset(2) [OF r a(1) b] zread_ok(3) [OF readyD(2) [OF r] a, of "args ! 0" "args ! 2"]
    unfolding g by (intro agrees_same [OF r]) simp_all
qed

lemma ZRange_agrees:
  assumes r: "ready now now' env db s" and b: "bounded 2147483647 s"
  shows "agrees now' (cmdZRange env db args) (specZRange (clk env) args s)"
  unfolding specZRange_def cmdZRange_def Let_def
proof (intro agrees_if agrees_unchanged [OF r] scr.read_agrees [OF r])
  fix z x and e :: "RedisObject htentry" and db1
  assume a: "alive db (clk env 0) (args ! 1) = Some (zset_obj z, x)" and p: "get_if_zset (odata (evalue e)) = Some z"
    and d: "same_data db db1"
  note z = zset_ok_rel [OF live_zset(1) [OF r a]]
  let ?R = "\<lambda>i j. {if length args = 5
      then ArrayHeader (2 * int (length (redis_range es i j))) #
        concat (map (\<lambda>(m, d). [BulkString m, BulkString (formatScore d)]) (redis_range es i j))
      else ArrayHeader (int (length (redis_range es i j))) # map (\<lambda>(m, d). BulkString m) (redis_range es i j)
    | es. ranking (map_of (zdict z)) es}"
  let ?b = "case stoi (args ! 2) of Inl ex \<Rightarrow> Inl ex | Inr start \<Rightarrow> (case stoi (args ! 3) of Inl ex \<Rightarrow> Inl ex | Inr stop \<Rightarrow>
      (case sl_rangeByRank (zskiplist z) start stop of None \<Rightarrow> Inl null_pointer
       | Some r \<Rightarrow> if length args = 5
           then Inr (ArrayHeader (int (length r) * 2) # concat (map (\<lambda>(m, s). [BulkString m, BulkString (formatScore s)]) r), db1)
           else Inr (ArrayHeader (int (length r)) # map (\<lambda>(m, s). BulkString m) r, db1)))"
  have rank: "ranking (map_of (zdict z)) (zsorted z)"
    using z(2,4) graph_map_of_if_distinct_dom [OF z(5)] by (simp add: ranking_def)
  have rg: "sl_rangeByRank (zskiplist z) i j = Some (redis_range (zsorted z) i j)"
    if "stoi (args ! 2) = Inr i" "stoi (args ! 3) = Inr j" for i j
    using z(3) live_zset(2) [OF r a b] stoi_range [OF that(1)] stoi_range [OF that(2)] by (intro sli.range_rel [OF z(1)]) simp_all
  have "agrees now' ?b (case stoi (args ! 2) of Inl ex \<Rightarrow> Inl ex | Inr i \<Rightarrow> (case stoi (args ! 3) of Inl ex \<Rightarrow> Inl ex
      | Inr j \<Rightarrow> Inr (?R i j, s)))"
  proof (cases "stoi (args ! 2)")
    case i: (Inr i)
    show ?thesis
    proof (cases "stoi (args ! 3)")
      case (Inr j)
      have "agrees now' ?b (Inr (?R i j, s))"
      proof (rule agrees_same [OF r])
        let ?rs = "if length args = 5
          then ArrayHeader (2 * int (length (redis_range (zsorted z) i j))) #
            concat (map (\<lambda>(m, d). [BulkString m, BulkString (formatScore d)]) (redis_range (zsorted z) i j))
          else ArrayHeader (int (length (redis_range (zsorted z) i j))) # map (\<lambda>(m, d). BulkString m) (redis_range (zsorted z) i j)"
        show "\<exists>db'. ?b = Inr (?rs, db') \<and> same_data db db'" using d by (simp add: i Inr rg [OF i Inr] mult.commute)
        show "?rs \<in> ?R i j" using rank by blast
      qed
      then show ?thesis by (simp add: i Inr)
    qed (simp add: i agrees_def)
  qed (simp add: agrees_def)
  with p show "agrees now' (case get_if_zset (odata (evalue e)) of None \<Rightarrow> Inl bad_variant_access | Some z \<Rightarrow>
      (case stoi (args ! 2) of Inl ex \<Rightarrow> Inl ex | Inr start \<Rightarrow> (case stoi (args ! 3) of Inl ex \<Rightarrow> Inl ex | Inr stop \<Rightarrow>
      (case sl_rangeByRank (zskiplist z) start stop of None \<Rightarrow> Inl null_pointer
       | Some r \<Rightarrow> if length args = 5
           then Inr (ArrayHeader (int (length r) * 2) # concat (map (\<lambda>(m, s). [BulkString m, BulkString (formatScore s)]) r), db1)
           else Inr (ArrayHeader (int (length r)) # map (\<lambda>(m, s). BulkString m) r, db1)))))
    (case stoi (args ! 2) of Inl ex \<Rightarrow> Inl ex | Inr i \<Rightarrow> (case stoi (args ! 3) of Inl ex \<Rightarrow> Inl ex | Inr j \<Rightarrow> Inr (?R i j, s)))" by simp
qed

section \<open>Strings and keys\<close>

lemma Ping_agrees:
  assumes "ready now now' env db s"
  shows "agrees now' (cmdPing env db args) (specPing (clk env) args s)"
  unfolding cmdPing_def specPing_def by (rule agrees_unchanged [OF assms])

lemma Set_agrees:
  assumes r: "ready now now' env db s"
  shows "agrees now' (cmdSet env db args) (specSet (clk env) args s)"
  unfolding cmdSet_def specSet_def
proof (rule agrees_stores [OF r refl _ _ content_of_obj(5)])
  note o = db_set_ok [OF readyD(2) [OF r], of "mm env" "args ! 1" "args ! 2"]
  show "stores (args ! 1) (createString (args ! 2)) (- 1) db (db_set (mm env) db (args ! 1) (args ! 2))"
    using o by (simp add: stores_def map_le_def)
qed simp

lemma Get_agrees:
  assumes r: "ready now now' env db s"
  shows "agrees now' (cmdGet env db args) (specGet (clk env) args s)"
proof (cases "alive db (clk env 0) (args ! 1)")
  case None
  from findEntry_dead [OF readyD(2) [OF r] None, of "mm env"]
  have "\<exists>db'. cmdGet env db args = Inr ([Null], db') \<and> reaped (clk env 0) (args ! 1) db db'" by (auto simp: cmdGet_def)
  with None show ?thesis
    using agrees_reaped [OF r, of _ "[Null]"] ready_view [OF r, of 0 "args ! 1"] by (simp add: specGet_def on_key_def)
next
  case (Some vx)
  obtain v x where a: "alive db (clk env 0) (args ! 1) = Some (v, x)" using Some by (cases vx) simp
  have ok: "obj_ok v" using ready_live(2) [OF r a] by (simp add: value_ok_def)
  let ?rs = "if otype v \<noteq> STRING then [Error WRONGTYPE] else [BulkString (asString v)]"
  from findEntry_alive [OF readyD(2) [OF r] a, of "mm env"]
  have "\<exists>db'. cmdGet env db args = Inr (?rs, db') \<and> same_data db db'" by (auto simp: cmdGet_def mk_entry_def)
  then have "agrees now' (cmdGet env db args) (exactly ?rs s)" by (rule agrees_same [OF r]) simp
  moreover have "specGet (clk env) args s = exactly ?rs s"
    using a ready_view [OF r, of 0 "args ! 1"] content_of_type(1,6) [OF ok] by (simp add: specGet_def on_key_def)
  ultimately show ?thesis by simp
qed

lemma Del_agrees:
  assumes r: "ready now now' env db s"
  shows "agrees now' (cmdDel env db args) (specDel (clk env) args s)"
proof -
  let ?K = "set (drop 1 args)"
  obtain n db' where d: "del_loop (mm env) (drop 1 args) 0 db = (n, db')" by fastforce
  note o = del_loop_ok [OF readyD(2) [OF r] d] and m = readyD(3) [OF r] and dm = reflects_dom [OF readyD(3) [OF r]]
  have "?K \<inter> dom (view (clk env 0) s) \<subseteq> ?K \<inter> dom (entry_of db)" "?K \<inter> dom (entry_of db) \<subseteq> ?K \<inter> dom s"
    using dm(1) dm(2) [OF readyD(4) [OF r]] by blast+
  then have "card (?K \<inter> dom (view (clk env 0) s)) \<le> card (?K \<inter> dom (entry_of db))" "card (?K \<inter> dom (entry_of db)) \<le> card (?K \<inter> dom s)"
    by (simp_all add: card_mono)
  then have "int (card (?K \<inter> dom (view (clk env 0) s))) \<le> n" "n \<le> int (card (?K \<inter> dom s))" using o by simp_all
  moreover have "finite (dom (s |` (- ?K)))" using m by (simp add: reflects_def)
  then have "reflects now db' (s |` (- ?K))" using m o by (auto simp: reflects_def restrict_map_def split: if_splits)
  then have "reflects now' db' (s |` (- ?K))" using reflects_later readyD(7) [OF r] by blast
  ultimately show ?thesis using d by (simp add: agrees_def specDel_def cmdDel_def Let_def)
qed

lemma exists_loop_pruned:
  "db_inv db \<Longrightarrow> (\<And>j. c j \<le> T) \<Longrightarrow> exists_loop m c i ks n db = (r, db') \<Longrightarrow> pruned T db db'"
proof (induction ks arbitrary: i n db)
  case (Cons k ks)
  obtain e db1 where f: "db_findEntry m (c i) db k = (e, db1)" by fastforce
  note p = db_findEntry_ok(1) [OF Cons.prems(1) f]
  have "exists_loop m c (i + 1) ks (if e \<noteq> None then n + 1 else n) db1 = (r, db')"
    using Cons.prems(3) f by (simp add: db_exists_findEntry)
  then have "pruned T db1 db'" by (rule Cons.IH [OF reaped_inv [OF p] Cons.prems(2)])
  then show ?case using pruned_trans [OF pruned_reaped [OF p]] Cons.prems(2) by blast
qed (simp add: pruned_refl)

lemma Exists_agrees:
  assumes r: "ready now now' env db s"
  shows "agrees now' (cmdExists env db args) (specExists (clk env) args s)"
proof -
  let ?ks = "drop 1 args"
  obtain n db' where l: "exists_loop (mm env) (clk env) 0 ?ks 0 db = (n, db')" by fastforce
  have "n = int (length (filter (\<lambda>(k, j). alive db (clk env j) k \<noteq> None) (zip ?ks [0..<length ?ks])))"
    using exists_loop_ok [OF readyD(2,6) [OF r] l] by simp
  also have "(\<lambda>(k, j). alive db (clk env j) k \<noteq> None) = (\<lambda>(k, j). view (clk env j) s k \<noteq> None)"
    by (simp add: ready_view [OF r] fun_eq_iff)
  finally show ?thesis
    using agrees_pruned [OF r exists_loop_pruned [OF readyD(2) [OF r] readyD(5) [OF r] l]] l
    by (simp add: cmdExists_def specExists_def)
qed

lemma Keys_agrees:
  assumes r: "ready now now' env db s"
  shows "agrees now' (cmdKeys env db args) (specKeys (clk env) args s)"
proof -
  let ?db1 = "db\<lparr>dtable := rehashStep (dtable db) kRehashBatchSize\<rparr>"
  note dm = reflects_dom [OF readyD(3) [OF r]]
  have d: "same_data db ?db1" by (rule same_data_rehash [OF readyD(2) [OF r]])
  let ?ks = "ht_keys (dtable ?db1)"
  have "distinct ?ks" "set ?ks = dom (entry_of db)"
    using ht_keys_ok [OF db_invD(1) [OF same_data_inv [OF d]]] d by (simp_all add: same_data_def)
  then have "ArrayHeader (int (length ?ks)) # map BulkString ?ks \<in> {ArrayHeader (int (length ks)) # map BulkString ks | ks.
      distinct ks \<and> dom (view (clk env 0) s) \<subseteq> set ks \<and> set ks \<subseteq> dom s}"
    using dm(1) dm(2) [OF readyD(4) [OF r]] by blast
  then show ?thesis
    unfolding specKeys_def using d by (intro agrees_same [OF r]) (auto simp: cmdKeys_def db_keys_def)
qed

lemma Dbsize_agrees:
  assumes r: "ready now now' env db s"
  shows "agrees now' (cmdDbsize env db args) (specDbsize (clk env) args s)"
proof -
  note inv = readyD(2) [OF r] and dm = reflects_dom [OF readyD(3) [OF r]]
  have "db_dbsize db = card (dom (entry_of db))"
    using ht_size_ok [OF db_invD(1) [OF inv]] ht_keys_ok [OF db_invD(1) [OF inv]] distinct_card [of "ht_keys (dtable db)"]
    by (simp add: db_dbsize_def)
  moreover have "finite (dom s)" using readyD(3) [OF r] by (simp add: reflects_def)
  ultimately have "card (dom (view (clk env 0) s)) \<le> db_dbsize db" "db_dbsize db \<le> card (dom s)"
    using dm(1,3) dm(2) [OF readyD(4) [OF r]] by (simp_all add: card_mono)
  then show ?thesis
    unfolding specDbsize_def using same_data_refl [OF inv] by (intro agrees_same [OF r]) (auto simp: cmdDbsize_def)
qed

lemma Flushdb_agrees:
  assumes r: "ready now now' env db s"
  shows "agrees now' (cmdFlushdb env db args) (specFlushdb (clk env) args s)"
  using db_flushdb_ok [OF readyD(2) [OF r]] by (simp add: agrees_def cmdFlushdb_def specFlushdb_def reflects_def)

text \<open>The deadline of an EXPIRE or PEXPIRE fits into 64 bits and is not before the epoch.\<close>

definition deadline_ok :: "int \<Rightarrow> int \<Rightarrow> bool" where
  "deadline_ok now d = (\<bar>d\<bar> < 2 ^ 63 \<and> 0 \<le> now + d \<and> now + d < 2 ^ 63)"

lemma setExpire_agrees:
  assumes r: "ready now now' env db s" and d: "0 \<le> d"
  shows "agrees now' (case db_setExpire (mm env) (clk env 1) db k d of (ok, db1) \<Rightarrow> Inr ([Integer (if ok then 1 else 0)], db1))
    (spec_deadline d (clk env) k s)"
proof -
  obtain b db1 where se: "db_setExpire (mm env) (clk env 1) db k d = (b, db1)" by fastforce
  note so = db_setExpire_ok [OF readyD(2) [OF r] se] and v = ready_view [OF r, of 1 k] and m = readyD(3) [OF r]
  show ?thesis
  proof (cases b)
    case True
    then obtain v x where a: "alive db (clk env 1) k = Some (v, x)" using so(1) by fastforce
    obtain e where e: "entry_of db k = Some e" "entry_of db1 = (entry_of db)(k \<mapsto> e\<lparr>expireAt := d\<rparr>)" "due db1 = (due db)(k \<mapsto> d)"
      using so(3) True by blast
    have "e = mk_entry k v x" using alive_entry(1) [OF readyD(2) [OF r] a] e(1) by simp
    then have "reflects now db1 (s(k \<mapsto> (content_of v, d)))"
      using m e d by (auto simp: reflects_def mk_entry_def split: if_splits)
    then have "reflects now' db1 (s(k \<mapsto> (content_of v, d)))" using reflects_later readyD(7) [OF r] by blast
    then show ?thesis using se True a v by (simp add: agrees_def spec_deadline_def)
  next
    case False
    with so(1) have "alive db (clk env 1) k = None" by blast
    with v agrees_reaped [OF r, of _ "[Integer 0]" 1 k "{[Integer 0]}"] so(2) False se show ?thesis
      by (simp add: spec_deadline_def)
  qed
qed

lemma Expire_agrees:
  assumes r: "ready now now' env db s" and d: "\<forall>n. parseInteger (args ! 2) = Some n \<longrightarrow> deadline_ok (clk env 0) (n * 1000)"
  shows "agrees now' (cmdExpire env db args) (specExpire (clk env) args s)"
proof (cases "parseInteger (args ! 2)")
  case None
  then show ?thesis using agrees_unchanged [OF r] by (simp add: cmdExpire_def specExpire_def)
next
  case (Some n)
  with d have n: "\<bar>n * 1000\<bar> < 2 ^ 63" "0 \<le> clk env 0 + n * 1000" "clk env 0 + n * 1000 < 2 ^ 63"
    by (auto simp: deadline_ok_def)
  have "wrap64 (n * 1000) = n * 1000" by (rule wrap64_id) (use n(1) in linarith)+
  moreover have "wrap64 (clk env 0 + n * 1000) = clk env 0 + n * 1000" by (rule wrap64_id) (use n(2,3) in linarith)+
  ultimately have "wrap64 (clk env 0 + wrap64 (n * 1000)) = clk env 0 + n * 1000" "0 \<le> clk env 0 + n * 1000" using n(2) by simp_all
  with Some setExpire_agrees [OF r] show ?thesis by (simp add: cmdExpire_def specExpire_def)
qed

lemma Pexpire_agrees:
  assumes r: "ready now now' env db s" and d: "\<forall>n. parseInteger (args ! 2) = Some n \<longrightarrow> deadline_ok (clk env 0) n"
  shows "agrees now' (cmdPexpire env db args) (specPexpire (clk env) args s)"
proof (cases "parseInteger (args ! 2)")
  case None
  then show ?thesis using agrees_unchanged [OF r] by (simp add: cmdPexpire_def specPexpire_def)
next
  case (Some n)
  with d have "wrap64 (clk env 0 + n) = clk env 0 + n" "0 \<le> clk env 0 + n"
    by (simp_all add: deadline_ok_def wrap64_id)
  with Some setExpire_agrees [OF r] show ?thesis by (simp add: cmdPexpire_def specPexpire_def)
qed

lemma ttl_remaining:
  assumes r: "ready now now' env db s"
  shows "\<exists>db1. db_ttl (clk env 0) (clk env 1) db k = (remaining (clk env) k s, db1) \<and> reaped (clk env 0) k db db1"
proof -
  obtain x db1 where t: "db_ttl (clk env 0) (clk env 1) db k = (x, db1)" by fastforce
  note o = db_ttl_ok [OF readyD(2) [OF r] t]
  have "x = remaining (clk env) k s"
    using o(2) ready_view [OF r, of 0 k] by (simp add: remaining_def split: option.split)
  with t o(1) show ?thesis by simp
qed

lemma Pttl_agrees:
  assumes r: "ready now now' env db s"
  shows "agrees now' (cmdPttl env db args) (specPttl (clk env) args s)"
  unfolding specPttl_def using ttl_remaining [OF r, of "args ! 1"] by (intro agrees_reaped [OF r]) (auto simp: cmdPttl_def)

lemma Ttl_agrees:
  assumes r: "ready now now' env db s"
  shows "agrees now' (cmdTtl env db args) (specTtl (clk env) args s)"
  unfolding specTtl_def Let_def using ttl_remaining [OF r, of "args ! 1"] by (intro agrees_reaped [OF r]) (auto simp: cmdTtl_def)

lemma scan_filter_pruned:
  "db_inv db \<Longrightarrow> (\<And>j. c j \<le> T) \<Longrightarrow> scan_filter m c i pat ks db = (r, db') \<Longrightarrow> pruned T db db'"
proof (induction ks arbitrary: i db r)
  case (Cons k ks)
  show ?case
  proof (cases "entry_of db k")
    case None
    then have "scan_filter m c (i + 1) pat ks db = (r, db')"
      using Cons.prems(3) find_entry_of [OF Cons.prems(1), of k] by simp
    then show ?thesis by (rule Cons.IH [OF Cons.prems(1,2)])
  next
    case (Some e)
    obtain x d1 where c: "checkAndExpire m (c i) db k e = (x, d1)" by fastforce
    have p: "reaped (c i) k db d1"
      using checkAndExpire_ok [OF Cons.prems(1) c] Some Cons.prems(1) by (auto simp: reaped_def same_data_refl)
    obtain r1 where "scan_filter m c (i + 1) pat ks d1 = (r1, db')"
      using Cons.prems(3) Some c find_entry_of [OF Cons.prems(1), of k] by (auto split: if_splits prod.splits)
    then have "pruned T d1 db'" by (rule Cons.IH [OF reaped_inv [OF p] Cons.prems(2)])
    then show ?thesis using pruned_trans [OF pruned_reaped [OF p]] Cons.prems(2) by blast
  qed
qed (simp add: pruned_refl)

lemma scan_pruned:
  assumes inv: "db_inv db" and le: "\<And>j. c j \<le> T" and s: "db_scan m c db cur n pat = ((nc, ks), db')"
  shows "pruned T db db'" and "distinct ks" and "\<forall>k \<in> set ks. (\<exists>j. alive db (c j) k \<noteq> None) \<and> pat_ok pat k"
proof -
  let ?db1 = "db\<lparr>dtable := rehashStep (dtable db) kRehashBatchSize\<rparr>"
  have s1: "same_data db ?db1" by (rule same_data_rehash [OF inv])
  note i1 = same_data_inv [OF s1]
  obtain raw where sc: "ht_scan (dtable ?db1) cur n = (nc, raw)" and sf: "scan_filter m c 0 pat raw ?db1 = (ks, db')"
    using s by (auto simp: db_scan_def Let_def split: prod.splits)
  show "pruned T db db'" by (rule pruned_trans [OF pruned_same [OF s1] scan_filter_pruned [OF i1 le sf] order_refl])
  have d: "distinct raw" by (rule walk_keys_prefix [OF db_invD(1) [OF i1] sc])
  have "alive ?db1 t = alive db t" for t using s1 by (simp add: alive_def same_data_def)
  then have k: "ks = map fst (filter (\<lambda>(k, j). alive db (c j) k \<noteq> None \<and> pat_ok pat k) (zip raw [0..<length raw]))"
    using scan_filter_ok [OF i1 d sf] by simp
  show "distinct ks" unfolding k by (rule distinct_map_filter) (simp add: d)
  show "\<forall>k \<in> set ks. (\<exists>j. alive db (c j) k \<noteq> None) \<and> pat_ok pat k" unfolding k by auto
qed

lemma Scan_agrees:
  assumes r: "ready now now' env db s"
  shows "agrees now' (cmdScan env db args) (specScan (clk env) args s)"
proof -
  have ok: "agrees now' (case db_scan (mm env) (clk env) db cur n pat of ((nc, ks), db1) \<Rightarrow>
        Inr ([ArrayHeader 2, BulkString (to_string (int nc)), ArrayHeader (int (length ks))] @ map BulkString ks, db1))
      (Inr ({[ArrayHeader 2, BulkString (to_string (int nc)), ArrayHeader (int (length ks))] @ map BulkString ks | nc ks.
        distinct ks \<and> (\<forall>k \<in> set ks. view (clk env 0) s k \<noteq> None \<and> pat_ok pat k)}, s))" for cur n pat
  proof -
    obtain nc ks db1 where sc: "db_scan (mm env) (clk env) db cur n pat = ((nc, ks), db1)" by (metis prod.exhaust)
    note p = scan_pruned [OF readyD(2) [OF r] readyD(5) [OF r] sc]
    have vw: "view (clk env 0) s k \<noteq> None" if "alive db (clk env j) k \<noteq> None" for j k
      using that monoD [OF readyD(6) [OF r], of 0 j]
      by (auto simp: ready_view [OF r] alive_def alive_map_def expired_def split: option.splits if_splits)
    have "[ArrayHeader 2, BulkString (to_string (int nc)), ArrayHeader (int (length ks))] @ map BulkString ks
      \<in> {[ArrayHeader 2, BulkString (to_string (int nc)), ArrayHeader (int (length ks))] @ map BulkString ks | nc ks.
        distinct ks \<and> (\<forall>k \<in> set ks. view (clk env 0) s k \<noteq> None \<and> pat_ok pat k)}"
      using p(2,3) vw by (intro CollectI exI [of _ nc] exI [of _ ks] conjI refl ballI) metis+
    then show ?thesis unfolding sc prod.case by (rule agrees_pruned [OF r p(1) refl])
  qed
  show ?thesis
  proof (cases "parseInteger (args ! 1)")
    case None
    then show ?thesis unfolding cmdScan_def specScan_def by (simp only: option.case agrees_unchanged [OF r])
  next
    case (Some cur)
    show ?thesis
    proof (cases "scan_options (drop 2 args) 10 ''*''")
      case (Inl u)
      show ?thesis unfolding cmdScan_def specScan_def Some Inl option.case sum.case by (intro agrees_if agrees_unchanged [OF r])
    next
      case (Inr np)
      obtain n pat where np: "np = (n, pat)" by fastforce
      show ?thesis
        unfolding cmdScan_def specScan_def Some Inr np option.case sum.case prod.case by (intro agrees_if agrees_unchanged [OF r] ok)
    qed
  qed
qed

end
