(* ===== verification/Store_Effects.thy ===== *)
theory Store_Effects
  imports Store_Spec
begin

text \<open>
  What the specifications do to the store, whatever the replies: how much the containers can grow, that
  only EXPIRE and PEXPIRE give a key an expiry time, that a command that is not a write changes nothing,
  and that without expiry times the clock does not matter.
\<close>

section \<open>Effects\<close>

definition effect :: "(store \<Rightarrow> store \<Rightarrow> bool) \<Rightarrow> store \<Rightarrow> cpp_exception + reply list set \<times> store \<Rightarrow> bool" where
  "effect P s a = (case a of Inl e \<Rightarrow> True | Inr (R, s') \<Rightarrow> P s s')"

definition permanent :: "store \<Rightarrow> bool" where
  "permanent s = (\<forall>k c x. s k = Some (c, x) \<longrightarrow> x < 0)"

definition grows :: "nat \<Rightarrow> store \<Rightarrow> store \<Rightarrow> bool" where
  "grows n s s' = (\<forall>m. bounded m s \<longrightarrow> bounded (m + n) s')"

definition lasting :: "store \<Rightarrow> store \<Rightarrow> bool" where
  "lasting s s' = (permanent s \<longrightarrow> permanent s')"

lemma effect_simps [simp]:
  "effect P s (Inl e)" "effect P s (Inr (R, s')) = P s s'" "effect P s (let x = a in f x) = effect P s (f a)"
  by (simp_all add: effect_def)

lemma effect_Inr: "P s s' \<Longrightarrow> effect P s (Inr (R, s'))"
  by simp

lemma effectD: "effect P s a \<Longrightarrow> a = Inr (R, s') \<Longrightarrow> P s s'"
  by simp

lemma effect_if: "effect P s a \<Longrightarrow> effect P s b \<Longrightarrow> effect P s (if c then a else b)"
  by simp

lemma view_SomeD: "view t s k = Some (c, x) \<Longrightarrow> s k = Some (c, x)"
  by (auto simp: view_def split: option.splits if_splits)

lemma effect_on_key:
  assumes "effect P s miss" "P s s" "\<And>c x a. s k = Some (c, x) \<Longrightarrow> sel c = Some a \<Longrightarrow> effect P s (f a x)"
  shows "effect P s (on_key sel t s k miss f)"
  using assms by (auto simp: on_key_def split: option.split dest: view_SomeD)

lemma effect_stoi:
  assumes "\<And>i j. effect P s (f i j)"
  shows "effect P s (case stoi a of Inl ex \<Rightarrow> Inl ex | Inr i \<Rightarrow> (case stoi b of Inl ex \<Rightarrow> Inl ex | Inr j \<Rightarrow> f i j))"
  using assms by (auto split: sum.split)

section \<open>Growth and permanence\<close>

lemma sel_ranks:
  "sel_lst c = Some xs \<Longrightarrow> ranks c = length xs" "sel_scores c = Some f \<Longrightarrow> ranks c = card (dom f)"
  by (cases c; simp)+

lemma grows_refl [simp]: "grows n s s"
  by (auto simp: grows_def bounded_def) (meson trans_le_add1)

lemma grows_del [simp]: "grows n s (s(k := None))" "grows n s (s |` K)" "grows n s Map.empty"
  by (auto simp: grows_def bounded_def restrict_map_def split: if_splits) (meson trans_le_add1)+

lemma grows_upd:
  assumes "ranks c \<le> n \<or> (\<exists>c0 x0. s k = Some (c0, x0) \<and> ranks c \<le> ranks c0 + n)"
  shows "grows n s (s(k \<mapsto> (c, x)))"
  using assms by (auto simp: grows_def bounded_def split: if_splits) (meson add_le_mono1 le_trans trans_le_add1 trans_le_add2)+

lemma grows_put:
  assumes "ranks c \<le> n \<or> (\<exists>c0 x0. s k = Some (c0, x0) \<and> ranks c \<le> ranks c0 + n)"
  shows "grows n s (put k c x gone s)"
  using grows_upd [of c n s k, OF assms] by (simp add: put_def)

lemma lasting_refl [simp]: "lasting s s"
  by (simp add: lasting_def)

lemma lasting_del [simp]: "lasting s (s(k := None))" "lasting s (s |` K)" "lasting s Map.empty"
  by (auto simp: lasting_def permanent_def restrict_map_def split: if_splits)

lemma lasting_upd [simp]: "x < 0 \<or> (\<exists>c0. s k = Some (c0, x)) \<Longrightarrow> lasting s (s(k \<mapsto> (c, x)))"
  by (auto simp: lasting_def permanent_def split: if_splits)

lemma lasting_put [simp]: "x < 0 \<or> (\<exists>c0. s k = Some (c0, x)) \<Longrightarrow> lasting s (put k c x gone s)"
  by (simp add: put_def)

lemma card_zput: "card (dom (foldl zput f ps)) \<le> card (dom f) + length ps"
proof (induction ps arbitrary: f)
  case (Cons p ps)
  have "card (dom (zput f p)) \<le> Suc (card (dom f))"
    by (cases "finite (dom f)") (auto simp: zput_def card_insert_if split: option.split)
  with Cons.IH [of "zput f p"] show ?case by simp
qed simp

lemma length_zpairs: "length (zpairs xs) \<le> length xs"
  by (induction xs rule: pairs_of.induct) simp_all

lemma card_restrict: "finite F \<Longrightarrow> card (dom (f |` (- F))) \<le> card (dom f)"
  by (cases "finite (dom f)") (auto intro: card_mono simp: Int_commute [of "- F"] Diff_eq [symmetric])

lemmas spec_string_defs = specPing_def specSet_def specGet_def specDel_def specExists_def specKeys_def specDbsize_def
  specTtl_def specPttl_def specScan_def specFlushdb_def
lemmas spec_list_defs = specLPush_def specRPush_def specLPop_def specRPop_def specLLen_def specLRange_def
lemmas spec_hash_defs = specHSet_def specHGet_def specHDel_def specHGetAll_def specHLen_def
lemmas spec_set_defs = specSAdd_def specSRem_def specSIsMember_def specSMembers_def specSCard_def
lemmas spec_zset_defs = specZAdd_def specZScore_def specZRank_def specZRange_def specZCard_def specZRem_def
lemmas spec_defs = spec_string_defs spec_list_defs spec_hash_defs spec_set_defs spec_zset_defs

text \<open>The specifications of the commands that do not write and of those that do, except for the two that set
  an expiry time.\<close>

definition read_specs :: "spec set" where
  "read_specs =
     {specPing, specGet, specExists, specKeys, specDbsize, specTtl, specPttl, specScan, specLLen, specLRange,
      specHGet, specHGetAll, specHLen, specSIsMember, specSMembers, specSCard, specZScore, specZRank, specZRange, specZCard}"

definition write_specs :: "spec set" where
  "write_specs =
     {specSet, specDel, specFlushdb, specLPush, specRPush, specLPop, specRPop, specHSet, specHDel, specSAdd, specSRem,
      specZAdd, specZRem}"

text \<open>A command that does not write leaves the store as it is.\<close>

lemma read_effects:
  assumes "sp \<in> read_specs"
  shows "effect (=) s (sp tm args s)"
  using assms unfolding read_specs_def write_specs_def
  by (elim insertE emptyE; hypsubst; unfold spec_defs Let_def;
      (intro effect_if effect_on_key effect_stoi)?; auto split: option.split sum.split)

lemma write_lasting:
  assumes "sp \<in> write_specs"
  shows "effect lasting s (sp tm args s)"
  using assms unfolding read_specs_def write_specs_def
  by (elim insertE emptyE; hypsubst; unfold spec_defs Let_def; (intro effect_if effect_on_key)?; auto)

lemma write_grows:
  "effect (grows (length args)) s (specSet tm args s)" "effect (grows (length args)) s (specDel tm args s)"
  "effect (grows (length args)) s (specFlushdb tm args s)"
  by (simp_all add: specSet_def specDel_def specFlushdb_def Let_def grows_upd)

lemma list_grows:
  "effect (grows (length args)) s (specLPush tm args s)" "effect (grows (length args)) s (specRPush tm args s)"
  "effect (grows (length args)) s (specLPop tm args s)" "effect (grows (length args)) s (specRPop tm args s)"
  unfolding spec_list_defs Let_def
  by (intro effect_on_key effect_Inr effect_if grows_upd grows_put grows_refl; force dest: sel_ranks)+

lemma hash_set_grows:
  "effect (grows (length args)) s (specHSet tm args s)" "effect (grows (length args)) s (specHDel tm args s)"
  "effect (grows (length args)) s (specSAdd tm args s)" "effect (grows (length args)) s (specSRem tm args s)"
  unfolding spec_hash_defs spec_set_defs Let_def
  by (intro effect_on_key effect_Inr effect_if grows_upd grows_put grows_refl; simp)+

lemma zset_grows:
  "effect (grows (length args)) s (specZAdd tm args s)" "effect (grows (length args)) s (specZRem tm args s)"
proof -
  have z: "card (dom (foldl zput f (zpairs (drop 2 args)))) \<le> card (dom f) + length args" for f
    using card_zput [of f "zpairs (drop 2 args)"] length_zpairs [of "drop 2 args"] by simp
  have zr: "card (dom (f |` (- set (drop 2 args)))) \<le> card (dom f) + length args" for f :: "bytes \<rightharpoonup> dbl"
    using card_restrict [of "set (drop 2 args)" f] by simp
  show "effect (grows (length args)) s (specZAdd tm args s)" "effect (grows (length args)) s (specZRem tm args s)"
    unfolding spec_zset_defs Let_def
    using z [of Map.empty] z zr sel_ranks(2)
    by (intro effect_on_key effect_Inr effect_if grows_upd grows_put grows_refl; fastforce)+
qed

lemmas spec_grows = write_grows list_grows hash_set_grows zset_grows

text \<open>Only these two set an expiry time.\<close>

lemma expire_grows: "effect (grows n) s (specExpire tm args s)" "effect (grows n) s (specPexpire tm args s)"
  by (auto simp: specExpire_def specPexpire_def spec_deadline_def split: option.split dest!: view_SomeD intro!: grows_upd)

text \<open>Without expiry times the clock does not matter.\<close>

lemma view_permanent: "permanent s \<Longrightarrow> view t s = s"
  by (fastforce simp: view_def permanent_def fun_eq_iff split: option.split)

lemma spec_timeless:
  assumes "sp \<in> read_specs \<union> write_specs"
    and p: "permanent s"
  shows "sp tm args s = sp tm' args s"
proof -
  have "remaining tm k s = remaining tm' k s" for k
    using p by (auto simp: remaining_def view_permanent [OF p] permanent_def split: option.split)
  then show ?thesis
    using assms(1) unfolding read_specs_def write_specs_def
    by (elim UnE insertE emptyE; hypsubst; unfold spec_defs on_key_def Let_def view_permanent [OF p]; simp)
qed

end
