(* ===== verification/Store_Runs.thy ===== *)
theory Store_Runs
  imports Command_Refinement Store_Effects Server_Properties
begin

text \<open>
  Sequences of commands. \<open>spec_one\<close> is the specification of a command as it arrives, refused commands
  included, \<open>spec_run\<close> of a sequence of them. The handlers run in sequence (\<open>run_queue\<close>, which is what a
  client's commands and the queue of a transaction come to) implement it.
\<close>

section \<open>One command\<close>

definition spec_one :: spec where
  "spec_one tm args s =
     (case lookup server_table args of
        Inl msg \<Rightarrow> exactly [Error msg] s
      | Inr h \<Rightarrow> (case map_of spec_table (upper (args ! 0)) of Some sp \<Rightarrow> sp tm args s | None \<Rightarrow> exactly [] s))"

text \<open>What the specifications ask of a command: fewer than 2^31 arguments, no NaN score, and deadlines that
  fit into 64 bits.\<close>

definition admissible :: "(nat \<Rightarrow> int) \<Rightarrow> bytes list \<Rightarrow> bool" where
  "admissible tm args =
     (length args < 2147483648 \<and> (upper (args ! 0) = ''ZADD'' \<longrightarrow> NaN \<notin> snd ` set (zpairs (drop 2 args))) \<and>
      (\<forall>n. parseInteger (args ! 2) = Some n \<longrightarrow>
         (upper (args ! 0) = ''EXPIRE'' \<longrightarrow> deadline_ok (tm 0) (n * 1000)) \<and>
         (upper (args ! 0) = ''PEXPIRE'' \<longrightarrow> deadline_ok (tm 0) n)))"

lemma spec_lookup:
  "map_of spec_table ''PING'' = Some specPing" "map_of spec_table ''SET'' = Some specSet" "map_of spec_table ''GET'' = Some specGet"
  "map_of spec_table ''DEL'' = Some specDel" "map_of spec_table ''EXISTS'' = Some specExists" "map_of spec_table ''KEYS'' = Some specKeys"
  "map_of spec_table ''EXPIRE'' = Some specExpire" "map_of spec_table ''TTL'' = Some specTtl" "map_of spec_table ''PEXPIRE'' = Some specPexpire"
  "map_of spec_table ''PTTL'' = Some specPttl" "map_of spec_table ''DBSIZE'' = Some specDbsize" "map_of spec_table ''SCAN'' = Some specScan"
  "map_of spec_table ''FLUSHDB'' = Some specFlushdb" "map_of spec_table ''LPUSH'' = Some specLPush" "map_of spec_table ''RPUSH'' = Some specRPush"
  "map_of spec_table ''LPOP'' = Some specLPop" "map_of spec_table ''RPOP'' = Some specRPop" "map_of spec_table ''LLEN'' = Some specLLen"
  "map_of spec_table ''LRANGE'' = Some specLRange" "map_of spec_table ''HSET'' = Some specHSet" "map_of spec_table ''HGET'' = Some specHGet"
  "map_of spec_table ''HDEL'' = Some specHDel" "map_of spec_table ''HGETALL'' = Some specHGetAll" "map_of spec_table ''HLEN'' = Some specHLen"
  "map_of spec_table ''SADD'' = Some specSAdd" "map_of spec_table ''SREM'' = Some specSRem" "map_of spec_table ''SISMEMBER'' = Some specSIsMember"
  "map_of spec_table ''SMEMBERS'' = Some specSMembers" "map_of spec_table ''SCARD'' = Some specSCard" "map_of spec_table ''ZADD'' = Some specZAdd"
  "map_of spec_table ''ZSCORE'' = Some specZScore" "map_of spec_table ''ZRANK'' = Some specZRank" "map_of spec_table ''ZRANGE'' = Some specZRange"
  "map_of spec_table ''ZCARD'' = Some specZCard" "map_of spec_table ''ZREM'' = Some specZRem"
  by (simp_all add: spec_table_def)

lemma handler_agrees:
  assumes r: "ready now now' env db s" and b: "bounded 2147483647 s" and e: "e \<in> set all_commands" "chandler e = Db h"
    and a: "arity_ok (arity e) args" and n: "upper (args ! 0) = cname e" and ok: "admissible (clk env) args"
  shows "\<exists>sp. map_of spec_table (cname e) = Some sp \<and> agrees now' (h env db args) (sp (clk env) args s)"
proof -
  have len: "length args = nat (arity e)" if "0 < arity e"
    using a that ok by (simp add: arity_ok_def admissible_def wrap32_id Let_def)
  have nn: "cname e = ''ZADD'' \<Longrightarrow> NaN \<notin> snd ` set (zpairs (drop 2 args))" using ok n by (simp add: admissible_def)
  have x: "cname e = ''EXPIRE'' \<Longrightarrow> \<forall>n. parseInteger (args ! 2) = Some n \<longrightarrow> deadline_ok (clk env 0) (n * 1000)"
    "cname e = ''PEXPIRE'' \<Longrightarrow> \<forall>n. parseInteger (args ! 2) = Some n \<longrightarrow> deadline_ok (clk env 0) n"
    using ok n by (simp_all add: admissible_def)
  note ags = LPush_agrees [OF r] RPush_agrees [OF r] LPop_agrees [OF r] RPop_agrees [OF r] LLen_agrees [OF r] LRange_agrees [OF r b]
    HSet_agrees [OF r] HGet_agrees [OF r] HDel_agrees [OF r] HGetAll_agrees [OF r] HLen_agrees [OF r] SAdd_agrees [OF r]
    SRem_agrees [OF r] SIsMember_agrees [OF r] SMembers_agrees [OF r] SCard_agrees [OF r] ZAdd_agrees [OF r nn] ZRem_agrees [OF r]
    ZScore_agrees [OF r] ZCard_agrees [OF r b] ZRank_agrees [OF r b] ZRange_agrees [OF r b] Ping_agrees [OF r] Set_agrees [OF r]
    Get_agrees [OF r] Del_agrees [OF r] Exists_agrees [OF r] Keys_agrees [OF r] Dbsize_agrees [OF r] Flushdb_agrees [OF r]
    Expire_agrees [OF r x(1)] Pexpire_agrees [OF r x(2)] Ttl_agrees [OF r] Pttl_agrees [OF r] Scan_agrees [OF r]
  from e len show ?thesis
    unfolding all_commands_def stringCommands_def keyCommands_def listCommands_def hashCommands_def setCommands_def
      zsetCommands_def transactionCommands_def serverCommands_def append.simps list.set
    by (elim insertE emptyE; simp add: spec_lookup ags)
qed

lemma lookup_entry:
  assumes "lookup server_table args = Inr h"
  obtains e where "e \<in> set all_commands" "chandler e = h" "arity_ok (arity e) args" "upper (args ! 0) = cname e"
proof -
  obtain e where "server_table (upper (args ! 0)) = Some e" "chandler e = h" "arity_ok (arity e) args"
    using assms by (auto simp: lookup_def Let_def split: option.splits if_splits)
  with server_table_in show ?thesis by (intro that [of e]) auto
qed

lemma run_one_agrees:
  assumes r: "ready now now' env db s" and b: "bounded 2147483647 s" and p: "plain args" and ok: "admissible (clk env) args"
  shows "agrees now' (run_one env args db) (spec_one (clk env) args s)"
    and "run_one env args db = Inr (rs, db') \<Longrightarrow> good_db db'"
proof -
  have "agrees now' (run_one env args db) (spec_one (clk env) args s) \<and> (\<forall>rs db'. run_one env args db = Inr (rs, db') \<longrightarrow> good_db db')"
  proof (cases "lookup server_table args")
    case (Inl msg)
    then show ?thesis using agrees_unchanged [OF r] readyD(1) [OF r] by (simp add: run_one_def spec_one_def)
  next
    case (Inr hd)
    then obtain h where h: "lookup server_table args = Inr (Db h)" using p by (cases hd) (simp_all add: plain_def)
    obtain e where e: "e \<in> set all_commands" "chandler e = Db h" "arity_ok (arity e) args" "upper (args ! 0) = cname e"
      by (rule lookup_entry [OF h])
    obtain sp where sp: "map_of spec_table (cname e) = Some sp" "agrees now' (h env db args) (sp (clk env) args s)"
      using handler_agrees [OF r b e ok] by blast
    have "safe_result (h env db args)" using safe_handler [OF readyD(1) [OF r] e(1-3)] ok e(4) by (simp add: admissible_def)
    then show ?thesis using h sp e(4) by (auto simp: run_one_def spec_one_def safe_result_def)
  qed
  then show "agrees now' (run_one env args db) (spec_one (clk env) args s)"
    and "run_one env args db = Inr (rs, db') \<Longrightarrow> good_db db'" by blast+
qed

section \<open>Sequences of commands\<close>

fun spec_run :: "(nat \<Rightarrow> nat \<Rightarrow> int) \<Rightarrow> nat \<Rightarrow> bytes list list \<Rightarrow> store \<Rightarrow> cpp_exception + reply list set \<times> store" where
  "spec_run tms i [] s = exactly [] s"
| "spec_run tms i (q # qs) s =
     (case spec_one (tms i) q s of
        Inl e \<Rightarrow> Inl e
      | Inr (R, s1) \<Rightarrow>
          (case spec_run tms (i + 1) qs s1 of
             Inl e \<Rightarrow> Inl e
           | Inr (R', s2) \<Rightarrow> Inr ({rs @ rs' | rs rs'. rs \<in> R \<and> rs' \<in> R'}, s2)))"

text \<open>Clock readings do not run backwards: those of the i-th command lie between \<open>T i\<close> and \<open>T (i + 1)\<close>.\<close>

definition clocked :: "(nat \<Rightarrow> int) \<Rightarrow> (nat \<Rightarrow> env) \<Rightarrow> bool" where
  "clocked T es =
     (\<forall>i. mono (clk (es i)) \<and> (\<forall>j. T i \<le> clk (es i) j \<and> clk (es i) j \<le> T (i + 1)) \<and> (\<forall>xs. mset (uorder (es i) xs) = mset xs))"

definition requests :: "(nat \<Rightarrow> env) \<Rightarrow> nat \<Rightarrow> bytes list list \<Rightarrow> bool" where
  "requests es i qs = (\<forall>j < length qs. qs ! j \<noteq> [] \<and> plain (qs ! j) \<and> admissible (clk (es (i + j))) (qs ! j))"

lemma requests_Cons:
  "requests es i (q # qs) \<longleftrightarrow> q \<noteq> [] \<and> plain q \<and> admissible (clk (es i)) q \<and> requests es (i + 1) qs"
  by (auto simp: requests_def nth_Cons split: nat.splits)

lemma spec_one_grows: "effect (grows (length args)) s (spec_one tm args s)"
proof (cases "lookup server_table args")
  case (Inr h)
  show ?thesis
  proof (cases "map_of spec_table (upper (args ! 0))")
    case (Some sp)
    have "(upper (args ! 0), sp) \<in> set spec_table" by (rule map_of_SomeD [OF Some])
    then have "effect (=) s (sp tm args s) \<or> effect (grows (length args)) s (sp tm args s)"
      using read_effects [of sp s tm args]
      unfolding spec_table_def read_specs_def list.set by (elim insertE emptyE; simp add: spec_grows expire_grows)
    then have "effect (grows (length args)) s (sp tm args s)" by (auto simp: effect_def split: sum.splits)
    with Inr Some show ?thesis by (simp add: spec_one_def)
  qed (simp add: spec_one_def Inr)
qed (simp add: spec_one_def)

lemma run_queue_agrees:
  assumes "good_db db" "reflects (T i) db s" "bounded n s" "n + sum_list (map length qs) < 2147483648"
    and "clocked T es" "requests es i qs"
  shows "agrees (T (i + length qs)) (run_queue es i qs db) (spec_run (\<lambda>i. clk (es i)) i qs s) \<and>
    (\<forall>rs db'. run_queue es i qs db = Inr (rs, db') \<longrightarrow> good_db db')"
  using assms
proof (induction qs arbitrary: i db s n)
  case (Cons q qs)
  have q: "plain q" "admissible (clk (es i)) q" "requests es (i + 1) qs" using Cons.prems(6) by (simp_all add: requests_Cons)
  have r: "ready (T i) (T (i + 1)) (es i) db s" using Cons.prems(1,2,5) by (simp add: ready_def clocked_def)
  have b: "bounded 2147483647 s" using bounded_mono [OF Cons.prems(3)] Cons.prems(4) by simp
  note one = run_one_agrees [OF r b q(1,2)]
  show ?case
  proof (cases "spec_one (clk (es i)) q s")
    case (Inl e)
    then show ?thesis using one(1) by (simp add: agrees_def)
  next
    case (Inr Rs)
    obtain R s1 where Rs: "Rs = (R, s1)" by (cases Rs)
    obtain rs db1 where d: "run_one (es i) q db = Inr (rs, db1)" "rs \<in> R" "reflects (T (i + 1)) db1 s1"
      using one(1) Inr Rs by (auto simp: agrees_def)
    have "bounded (n + length q) s1"
      using effectD [OF spec_one_grows [of q s "clk (es i)"]] Inr Rs Cons.prems(3) by (simp add: grows_def)
    then have "agrees (T (i + 1 + length qs)) (run_queue es (i + 1) qs db1) (spec_run (\<lambda>i. clk (es i)) (i + 1) qs s1) \<and>
        (\<forall>rs db'. run_queue es (i + 1) qs db1 = Inr (rs, db') \<longrightarrow> good_db db')"
      using Cons.prems(4,5) q(3) d(3) one(2) [OF d(1)] by (intro Cons.IH [where n = "n + length q"]) simp_all
    then show ?thesis
      using d(1,2) Inr Rs by (auto simp: agrees_def split: sum.splits prod.splits) blast
  qed
qed (simp add: agrees_def)

end
