(* ===== verification/Server_Spec.thy ===== *)
theory Server_Spec
  imports Store_Runs
begin

text \<open>
  The abstract server: what the program promises to all of its clients together. Its state is an abstract
  store and, for every client, the input not yet decoded, the output not yet sent, the open transaction,
  the subscriptions, and whether it still reads and is to be closed. It has no buffers, no registry of
  subscribers, no interest set, no metrics and no log; it neither reaps nor rehashes. Commands take
  effect one at a time, in the order in which the events deliver them. The theory \<open>Server_Refinement\<close>
  shows that the main loop implements it.
\<close>

section \<open>State\<close>

record aclient =
  ain :: bytes
  aout :: bytes
  aqueue :: "bytes list list option"
  asubs :: "bytes set"
  areading :: bool
  aclosing :: bool

record aserver =
  astore :: store
  aclients :: "nat \<rightharpoonup> aclient"

text \<open>A step ends normally, with an exception that ends the server, or it meets a command that the
  specifications of the store leave open (\<open>covered\<close>).\<close>

datatype 'a behaviour = Goes 'a | Throws cpp_exception | Outside

text \<open>A sequence of steps, up to the first that does not end normally.\<close>

inductive runs :: "(nat \<Rightarrow> 'c \<Rightarrow> 'a \<Rightarrow> 'a behaviour \<Rightarrow> bool) \<Rightarrow> nat \<Rightarrow> 'c list \<Rightarrow> 'a \<Rightarrow> 'a behaviour \<Rightarrow> bool" for step where
  finished: "runs step i [] a (Goes a)"
| continues: "step i x a (Goes a1) \<Longrightarrow> runs step (i + 1) xs a1 r \<Longrightarrow> runs step i (x # xs) a r"
| stops: "step i x a r \<Longrightarrow> \<forall>a1. r \<noteq> Goes a1 \<Longrightarrow> runs step i (x # xs) a r"

section \<open>Output\<close>

definition on_client :: "nat \<Rightarrow> (aclient \<Rightarrow> aclient) \<Rightarrow> aserver \<Rightarrow> aserver" where
  "on_client fd f a = a\<lparr>aclients := (aclients a)(fd := map_option f (aclients a fd))\<rparr>"

definition say :: "nat \<Rightarrow> reply list \<Rightarrow> aserver \<Rightarrow> aserver" where
  "say fd rs = on_client fd (\<lambda>c. c\<lparr>aout := aout c @ concat (map reply_bytes rs)\<rparr>)"

definition audience :: "bytes \<Rightarrow> aserver \<Rightarrow> nat set" where
  "audience channel a = {fd. \<exists>c. aclients a fd = Some c \<and> channel \<in> asubs c}"

definition tell :: "bytes \<Rightarrow> bytes \<Rightarrow> aserver \<Rightarrow> aserver" where
  "tell channel message a =
     a\<lparr>aclients := (\<lambda>fd. map_option (\<lambda>c. if channel \<in> asubs c
         then c\<lparr>aout := aout c @ formatRespCommand [''message'', channel, message]\<rparr> else c) (aclients a fd))\<rparr>"

text \<open>Joining or leaving channels one after the other, each answered with the number of subscriptions.\<close>

definition turn :: "(bytes \<Rightarrow> bytes set \<Rightarrow> bytes set) \<Rightarrow> bytes \<Rightarrow> bytes \<Rightarrow> aclient \<Rightarrow> aclient" where
  "turn f what channel c =
     (let S = f channel (asubs c)
      in c\<lparr>asubs := S, aout := aout c @ concat (map reply_bytes (sub_reply what channel (card S)))\<rparr>)"

definition joins :: "bytes list \<Rightarrow> aclient \<Rightarrow> aclient" where
  "joins = fold (turn insert ''subscribe'')"

definition leaves :: "bytes list \<Rightarrow> aclient \<Rightarrow> aclient" where
  "leaves = fold (turn (\<lambda>ch S. S - {ch}) ''unsubscribe'')"

section \<open>Commands\<close>

definition covered :: "(nat \<Rightarrow> int) \<Rightarrow> bytes list \<Rightarrow> store \<Rightarrow> bool" where
  "covered tm args s = (admissible tm args \<and> bounded 2147483647 s)"

text \<open>A command that is run, EXEC apart.\<close>

inductive spec_dispatch :: "(nat \<Rightarrow> int) \<Rightarrow> nat \<Rightarrow> bytes list \<Rightarrow> aserver \<Rightarrow> aserver behaviour \<Rightarrow> bool" for tm fd args a where
  answers: "plain args \<Longrightarrow> covered tm args (astore a) \<Longrightarrow> spec_one tm args (astore a) = Inr (R, s) \<Longrightarrow> rs \<in> R \<Longrightarrow>
    spec_dispatch tm fd args a (Goes (say fd rs (a\<lparr>astore := s\<rparr>)))"
| throws: "plain args \<Longrightarrow> covered tm args (astore a) \<Longrightarrow> spec_one tm args (astore a) = Inl e \<Longrightarrow>
    spec_dispatch tm fd args a (Throws e)"
| open_case: "plain args \<Longrightarrow> \<not> covered tm args (astore a) \<Longrightarrow> spec_dispatch tm fd args a Outside"
| info: "lookup server_table args = Inr Info \<Longrightarrow> spec_dispatch tm fd args a (Goes (say fd [BulkString text] a))"
| rewriting: "lookup server_table args = Inr BgRewriteAof \<Longrightarrow>
    spec_dispatch tm fd args a (Goes (say fd [SimpleString ''Background append only file rewriting started''] a))"
| multi: "lookup server_table args = Inr Multi \<Longrightarrow> aclients a fd = Some c \<Longrightarrow> aqueue c = None \<Longrightarrow>
    spec_dispatch tm fd args a (Goes (say fd [SimpleString ''OK''] (on_client fd (\<lambda>c. c\<lparr>aqueue := Some []\<rparr>) a)))"
| nested: "lookup server_table args = Inr Multi \<Longrightarrow> aclients a fd = Some c \<Longrightarrow> aqueue c \<noteq> None \<Longrightarrow>
    spec_dispatch tm fd args a (Goes (say fd [Error ''ERR MULTI calls can not be nested''] a))"
| discard: "lookup server_table args = Inr Discard \<Longrightarrow> aclients a fd = Some c \<Longrightarrow> aqueue c \<noteq> None \<Longrightarrow>
    spec_dispatch tm fd args a (Goes (say fd [SimpleString ''OK''] (on_client fd (\<lambda>c. c\<lparr>aqueue := None\<rparr>) a)))"
| discard_nothing: "lookup server_table args = Inr Discard \<Longrightarrow> aclients a fd = Some c \<Longrightarrow> aqueue c = None \<Longrightarrow>
    spec_dispatch tm fd args a (Goes (say fd [Error ''ERR DISCARD without MULTI''] a))"
| subscribes: "lookup server_table args = Inr Subscribe \<Longrightarrow>
    spec_dispatch tm fd args a (Goes (on_client fd (joins (drop 1 args)) a))"
| unsubscribes: "lookup server_table args = Inr Unsubscribe \<Longrightarrow> 1 < length args \<Longrightarrow>
    spec_dispatch tm fd args a (Goes (on_client fd (leaves (drop 1 args)) a))"
| unsubscribes_all: "lookup server_table args = Inr Unsubscribe \<Longrightarrow> length args \<le> 1 \<Longrightarrow> aclients a fd = Some c \<Longrightarrow>
    asubs c \<noteq> {} \<Longrightarrow> distinct chs \<Longrightarrow> set chs = asubs c \<Longrightarrow>
    spec_dispatch tm fd args a (Goes (on_client fd (leaves chs) a))"
| unsubscribes_nothing: "lookup server_table args = Inr Unsubscribe \<Longrightarrow> length args \<le> 1 \<Longrightarrow> aclients a fd = Some c \<Longrightarrow>
    asubs c = {} \<Longrightarrow>
    spec_dispatch tm fd args a (Goes (say fd [ArrayHeader 3, BulkString ''unsubscribe'', Null, Integer 0] a))"
| publishes: "lookup server_table args = Inr Publish \<Longrightarrow>
    spec_dispatch tm fd args a
      (Goes (say fd [Integer (int (card (audience (args ! 1) a)))] (tell (args ! 1) (args ! 2) a)))"

text \<open>A command that arrives from a client. \<open>tms\<close> are the clock readings: row 0 those of the command, row i
  those of the i-th command of a transaction.\<close>

inductive spec_command :: "(nat \<Rightarrow> nat \<Rightarrow> int) \<Rightarrow> nat \<Rightarrow> bytes list \<Rightarrow> aserver \<Rightarrow> aserver behaviour \<Rightarrow> bool" for tms fd args a where
  skipped: "args = [] \<Longrightarrow> spec_command tms fd args a (Goes a)"
| gated: "args \<noteq> [] \<Longrightarrow> aclients a fd = Some c \<Longrightarrow> asubs c \<noteq> {} \<Longrightarrow>
    upper (args ! 0) \<notin> {''SUBSCRIBE'', ''UNSUBSCRIBE'', ''PING'', ''QUIT''} \<Longrightarrow>
    spec_command tms fd args a (Goes (say fd [Error (ERR_SUBSCRIBED (args ! 0))] a))"
| queued: "args \<noteq> [] \<Longrightarrow> aclients a fd = Some c \<Longrightarrow> asubs c = {} \<or> upper (args ! 0) \<in> {''SUBSCRIBE'', ''UNSUBSCRIBE'', ''PING'', ''QUIT''} \<Longrightarrow>
    aqueue c = Some qs \<Longrightarrow> upper (args ! 0) \<notin> {''EXEC'', ''DISCARD'', ''MULTI''} \<Longrightarrow>
    spec_command tms fd args a
      (Goes (say fd [SimpleString ''QUEUED''] (on_client fd (\<lambda>c. c\<lparr>aqueue := Some (qs @ [args])\<rparr>) a)))"
| dispatched: "args \<noteq> [] \<Longrightarrow> aclients a fd = Some c \<Longrightarrow> asubs c = {} \<or> upper (args ! 0) \<in> {''SUBSCRIBE'', ''UNSUBSCRIBE'', ''PING'', ''QUIT''} \<Longrightarrow>
    aqueue c = None \<or> upper (args ! 0) \<in> {''EXEC'', ''DISCARD'', ''MULTI''} \<Longrightarrow>
    lookup server_table args \<noteq> Inr Exec \<Longrightarrow> spec_dispatch (tms 0) fd args a r \<Longrightarrow> spec_command tms fd args a r"
| exec_nothing: "args \<noteq> [] \<Longrightarrow> aclients a fd = Some c \<Longrightarrow> asubs c = {} \<Longrightarrow> aqueue c = None \<Longrightarrow>
    lookup server_table args = Inr Exec \<Longrightarrow> spec_command tms fd args a (Goes (say fd [Error ''ERR EXEC without MULTI''] a))"
| exec: "args \<noteq> [] \<Longrightarrow> aclients a fd = Some c \<Longrightarrow> asubs c = {} \<Longrightarrow> aqueue c = Some qs \<Longrightarrow>
    lookup server_table args = Inr Exec \<Longrightarrow>
    runs (\<lambda>i q. spec_dispatch (tms i) fd q) 1 qs (say fd [ArrayHeader (int (length qs))] a) r \<Longrightarrow>
    spec_command tms fd args a (map_behaviour (on_client fd (\<lambda>c. c\<lparr>aqueue := None\<rparr>)) r)"

section \<open>Events\<close>

text \<open>The kernel delivers at most what there is room for, and there is room for 4096 bytes.\<close>

definition delivers :: "read_result \<Rightarrow> bytes \<Rightarrow> bool" where
  "delivers res bs =
     (case res of ReadBytes xs \<Rightarrow> prefix bs xs \<and> min 4096 (length xs) \<le> length bs | _ \<Rightarrow> bs = [])"

inductive spec_receive :: "client_event \<Rightarrow> nat \<Rightarrow> aserver \<Rightarrow> aserver behaviour \<Rightarrow> bool" for ev fd a where
  silent: "\<not> epollIn ev \<Longrightarrow> spec_receive ev fd a (Goes a)"
| received: "epollIn ev \<Longrightarrow> aclients a fd = Some c \<Longrightarrow> delivers (read_res ev) bs \<Longrightarrow> rf.decode_all (ain c @ bs) = (cmds, rest) \<Longrightarrow>
    runs (\<lambda>i. spec_command (\<lambda>j. clk (envs (cmd_envs ev i) j)) fd) 0 cmds
      (on_client fd (\<lambda>c. c\<lparr>ain := rest, areading := (areading c \<and> read_res ev \<notin> {ReadEof, ReadError})\<rparr>) a) r \<Longrightarrow>
    spec_receive ev fd a r"

text \<open>Pending output goes to the kernel, as much of it as it takes; an error closes the client. A client
  that no longer reads is closed once its output is gone.\<close>

definition spec_send :: "client_event \<Rightarrow> aclient \<Rightarrow> aclient" where
  "spec_send ev c =
     (if epollOut ev \<and> \<not> aclosing c \<and> aout c \<noteq> [] then
        (case write_res ev of
           Sent n \<Rightarrow> c\<lparr>aout := drop n (aout c)\<rparr>
         | SendAgain \<Rightarrow> c
         | SendError \<Rightarrow> c\<lparr>aclosing := True\<rparr>)
      else c)"

definition spec_finish :: "aclient \<Rightarrow> aclient" where
  "spec_finish c = (if \<not> areading c \<and> aout c = [] then c\<lparr>aclosing := True\<rparr> else c)"

definition new_client :: aclient where
  "new_client = \<lparr>ain = [], aout = [], aqueue = None, asubs = {}, areading = True, aclosing = False\<rparr>"

inductive spec_event :: "event \<Rightarrow> aserver \<Rightarrow> aserver behaviour \<Rightarrow> bool" where
  accepted: "spec_event (Listen rs) a (Goes (a\<lparr>aclients := (\<lambda>fd. if fd \<in> set (accept_loop rs) then Some new_client else aclients a fd)\<rparr>))"
| stale: "aclients a fd = None \<Longrightarrow> spec_event (Client fd ev) a (Goes a)"
| failed: "epollErr ev \<Longrightarrow> spec_event (Client fd ev) a (Goes (on_client fd (\<lambda>c. c\<lparr>aclosing := True\<rparr>) a))"
| handled: "\<not> epollErr ev \<Longrightarrow> aclients a fd \<noteq> None \<Longrightarrow> spec_receive ev fd a r \<Longrightarrow>
    spec_event (Client fd ev) a (map_behaviour (on_client fd (spec_finish \<circ> spec_send ev)) r)"

text \<open>At the end of an iteration the clients that are to be closed are gone.\<close>

definition spec_close :: "aserver \<Rightarrow> aserver" where
  "spec_close a = a\<lparr>aclients := (\<lambda>fd. case aclients a fd of None \<Rightarrow> None | Some c \<Rightarrow> if aclosing c then None else Some c)\<rparr>"

definition polled :: "event wait_result \<Rightarrow> event list option" where
  "polled res = (case res of Ready evs \<Rightarrow> Some (take 128 evs) | WaitInterrupted \<Rightarrow> Some [] | WaitFailed \<Rightarrow> None)"

text \<open>The loop runs until a signal arrives (the list ends) or the wait fails.\<close>

inductive spec_loop :: "iteration list \<Rightarrow> aserver \<Rightarrow> aserver behaviour \<Rightarrow> bool" where
  signalled: "spec_loop [] a (Goes a)"
| wait_failed: "polled (poll_res it) = None \<Longrightarrow> spec_loop (it # its) a (Goes a)"
| iterated: "polled (poll_res it) = Some evs \<Longrightarrow> runs (\<lambda>_. spec_event) 0 evs a (Goes a1) \<Longrightarrow>
    spec_loop its (spec_close a1) r \<Longrightarrow> spec_loop (it # its) a r"
| ended: "polled (poll_res it) = Some evs \<Longrightarrow> runs (\<lambda>_. spec_event) 0 evs a r \<Longrightarrow> \<forall>a1. r \<noteq> Goes a1 \<Longrightarrow>
    spec_loop (it # its) a r"

inductive_simps runs_Nil: "runs step i [] a r"
inductive_simps runs_Cons: "runs step i (x # xs) a r"
inductive_simps spec_event_Listen: "spec_event (Listen rs) a r"
inductive_simps spec_event_Client: "spec_event (Client fd ev) a r"
inductive_simps spec_loop_Nil: "spec_loop [] a r"
inductive_simps spec_loop_Cons: "spec_loop (it # its) a r"

lemmas spec_simps = runs_Nil runs_Cons spec_event_Listen spec_event_Client spec_loop_Nil spec_loop_Cons
  spec_receive.simps spec_command.simps spec_dispatch.simps

end
