(* ===== verification/Server_Refinement.thy ===== *)
theory Server_Refinement
  imports Server_Spec
begin

text \<open>
  The main loop implements the abstract server. \<open>simulates\<close> relates a state of the server to an abstract one:
  the database reflects the store, and the connections are the clients. Every step of the program, in
  related states, is matched by a step of the abstract server.
\<close>

section \<open>The relation\<close>

definition client_of :: "connection \<Rightarrow> aclient" where
  "client_of c = \<lparr>ain = received c, aout = pending c, aqueue = txn c, asubs = set (subscribedChannels c),
     areading = wantRead c, aclosing = wantClose c\<rparr>"

text \<open>While the commands of a client run, its input buffer still holds those that follow: \<open>ow\<close> overrides what
  is seen of the input.\<close>

definition clients_of :: "(nat \<rightharpoonup> bytes) \<Rightarrow> conns \<Rightarrow> (nat \<rightharpoonup> aclient)" where
  "clients_of ow cs fd = map_option (\<lambda>c. (client_of c)\<lparr>ain := (case ow fd of None \<Rightarrow> received c | Some bs \<Rightarrow> bs)\<rparr>) (cs fd)"

definition simulates :: "int \<Rightarrow> (nat \<rightharpoonup> bytes) \<Rightarrow> world \<Rightarrow> aserver \<Rightarrow> bool" where
  "simulates now ow w a = (reflects now (wdb w) (astore a) \<and> aclients a = clients_of ow (conns w))"

definition tracks :: "int \<Rightarrow> (nat \<rightharpoonup> bytes) \<Rightarrow> outcome \<Rightarrow> (aserver behaviour \<Rightarrow> bool) \<Rightarrow> bool" where
  "tracks now ow r B =
     (\<exists>x. B x \<and> (case x of Goes a \<Rightarrow> \<exists>w. r = Inr w \<and> simulates now ow w a | Throws e \<Rightarrow> r = Inl e | Outside \<Rightarrow> True))"

lemma tracksI [intro]:
  "B (Goes a) \<Longrightarrow> simulates now ow w a \<Longrightarrow> tracks now ow (Inr w) B"
  "B (Throws e) \<Longrightarrow> tracks now ow (Inl e) B"
  "B Outside \<Longrightarrow> tracks now ow r B"
  by (fastforce simp: tracks_def)+

lemma tracks_ex: "\<exists>w. r = Inr w \<and> simulates now ow w a \<Longrightarrow> B (Goes a) \<Longrightarrow> tracks now ow r B"
  by blast

lemma tracksE [consumes 1, case_names goes throws outside]:
  assumes "tracks now ow r B"
  obtains w a where "r = Inr w" "B (Goes a)" "simulates now ow w a"
    | e where "r = Inl e" "B (Throws e)"
    | "B Outside"
proof -
  obtain x where "B x" "case x of Goes a \<Rightarrow> \<exists>w. r = Inr w \<and> simulates now ow w a | Throws e \<Rightarrow> r = Inl e | Outside \<Rightarrow> True"
    using assms unfolding tracks_def by blast
  with that show thesis by (cases x) auto
qed

lemma tracks_mono: "tracks now ow r B \<Longrightarrow> (\<And>x. B x \<Longrightarrow> B' x) \<Longrightarrow> tracks now ow r B'"
  unfolding tracks_def by blast

lemma simulates_later: "simulates now ow w a \<Longrightarrow> now \<le> now' \<Longrightarrow> simulates now' ow w a"
  using reflects_later by (auto simp: simulates_def)

lemma tracks_later: "tracks now ow r B \<Longrightarrow> now \<le> now' \<Longrightarrow> tracks now' ow r B"
  by (erule tracksE) (auto intro: simulates_later)

lemma simulates_cong: "wdb w' = wdb w \<Longrightarrow> conns w' = conns w \<Longrightarrow> simulates now ow w' a = simulates now ow w a"
  by (simp add: simulates_def)

lemma simulates_client:
  assumes "simulates now ow w a" "conns w fd = Some c"
  obtains c' where "aclients a fd = Some c'" "aqueue c' = txn c" "asubs c' = set (subscribedChannels c)"
    "areading c' = wantRead c" "aclosing c' = wantClose c" "aout c' = pending c" "ow fd = None \<Longrightarrow> ain c' = received c"
  using assms by (auto simp: simulates_def clients_of_def client_of_def)

lemma on_client_comp: "on_client fd f (on_client fd g a) = on_client fd (\<lambda>c. f (g c)) a"
  by (simp add: on_client_def option.map_comp comp_def)

lemma on_client_id: "on_client fd (\<lambda>c. c) a = a"
  by (simp add: on_client_def option.map_ident)

text \<open>Replacing one connection.\<close>

lemma simulates_conn:
  assumes "simulates now ow w a" "conns w fd = Some c" "inb c' = inb c"
    and "\<And>bs. (client_of c')\<lparr>ain := bs\<rparr> = f ((client_of c)\<lparr>ain := bs\<rparr>)"
  shows "simulates now ow (w\<lparr>conns := (conns w)(fd \<mapsto> c')\<rparr>) (on_client fd f a)"
proof -
  have "clients_of ow ((conns w)(fd \<mapsto> c')) x = ((clients_of ow (conns w))(fd := map_option f (clients_of ow (conns w) fd))) x" for x
    by (cases "x = fd"; cases "ow fd") (simp_all add: clients_of_def assms(2,3) assms(4) [symmetric])
  then have "clients_of ow ((conns w)(fd \<mapsto> c')) = (clients_of ow (conns w))(fd := map_option f (clients_of ow (conns w) fd))" by (rule ext)
  with assms(1) show ?thesis by (simp add: simulates_def on_client_def)
qed

lemma client_of_send:
  assumes "c' = c\<lparr>outb := outb c'\<rparr>" "pending c' = pending c @ bs"
  shows "inb c' = inb c" "(client_of c')\<lparr>ain := is\<rparr> = (\<lambda>c. c\<lparr>aout := aout c @ bs\<rparr>) ((client_of c)\<lparr>ain := is\<rparr>)"
  using send_same [OF assms(1)] assms(2) by (simp_all add: client_of_def)

lemma simulates_reply:
  assumes s: "simulates now ow w a" and c: "conns w fd = Some c" "conn_ok c"
  shows "\<exists>w'. reply_to fd rs w = Inr w' \<and> simulates now ow w' (say fd rs a)"
proof -
  obtain c' where c': "reply_to fd rs w = Inr (w\<lparr>conns := (conns w)(fd \<mapsto> c')\<rparr>)" "c' = c\<lparr>outb := outb c'\<rparr>"
    "pending c' = pending c @ concat (map reply_bytes rs)" using reply_to_eq [OF c] by blast
  show ?thesis unfolding say_def
    using simulates_conn [OF s c(1) client_of_send [OF c'(2,3)]] c'(1) by blast
qed

text \<open>An update of the transaction state with a reply.\<close>

lemma simulates_txn:
  assumes s: "simulates now ow w a" and c: "conns w fd = Some c" "conn_ok (c\<lparr>txn := t\<rparr>)"
    and f: "f c = send_replies rs (c\<lparr>txn := t\<rparr>)"
  shows "\<exists>w'. update_conn fd f w = Inr w' \<and> simulates now ow w' (say fd rs (on_client fd (\<lambda>c. c\<lparr>aqueue := t\<rparr>) a))"
proof -
  obtain c' where c': "send_replies rs (c\<lparr>txn := t\<rparr>) = Some c'" "c' = (c\<lparr>txn := t\<rparr>)\<lparr>outb := outb c'\<rparr>"
    "pending c' = pending (c\<lparr>txn := t\<rparr>) @ concat (map reply_bytes rs)" by (rule conn_ok_send [OF c(2)])
  note q = client_of_send [OF c'(2,3)]
  have "(client_of c')\<lparr>ain := bs\<rparr> = (\<lambda>c. c\<lparr>aqueue := t, aout := aout c @ concat (map reply_bytes rs)\<rparr>) ((client_of c)\<lparr>ain := bs\<rparr>)" for bs
    using q(2) [of bs] by (simp add: client_of_def)
  from simulates_conn [OF s c(1) _ this] q(1) show ?thesis
    using c(1) f c'(1) by (simp add: update_conn_def say_def on_client_comp)
qed

section \<open>Publish and subscribe\<close>

lemma simulates_ps_step:
  assumes w: "world_ok w" and c: "conns w fd = Some c" and s: "simulates now ow w a"
    and f: "f = subscribe \<and> g = insert \<or> f = unsubscribe \<and> g = (\<lambda>ch S. S - {ch})"
  shows "\<exists>w'. ps_step f what fd ch w = Inr w' \<and> simulates now ow w' (on_client fd (turn g what ch) a)"
proof -
  obtain n reg' c1 where e: "f ch fd (channels w) c = (n, reg', c1)" by (metis prod_cases3)
  note i = subscribe_inv [OF world_okD(2) [OF w] c] unsubscribe_inv [OF world_okD(2) [OF w] c]
  have c1: "set (subscribedChannels c1) = g ch (set (subscribedChannels c))" "n = card (set (subscribedChannels c1))"
    "c1 = c\<lparr>subscribedChannels := subscribedChannels c1\<rparr>" "ps_inv reg' ((conns w)(fd \<mapsto> c1))"
    using f e i by auto
  have same: "txn c1 = txn c" "inb c1 = inb c" "pending c1 = pending c" "wantRead c1 = wantRead c" "wantClose c1 = wantClose c"
    by (subst c1(3), simp)+
  have ok: "conn_ok c1" using ps_invD(1) [OF c1(4), of fd c1] world_okD(4) [OF w c] same(1) by (simp add: conn_ok_def)
  let ?w = "w\<lparr>channels := reg', conns := (conns w)(fd \<mapsto> c1)\<rparr>" and ?rs = "sub_reply what ch n"
  obtain c2 where c2: "reply_to fd ?rs ?w = Inr (?w\<lparr>conns := (conns ?w)(fd \<mapsto> c2)\<rparr>)" "c2 = c1\<lparr>outb := outb c2\<rparr>"
    "pending c2 = pending c1 @ concat (map reply_bytes ?rs)" using reply_to_eq [of ?w fd c1 ?rs] ok by auto
  note q = client_of_send [OF c2(2,3)]
  have "(client_of c2)\<lparr>ain := bs\<rparr> = turn g what ch ((client_of c)\<lparr>ain := bs\<rparr>)" for bs
    using q(2) [of bs] same c1(1,2) by (simp add: client_of_def turn_def Let_def)
  from simulates_conn [OF s c _ this] q(1) same(2)
  have "simulates now ow (w\<lparr>conns := (conns w)(fd \<mapsto> c2)\<rparr>) (on_client fd (turn g what ch) a)" by simp
  then have "simulates now ow (?w\<lparr>conns := (conns ?w)(fd \<mapsto> c2)\<rparr>) (on_client fd (turn g what ch) a)"
    by (simp add: simulates_def)
  with c2(1) show ?thesis using c e by (simp add: ps_step_def)
qed

lemma simulates_ps_loop:
  assumes "world_ok w" "fd \<in> dom (conns w)" "simulates now ow w a"
    and f: "f = subscribe \<and> g = insert \<or> f = unsubscribe \<and> g = (\<lambda>ch S. S - {ch})"
  shows "\<exists>w'. ps_loop f what fd chs w = Inr w' \<and> simulates now ow w' (on_client fd (fold (turn g what) chs) a)"
  using assms(1-3)
proof (induction chs arbitrary: w a)
  case (Cons ch chs)
  obtain c where c: "conns w fd = Some c" using Cons.prems(2) by auto
  obtain w1 where w1: "ps_step f what fd ch w = Inr w1" "simulates now ow w1 (on_client fd (turn g what ch) a)"
    using simulates_ps_step [OF Cons.prems(1) c Cons.prems(3) f] by blast
  have "step_ok {} w (ps_loop f what fd [ch] w)" by (rule step_ps_loop [OF Cons.prems(1,2)]) (use f in blast)
  then have "world_ok w1" "fd \<in> dom (conns w1)"
    using w1(1) keeps_dom [of "{}" w w1] Cons.prems(2) by (auto simp: and_then_def)
  from Cons.IH [OF this w1(2)] show ?case using w1(1) by (simp add: and_then_def on_client_comp comp_def)
qed (simp add: on_client_id id_def)

lemma simulates_publish:
  assumes w: "world_ok w" and fd: "fd \<in> dom (conns w)" and s: "simulates now ow w a"
  shows "\<exists>w'. cmdPublish fd args w = Inr w' \<and>
    simulates now ow w' (say fd [Integer (int (card (audience (args ! 1) a)))] (tell (args ! 1) (args ! 2) a))"
proof -
  let ?ch = "args ! 1" and ?m = "args ! 2"
  note i = world_okD(2) [OF w]
  have aud: "audience ?ch a = {fd. listens (conns w) fd ?ch}"
    using s by (auto simp: audience_def simulates_def clients_of_def client_of_def listens_def split: option.split_asm)
  have "{fd. listens (conns w) fd ?ch} = set (subscribers (channels w) ?ch)" using ps_invD(4) [OF i] by auto
  then have n: "length (subscribers (channels w) ?ch) = card (audience ?ch a)"
    using ps_invD(2) [OF i] aud by (simp add: distinct_card)
  have b: "concat (map reply_bytes (push_message ?ch ?m)) = formatRespCommand [''message'', ?ch, ?m]"
    using bulk_list_bytes [of "[''message'', ?ch, ?m]"] by (simp add: push_message_def)
  obtain cs where cs: "publish ?ch ?m (channels w) (conns w) = Some (card (audience ?ch a), cs)"
    "\<And>f. \<not> listens (conns w) f ?ch \<Longrightarrow> cs f = conns w f"
    "\<And>f. listens (conns w) f ?ch \<Longrightarrow> \<exists>c c'. conns w f = Some c \<and> cs f = Some c' \<and> conn_inv c' \<and>
       c' = c\<lparr>outb := outb c', wantWrite := True\<rparr> \<and> pending c' = pending c @ formatRespCommand [''message'', ?ch, ?m]"
    using publish_ok [OF i, of ?ch ?m] unfolding n b by blast
  have "clients_of ow cs f = aclients (tell ?ch ?m a) f" for f
  proof (cases "listens (conns w) f ?ch")
    case True
    obtain c c' where c: "conns w f = Some c" "cs f = Some c'" "c' = c\<lparr>outb := outb c', wantWrite := True\<rparr>"
      "pending c' = pending c @ formatRespCommand [''message'', ?ch, ?m]" using cs(3) [OF True] by blast
    have "txn c' = txn c" "inb c' = inb c" "wantRead c' = wantRead c" "wantClose c' = wantClose c"
      "subscribedChannels c' = subscribedChannels c" by (subst c(3), simp)+
    moreover have "?ch \<in> set (subscribedChannels c)" using True c(1) by (simp add: listens_def)
    ultimately show ?thesis using c(1,2,4) s by (cases "ow f") (simp_all add: tell_def clients_of_def client_of_def simulates_def)
  next
    case False
    then have "\<And>c. conns w f = Some c \<Longrightarrow> ?ch \<notin> set (subscribedChannels c)" by (simp add: listens_def)
    then show ?thesis using cs(2) [OF False] s
      by (cases "conns w f") (simp_all add: tell_def clients_of_def client_of_def simulates_def)
  qed
  then have s1: "simulates now ow (w\<lparr>conns := cs\<rparr>) (tell ?ch ?m a)" using s by (simp add: simulates_def fun_eq_iff tell_def)
  obtain c where c: "conns w fd = Some c" using fd by auto
  have "\<exists>c'. cs fd = Some c' \<and> conn_ok c'"
  proof (cases "listens (conns w) fd ?ch")
    case True
    obtain c' where c': "cs fd = Some c'" "conn_inv c'" "c' = c\<lparr>outb := outb c', wantWrite := True\<rparr>" using cs(3) [OF True] c by auto
    have "txn c' = txn c" by (subst c'(3)) simp
    then show ?thesis using c' world_okD(4) [OF w c] by (simp add: conn_ok_def)
  qed (use cs(2) [of fd] c world_okD(4) [OF w c] in simp)
  then show ?thesis using simulates_reply [OF s1] cs(1) by (auto simp: cmdPublish_def)
qed

section \<open>Dispatch\<close>

text \<open>The environment of one command: its clock readings lie between two times, and sets are visited in some
  order.\<close>

definition on_time :: "int \<Rightarrow> env \<Rightarrow> int \<Rightarrow> bool" where
  "on_time now env now' = (mono (clk env) \<and> (\<forall>i. now \<le> clk env i \<and> clk env i \<le> now') \<and> (\<forall>xs. mset (uorder env xs) = mset xs))"

lemma on_time_le: "on_time now env now' \<Longrightarrow> now \<le> now'"
  unfolding on_time_def by (meson order_trans)

lemma tracks_plain:
  assumes w: "world_ok w" and c: "conns w fd = Some c" and s: "simulates now ow w a" and t: "on_time now (envs se 0) now'"
    and q: "args \<noteq> []" "plain args"
  shows "tracks now' ow (dispatch n server_table se fd args w) (spec_dispatch (clk (envs se 0)) fd args a)"
proof (cases "covered (clk (envs se 0)) args (astore a)")
  case False
  then show ?thesis using q(2) by (blast intro: spec_dispatch.open_case)
next
  case True
  let ?env = "envs se 0"
  note d = dispatch_plain [OF c world_okD(4) [OF w c] q, where se = se and n = n]
  have "ready now now' ?env (wdb w) (astore a)" using world_okD(1) [OF w] s t by (simp add: ready_def simulates_def on_time_def)
  then have g: "agrees now' (run_one ?env args (wdb w)) (spec_one (clk ?env) args (astore a))"
    using True q(2) by (intro run_one_agrees(1)) (simp_all add: covered_def)
  show ?thesis
  proof (cases "spec_one (clk ?env) args (astore a)")
    case (Inl e)
    then have "dispatch n server_table se fd args w = Inl e" using g d by (simp add: agrees_def)
    then show ?thesis using spec_dispatch.throws [OF q(2) True Inl] by auto
  next
    case (Inr Rs)
    obtain R s1 where Rs: "Rs = (R, s1)" by (cases Rs)
    obtain rs db1 where r: "run_one ?env args (wdb w) = Inr (rs, db1)" "rs \<in> R" "reflects now' db1 s1"
      using g Inr Rs by (auto simp: agrees_def)
    obtain c1 where c1: "dispatch n server_table se fd args w = Inr (w\<lparr>wdb := db1, conns := (conns w)(fd \<mapsto> c1)\<rparr>)"
      "c1 = c\<lparr>outb := outb c1\<rparr>" "pending c1 = pending c @ concat (map reply_bytes rs)"
      using d r(1) by auto
    have "simulates now' ow (w\<lparr>wdb := db1\<rparr>) (a\<lparr>astore := s1\<rparr>)" using s r(3) by (simp add: simulates_def)
    from simulates_conn [OF this _ client_of_send [OF c1(2,3)], of fd] c
    have "simulates now' ow (w\<lparr>wdb := db1, conns := (conns w)(fd \<mapsto> c1)\<rparr>) (say fd rs (a\<lparr>astore := s1\<rparr>))" by (simp add: say_def)
    then show ?thesis using spec_dispatch.answers [OF q(2) True _ r(2)] Inr Rs c1(1) by auto
  qed
qed

lemma tracks_dispatch:
  assumes w: "world_ok w" and c: "conns w fd = Some c" and s: "simulates now ow w a" and t: "on_time now (envs se 0) now'"
    and q: "args \<noteq> []" "lookup server_table args \<noteq> Inr Exec"
  shows "tracks now' ow (dispatch n server_table se fd args w) (spec_dispatch (clk (envs se 0)) fd args a)"
proof (cases "plain args")
  case True
  then show ?thesis by (rule tracks_plain [OF w c s t q(1)])
next
  case False
  then obtain h where h: "lookup server_table args = Inr h" "\<And>f. h \<noteq> Db f"
    by (fastforce simp: plain_def split: sum.splits handler.splits)
  have s': "simulates now' ow w a" using simulates_later [OF s on_time_le [OF t]] .
  have ok: "conn_ok c" by (rule world_okD(4) [OF w c])
  obtain run where d: "dispatch n server_table = dispatch_with run server_table" by (cases n) auto
  have dw: "dispatch n server_table se fd args w = call_handler run server_table h se fd args w"
    using h q(1) by (simp add: d dispatch_with_def)
  obtain c' where c': "aclients a fd = Some c'" "aqueue c' = txn c" "asubs c' = set (subscribedChannels c)"
    by (rule simulates_client [OF s c])
  have fd: "fd \<in> dom (conns w)" using c by blast
  note reply = simulates_reply [OF s' c ok]
  have txn: "\<exists>w'. update_conn fd f w = Inr w' \<and> simulates now' ow w' (say fd rs (on_client fd (\<lambda>c. c\<lparr>aqueue := q\<rparr>) a))"
    if "f c = send_replies rs (c\<lparr>txn := q\<rparr>)" "q = None \<or> q = Some []" for f rs q
    using ok that(2) by (intro simulates_txn [where f = f, OF s' c _ that(1)]) (auto simp: conn_ok_def conn_inv_def)
  have same: "\<exists>w'. update_conn fd f w = Inr w' \<and> simulates now' ow w' (say fd rs a)" if "f c = send_replies rs c" for f rs
    using reply [of rs] that c by (simp add: reply_to_def update_conn_def)
  note loops = simulates_ps_loop [OF w fd s']
  note m = tracks_ex [where B = "spec_dispatch (clk (envs se 0)) fd args a"]
  show ?thesis unfolding dw
  proof (cases h)
    case Info
    show "tracks now' ow (call_handler run server_table h se fd args w) (spec_dispatch (clk (envs se 0)) fd args a)"
      unfolding Info call_handler.simps cmdInfo_def Let_def
      by (rule m [OF reply spec_dispatch.info]) (simp add: h Info)
  next
    case BgRewriteAof
    have "simulates now' ow (w\<lparr>waof := x\<rparr>) a" for x using s' by (simp add: simulates_def)
    from simulates_reply [OF this, where fd = fd and c = c] c ok
    show "tracks now' ow (call_handler run server_table h se fd args w) (spec_dispatch (clk (envs se 0)) fd args a)"
      unfolding BgRewriteAof call_handler.simps cmdBgRewriteAof_def
      by (intro m [OF _ spec_dispatch.rewriting]) (simp_all add: h(1) BgRewriteAof)
  next
    case Multi
    show "tracks now' ow (call_handler run server_table h se fd args w) (spec_dispatch (clk (envs se 0)) fd args a)"
    proof (cases "txn c = None")
      case True
      show ?thesis unfolding Multi call_handler.simps cmdMulti_def
        by (rule m [OF txn [where q = "Some []"] spec_dispatch.multi [OF _ c'(1)]]) (simp_all add: True h(1) Multi c')
    next
      case False
      show ?thesis unfolding Multi call_handler.simps cmdMulti_def
        by (rule m [OF same spec_dispatch.nested [OF _ c'(1)]]) (simp_all add: False h(1) Multi c')
    qed
  next
    case Discard
    show "tracks now' ow (call_handler run server_table h se fd args w) (spec_dispatch (clk (envs se 0)) fd args a)"
    proof (cases "txn c = None")
      case True
      show ?thesis unfolding Discard call_handler.simps cmdDiscard_def
        by (rule m [OF same spec_dispatch.discard_nothing [OF _ c'(1)]]) (simp_all add: True h(1) Discard c')
    next
      case False
      show ?thesis unfolding Discard call_handler.simps cmdDiscard_def
        by (rule m [OF txn [where q = None] spec_dispatch.discard [OF _ c'(1)]]) (simp_all add: False h(1) Discard c')
    qed
  next
    case Subscribe
    show "tracks now' ow (call_handler run server_table h se fd args w) (spec_dispatch (clk (envs se 0)) fd args a)"
      unfolding Subscribe call_handler.simps cmdSubscribe_def
      by (rule m [OF loops spec_dispatch.subscribes [unfolded joins_def]]) (simp_all add: h(1) Subscribe)
  next
    case Unsubscribe
    have o: "distinct (uorder (envs se 0) (subscribedChannels c))" "set (uorder (envs se 0) (subscribedChannels c)) = asubs c'"
      using t ok c'(3) unfolding on_time_def conn_ok_def conn_inv_def by (metis mset_eq_imp_distinct_iff, metis mset_eq_setD)
    show "tracks now' ow (call_handler run server_table h se fd args w) (spec_dispatch (clk (envs se 0)) fd args a)"
    proof (cases "length args \<le> 1")
      case False
      then have e: "call_handler run server_table h se fd args w = ps_loop unsubscribe ''unsubscribe'' fd (drop 1 args) w"
        using c by (simp add: Unsubscribe cmdUnsubscribe_def)
      show ?thesis unfolding e
        by (rule m [OF loops spec_dispatch.unsubscribes [unfolded leaves_def]]) (use False in \<open>simp_all add: h(1) Unsubscribe\<close>)
    next
      case True
      show ?thesis
      proof (cases "subscribedChannels c = []")
        case e: True
        have "call_handler run server_table h se fd args w = reply_to fd [ArrayHeader 3, BulkString ''unsubscribe'', Null, Integer 0] w"
          using c True e by (simp add: Unsubscribe cmdUnsubscribe_def)
        then show ?thesis
          by (simp only:) (rule m [OF reply spec_dispatch.unsubscribes_nothing [OF _ _ c'(1)]]; use True e c' in \<open>simp add: h(1) Unsubscribe\<close>)
      next
        case e: False
        have "call_handler run server_table h se fd args w =
            ps_loop unsubscribe ''unsubscribe'' fd (uorder (envs se 0) (subscribedChannels c)) w"
          using c True e by (simp add: Unsubscribe cmdUnsubscribe_def)
        then show ?thesis
          by (simp only:) (rule m [OF loops spec_dispatch.unsubscribes_all [OF _ _ c'(1), unfolded leaves_def]];
            use True e c' o in \<open>simp add: h(1) Unsubscribe\<close>)
      qed
    qed
  next
    case Publish
    show "tracks now' ow (call_handler run server_table h se fd args w) (spec_dispatch (clk (envs se 0)) fd args a)"
      unfolding Publish call_handler.simps
      by (rule m [OF simulates_publish [OF w fd s'] spec_dispatch.publishes]) (simp add: h(1) Publish)
  qed (use h q(2) in simp_all)
qed

section \<open>Transactions\<close>

lemma queueable_lookup: "queueable q \<Longrightarrow> lookup server_table q \<noteq> Inr Exec"
proof
  assume q: "queueable q" and l: "lookup server_table q = Inr Exec"
  obtain e where "e \<in> set all_commands" "chandler e = Exec" "upper (q ! 0) = cname e" by (rule lookup_entry [OF l])
  then show False using exec_entry q by (auto simp: queueable_def)
qed

lemma clocked_on_time: "clocked T es \<Longrightarrow> on_time (T i) (es i) (T (i + 1))"
  by (simp add: clocked_def on_time_def)

lemma tracks_runs_Cons:
  assumes "tracks now ow r (step i x a)"
    and "\<And>w a1. r = Inr w \<Longrightarrow> step i x a (Goes a1) \<Longrightarrow> simulates now ow w a1 \<Longrightarrow> tracks now' ow' (f w) (runs step (i + 1) xs a1)"
  shows "tracks now' ow' (and_then r f) (runs step i (x # xs) a)"
  using assms(1)
proof (cases rule: tracksE)
  case (goes w a1)
  then show ?thesis using tracks_mono [OF assms(2) [OF goes] runs.continues [where step = step, OF goes(2)]] by (simp add: and_then_def)
next
  case (throws e)
  then show ?thesis by (auto simp: and_then_def intro: runs.stops)
next
  case outside
  then show ?thesis by (auto intro: runs.stops)
qed

lemma tracks_exec_loop:
  assumes "world_ok w" "fd \<in> dom (conns w)" "\<forall>q \<in> set qs. queueable q" "simulates (T i) ow w a" and T: "clocked T (envs se)"
  shows "tracks (T (i + length qs)) ow (exec_loop (dispatch 0 server_table) server_table se i fd qs w)
    (runs (\<lambda>i q. spec_dispatch (clk (envs se i)) fd q) i qs a)"
  using assms(1-4)
proof (induction qs arbitrary: i w a)
  case Nil
  then show ?case by (auto intro: runs.finished)
next
  case (Cons q qs)
  obtain c where c: "conns w fd = Some c" using Cons.prems(2) by auto
  have q: "queueable q" "q \<noteq> []" "tame q" "upper (q ! 0) \<noteq> ''EXEC''" using Cons.prems(3) by (auto simp: queueable_def)
  let ?se = "se\<lparr>envs := \<lambda>j. envs se (i + j)\<rparr>"
  have m: "tracks (T (i + 1)) ow (dispatch 0 server_table ?se fd q w) (spec_dispatch (clk (envs se i)) fd q a)"
    using tracks_dispatch [OF Cons.prems(1) c Cons.prems(4) _ q(2) queueable_lookup [OF q(1)], of ?se "T (i + 1)" 0]
      clocked_on_time [OF T, of i] by simp
  have st: "step_ok {} w (dispatch 0 server_table ?se fd q w)"
    unfolding dispatch.simps by (rule step_dispatch_with [OF Cons.prems(1) c q(3) server_table_in]) (simp_all add: q(4))
  show ?case unfolding exec_loop.simps
  proof (rule tracks_runs_Cons [where step = "\<lambda>i q. spec_dispatch (clk (envs se i)) fd q", OF m])
    fix w1 a1 assume w1: "dispatch 0 server_table ?se fd q w = Inr w1" "simulates (T (i + 1)) ow w1 a1"
    let ?w2 = "log_write server_table (envs se i) q w1"
    have "world_ok w1" "keeps {} w w1" using st w1(1) by simp_all
    then have "world_ok ?w2" "fd \<in> dom (conns ?w2)" using step_log [of w1] keeps_dom Cons.prems(2) by blast+
    moreover have "simulates (T (i + 1)) ow ?w2 a1" using w1(2) by (simp add: log_write_def simulates_def)
    ultimately show "tracks (T (i + length (q # qs))) ow (exec_loop (dispatch 0 server_table) server_table se (i + 1) fd qs ?w2)
        (runs (\<lambda>i q. spec_dispatch (clk (envs se i)) fd q) (i + 1) qs a1)"
      using Cons.IH [of ?w2 "i + 1" a1] Cons.prems(3) by simp
  qed
qed

text \<open>The environments of a command and, if it is EXEC, of the commands it runs.\<close>

definition ticking :: "int \<Rightarrow> sysenv \<Rightarrow> int \<Rightarrow> bool" where
  "ticking now se now' = (\<exists>T. clocked T (envs se) \<and> now \<le> T 0 \<and> (\<forall>j. T j \<le> now'))"

lemma ticking_le: "ticking now se now' \<Longrightarrow> now \<le> now'"
  unfolding ticking_def by (meson order_trans)

lemma ticking_on_time: "ticking now se now' \<Longrightarrow> on_time now (envs se 0) now'"
  unfolding ticking_def clocked_def on_time_def by (meson order_trans)

lemma simulates_close_txn:
  assumes "simulates now ow w a" "conns w fd = Some c"
  shows "\<exists>w'. update_conn fd (\<lambda>c. Some (c\<lparr>txn := None\<rparr>)) w = Inr w' \<and> simulates now ow w' (on_client fd (\<lambda>c. c\<lparr>aqueue := None\<rparr>) a)"
  using simulates_conn [OF assms, of "c\<lparr>txn := None\<rparr>" "\<lambda>c. c\<lparr>aqueue := None\<rparr>"] assms(2)
  by (simp add: update_conn_def client_of_def)

lemma tracks_exec:
  assumes w: "world_ok w" and c: "conns w fd = Some c" and s: "simulates now ow w a" and t: "ticking now se now'"
    and q: "txn c = Some qs"
  shows "tracks now' ow (cmdExec (dispatch 0 server_table) server_table se fd w)
    (\<lambda>x. \<exists>r. x = map_behaviour (on_client fd (\<lambda>c. c\<lparr>aqueue := None\<rparr>)) r \<and>
      runs (\<lambda>i q. spec_dispatch (clk (envs se i)) fd q) 1 qs (say fd [ArrayHeader (int (length qs))] a) r)"
    (is "tracks _ _ _ ?B")
proof -
  obtain T where T: "clocked T (envs se)" "now \<le> T 0" "\<And>j. T j \<le> now'" using t by (auto simp: ticking_def)
  have T1: "now \<le> T 1" using T(1,2) clocked_on_time [OF T(1), of 0] on_time_le by fastforce
  obtain w1 where w1: "reply_to fd [ArrayHeader (int (length qs))] w = Inr w1" "simulates now ow w1 (say fd [ArrayHeader (int (length qs))] a)"
    using simulates_reply [OF s c world_okD(4) [OF w c]] by blast
  have "step_ok {} w (reply_to fd [ArrayHeader (int (length qs))] w)" by (rule step_reply [OF w c])
  then have ok1: "world_ok w1" "fd \<in> dom (conns w1)" using w1(1) keeps_dom [of "{}" w w1] c by auto
  have qs: "\<forall>q \<in> set qs. queueable q" using world_okD(4) [OF w c] q by (simp add: conn_ok_def)
  let ?r = "exec_loop (dispatch 0 server_table) server_table se 1 fd qs w1"
  have e: "cmdExec (dispatch 0 server_table) server_table se fd w = and_then ?r (update_conn fd (\<lambda>c. Some (c\<lparr>txn := None\<rparr>)))"
    using c q w1(1) by (simp add: cmdExec_def and_then_def)
  have "step_ok {} w1 ?r" by (rule step_exec_loop [OF ok1 qs])
  then have d: "fd \<in> dom (conns w2)" if "?r = Inr w2" for w2 using that ok1(2) keeps_dom [of "{}" w1 w2] by simp
  have "tracks now' ow ?r (runs (\<lambda>i q. spec_dispatch (clk (envs se i)) fd q) 1 qs (say fd [ArrayHeader (int (length qs))] a))"
    using tracks_later [OF tracks_exec_loop [where i = 1, OF ok1 qs simulates_later [OF w1(2) T1] T(1)] T(3)] .
  then show ?thesis unfolding e
  proof (cases rule: tracksE)
    case (goes w2 a2)
    obtain c2 where "conns w2 fd = Some c2" using d [OF goes(1)] by auto
    note m = tracks_ex [where B = ?B, OF simulates_close_txn [OF goes(3) this]]
    show "tracks now' ow (and_then ?r (update_conn fd (\<lambda>c. Some (c\<lparr>txn := None\<rparr>)))) ?B"
      unfolding goes(1) and_then_def sum.case by (rule m) (use goes(2) in force)
  next
    case (throws e)
    then show "tracks now' ow (and_then ?r (update_conn fd (\<lambda>c. Some (c\<lparr>txn := None\<rparr>)))) ?B"
      by (force simp: and_then_def intro!: tracksI(2))
  next
    case outside
    then show "tracks now' ow (and_then ?r (update_conn fd (\<lambda>c. Some (c\<lparr>txn := None\<rparr>)))) ?B" by (force intro!: tracksI(3))
  qed
qed

section \<open>The commands of a client\<close>

lemma tracks_and_then:
  assumes "tracks now ow r B" "\<And>w. wdb (g w) = wdb w \<and> conns (g w) = conns w"
  shows "tracks now ow (and_then r (\<lambda>w. Inr (g w))) B"
  using assms(1)
proof (cases rule: tracksE)
  case (goes w a)
  then have "simulates now ow (g w) a" using simulates_cong assms(2) by blast
  then show ?thesis using goes by (auto simp: and_then_def)
qed (auto simp: and_then_def)

lemma exec_name:
  assumes "lookup server_table args = Inr Exec"
  shows "upper (args ! 0) = ''EXEC''"
proof -
  obtain e where "e \<in> set all_commands" "chandler e = Exec" "upper (args ! 0) = cname e" by (rule lookup_entry [OF assms])
  then show ?thesis using exec_entry by simp
qed

lemma tracks_dispatch_any:
  assumes w: "world_ok w" and c: "conns w fd = Some c" and s: "simulates now ow w a" and t: "ticking now se now'"
    and q: "args \<noteq> []" and g: "subscribedChannels c = [] \<or> upper (args ! 0) \<in> {''SUBSCRIBE'', ''UNSUBSCRIBE'', ''PING'', ''QUIT''}"
    and x: "txn c = None \<or> upper (args ! 0) \<in> {''EXEC'', ''DISCARD'', ''MULTI''}"
  shows "tracks now' ow (dispatch 1 server_table se fd args w) (spec_command (\<lambda>j. clk (envs se j)) fd args a)"
proof -
  obtain c' where c': "aclients a fd = Some c'" "aqueue c' = txn c" "asubs c' = set (subscribedChannels c)"
    by (rule simulates_client [OF s c])
  show ?thesis
  proof (cases "lookup server_table args = Inr Exec")
    case False
    have "asubs c' = {} \<or> upper (args ! 0) \<in> {''SUBSCRIBE'', ''UNSUBSCRIBE'', ''PING'', ''QUIT''}"
      "aqueue c' = None \<or> upper (args ! 0) \<in> {''EXEC'', ''DISCARD'', ''MULTI''}" using g x c'(2,3) by auto
    from spec_command.dispatched [OF q c'(1) this False] show ?thesis
      by (rule tracks_mono [OF tracks_dispatch [OF w c s ticking_on_time [OF t] q False]])
  next
    case True
    have e: "subscribedChannels c = []" using g exec_name [OF True] by auto
    have d: "dispatch 1 server_table se fd args w = cmdExec (dispatch 0 server_table) server_table se fd w"
      using True q by (simp only: dispatch_one dispatch_with_def if_False sum.case call_handler.simps)
    show ?thesis
    proof (cases "txn c")
      case None
      have "\<exists>w'. cmdExec (dispatch 0 server_table) server_table se fd w = Inr w' \<and> simulates now' ow w' (say fd [Error ''ERR EXEC without MULTI''] a)"
        using simulates_reply [OF simulates_later [OF s ticking_le [OF t]] c world_okD(4) [OF w c]] c None by (simp add: cmdExec_def)
      then show ?thesis unfolding d
        by (rule tracks_ex) (rule spec_command.exec_nothing [OF q c'(1) _ _ True]; simp add: c' e None)
    next
      case (Some qs)
      show ?thesis unfolding d
        by (rule tracks_mono [OF tracks_exec [OF w c s t Some]]) (use q c' e Some True in \<open>auto intro: spec_command.exec\<close>)
    qed
  qed
qed

lemma tracks_command:
  assumes w: "world_ok w" and c: "conns w fd = Some c" and s: "simulates now ow w a" and t: "ticking now se now'" and tm: "tame args"
  shows "tracks now' ow (process_command se fd args w) (spec_command (\<lambda>j. clk (envs se j)) fd args a)"
proof -
  note s' = simulates_later [OF s ticking_le [OF t]]
  obtain c' where c': "aclients a fd = Some c'" "aqueue c' = txn c" "asubs c' = set (subscribedChannels c)"
    by (rule simulates_client [OF s c])
  let ?n = "upper (args ! 0)" and ?S = "{''SUBSCRIBE'', ''UNSUBSCRIBE'', ''PING'', ''QUIT''}" and ?X = "{''EXEC'', ''DISCARD'', ''MULTI''}"
  consider "args = []" | "args \<noteq> []" "inSubscribeMode c" "?n \<notin> ?S"
    | qs where "args \<noteq> []" "\<not> inSubscribeMode c \<or> ?n \<in> ?S" "txn c = Some qs" "?n \<notin> ?X"
    | "args \<noteq> []" "\<not> inSubscribeMode c \<or> ?n \<in> ?S" "txn c = None \<or> ?n \<in> ?X" by (cases "txn c") blast+
  then show ?thesis
  proof cases
    case 1
    then show ?thesis using c s' by (auto simp: process_command_def intro: spec_command.skipped)
  next
    case 2
    have p: "process_command se fd args w = reply_to fd [Error (ERR_SUBSCRIBED (args ! 0))] w"
      using 2 c unfolding process_command_def Let_def by (simp only: option.case if_False if_True simp_thms)
    have "asubs c' \<noteq> {}" using 2(2) c'(3) by (simp add: inSubscribeMode_def)
    then show ?thesis unfolding p
      using tracks_ex [OF simulates_reply [OF s' c world_okD(4) [OF w c]], of "spec_command (\<lambda>j. clk (envs se j)) fd args a"]
        spec_command.gated [OF 2(1) c'(1) _ 2(3)] by blast
  next
    case 3
    let ?f = "\<lambda>c. send_replies [SimpleString ''QUEUED''] (c\<lparr>txn := Some (qs @ [args])\<rparr>)"
    have p: "process_command se fd args w = update_conn fd ?f w"
      using 3 c unfolding process_command_def Let_def by (auto simp del: insert_iff)
    have "conn_ok (c\<lparr>txn := Some (qs @ [args])\<rparr>)"
      using world_okD(4) [OF w c] 3(1,3,4) tm by (auto simp: conn_ok_def conn_inv_def queueable_def)
    from simulates_txn [OF s' c this, of ?f] have m: "\<exists>w'. update_conn fd ?f w = Inr w' \<and>
        simulates now' ow w' (say fd [SimpleString ''QUEUED''] (on_client fd (\<lambda>c. c\<lparr>aqueue := Some (qs @ [args])\<rparr>) a))" by simp
    have g: "asubs c' = {} \<or> ?n \<in> ?S" "aqueue c' = Some qs" using 3(2,3) c'(2,3) by (auto simp: inSubscribeMode_def)
    show ?thesis unfolding p
      by (rule tracks_ex [OF m]) (rule spec_command.queued [OF 3(1) c'(1) g 3(4)])
  next
    case 4
    let ?g = "\<lambda>w1. let w2 = w1\<lparr>wmetrics := recordCommand (envs se 0) args (wmetrics w1)\<rparr>
      in if ?n \<noteq> ''EXEC'' then log_write server_table (envs se 0) args w2 else w2"
    have p: "process_command se fd args w = and_then (dispatch 1 server_table se fd args w) (\<lambda>w1. Inr (?g w1))"
      using 4 c unfolding process_command_def by (auto simp: Let_def simp del: insert_iff dispatch.simps One_nat_def)
    have "tracks now' ow (dispatch 1 server_table se fd args w) (spec_command (\<lambda>j. clk (envs se j)) fd args a)"
      by (rule tracks_dispatch_any [OF w c s t 4(1) _ 4(3)]) (use 4(2) in \<open>simp add: inSubscribeMode_def\<close>)
    then show ?thesis unfolding p by (rule tracks_and_then) (simp add: Let_def log_write_def)
  qed
qed

lemma tracks_serves:
  assumes "serves ses fd rest i cmds w r" "world_ok w" "conns w fd = Some c" "\<forall>q \<in> set cmds. tame q"
    and "simulates (T i) [fd \<mapsto> rest] w a" and T: "\<And>i. ticking (T i) (ses i) (T (i + 1))"
  shows "tracks (T (i + length cmds)) Map.empty r (runs (\<lambda>i. spec_command (\<lambda>j. clk (envs (ses i) j)) fd) i cmds a)"
  using assms(1-5)
proof (induction i cmds w r arbitrary: a c rule: serves.induct)
  case (served b i w)
  have "simulates (T i) Map.empty (with_input fd b w) a"
    using served.prems(2,4) served.hyps(2) by (auto simp: simulates_def with_input_eq clients_of_def client_of_def fun_eq_iff)
  then show ?case by (auto intro: runs.finished)
next
  case (thrown b i args w e cmds)
  note wi = with_input_ok [OF thrown.prems(1,2) thrown.hyps(1), of "{fd}"]
  have "simulates (T i) [fd \<mapsto> rest] (with_input fd b w) a"
    using thrown.prems(2,4) by (auto simp: simulates_def with_input_eq clients_of_def client_of_def fun_eq_iff)
  from tracks_command [OF wi(1) wi(3) this T, of args] thrown.prems(3)
  have "tracks (T (i + 1)) [fd \<mapsto> rest] (Inl e) (spec_command (\<lambda>j. clk (envs (ses i) j)) fd args a)" unfolding thrown.hyps(2) by simp
  then show ?case by (rule tracksE) (auto intro: runs.stops)
next
  case (ran b i args w w1 cmds r)
  let ?w = "with_input fd b w"
  note wi = with_input_ok [OF ran.prems(1,2) ran.hyps(1), of "{fd}"]
  have s: "simulates (T i) [fd \<mapsto> rest] ?w a"
    using ran.prems(2,4) by (auto simp: simulates_def with_input_eq clients_of_def client_of_def fun_eq_iff)
  have st: "step_ok {} ?w (process_command (ses i) fd args ?w)"
    using ran.prems(3) by (intro step_process_command [OF wi(1,3)]) simp_all
  then have w1: "world_ok w1" "keeps {} ?w w1" using ran.hyps(2) by simp_all
  obtain c1 where c1: "conns w1 fd = Some c1" using keepsD [OF w1(2) wi(3)] by auto
  have "tracks (T (i + 1)) [fd \<mapsto> rest] (process_command (ses i) fd args ?w) (spec_command (\<lambda>j. clk (envs (ses i) j)) fd args a)"
    using tracks_command [OF wi(1) wi(3) s T] ran.prems(3) by simp
  then show ?case
  proof (cases rule: tracksE)
    case (goes w2 a1)
    then have "simulates (T (i + 1)) [fd \<mapsto> rest] w1 a1" using ran.hyps(2) by simp
    from ran.IH [OF w1(1) c1 _ this] ran.prems(3)
    have "tracks (T (i + 1 + length cmds)) Map.empty r (runs (\<lambda>i. spec_command (\<lambda>j. clk (envs (ses i) j)) fd) (i + 1) cmds a1)" by simp
    from tracks_mono [OF this runs.continues [where step = "\<lambda>i. spec_command (\<lambda>j. clk (envs (ses i) j)) fd", OF goes(2)]]
    show ?thesis by simp
  next
    case (throws e)
    then show ?thesis using ran.hyps(2) by simp
  next
    case outside
    then show ?thesis by (auto intro: runs.stops)
  qed
qed

end
