(* ===== verification/Sessions.thy ===== *)
theory Sessions
  imports Store_Runs AOF_Properties
begin

text \<open>
  From the bytes of a client to the bytes of the replies: the parse loop, on a connection that is neither
  in a transaction nor subscribed, runs the decoded commands in sequence, appends their replies to the
  output and the write commands to the log.
\<close>

lemma process_plain:
  assumes c: "conns w fd = Some c" "conn_ok c" and m: "\<not> inSubscribeMode c" "txn c = None" and q: "q \<noteq> []" "plain q"
  shows "case run_one (envs se 0) q (wdb w) of
      Inl e \<Rightarrow> process_command se fd q w = Inl e
    | Inr (rs, db') \<Rightarrow> \<exists>w' c'. process_command se fd q w = Inr w' \<and> wdb w' = db' \<and> conns w' = (conns w)(fd \<mapsto> c') \<and>
        conn_ok c' \<and> c' = c\<lparr>outb := outb c'\<rparr> \<and> pending c' = pending c @ concat (map reply_bytes rs) \<and>
        waof w' = log_queue (\<lambda>_. envs se 0) 0 [q] (waof w)"
proof -
  have no_exec: "\<not> isWriteCommand server_table (q ! 0)" if "upper (q ! 0) = ''EXEC''"
    using that by (simp add: isWriteCommand_def server_entries)
  have p: "process_command se fd q w = and_then (dispatch 1 server_table se fd q w)
      (\<lambda>w1. Inr (log_write server_table (envs se 0) q (w1\<lparr>wmetrics := recordCommand (envs se 0) q (wmetrics w1)\<rparr>)))"
    using c(1) m q(1) no_exec by (auto simp: process_command_def Let_def log_write_def intro!: arg_cong2 [where f = and_then])
  show ?thesis
    using dispatch_plain [OF c q, where se = se and n = 1] unfolding p
    by (auto simp: and_then_def log_write_def split: sum.splits prod.splits)
qed

lemma serves_run:
  assumes "serves ses fd rest i cmds w r" "conns w fd = Some c" "conn_ok c" "\<not> inSubscribeMode c" "txn c = None"
    and "\<forall>q \<in> set cmds. q \<noteq> [] \<and> plain q"
  shows "case run_queue (\<lambda>i. envs (ses i) 0) i cmds (wdb w) of
      Inl e \<Rightarrow> r = Inl e
    | Inr (rs, db') \<Rightarrow> \<exists>w' c'. r = Inr w' \<and> wdb w' = db' \<and> conns w' = (conns w)(fd \<mapsto> c') \<and>
        c' = c\<lparr>inb := inb c', outb := outb c'\<rparr> \<and> received c' = rest \<and> pending c' = pending c @ concat (map reply_bytes rs) \<and>
        waof w' = log_queue (\<lambda>i. envs (ses i) 0) i cmds (waof w)"
  using assms
proof (induction i cmds w r arbitrary: c rule: serves.induct)
  case (served b i w)
  then show ?case by (simp add: with_input_eq) (rule exI [of _ "c\<lparr>inb := b\<rparr>"], simp)
next
  case (thrown b i args w e cmds)
  let ?w = "with_input fd b w" and ?c = "c\<lparr>inb := b\<rparr>"
  have c: "conns ?w fd = Some ?c" "conn_ok ?c" "\<not> inSubscribeMode ?c" "txn ?c = None" "wdb ?w = wdb w"
    using thrown by (simp_all add: with_input_eq conn_ok_def conn_inv_def inSubscribeMode_def)
  from process_plain [OF c(1-4), of args "ses i"] thrown c(5) show ?case by (auto split: sum.splits prod.splits)
next
  case (ran b i args w w1 cmds r)
  let ?w = "with_input fd b w" and ?c = "c\<lparr>inb := b\<rparr>"
  have c: "conns ?w fd = Some ?c" "conn_ok ?c" "\<not> inSubscribeMode ?c" "txn ?c = None" "wdb ?w = wdb w" "waof ?w = waof w"
    "conns ?w = (conns w)(fd \<mapsto> ?c)"
    using ran.hyps(1) ran.prems by (simp_all add: with_input_eq conn_ok_def conn_inv_def inSubscribeMode_def)
  obtain rs db1 c1 where o: "run_one (envs (ses i) 0) args (wdb w) = Inr (rs, db1)" "wdb w1 = db1" "conns w1 = (conns w)(fd \<mapsto> c1)"
    "conn_ok c1" "c1 = ?c\<lparr>outb := outb c1\<rparr>" "pending c1 = pending c @ concat (map reply_bytes rs)"
    "waof w1 = log_queue (\<lambda>_. envs (ses i) 0) 0 [args] (waof w)"
    using process_plain [OF c(1-4), of args "ses i"] ran.hyps(2) ran.prems(5) c(5-7) by (auto split: sum.splits)
  have c1: "conns w1 fd = Some c1" "\<not> inSubscribeMode c1" "txn c1 = None" "subscribedChannels c1 = subscribedChannels c"
    using o(3) ran.prems(3,4) by (simp, (subst o(5), simp add: inSubscribeMode_def)+)
  have same: "c' = c\<lparr>inb := inb c', outb := outb c'\<rparr>" if "c' = c1\<lparr>inb := inb c', outb := outb c'\<rparr>" for c'
    by (subst that, subst o(5)) simp
  define a where "a = (if isEnabled (waof w) \<and> isWriteCommand server_table (args ! 0)
    then aof_log (writes (envs (ses i) 0)) args (waof w) else waof w)"
  have wa: "waof w1 = a" using o(7) by (simp add: a_def)
  have cm: "\<forall>q \<in> set cmds. q \<noteq> [] \<and> plain q" using ran.prems(5) by simp
  have IH: "case run_queue (\<lambda>i. envs (ses i) 0) (i + 1) cmds db1 of
      Inl e \<Rightarrow> r = Inl e
    | Inr (rs', db') \<Rightarrow> \<exists>w' c'. r = Inr w' \<and> wdb w' = db' \<and> conns w' = (conns w)(fd \<mapsto> c') \<and>
        c' = c1\<lparr>inb := inb c', outb := outb c'\<rparr> \<and> received c' = rest \<and>
        pending c' = pending c @ concat (map reply_bytes (rs @ rs')) \<and> waof w' = log_queue (\<lambda>i. envs (ses i) 0) (i + 1) cmds a"
    using ran.IH [OF c1(1) o(4) c1(2,3) cm] by (simp only: o(2,3,6) wa fun_upd_upd append_assoc map_append concat_append)
  show ?case
  proof (cases "run_queue (\<lambda>i. envs (ses i) 0) (i + 1) cmds db1")
    case (Inl e)
    then show ?thesis using IH o(1) by simp
  next
    case (Inr x)
    obtain rs' db2 where x: "x = (rs', db2)" by (cases x)
    obtain w' c' where w': "r = Inr w'" "wdb w' = db2" "conns w' = (conns w)(fd \<mapsto> c')" "c' = c1\<lparr>inb := inb c', outb := outb c'\<rparr>"
      "received c' = rest" "pending c' = pending c @ concat (map reply_bytes (rs @ rs'))"
      "waof w' = log_queue (\<lambda>i. envs (ses i) 0) (i + 1) cmds a"
      using IH Inr x by auto
    have "run_queue (\<lambda>i. envs (ses i) 0) i (args # cmds) (wdb w) = Inr (rs @ rs', db2)" using o(1) Inr x by simp
    moreover have "log_queue (\<lambda>i. envs (ses i) 0) i (args # cmds) (waof w) = log_queue (\<lambda>i. envs (ses i) 0) (i + 1) cmds a"
      by (simp add: a_def)
    ultimately show ?thesis using w' same [OF w'(4)] by (simp only: sum.case prod.case) blast
  qed
qed

section \<open>Sessions implement the store\<close>

text \<open>What a client can see of the database at a time.\<close>

definition visible :: "database \<Rightarrow> int \<Rightarrow> store" where
  "visible db t k = map_option (\<lambda>(v, x). (content_of v, x)) (alive db t k)"

lemma reflects_visible: "reflects now db s \<Longrightarrow> now \<le> t \<Longrightarrow> visible db t = view t s"
  by (simp add: fun_eq_iff visible_def reflects_view)

lemma requests_tame: "requests es i cmds \<Longrightarrow> q \<in> set cmds \<Longrightarrow> q \<noteq> [] \<and> plain q \<and> tame q"
  by (auto simp: requests_def admissible_def tame_def in_set_conv_nth)



end
