(* ===== verification/Loop_Refinement.thy ===== *)
theory Loop_Refinement
  imports Server_Refinement Sessions
begin

text \<open>
  The event loop implements the abstract server: reading and writing of a client, the events of an
  iteration, the timer, the sweep and the closing of connections, and the loop over the iterations.
\<close>

section \<open>Housekeeping is invisible\<close>

lemma reflects_expire:
  assumes r: "reflects now db s" and g: "good_db db" and t: "now \<le> t"
  shows "reflects t (db_activeExpireCycle m t db n) s"
proof -
  obtain ks h where p: "popExpired (ttlHeap db) t n = (ks, h)" by fastforce
  note inv = good_db_inv [OF g]
  note a = db_activeExpireCycle_ok [OF inv p, of m]
  have "expiry_batch (due db) t n ks" using th.pop_batch [OF db_invD(2) [OF inv] p] by simp
  then have d: "\<exists>x. due db k = Some x \<and> x \<le> t" if "k \<in> set ks" for k using that by (simp add: expiry_batch_def)
  have "expired t e" if k: "entry_of db k = Some e" "k \<in> set ks" for k e
  proof -
    obtain x where x: "due db k = Some x" "x \<le> t" using d [OF k(2)] by blast
    moreover have "0 \<le> x" using r x(1) by (simp add: reflects_def)
    moreover have "expireAt e = x" using db_invD(3) [OF inv] x(1) k(1) by (force simp: coherent_def)
    ultimately show ?thesis by (simp add: expired_def)
  qed
  then have "pruned t db (db_activeExpireCycle m t db n)"
    using a by (auto simp: pruned_def map_le_def restrict_map_def split: if_splits)
  from reflects_pruned [OF r this t] show ?thesis .
qed

lemma reflects_rehash: "reflects now db s \<Longrightarrow> good_db db \<Longrightarrow> reflects now (db_rehashStep db) s"
  using reflects_pruned [OF _ pruned_same [OF same_data_rehash [OF good_db_inv]]] by (simp add: db_rehashStep_def)

lemma simulates_timer:
  "simulates now ow w a \<Longrightarrow> world_ok w \<Longrightarrow> now \<le> tick_ms te \<Longrightarrow> simulates (tick_ms te) ow (timer_callback te w) a"
  using reflects_expire [OF _ world_okD(1), of now w "astore a" "tick_ms te"] by (simp add: simulates_def timer_callback_def)

text \<open>Changing the wish to write, or the interest set, is invisible too.\<close>

lemma simulates_wish:
  assumes "simulates now ow w a" "conns w fd = Some c" "c' = c\<lparr>wantWrite := wantWrite c'\<rparr>" "wdb w' = wdb w"
    and "conns w' = (conns w)(fd \<mapsto> c')"
  shows "simulates now ow w' a"
proof -
  have "client_of c' = client_of c" "inb c' = inb c" by (subst assms(3), simp add: client_of_def)+
  then have "simulates now ow (w\<lparr>conns := (conns w)(fd \<mapsto> c')\<rparr>) (on_client fd (\<lambda>c. c) a)"
    by (intro simulates_conn [OF assms(1,2)]) simp_all
  then show ?thesis using assms(4,5) by (simp add: on_client_id simulates_def)
qed

lemma simulates_sweep_conn:
  assumes "simulates now ow w a"
  shows "simulates now ow (sweep_conn fd w) a"
proof (cases "\<exists>c. conns w fd = Some c \<and> \<not> wantClose c \<and> readableBytes (outb c) > 0")
  case True
  then obtain c where c: "conns w fd = Some c" "\<not> wantClose c \<and> readableBytes (outb c) > 0" by blast
  show ?thesis
    by (rule simulates_wish [OF assms c(1), of "c\<lparr>wantWrite := True\<rparr>"]) (use c in \<open>simp_all add: sweep_conn_def Let_def\<close>)
next
  case False
  then have "sweep_conn fd w = w" by (auto simp: sweep_conn_def split: option.split)
  then show ?thesis using assms by simp
qed

lemma simulates_sweep: "simulates now ow w a \<Longrightarrow> simulates now ow (sweep w) a"
proof -
  have "simulates now ow w a \<Longrightarrow> simulates now ow (fold sweep_conn xs w) a" for xs
    by (induction xs arbitrary: w) (simp_all add: simulates_sweep_conn)
  then show "simulates now ow w a \<Longrightarrow> ?thesis" by (simp add: sweep_def)
qed

lemma wdb_close_conns: "wdb (fold close_conn xs w) = wdb w"
  by (induction xs arbitrary: w) (simp_all add: close_conn_def Let_def)

lemma simulates_cleanup:
  assumes l: "loop_ok lfd {} w" and s: "simulates now Map.empty w a"
  shows "simulates now Map.empty (cleanup w) (spec_close a)"
proof -
  have "fd \<in> set (toClose w) \<longleftrightarrow> (\<exists>c. conns w fd = Some c \<and> wantClose c)" for fd
    using loop_okD(3) [OF l] by (auto simp: toClose_def split: option.splits)
  then have "clients_of Map.empty (conns (cleanup w)) fd = aclients (spec_close a) fd" for fd
    using cleanup_ok(2) [OF l, of fd] s by (cases "conns w fd") (auto simp: clients_of_def spec_close_def simulates_def client_of_def)
  moreover have "wdb (cleanup w) = wdb w" by (simp add: cleanup_def wdb_close_conns)
  ultimately show ?thesis using s by (simp add: simulates_def spec_close_def fun_eq_iff)
qed

section \<open>Events of one client\<close>

text \<open>The clock readings of the commands of an event.\<close>

definition event_time :: "int \<Rightarrow> client_event \<Rightarrow> int \<Rightarrow> bool" where
  "event_time now ev now' =
     (\<exists>T. (\<forall>i. ticking (T i) (cmd_envs ev i) (T (i + 1))) \<and> now \<le> T 0 \<and> (\<forall>i. T i \<le> now'))"

lemma event_time_le: "event_time now ev now' \<Longrightarrow> now \<le> now'"
  unfolding event_time_def by (meson order_trans)

lemma handleRead_delivers:
  assumes "conn_ok c"
  obtains ok c1 bs where "handleRead res c = Some (ok, c1)" "c1 = c\<lparr>inb := inb c1\<rparr>" "conn_inv c1" "received c1 = received c @ bs"
    "delivers res bs" "ok \<longleftrightarrow> res \<notin> {ReadEof, ReadError}"
proof -
  have inv: "conn_inv c" "buf_inv (inb c)" using assms by (simp_all add: conn_ok_def conn_inv_def)
  let ?bs = "case res of ReadBytes bs \<Rightarrow> take (writableBytes (ensureWritableBytes (inb c) kReadBufSize)) bs | _ \<Rightarrow> []"
  have "delivers res ?bs"
    using ensureWritableBytes_spec(3) [OF inv(2), of kReadBufSize]
    by (auto simp: delivers_def take_is_prefix kReadBufSize_def split: read_result.split)
  then show thesis using handleRead_ok [OF inv(1), of res] that by blast
qed

lemma tracks_wish:
  assumes "tracks now ow r B" "\<And>w. r = Inr w \<Longrightarrow> fd \<in> dom (conns w)"
  shows "tracks now ow (and_then r (\<lambda>w. Inr (set_conn fd (\<lambda>c. if P c then c\<lparr>wantWrite := True\<rparr> else c) w))) B"
  using assms(1)
proof (cases rule: tracksE)
  case (goes w a)
  obtain c where c: "conns w fd = Some c" using assms(2) goes(1) by auto
  have "simulates now ow (set_conn fd (\<lambda>c. if P c then c\<lparr>wantWrite := True\<rparr> else c) w) a"
    by (rule simulates_wish [OF goes(3) c, of "if P c then c\<lparr>wantWrite := True\<rparr> else c"]) (simp_all add: set_conn_def c)
  then show ?thesis using goes by (auto simp: and_then_def)
qed (auto simp: and_then_def)

text \<open>What is read: the bytes delivered go behind the input, and the commands decoded from it are served.\<close>

lemma read_phase_serves:
  assumes l: "loop_ok lfd {} w" and c: "conns w fd = Some c" and t: "\<forall>args \<in> set (fst (rf.decode_all (input_of ev c))). tame args"
  obtains c2 bs cmds rest r where "delivers (read_res ev) bs" "rf.decode_all (received c @ bs) = (cmds, rest)" "\<forall>args \<in> set cmds. tame args"
    "client_of c2 = (client_of c)\<lparr>ain := received c @ bs, areading := (wantRead c \<and> read_res ev \<notin> {ReadEof, ReadError})\<rparr>"
    "loop_ok lfd {fd} (w\<lparr>conns := (conns w)(fd \<mapsto> c2)\<rparr>)" "step_ok {fd} (w\<lparr>conns := (conns w)(fd \<mapsto> c2)\<rparr>) r"
    "serves (cmd_envs ev) fd rest 0 cmds (w\<lparr>conns := (conns w)(fd \<mapsto> c2)\<rparr>) r"
    "read_phase fd ev c w = Some (and_then r (\<lambda>w1. Inr (set_conn fd (\<lambda>c. if readableBytes (outb c) > 0 then c\<lparr>wantWrite := True\<rparr> else c) w1)))"
proof -
  note ok = world_okD(4) [OF loop_okD(1) [OF l] c]
  obtain okay c1 bs where c1: "handleRead (read_res ev) c = Some (okay, c1)" "c1 = c\<lparr>inb := inb c1\<rparr>" "conn_inv c1"
    "received c1 = received c @ bs" "delivers (read_res ev) bs" "okay \<longleftrightarrow> read_res ev \<notin> {ReadEof, ReadError}"
    by (rule handleRead_delivers [OF ok])
  have io: "input_of ev c = received c @ bs"
    using handleRead_ok [of c "read_res ev"] ok c1(1,4) unfolding conn_ok_def input_of_def by auto
  define c2 where "c2 = (if okay then c1 else c1\<lparr>wantRead := False\<rparr>)"
  let ?w = "w\<lparr>conns := (conns w)(fd \<mapsto> c2)\<rparr>"
  have same: "txn c2 = txn c" "subscribedChannels c2 = subscribedChannels c" "wantWrite c2 = wantWrite c"
    "wantClose c2 = wantClose c" "outb c2 = outb c" "inb c2 = inb c1" "wantRead c2 \<longleftrightarrow> wantRead c \<and> okay"
    unfolding c2_def by (subst c1(2), simp)+
  have ok2: "conn_ok c2" using c1(3) ok same unfolding conn_ok_def by (auto simp: c2_def conn_inv_def)
  have l1: "loop_ok lfd {fd} ?w"
    using loop_okD(6) [OF l c] same ok2 by (intro loop_set_conn [OF loop_mono [OF l] c]) auto
  have rc: "received c2 = received c @ bs" using same(6) c1(4) by simp
  obtain cmds rest where d: "rf.decode_all (received c @ bs) = (cmds, rest)" by fastforce
  have inv: "buf_inv (inb c2)" using ok2 by (simp add: conn_ok_def conn_inv_def)
  have tm: "\<forall>args \<in> set cmds. tame args" using t d io by simp
  obtain r where r: "process_input (Suc (readableBytes (inb c2))) (cmd_envs ev) 0 fd ?w = Some r" "step_ok {fd} ?w r"
    "serves (cmd_envs ev) fd rest 0 cmds ?w r"
    using process_input_serves [OF loop_okD(1) [OF l1], of fd c2 "Suc (readableBytes (inb c2))" "cmd_envs ev" 0]
      length_readable [OF inv] tm d rc by auto
  have "read_phase fd ev c w = Some (and_then r (\<lambda>w1. Inr (set_conn fd (\<lambda>c. if readableBytes (outb c) > 0 then c\<lparr>wantWrite := True\<rparr> else c) w1)))"
    using r(1) unfolding c2_def by (simp only: read_phase_def c1(1) Let_def option.case prod.case and_then_def split: sum.split) simp
  moreover have "client_of c2 = (client_of c)\<lparr>ain := received c @ bs, areading := (wantRead c \<and> read_res ev \<notin> {ReadEof, ReadError})\<rparr>"
    using same rc c1(6) by (simp add: client_of_def)
  ultimately show thesis using that c1(5) d tm l1 r(2,3) by blast
qed

lemma tracks_read_phase:
  assumes l: "loop_ok lfd {} w" and c: "conns w fd = Some c" and t: "\<forall>args \<in> set (fst (rf.decode_all (input_of ev c))). tame args"
    and s: "simulates now Map.empty w a" and i: "epollIn ev" and e: "event_time now ev now'"
  shows "\<exists>x. read_phase fd ev c w = Some x \<and> tracks now' Map.empty x (spec_receive ev fd a)"
proof -
  obtain c2 bs cmds rest r where r: "delivers (read_res ev) bs" "rf.decode_all (received c @ bs) = (cmds, rest)" "\<forall>args \<in> set cmds. tame args"
    "client_of c2 = (client_of c)\<lparr>ain := received c @ bs, areading := (wantRead c \<and> read_res ev \<notin> {ReadEof, ReadError})\<rparr>"
    "loop_ok lfd {fd} (w\<lparr>conns := (conns w)(fd \<mapsto> c2)\<rparr>)" "step_ok {fd} (w\<lparr>conns := (conns w)(fd \<mapsto> c2)\<rparr>) r"
    "serves (cmd_envs ev) fd rest 0 cmds (w\<lparr>conns := (conns w)(fd \<mapsto> c2)\<rparr>) r"
    "read_phase fd ev c w = Some (and_then r (\<lambda>w1. Inr (set_conn fd (\<lambda>c. if readableBytes (outb c) > 0 then c\<lparr>wantWrite := True\<rparr> else c) w1)))"
    by (rule read_phase_serves [OF l c t])
  let ?w = "w\<lparr>conns := (conns w)(fd \<mapsto> c2)\<rparr>"
  obtain T where T: "\<And>i. ticking (T i) (cmd_envs ev i) (T (i + 1))" "now \<le> T 0" "\<And>i. T i \<le> now'" using e by (auto simp: event_time_def)
  let ?f = "\<lambda>c. c\<lparr>ain := rest, areading := (areading c \<and> read_res ev \<notin> {ReadEof, ReadError})\<rparr>"
  have "clients_of [fd \<mapsto> rest] ((conns w)(fd \<mapsto> c2)) f = aclients (on_client fd ?f a) f" for f
    using s c r(4) by (auto simp: clients_of_def on_client_def simulates_def) (simp add: client_of_def)
  then have "simulates (T 0) [fd \<mapsto> rest] ?w (on_client fd ?f a)"
    using simulates_later [OF s T(2)] by (simp add: simulates_def on_client_def fun_eq_iff)
  from tracks_serves [OF r(7) loop_okD(1) [OF r(5)] _ r(3) this T(1), of c2] have "tracks (T (length cmds)) Map.empty r
      (runs (\<lambda>i. spec_command (\<lambda>j. clk (envs (cmd_envs ev i) j)) fd) 0 cmds (on_client fd ?f a))" by simp
  moreover obtain c' where c': "aclients a fd = Some c'" "ain c' = received c" by (rule simulates_client [OF s c]) simp
  have "rf.decode_all (ain c' @ bs) = (cmds, rest)" using r(2) c'(2) by simp
  note spec_receive.received [OF i c'(1) r(1) this]
  ultimately have m: "tracks now' Map.empty r (spec_receive ev fd a)"
    using tracks_mono tracks_later [OF _ T(3)] by blast
  have dm: "fd \<in> dom (conns w1)" if "r = Inr w1" for w1 using r(6) that keeps_dom [of "{fd}" ?w w1] by auto
  show ?thesis using r(8) tracks_wish [OF m, of fd "\<lambda>c. readableBytes (outb c) > 0"] dm by blast
qed

lemma write_phase_sends:
  assumes ok: "conn_ok c"
  obtains c' where "write_phase ev c = Some c'" "inb c' = inb c" "conn_ok c'"
    "\<And>bs. (client_of c')\<lparr>ain := bs\<rparr> = spec_send ev ((client_of c)\<lparr>ain := bs\<rparr>)"
proof (cases "epollOut ev \<and> \<not> wantClose c \<and> pending c \<noteq> []")
  case False
  define c' where "c' = (if epollOut ev \<and> \<not> wantClose c then c\<lparr>wantWrite := False\<rparr> else c)"
  show thesis
  proof (rule that [of c'])
    show "write_phase ev c = Some c'"
      using False pending_iff [OF ok] by (auto simp: write_phase_def handleWrite_def c'_def)
    show "(client_of c')\<lparr>ain := bs\<rparr> = spec_send ev ((client_of c)\<lparr>ain := bs\<rparr>)" for bs
      using False by (auto simp: spec_send_def client_of_def c'_def)
  qed (use ok in \<open>simp_all add: c'_def\<close>)
next
  case True
  obtain okay c1 where c1: "handleWrite (write_res ev) c = Some (okay, c1)" "conn_inv c1" "c1 = c\<lparr>outb := outb c1\<rparr>"
    "pending c1 = drop (case write_res ev of Sent n \<Rightarrow> n | _ \<Rightarrow> 0) (pending c)"
    using handleWrite_ok [of c "write_res ev"] ok unfolding conn_ok_def by blast
  have okay: "okay \<longleftrightarrow> write_res ev \<noteq> SendError"
    using c1(1) True pending_iff [OF ok] by (auto simp: handleWrite_def split: write_result.splits if_splits option.splits)
  note same = send_same [OF c1(3)]
  define c' where "c' = (if \<not> okay then c1\<lparr>wantClose := True\<rparr>
    else if readableBytes (outb c1) = 0 then c1\<lparr>wantWrite := False\<rparr> else c1)"
  show thesis
  proof (rule that [of c'])
    show "write_phase ev c = Some c'" using True c1(1) by (simp add: write_phase_def c'_def)
    show "(client_of c')\<lparr>ain := bs\<rparr> = spec_send ev ((client_of c)\<lparr>ain := bs\<rparr>)" for bs
      using True same c1(4) okay by (auto simp: spec_send_def client_of_def c'_def split: write_result.splits)
  qed (use ok same c1(2) in \<open>simp_all add: c'_def conn_ok_def conn_inv_def\<close>)
qed

lemma register_same: "wdb (register fd w) = wdb w" "conns (register fd w) = conns w"
  by (simp_all add: register_def split: option.split)

lemma simulates_finish:
  assumes s: "simulates now ow w a" and c: "conns w fd = Some c" "conn_ok c"
  shows "\<exists>w'. and_then (update_conn fd (write_phase ev) w) (\<lambda>w2. Inr (register fd (set_conn fd close_phase w2))) = Inr w' \<and>
    simulates now ow w' (on_client fd (spec_finish \<circ> spec_send ev) a)"
proof -
  obtain c1 where c1: "write_phase ev c = Some c1" "inb c1 = inb c" "conn_ok c1"
    "\<And>bs. (client_of c1)\<lparr>ain := bs\<rparr> = spec_send ev ((client_of c)\<lparr>ain := bs\<rparr>)" using write_phase_sends [OF c(2), where ev = ev] by blast
  let ?w = "w\<lparr>conns := (conns w)(fd \<mapsto> close_phase c1)\<rparr>"
  have "(client_of (close_phase c1))\<lparr>ain := bs\<rparr> = spec_finish ((client_of c1)\<lparr>ain := bs\<rparr>)" for bs
    using pending_iff [OF c1(3)] by (simp add: close_phase_def spec_finish_def client_of_def)
  moreover have "inb (close_phase c1) = inb c" using c1(2) by (simp add: close_phase_def)
  ultimately have "simulates now ow ?w (on_client fd (spec_finish \<circ> spec_send ev) a)"
    using c1(4) by (intro simulates_conn [OF s c(1)]) simp_all
  then have "simulates now ow (register fd ?w) (on_client fd (spec_finish \<circ> spec_send ev) a)"
    using simulates_cong [OF register_same] by blast
  then show ?thesis using c(1) c1(1) by (simp add: update_conn_def and_then_def set_conn_def)
qed

lemma tracks_client:
  assumes l: "loop_ok lfd {} w" and t: "client_tame fd ev w" and s: "simulates now Map.empty w a" and e: "event_time now ev now'"
  shows "\<exists>x. handle_client fd ev w = Some x \<and> tracks now' Map.empty x (spec_event (Client fd ev) a)"
proof (cases "conns w fd")
  case None
  then have "aclients a fd = None" using s by (simp add: simulates_def clients_of_def)
  with None show ?thesis using simulates_later [OF s event_time_le [OF e]] by (auto simp: handle_client_def intro: spec_event.stale)
next
  case (Some c)
  note s' = simulates_later [OF s event_time_le [OF e]]
  obtain c' where c': "aclients a fd = Some c'" by (rule simulates_client [OF s Some])
  show ?thesis
  proof (cases "epollErr ev")
    case True
    have "simulates now' Map.empty (w\<lparr>conns := (conns w)(fd \<mapsto> c\<lparr>wantClose := True\<rparr>)\<rparr>) (on_client fd (\<lambda>c. c\<lparr>aclosing := True\<rparr>) a)"
      by (rule simulates_conn [OF s' Some]) (simp_all add: client_of_def)
    with True Some show ?thesis using spec_event.failed [OF True] by (auto simp: handle_client_def set_conn_def)
  next
    case False
    have r: "\<exists>x. (if epollIn ev then read_phase fd ev c w else Some (Inr w)) = Some x \<and> tracks now' Map.empty x (spec_receive ev fd a)"
    proof (cases "epollIn ev")
      case True
      with False t Some show ?thesis using tracks_read_phase [OF l Some _ s True e] by (simp add: client_tame_def)
    qed (use s' in \<open>auto intro: spec_receive.silent\<close>)
    have lr: "loop_result lfd {fd} w (if epollIn ev then read_phase fd ev c w else Some (Inr w))"
      using read_phase_ok [OF l Some] t Some False loop_mono [OF l] by (auto simp: client_tame_def loop_result_def)
    obtain x where x: "(if epollIn ev then read_phase fd ev c w else Some (Inr w)) = Some x" "tracks now' Map.empty x (spec_receive ev fd a)"
      using r by blast
    let ?f = "\<lambda>w1. and_then (update_conn fd (write_phase ev) w1) (\<lambda>w2. Inr (register fd (set_conn fd close_phase w2)))"
    have h: "handle_client fd ev w = Some (and_then x ?f)"
      using Some False x(1) by (cases x) (simp_all add: handle_client_def and_then_def)
    note ev = spec_event.handled [OF False, of a fd, unfolded c', OF option.simps(3)]
    show ?thesis using x(2)
    proof (cases rule: tracksE)
      case (goes w1 a1)
      have l1: "loop_ok lfd {fd} w1" "fds w1 = fds w" using lr x(1) goes(1) by (auto simp: loop_result_def)
      have "fd \<in> dom (conns w1)" using loop_okD(3) [OF l1(1)] loop_okD(3) [OF l] l1(2) Some by auto
      then obtain c1 where c1: "conns w1 fd = Some c1" by blast
      have "spec_event (Client fd ev) a (Goes (on_client fd (spec_finish \<circ> spec_send ev) a1))" using ev [OF goes(2)] by simp
      moreover have "\<exists>w'. ?f w1 = Inr w' \<and> simulates now' Map.empty w' (on_client fd (spec_finish \<circ> spec_send ev) a1)"
        by (rule simulates_finish [OF goes(3) c1 world_okD(4) [OF loop_okD(1) [OF l1(1)] c1]])
      ultimately have "tracks now' Map.empty (?f w1) (spec_event (Client fd ev) a)" by (intro tracks_ex)
      then show ?thesis using h goes(1) by (simp add: and_then_def)
    next
      case (throws e)
      then show ?thesis using h ev [OF throws(2)] by (auto simp: and_then_def)
    next
      case outside
      then show ?thesis using h ev [OF outside] by auto
    qed
  qed
qed

section \<open>Iterations\<close>

lemma client_of_new: "client_of new_connection = new_client"
  by (simp add: client_of_def new_client_def new_connection_def)

lemma simulates_accepts:
  "simulates now Map.empty w a \<Longrightarrow> simulates now Map.empty (fold accept_client cfds w)
     (a\<lparr>aclients := (\<lambda>fd. if fd \<in> set cfds then Some new_client else aclients a fd)\<rparr>)"
proof (induction cfds arbitrary: w a)
  case (Cons x xs)
  have "received new_connection = []" by (simp add: new_connection_def)
  then have "simulates now Map.empty (accept_client x w) (a\<lparr>aclients := (aclients a)(x \<mapsto> new_client)\<rparr>)"
    using Cons.prems client_of_new by (auto simp: simulates_def accept_client_def clients_of_def fun_eq_iff new_client_def)
  moreover have "(a\<lparr>aclients := (aclients a)(x \<mapsto> new_client)\<rparr>)\<lparr>aclients := (\<lambda>fd. if fd \<in> set xs then Some new_client
        else aclients (a\<lparr>aclients := (aclients a)(x \<mapsto> new_client)\<rparr>) fd)\<rparr> =
      a\<lparr>aclients := (\<lambda>fd. if fd \<in> set (x # xs) then Some new_client else aclients a fd)\<rparr>"
    by (intro aserver.equality) (auto simp: fun_eq_iff)
  ultimately show ?case using Cons.IH [of "accept_client x w" "a\<lparr>aclients := (aclients a)(x \<mapsto> new_client)\<rparr>"] by (simp only: fold_simps)
qed simp

fun events_time :: "int \<Rightarrow> event list \<Rightarrow> int \<Rightarrow> bool" where
  "events_time now [] now' = (now \<le> now')"
| "events_time now (Listen rs # evs) now' = events_time now evs now'"
| "events_time now (Client fd ev # evs) now' = (\<exists>t. event_time now ev t \<and> events_time t evs now')"

lemma tracks_events:
  assumes "loop_ok lfd {} w" "inputs_ok lfd evs w" "simulates now Map.empty w a" "events_time now evs now'"
  shows "\<exists>x. handle_events evs w = Some x \<and> tracks now' Map.empty x (runs (\<lambda>_. spec_event) i evs a)"
  using assms
proof (induction evs w arbitrary: a i now rule: handle_events.induct)
  case (1 w)
  then show ?case using simulates_later by (auto intro: runs.finished)
next
  case (2 rs evs w)
  let ?cfds = "accept_loop rs"
  let ?a = "a\<lparr>aclients := (\<lambda>fd. if fd \<in> set ?cfds then Some new_client else aclients a fd)\<rparr>"
  obtain x where x: "handle_events evs (fold accept_client ?cfds w) = Some x" "tracks now' Map.empty x (runs (\<lambda>_. spec_event) (i + 1) evs ?a)"
    using "2.IH" [OF accepts_ok [OF "2.prems"(1)] _ simulates_accepts [OF "2.prems"(3)], of "i + 1"] "2.prems"(2,4) by (auto simp: Let_def)
  have "tracks now' Map.empty x (runs (\<lambda>_. spec_event) i (Listen rs # evs) a)"
    by (rule tracks_mono [OF x(2)]) (rule runs.continues [where step = "\<lambda>_. spec_event", OF spec_event.accepted])
  then show ?case using x(1) by simp
next
  case (3 fd ev evs w)
  obtain t where t: "event_time now ev t" "events_time t evs now'" using "3.prems"(4) by auto
  have ct: "client_tame fd ev w" using "3.prems"(2) by simp
  obtain x where x: "handle_client fd ev w = Some x" "tracks t Map.empty x (spec_event (Client fd ev) a)"
    using tracks_client [OF "3.prems"(1) ct "3.prems"(3) t(1)] by blast
  have lr: "loop_result lfd {} w (handle_client fd ev w)" by (rule handle_client_ok [OF "3.prems"(1) ct])
  show ?case using x(2)
  proof (cases rule: tracksE)
    case (goes w1 a1)
    have l1: "loop_ok lfd {} w1" "inputs_ok lfd evs w1" using lr x(1) goes(1) "3.prems"(2) by (auto simp: loop_result_def)
    obtain y where y: "handle_events evs w1 = Some y" "tracks now' Map.empty y (runs (\<lambda>_. spec_event) (i + 1) evs a1)"
      using "3.IH" [OF x(1) goes(1) l1 goes(3) t(2)] by blast
    have "tracks now' Map.empty y (runs (\<lambda>_. spec_event) i (Client fd ev # evs) a)"
      by (rule tracks_mono [OF y(2)]) (rule runs.continues [where step = "\<lambda>_. spec_event", OF goes(2)])
    then show ?thesis using y(1) x(1) goes(1) by simp
  next
    case (throws e)
    then show ?thesis using x(1) by (auto intro!: tracksI(2) runs.stops)
  next
    case outside
    then show ?thesis using handle_events_ok [OF "3.prems"(1,2)] by (auto intro!: tracksI(3) runs.stops)
  qed
qed

definition iteration_time :: "int \<Rightarrow> iteration \<Rightarrow> int \<Rightarrow> bool" where
  "iteration_time now it now' =
     (now \<le> tick_ms (tick it) \<and>
      (case polled (poll_res it) of None \<Rightarrow> tick_ms (tick it) \<le> now' | Some evs \<Rightarrow> events_time (tick_ms (tick it)) evs now'))"

lemma poll_polled:
  assumes "poll cb ns res (el, w) = (oevs, el', w')"
  shows "oevs = polled res" "w' = w \<or> w' = cb w"
  using assms by (auto simp: poll_def polled_def kMaxEvents_def split: wait_result.splits if_splits)

lemma tracks_iterate:
  assumes b: "between lfd w" and i: "iteration_ok lfd it w" and s: "simulates now Map.empty w a" and t: "iteration_time now it now'"
  shows "case polled (poll_res it) of
      None \<Rightarrow> \<exists>w'. iterate it w = Some (Inr (False, w')) \<and> simulates now' Map.empty w' a
    | Some evs \<Rightarrow> \<exists>r. runs (\<lambda>_. spec_event) 0 evs a r \<and>
        (case r of Goes a1 \<Rightarrow> \<exists>w'. iterate it w = Some (Inr (True, w')) \<and> simulates now' Map.empty w' (spec_close a1)
         | Throws e \<Rightarrow> iterate it w = Some (Inl e) | Outside \<Rightarrow> True)"
proof -
  let ?w0 = "w\<lparr>wmetrics := (wmetrics w)\<lparr>connectedClients := length (fds w)\<rparr>\<rparr>" and ?t = "tick_ms (tick it)"
  have l0: "loop_ok lfd {} ?w0" using b by (simp add: between_def loop_ok_def world_ok_def metrics_inv_def)
  have s0: "simulates now Map.empty ?w0 a" using s by (simp add: simulates_def)
  obtain oevs el w1 where p: "poll (timer_callback (tick it)) (poll_ns it) (poll_res it) (eloop ?w0, ?w0) = (oevs, el, w1)"
    by (metis prod_cases3)
  have le: "now \<le> ?t" using t by (simp add: iteration_time_def)
  have "simulates ?t Map.empty w1 a"
    using poll_polled(2) [OF p] simulates_later [OF s0 le] simulates_timer [OF s0 loop_okD(1) [OF l0] le] by metis
  then have s1: "simulates ?t Map.empty (w1\<lparr>eloop := el\<rparr>) a" by (simp add: simulates_def)
  have l1: "loop_ok lfd {} (w1\<lparr>eloop := el\<rparr>)" by (rule loop_polled [OF l0 p])
  show ?thesis
  proof (cases oevs)
    case None
    then have n: "polled (poll_res it) = None" using poll_polled(1) [OF p] by simp
    then have "?t \<le> now'" using t by (simp add: iteration_time_def)
    then show ?thesis using n None p simulates_later [OF s1] by (simp add: iterate_def Let_def)
  next
    case (Some evs)
    then have e: "polled (poll_res it) = Some evs" using poll_polled(1) [OF p] by simp
    have io: "inputs_ok lfd evs (w1\<lparr>eloop := el\<rparr>)" using i p Some by (simp add: iteration_ok_def Let_def)
    have et: "events_time ?t evs now'" using t e by (simp add: iteration_time_def)
    obtain x where x: "handle_events evs (w1\<lparr>eloop := el\<rparr>) = Some x" "tracks now' Map.empty x (runs (\<lambda>_. spec_event) 0 evs a)"
      using tracks_events [OF l1 io s1 et] by blast
    show ?thesis using x(2)
    proof (cases rule: tracksE)
      case (goes w2 a1)
      have l2: "loop_ok lfd {} w2" using handle_events_ok [OF l1 io] x(1) goes(1) by simp
      let ?w3 = "w2\<lparr>wdb := db_rehashStep (wdb w2)\<rparr>"
      have l3: "loop_ok lfd {} ?w3" by (rule loop_ok_db [OF l2 good_rehash [OF world_okD(1) [OF loop_okD(1) [OF l2]]]])
      have "simulates now' Map.empty ?w3 a1"
        using goes(3) reflects_rehash [OF _ world_okD(1) [OF loop_okD(1) [OF l2]]] by (simp add: simulates_def)
      from simulates_cleanup [OF sweep_ok(1) [OF l3] simulates_sweep [OF this]]
      have s3: "simulates now' Map.empty (cleanup (sweep ?w3)) (spec_close a1)" .
      have "iterate it w = Some (Inr (True, cleanup (sweep ?w3)))"
        using p Some x(1) goes(1) by (simp add: iterate_def Let_def)
      with s3 show ?thesis using e goes(2) by (auto intro!: exI [of _ "Goes a1"])
    next
      case (throws ex)
      have "iterate it w = Some (Inl ex)" using p Some x(1) throws(1) by (simp add: iterate_def Let_def)
      then show ?thesis using e throws(2) by (auto intro!: exI [of _ "Throws ex"])
    next
      case outside
      then show ?thesis using e by (auto intro!: exI [of _ Outside])
    qed
  qed
qed

section \<open>The main loop\<close>

text \<open>The conditions on a run: the kernel returns descriptors that are not in use, the commands carry no NaN
  scores and fewer than 2^31 arguments, and the clock does not run backwards.\<close>

fun run_ok :: "nat \<Rightarrow> iteration list \<Rightarrow> int \<Rightarrow> world \<Rightarrow> bool" where
  "run_ok lfd [] now w = True"
| "run_ok lfd (it # its) now w =
     (iteration_ok lfd it w \<and>
      (\<exists>now'. iteration_time now it now' \<and> (\<forall>w'. iterate it w = Some (Inr (True, w')) \<longrightarrow> run_ok lfd its now' w')))"

lemma main_loop_ends:
  "between lfd w \<Longrightarrow> run_ok lfd its now w \<Longrightarrow> \<exists>x. main_loop its w = Some x"
proof (induction its arbitrary: now w)
  case (Cons it its)
  obtain x where x: "iterate it w = Some x" "case x of Inl e \<Rightarrow> stoi_error e | Inr (go_on, w') \<Rightarrow> go_on \<longrightarrow> between lfd w'"
    using iterate_ok [OF Cons.prems(1), of it] Cons.prems(2) by auto
  show ?case using x Cons.IH Cons.prems(2) by (cases x) (auto split: prod.splits)
qed simp

lemma tracks_main_loop:
  assumes "between lfd w" "run_ok lfd its now w" "simulates now Map.empty w a"
  shows "\<exists>r. spec_loop its a r \<and>
    (case r of Goes a' \<Rightarrow> \<exists>w' now'. main_loop its w = Some (Inr w') \<and> simulates now' Map.empty w' a'
     | Throws e \<Rightarrow> main_loop its w = Some (Inl e) | Outside \<Rightarrow> True)"
  using assms
proof (induction its arbitrary: now w a)
  case Nil
  then show ?case by (auto intro!: exI [of _ "Goes a"] spec_loop.signalled)
next
  case (Cons it its)
  have i: "iteration_ok lfd it w" using Cons.prems(2) by simp
  obtain now' where t: "iteration_time now it now'" "\<And>w'. iterate it w = Some (Inr (True, w')) \<Longrightarrow> run_ok lfd its now' w'"
    using Cons.prems(2) by auto
  note m = tracks_iterate [OF Cons.prems(1) i Cons.prems(3) t(1)]
  show ?case
  proof (cases "polled (poll_res it)")
    case None
    then show ?thesis using m by (auto intro!: exI [of _ "Goes a"] spec_loop.wait_failed)
  next
    case (Some evs)
    obtain r where r: "runs (\<lambda>_. spec_event) 0 evs a r"
      "case r of Goes a1 \<Rightarrow> \<exists>w'. iterate it w = Some (Inr (True, w')) \<and> simulates now' Map.empty w' (spec_close a1)
         | Throws e \<Rightarrow> iterate it w = Some (Inl e) | Outside \<Rightarrow> True" using m Some by auto
    show ?thesis
    proof (cases r)
      case (Goes a1)
      then obtain w1 where w1: "iterate it w = Some (Inr (True, w1))" "simulates now' Map.empty w1 (spec_close a1)" using r(2) by auto
      have "between lfd w1" using iterate_ok [OF Cons.prems(1) i] w1(1) by auto
      from Cons.IH [OF this t(2) [OF w1(1)] w1(2)] obtain r' where r': "spec_loop its (spec_close a1) r'"
        "case r' of Goes a' \<Rightarrow> \<exists>w' now'. main_loop its w1 = Some (Inr w') \<and> simulates now' Map.empty w' a'
         | Throws e \<Rightarrow> main_loop its w1 = Some (Inl e) | Outside \<Rightarrow> True" by blast
      have "spec_loop (it # its) a r'" using spec_loop.iterated [OF Some _ r'(1)] r(1) Goes by simp
      moreover have "main_loop (it # its) w = main_loop its w1" using w1(1) by simp
      ultimately show ?thesis using r'(2) by (intro exI [of _ r']) (simp only: simp_thms)
    next
      case (Throws e)
      then show ?thesis using spec_loop.ended [OF Some r(1)] r(2) by (auto intro!: exI [of _ r])
    next
      case Outside
      then show ?thesis using spec_loop.ended [OF Some r(1)] by (auto intro!: exI [of _ r])
    qed
  qed
qed


text \<open>A client connects and sends a command.\<close>

definition send_event :: "bytes list \<Rightarrow> client_event" where
  "send_event q = \<lparr>epollErr = False, epollIn = True, epollOut = False, read_res = ReadBytes (formatRespCommand q),
     write_res = SendAgain, cmd_envs = (\<lambda>i. demo_sysenv)\<rparr>"

definition send_iteration :: "bytes list \<Rightarrow> iteration" where
  "send_iteration q = \<lparr>poll_ns = 0, poll_res = Ready [Client 7 (send_event q)], tick = demo_tick\<rparr>"

abbreviation ping_iteration :: iteration where
  "ping_iteration \<equiv> send_iteration [''PING'']"

lemma ping_bytes: "length (formatRespCommand [''PING'']) = 14"
  by code_simp

lemma sent_decoded:
  assumes "length (formatRespCommand q) \<le> 4096"
  shows "rf.decode_all (formatRespCommand q) = ([q], [])"
  using rf.decode_all_enc [of "[q]" "[]"] rf.decode_all_None [of "[]"] assms by simp

lemma sent_delivered: "delivers (ReadBytes f) bs \<Longrightarrow> length f \<le> 4096 \<Longrightarrow> bs = f"
  using prefix_length_le [of bs f] by (auto simp: delivers_def prefix_def min_def split: if_splits)

lemma poll_accepted:
  "poll (timer_callback demo_tick) 0 (Ready evs) (eloop accepted_world, w) = (Some (take 128 evs), eloop accepted_world, w)"
  by (simp add: poll_def accepted_world_def accept_client_def booted_world_def initial_world_def setTimerCallback_def kMaxEvents_def
    elapsedMs_def tdiv_def addFd_def new_event_loop_def)

lemma send_run_ok:
  assumes "length (formatRespCommand q) \<le> 4096" "tame q"
  shows "iteration_ok 3 (send_iteration q) accepted_world" "run_ok 3 [demo_iteration, send_iteration q] 0 booted_world"
proof -
  have tk: "ticking 0 demo_sysenv 0" unfolding ticking_def
    by (rule exI [of _ "\<lambda>_. 0"]) (simp add: clocked_def demo_sysenv_def demo_env_def mono_def)
  have i: "input_of (send_event q) new_connection = formatRespCommand q"
    using assms(1) handleRead_chunk [of "inb new_connection" "formatRespCommand q"]
    by (simp add: input_of_def new_connection_def kReadBufSize_def send_event_def)
  show ok: "iteration_ok 3 (send_iteration q) accepted_world"
    by (simp add: iteration_ok_def send_iteration_def Let_def poll_accepted client_tame_def accepted_conns i sent_decoded [OF assms(1)] assms(2))
      (simp split: option.split sum.split)
  have "iteration_time 0 demo_iteration 0"
    by (simp add: iteration_time_def demo_iteration_def demo_tick_def polled_def)
  moreover have "iteration_time 0 (send_iteration q) 0"
    using tk by (auto simp: iteration_time_def send_iteration_def send_event_def demo_tick_def polled_def event_time_def
      intro!: exI [of _ 0] exI [of _ "\<lambda>_. 0"])
  ultimately show "run_ok 3 [demo_iteration, send_iteration q] 0 booted_world"
    using ok demo_iterate demo_iteration_ok by (auto intro!: exI [of _ 0])
qed

definition empty_server :: aserver where
  "empty_server = \<lparr>astore = Map.empty, aclients = Map.empty\<rparr>"

lemma ping_command:
  assumes "spec_command tms 7 [''PING''] \<lparr>astore = Map.empty, aclients = [7 \<mapsto> new_client]\<rparr> r"
  shows "r = Goes \<lparr>astore = Map.empty, aclients = [7 \<mapsto> new_client\<lparr>aout := reply_bytes (SimpleString ''PONG'')\<rparr>]\<rparr>"
proof -
  let ?a = "\<lparr>astore = Map.empty, aclients = [7 \<mapsto> new_client]\<rparr>"
  have p: "upper ''PING'' = ''PING''" "server_table ''PING'' = Some (cmd ''PING'' (- 1) False (Db cmdPing))"
    by code_simp (simp add: server_table_map all_commands_def stringCommands_def keyCommands_def listCommands_def hashCommands_def
      setCommands_def zsetCommands_def transactionCommands_def serverCommands_def)
  have l: "lookup server_table [''PING''] = Inr (Db cmdPing)" by (simp add: lookup_def p arity_ok_def wrap32_def)
  have o: "spec_one tm [''PING''] Map.empty = exactly [SimpleString ''PONG''] Map.empty" for tm
    by (simp add: spec_one_def l p spec_lookup specPing_def)
  have "plain [''PING'']" "covered tm [''PING''] Map.empty" for tm
    by (simp_all add: plain_def l covered_def admissible_def bounded_def p)
  note f = this l o p
  have n: "aqueue new_client = None" "asubs new_client = {}" "aout new_client = []" by (simp_all add: new_client_def)
  have "spec_dispatch (tms 0) 7 [''PING''] ?a r" using assms f n by (simp add: spec_command.simps)
  then show ?thesis using f n by (simp add: spec_dispatch.simps say_def on_client_def)
qed

lemma ping_spec:
  assumes "spec_loop [demo_iteration, ping_iteration] empty_server r"
  shows "\<exists>a'. r = Goes a' \<and> aclients a' = [7 \<mapsto> new_client\<lparr>aout := reply_bytes (SimpleString ''PONG'')\<rparr>]"
proof -
  let ?f = "formatRespCommand [''PING'']" and ?a = "\<lparr>astore = Map.empty, aclients = [7 \<mapsto> new_client]\<rparr>" and ?ev = "send_event [''PING'']"
  have n: "aclosing new_client = False" "areading new_client" "ain new_client = []" by (simp_all add: new_client_def)
  have a1: "spec_close (empty_server\<lparr>aclients := \<lambda>fd. if fd \<in> set [7] then Some new_client else aclients empty_server fd\<rparr>) = ?a"
    by (auto simp: spec_close_def empty_server_def n fun_eq_iff)
  have "polled (poll_res demo_iteration) = Some [Listen [7]]" "polled (poll_res ping_iteration) = Some [Client 7 ?ev]"
    by (simp_all add: demo_iteration_def send_iteration_def polled_def)
  note q = this
  have "spec_loop [ping_iteration] ?a r"
    using assms a1 unfolding spec_loop_Cons [of demo_iteration] q by (auto simp: spec_simps(1-3))
  then obtain r1 where r1: "runs (\<lambda>_. spec_event) 0 [Client 7 ?ev] ?a r1" "r = map_behaviour spec_close r1 \<or> (\<forall>a1. r1 \<noteq> Goes a1) \<and> r = r1"
    unfolding spec_loop_Cons [of ping_iteration] q by (auto simp: spec_loop_Nil)
  then have ev: "spec_event (Client 7 ?ev) ?a r1" by (auto simp: runs_Cons runs_Nil)
  have "on_client 7 (\<lambda>c. c\<lparr>ain := [], areading := areading c\<rparr>) ?a = ?a"
    by (auto simp: on_client_def new_client_def fun_eq_iff)
  note a2 = this
  obtain r2 where r2: "r1 = map_behaviour (on_client 7 (spec_finish \<circ> spec_send ?ev)) r2" "spec_receive ?ev 7 ?a r2"
    using ev by (auto simp: spec_event_Client send_event_def)
  obtain bs cmds rest where c: "delivers (ReadBytes ?f) bs" "rf.decode_all bs = (cmds, rest)"
    "runs (\<lambda>i. spec_command (\<lambda>j. clk (envs demo_sysenv j)) 7) 0 cmds (on_client 7 (\<lambda>c. c\<lparr>ain := rest, areading := areading c\<rparr>) ?a) r2"
    using r2(2) n by (auto simp: spec_receive.simps send_event_def)
  have "cmds = [[''PING'']]" "rest = []" using c(2) sent_delivered [OF c(1)] sent_decoded [of "[''PING'']"] ping_bytes by simp_all
  then have "runs (\<lambda>i. spec_command (\<lambda>j. clk (envs demo_sysenv j)) 7) 0 [[''PING'']] ?a r2" using c(3) a2 by (simp only:)
  then have "spec_command (\<lambda>j. clk (envs demo_sysenv j)) 7 [''PING''] ?a r2" by (auto simp: runs_Cons runs_Nil)
  from ping_command [OF this] r2(1) r1(2) show ?thesis
    by (auto simp: on_client_def spec_send_def spec_finish_def spec_close_def new_client_def send_event_def fun_eq_iff)
qed


end
