(* ===== verification/Recovery.thy ===== *)
theory Recovery
  imports Sessions
begin

text \<open>
  Durability: what a restart makes of the log of a session. The log holds the write commands; replaying
  them gives back what a client could see, whatever the clock says at the restart, as long as no key was
  given an expiry time. After a crash it gives what a client could see at some moment of the session.
\<close>

abbreviation is_write :: "bytes list \<Rightarrow> bool" where
  "is_write q \<equiv> isWriteCommand server_table (q ! 0)"

definition sets_expiry :: "bytes list \<Rightarrow> bool" where
  "sets_expiry q = (upper (q ! 0) \<in> {''EXPIRE'', ''PEXPIRE''})"

section \<open>The specifications without expiry times\<close>

lemmas entry_defs = all_commands_def stringCommands_def keyCommands_def listCommands_def hashCommands_def setCommands_def
  zsetCommands_def transactionCommands_def serverCommands_def

lemma write_handler:
  assumes "isWriteCommand server_table n"
  obtains e h where "server_table (upper n) = Some e" "chandler e = Db h"
proof -
  obtain e where e: "server_table (upper n) = Some e" "isWrite e" using assms by (auto simp: isWriteCommand_def split: option.splits)
  have "e \<in> set all_commands" using server_table_in [OF e(1)] by simp
  then have "\<exists>h. chandler e = Db h" using e(2)
    unfolding entry_defs append.simps list.set by (elim insertE emptyE; simp)
  then show thesis using that e(1) by blast
qed

lemma write_plain: "isWriteCommand server_table (q ! 0) \<Longrightarrow> plain q"
  by (erule write_handler) (auto simp: plain_def lookup_def Let_def)

lemma plain_spec:
  assumes "plain q" "lookup server_table q = Inr h"
  obtains sp where "map_of spec_table (upper (q ! 0)) = Some sp"
    and "\<not> sets_expiry q \<Longrightarrow> sp \<in> read_specs \<and> \<not> is_write q \<or>
      sp \<in> write_specs \<and> is_write q"
proof -
  obtain f where f: "h = Db f" using assms by (cases h) (simp_all add: plain_def)
  obtain e where e: "server_table (upper (q ! 0)) = Some e" "chandler e = Db f"
    using assms(2) f by (auto simp: lookup_def Let_def split: option.splits if_splits)
  have n: "e \<in> set all_commands" "cname e = upper (q ! 0)" using server_table_in [OF e(1)] by auto
  have w: "is_write q = isWrite e" by (simp add: isWriteCommand_def e(1))
  have "\<exists>sp. map_of spec_table (cname e) = Some sp \<and> (cname e \<notin> {''EXPIRE'', ''PEXPIRE''} \<longrightarrow>
      sp \<in> read_specs \<and> \<not> isWrite e \<or>
      sp \<in> write_specs \<and> isWrite e)"
    using n(1) e(2) unfolding entry_defs read_specs_def write_specs_def append.simps list.set by (elim insertE emptyE; simp add: spec_lookup)
  then show ?thesis using that n(2) w unfolding sets_expiry_def by auto
qed

lemma spec_one_plain:
  assumes "plain q" "\<not> sets_expiry q"
  shows "\<not> is_write q \<Longrightarrow> effect (=) s (spec_one tm q s)" and "effect lasting s (spec_one tm q s)"
    and "permanent s \<Longrightarrow> spec_one tm q s = spec_one tm' q s"
proof -
  have "(\<not> is_write q \<longrightarrow> effect (=) s (spec_one tm q s)) \<and> effect lasting s (spec_one tm q s) \<and>
    (permanent s \<longrightarrow> spec_one tm q s = spec_one tm' q s)"
  proof (cases "lookup server_table q")
    case (Inr h)
    then obtain sp where sp: "map_of spec_table (upper (q ! 0)) = Some sp"
      "sp \<in> read_specs \<and> \<not> is_write q \<or>
      sp \<in> write_specs \<and> is_write q"
      using plain_spec [OF assms(1) Inr] assms(2) by blast
    have "effect lasting s (sp tm q s)" if "effect (=) s (sp tm q s)"
      using that by (auto simp: effect_def split: sum.splits)
    moreover have "spec_one t q s = sp t q s" for t using Inr sp(1) by (simp add: spec_one_def)
    ultimately show ?thesis using sp(2) read_effects [of sp s tm q] write_lasting [of sp s tm q] spec_timeless [of sp s tm q tm'] by auto
  qed (simp add: spec_one_def)
  then show "\<not> is_write q \<Longrightarrow> effect (=) s (spec_one tm q s)" and "effect lasting s (spec_one tm q s)"
    and "permanent s \<Longrightarrow> spec_one tm q s = spec_one tm' q s" by blast+
qed

lemma spec_run_writes:
  assumes "permanent s" "\<forall>q \<in> set qs. plain q \<and> \<not> sets_expiry q" "spec_run tms i qs s = Inr (R, s')"
  shows "permanent s' \<and> (\<exists>R'. spec_run tms' j (filter is_write qs) s = Inr (R', s'))"
  using assms
proof (induction qs arbitrary: i j s R)
  case (Cons q qs)
  have q: "plain q" "\<not> sets_expiry q" "\<forall>q \<in> set qs. plain q \<and> \<not> sets_expiry q" using Cons.prems(2) by auto
  obtain R1 s1 R2 where s1: "spec_one (tms i) q s = Inr (R1, s1)" "spec_run tms (i + 1) qs s1 = Inr (R2, s')"
    using Cons.prems(3) by (auto split: sum.splits prod.splits)
  have p: "permanent s1" using effectD [OF spec_one_plain(2) [OF q(1,2)] s1(1)] Cons.prems(1) by (simp add: lasting_def)
  note IH = Cons.IH [OF p q(3) s1(2)]
  show ?case
  proof (cases "is_write q")
    case True
    have "spec_one (tms' j) q s = Inr (R1, s1)" using s1(1) spec_one_plain(3) [OF q(1,2) Cons.prems(1)] by metis
    moreover obtain R' where "spec_run tms' (j + 1) (filter is_write qs) s1 = Inr (R', s')" using IH by blast
    ultimately show ?thesis using IH True by simp
  next
    case False
    then have "s1 = s" using effectD [OF spec_one_plain(1) [OF q(1,2) False] s1(1)] by simp
    then show ?thesis using IH False by simp
  qed
qed simp

lemma reflects_permanent:
  assumes "reflects now db s" "permanent s"
  shows "visible db t = s"
proof
  fix k
  show "visible db t k = s k"
  proof (cases "entry_of db k")
    case None
    then have "s k = None" using assms by (cases "s k") (fastforce simp: reflects_def permanent_def)+
    with None show ?thesis by (simp add: visible_def alive_def alive_map_def)
  next
    case (Some e)
    then have s: "s k = Some (content_of (evalue e), expireAt e)" using assms(1) by (simp add: reflects_def)
    then have "expireAt e < 0" using assms(2) by (auto simp: permanent_def)
    with Some s show ?thesis by (simp add: visible_def alive_def alive_map_def expired_def)
  qed
qed

section \<open>The log of a session\<close>

lemma log_queue_file:
  assumes "aof_open a" "\<And>i. WriteError \<notin> set (writes (es i))"
  shows "aof_file (log_queue es i qs a) = aof_file a @ concat (map formatRespCommand (filter is_write qs))"
  using assms(1)
proof (induction qs arbitrary: i a)
  case (Cons q qs)
  have "writeAll (writes (es i)) (formatRespCommand q) = formatRespCommand q" by (rule writeAll_complete [OF assms(2)])
  then have "aof_open (aof_log (writes (es i)) q a)" "aof_file (aof_log (writes (es i)) q a) = aof_file a @ formatRespCommand q"
    using Cons.prems by (simp_all add: aof_log_def Let_def fsync_def)
  then show ?case using Cons by (simp add: isEnabled_def)
qed simp

lemma filter_take:
  "\<exists>j \<le> length xs. filter P (take j xs) = take k (filter P xs) \<and> (length (filter P xs) \<le> k \<longrightarrow> j = length xs)"
proof (induction xs arbitrary: k)
  case (Cons x xs)
  show ?case
  proof (cases "P x \<and> k = 0")
    case True
    then show ?thesis by (intro exI [of _ 0]) simp
  next
    case False
    let ?k = "if P x then k - 1 else k"
    obtain j where j: "j \<le> length xs" "filter P (take j xs) = take ?k (filter P xs)" "length (filter P xs) \<le> ?k \<longrightarrow> j = length xs"
      using Cons.IH [of ?k] by blast
    with False show ?thesis by (intro exI [of _ "Suc j"]) (cases k; auto split: if_splits)
  qed
qed simp

lemma run_queue_prefix:
  "run_queue es i (xs @ ys) db = Inr (rs, db') \<Longrightarrow> \<exists>rs1 db1. run_queue es i xs db = Inr (rs1, db1)"
proof (induction xs arbitrary: i db rs)
  case (Cons x xs)
  then show ?case by (fastforce split: sum.splits prod.splits)
qed simp

section \<open>Replaying it\<close>

lemma write_entry:
  assumes "is_write q"
  shows "lookup load_table q = lookup server_table q"
proof -
  let ?n = "upper (q ! 0)"
  have "?n \<notin> {''EXEC'', ''SUBSCRIBE'', ''UNSUBSCRIBE'', ''PUBLISH''}"
    using assms unfolding isWriteCommand_def server_table_def registerAll_def registerCommand_def
    by (auto simp: upper_def toupper_def)
  then have "server_table ?n = load_table ?n"
    unfolding server_table_def registerAll_def registerCommand_def by (simp add: upper_def toupper_def)
  then show ?thesis by (simp add: lookup_def)
qed

lemma dispatch_write:
  assumes "is_write q" "plain q"
  shows "dispatch 0 load_table se fd q w = dispatch 0 server_table se fd q w"
  using write_entry [OF assms(1)] assms(2) by (auto simp: dispatch_with_def plain_def split: sum.splits handler.splits)

lemma drain_conn:
  assumes "conns w fd = Some c" "conn_ok c"
  shows "\<exists>c'. drain fd w = Inr (w\<lparr>conns := (conns w)(fd \<mapsto> c')\<rparr>) \<and> conn_ok c'"
proof -
  have b: "buf_inv (outb c)" using assms(2) by (simp add: conn_ok_def conn_inv_def)
  obtain o' where "consume (outb c) (readableBytes (outb c)) = Some o'" "buf_inv o'"
    using consume_ok [OF b, of "readableBytes (outb c)"] length_readable [OF b] by auto
  with assms show ?thesis
    by (intro exI [of _ "c\<lparr>outb := o'\<rparr>"]) (simp add: drain_def update_conn_def conn_ok_def conn_inv_def)
qed

lemma replay_run:
  assumes "conns w fd = Some c" "conn_ok c" "\<forall>q \<in> set qs. q \<noteq> [] \<and> plain q \<and> is_write q"
    and "run_queue (\<lambda>i. envs (ses i) 0) i qs (wdb w) = Inr (rs, db')"
  shows "\<exists>w'. replay ses fd i qs w = Inr (i + length qs, w') \<and> wdb w' = db' \<and> waof w' = waof w"
  using assms
proof (induction qs arbitrary: i w c rs)
  case (Cons q qs)
  have q: "q \<noteq> []" "plain q" "is_write q" using Cons.prems(3) by auto
  obtain rs1 db1 rs2 where o: "run_one (envs (ses i) 0) q (wdb w) = Inr (rs1, db1)"
    "run_queue (\<lambda>i. envs (ses i) 0) (i + 1) qs db1 = Inr (rs2, db')"
    using Cons.prems(4) by (auto split: sum.splits prod.splits)
  obtain c1 where c1: "dispatch 0 load_table (ses i) fd q w = Inr (w\<lparr>wdb := db1, conns := (conns w)(fd \<mapsto> c1)\<rparr>)" "conn_ok c1"
    using dispatch_plain [OF Cons.prems(1,2) q(1,2), where se = "ses i" and n = 0] o(1) dispatch_write [OF q(3,2)] by auto
  let ?w1 = "w\<lparr>wdb := db1, conns := (conns w)(fd \<mapsto> c1)\<rparr>"
  obtain c2 where c2: "drain fd ?w1 = Inr (?w1\<lparr>conns := (conns ?w1)(fd \<mapsto> c2)\<rparr>)" "conn_ok c2"
    using drain_conn [of ?w1 fd c1] c1(2) by auto
  let ?w2 = "?w1\<lparr>conns := (conns ?w1)(fd \<mapsto> c2)\<rparr>"
  have "\<exists>w'. replay ses fd (i + 1) qs ?w2 = Inr (i + 1 + length qs, w') \<and> wdb w' = db' \<and> waof w' = waof ?w2"
    using Cons.prems(3) c2(2) o(2) by (intro Cons.IH [of ?w2 c2 "i + 1" rs2]) simp_all
  then show ?case using q(1) c1(1) c2(1) by (simp add: and_then_def)
qed simp

lemma requests_writes:
  assumes "requests es i qs" "\<forall>q \<in> set qs. \<not> sets_expiry q"
  shows "requests es' j (filter is_write qs)"
proof -
  have "admissible tm' q" if "admissible tm q" "\<not> sets_expiry q" for tm tm' q
    using that by (simp add: admissible_def sets_expiry_def)
  then have "\<forall>q \<in> set qs. q \<noteq> [] \<and> plain q \<and> (\<forall>tm. admissible tm q)"
    using assms unfolding requests_def by (metis in_set_conv_nth)
  then have "\<forall>q \<in> set (filter is_write qs). q \<noteq> [] \<and> plain q \<and> (\<forall>tm. admissible tm q)" by simp
  then show ?thesis unfolding requests_def by (blast intro: nth_mem)
qed

lemma requests_take: "requests es i qs \<Longrightarrow> requests es i (take j qs)"
  by (simp add: requests_def)

lemma sum_lengths:
  "sum_list (map length (filter P xs)) \<le> sum_list (map length xs)" "sum_list (map length (take j xs)) \<le> sum_list (map length xs)"
  by (induction xs arbitrary: j) (auto simp: take_Cons' intro: le_trans)

text \<open>Replaying the write commands of a session shows the same as the session did.\<close>

lemma replay_restores:
  assumes run: "run_queue es 0 qs new_database = Inr (rs, db)" and T: "clocked T es" "clocked T' es'"
    and rq: "requests es 0 qs" and n: "sum_list (map length qs) < 2147483648" and x: "\<forall>q \<in> set qs. \<not> sets_expiry q"
  shows "\<exists>rs' db'. run_queue es' 0 (filter is_write qs) new_database = Inr (rs', db') \<and> (\<forall>t t'. visible db' t = visible db t')"
proof -
  have e: "bounded 0 Map.empty" "permanent Map.empty" by (simp_all add: bounded_def permanent_def)
  have "agrees (T (length qs)) (run_queue es 0 qs new_database) (spec_run (\<lambda>i. clk (es i)) 0 qs Map.empty)"
    using run_queue_agrees [OF good_db_new reflects_new e(1) _ T(1) rq] n by simp
  then obtain R s where s: "spec_run (\<lambda>i. clk (es i)) 0 qs Map.empty = Inr (R, s)" "reflects (T (length qs)) db s"
    using run by (auto simp: agrees_def split: sum.splits prod.splits)
  have "\<forall>q \<in> set qs. plain q \<and> \<not> sets_expiry q" using requests_tame [OF rq] x by blast
  then obtain R' where p: "permanent s" "spec_run (\<lambda>i. clk (es' i)) 0 (filter is_write qs) Map.empty = Inr (R', s)"
    using spec_run_writes [OF e(2) _ s(1), of "\<lambda>i. clk (es' i)" 0] by auto
  have "agrees (T' (length (filter is_write qs))) (run_queue es' 0 (filter is_write qs) new_database)
      (spec_run (\<lambda>i. clk (es' i)) 0 (filter is_write qs) Map.empty)"
    using run_queue_agrees [where i = 0, OF good_db_new reflects_new e(1) _ T(2) requests_writes [OF rq x]] n
      sum_lengths(1) [where P = is_write and xs = qs] by simp
  then obtain rs' db' where "run_queue es' 0 (filter is_write qs) new_database = Inr (rs', db')"
    "reflects (T' (length (filter is_write qs))) db' s"
    using p(2) by (auto simp: agrees_def)
  then show ?thesis using reflects_permanent p(1) s(2) by metis
qed

text \<open>C5 (equivalence). Durability. A session on an empty database in which no command sets an expiry time writes its
  log without write errors. Whatever part of the log survives a crash, the server that is restarted with
  it loads it and then shows, at all times, exactly what could be seen after some prefix of the session;
  if the whole log has survived, what could be seen at its end.\<close>
theorem crash_recovery:
  assumes "run_queue es 0 qs new_database = Inr (rs, db)" and "clocked T es" and "requests es 0 qs"
    and "sum_list (map length qs) < 2147483648" and "\<forall>q \<in> set qs. \<not> sets_expiry q" and "\<forall>i. WriteError \<notin> set (writes (es i))"
    and "length (aof_file (log_queue es 0 qs (new_aof True pol t0 []))) < 2147483648"
    and "prefix p (aof_file (log_queue es 0 qs (new_aof True pol t0 [])))" and "p \<noteq> []"
    and "wdb w = new_database" and "clocked T' (\<lambda>i. envs (ses i) 0)"
  shows "\<exists>n w' j rs' db'. load (File (length p) [ReadBytes p]) (Some fd) ses w = Some (Inr (Some n, w')) \<and>
    run_queue es 0 (take j qs) new_database = Inr (rs', db') \<and> (\<forall>t t'. visible (wdb w') t = visible db' t') \<and>
    (p = aof_file (log_queue es 0 qs (new_aof True pol t0 [])) \<longrightarrow> db' = db)"
proof -
  let ?ms = "filter is_write qs"
  have f: "aof_file (log_queue es 0 qs (new_aof True pol t0 [])) = concat (map formatRespCommand ?ms)"
    using log_queue_file [of "new_aof True pol t0 []" es 0 qs] assms(6) by (simp add: new_aof_def)
  obtain k r where k: "rf.decode_all p = (take k ?ms, r)" "p = concat (map formatRespCommand (take k ?ms)) @ r"
    "r = [] \<or> k < length ?ms \<and> strict_prefix r (formatRespCommand (?ms ! k))"
    using rf.decode_all_prefix [of ?ms p] assms(7,8) unfolding f by auto
  obtain j where j: "j \<le> length qs" "filter is_write (take j qs) = take k ?ms" "length ?ms \<le> k \<longrightarrow> j = length qs"
    using filter_take [of qs is_write k] by blast
  obtain rs1 db1 where d1: "run_queue es 0 (take j qs) new_database = Inr (rs1, db1)"
    using run_queue_prefix [of es 0 "take j qs" "drop j qs" new_database rs db] assms(1) by (simp only: append_take_drop_id) blast
  have "sum_list (map length (take j qs)) < 2147483648" using sum_lengths(2) [of j qs] assms(4) by linarith
  moreover have "\<forall>q \<in> set (take j qs). \<not> sets_expiry q" using assms(5) set_take_subset by fastforce
  ultimately obtain rs2 db2 where d2: "run_queue (\<lambda>i. envs (ses i) 0) 0 (take k ?ms) new_database = Inr (rs2, db2)"
    "\<forall>t t'. visible db2 t = visible db1 t'"
    using replay_restores [OF d1 assms(2,11) requests_take [OF assms(3)]] unfolding j(2) by blast
  let ?w = "w\<lparr>conns := (conns w)(fd \<mapsto> new_connection)\<rparr>"
  have "\<forall>q \<in> set (take k ?ms). q \<noteq> [] \<and> plain q \<and> is_write q"
    using requests_tame [OF assms(3)] in_set_takeD [of _ k ?ms] by (metis mem_Collect_eq set_filter)
  moreover have "conns ?w fd = Some new_connection" by simp
  moreover have "run_queue (\<lambda>i. envs (ses i) 0) 0 (take k ?ms) (wdb ?w) = Inr (rs2, db2)" using d2(1) assms(10) by simp
  ultimately obtain w' where w': "replay ses fd 0 (take k ?ms) ?w = Inr (length (take k ?ms), w')" "wdb w' = db2"
    using replay_run [OF _ new_conn_ok, of ?w fd "take k ?ms" ses 0 rs2 db2] by (metis add_0)
  have "load (File (length p) [ReadBytes p]) (Some fd) ses w =
      Some (Inr (Some (length (take k ?ms)), w'\<lparr>conns := (conns w')(fd := None)\<rparr>))"
    using load_file [of "length p" "[ReadBytes p]" fd ses w] assms(9) file_bytes_once [of p] k(1) w'(1) by simp
  moreover have "db1 = db" if "p = concat (map formatRespCommand ?ms)"
  proof -
    have "length ?ms \<le> k" using decoded_all [OF k(2,3), of "length ?ms"] that by simp
    then show ?thesis using j(3) d1 assms(1) by simp
  qed
  ultimately show ?thesis using d1 d2(2) w'(2) f by (intro exI conjI) auto
qed

theorem crash_recovery_witness:
  "\<exists>n w'. load (File 27 [ReadBytes (formatRespCommand [''SET'', ''k'', ''v''])]) (Some 8) (\<lambda>i. demo_sysenv)
      (initial_world 6379 3 True 0 []) = Some (Inr (Some n, w')) \<and> visible (wdb w') 5 ''k'' = Some (Str ''v'', - 1)"
proof -
  let ?q = "[''SET'', ''k'', ''v'']" and ?es = "\<lambda>i. demo_env 0" and ?w = "initial_world 6379 3 True 0 []"
  have "server_table ''SET'' = Some (cmd ''SET'' 3 True (Db cmdSet))"
    by (simp add: server_table_map all_commands_def stringCommands_def keyCommands_def listCommands_def hashCommands_def setCommands_def
      zsetCommands_def transactionCommands_def serverCommands_def)
  then have l: "lookup server_table ?q = Inr (Db cmdSet)" "upper (?q ! 0) = ''SET''" "is_write ?q"
    by (simp_all add: lookup_def arity_ok_def upper_def toupper_def wrap32_id isWriteCommand_def)
  have cn: "canonical ''v'' = ''v''" by code_simp
  have z: "NaN \<notin> snd ` set (zpairs (drop 2 ?q))" "length (formatRespCommand ?q) = 27" by code_simp+
  then have rq: "requests ?es 0 [?q]" using l by (simp add: requests_def plain_def admissible_def)
  have ck: "clocked (\<lambda>_. 0) ?es" "clocked (\<lambda>_. 0) (\<lambda>i. envs ((\<lambda>i. demo_sysenv) i) 0)"
    by (simp_all add: clocked_def demo_sysenv_def demo_env_def mono_def)
  have e: "bounded 0 Map.empty" by (simp add: bounded_def)
  have sp: "spec_run (\<lambda>i. clk (?es i)) 0 [?q] Map.empty = exactly [SimpleString ''OK''] [''k'' \<mapsto> (Str ''v'', - 1)]"
    using l cn by (simp add: spec_one_def spec_lookup specSet_def)
  have "agrees 0 (run_queue ?es 0 [?q] new_database) (spec_run (\<lambda>i. clk (?es i)) 0 [?q] Map.empty)"
    using run_queue_agrees [where i = 0, OF good_db_new reflects_new e _ ck(1) rq] by simp
  then obtain rs db where r: "run_queue ?es 0 [?q] new_database = Inr (rs, db)" "reflects 0 db [''k'' \<mapsto> (Str ''v'', - 1)]"
    unfolding sp by (auto simp: agrees_def split: sum.splits)
  have x: "\<forall>q \<in> set [?q]. \<not> sets_expiry q" using l(2) by (simp add: sets_expiry_def)
  have f: "aof_file (log_queue ?es 0 [?q] (new_aof True EVERYSEC 0 [])) = formatRespCommand ?q"
    using log_queue_file [of "new_aof True EVERYSEC 0 []" ?es 0 "[?q]"] l(3) by (simp add: new_aof_def demo_env_def)
  have w: "wdb ?w = new_database" by (simp add: initial_world_def)
  have p: "formatRespCommand ?q \<noteq> []" using z(2) by auto
  have we: "\<forall>i. WriteError \<notin> set (writes (?es i))" by (simp add: demo_env_def)
  obtain n w' where "load (File 27 [ReadBytes (formatRespCommand ?q)]) (Some 8) (\<lambda>i. demo_sysenv) ?w = Some (Inr (Some n, w'))"
      "\<forall>t t'. visible (wdb w') t = visible db t'"
    using crash_recovery [where pol = EVERYSEC and ?t0.0 = 0 and p = "formatRespCommand ?q" and fd = 8, OF r(1) ck(1) rq _ x we _ _ p w ck(2)]
      z(2) unfolding f by auto
  moreover have "visible db 5 ''k'' = Some (Str ''v'', - 1)"
    using reflects_visible [OF r(2), of 5] by (simp add: view_def)
  ultimately show ?thesis by metis
qed

end
