(* ===== verification/World_Invariants.thy ===== *)
theory World_Invariants
  imports Loop_Refinement Recovery
begin

text \<open>
  Invariants of the database and the log. Most of the program touches neither: replies, subscriptions,
  buffers, connections and the interest set. The locale \<open>world_invariant\<close> asks of an invariant what the few
  steps that do touch them keep - a database command followed by its log entry, the start of a rewrite,
  the timer, a rehash step - and lifts it once to transactions, clients, iterations and the main loop.
\<close>

section \<open>What touches the database and the log\<close>

definition untouched :: "world \<Rightarrow> world \<Rightarrow> bool" where
  "untouched w w' = (wdb w' = wdb w \<and> waof w' = waof w)"

lemma untouched_refl [simp]: "untouched w w"
  by (simp add: untouched_def)

lemma untouched_trans: "untouched a b \<Longrightarrow> untouched b c \<Longrightarrow> untouched a c"
  by (simp add: untouched_def)

lemma untouched_update: "update_conn fd f w = Inr w' \<Longrightarrow> untouched w w'"
  by (auto simp: update_conn_def untouched_def split: option.splits)

lemma untouched_reply: "reply_to fd rs w = Inr w' \<Longrightarrow> untouched w w'"
  unfolding reply_to_def by (rule untouched_update)

lemma untouched_ps_step: "ps_step f what fd ch w = Inr w' \<Longrightarrow> untouched w w'"
  by (auto simp: ps_step_def untouched_def split: option.splits prod.splits dest!: untouched_reply)

lemma untouched_ps_loop: "ps_loop f what fd chs w = Inr w' \<Longrightarrow> untouched w w'"
  by (induction chs arbitrary: w) (auto simp: and_then_def split: sum.splits dest!: untouched_ps_step intro: untouched_trans)

lemma untouched_with_input: "untouched w (with_input fd b w)"
  by (simp add: untouched_def with_input_def set_conn_def)

lemma untouched_accepts: "untouched w (fold accept_client cfds w)"
  by (induction cfds arbitrary: w) (simp_all add: untouched_def accept_client_def)

lemma untouched_cleanup: "untouched w (cleanup (sweep w))"
proof -
  have "untouched w (fold sweep_conn xs w)" for xs w
    by (induction xs arbitrary: w) (auto simp: untouched_def sweep_conn_def Let_def split: option.split)
  moreover have "untouched w (fold close_conn xs w)" for xs w
    by (induction xs arbitrary: w) (simp_all add: untouched_def close_conn_def Let_def)
  ultimately show ?thesis unfolding cleanup_def sweep_def by (blast intro: untouched_trans)
qed

text \<open>The end of the handling of a client.\<close>

lemma untouched_finish:
  assumes "and_then (update_conn fd f w) (\<lambda>w2. Inr (register fd (set_conn fd g w2))) = Inr w'"
  shows "untouched w w'"
  using assms untouched_update [of fd f w] by (auto simp: and_then_def untouched_def set_conn_def register_def split: sum.splits option.splits if_splits)

text \<open>A command is a step of the database, a request for a rewrite, or touches neither database nor log.\<close>

lemma dispatch_effect:
  assumes d: "dispatch n server_table se fd q w = Inr w'" and c: "conns w fd = Some c" "conn_ok c" and q: "q \<noteq> []" "lookup server_table q \<noteq> Inr Exec"
  obtains (command) rs where "plain q" "run_one (envs se 0) q (wdb w) = Inr (rs, wdb w')" "waof w' = waof w"
    | (rewrite) "\<not> plain q" "wdb w' = wdb w" "waof w' = triggerRewrite (fork_ok se) (child_envs se) (child_writes se) (wdb w) (waof w)"
    | (other) "\<not> plain q" "untouched w w'"
proof (cases "plain q")
  case True
  obtain rs db' where "run_one (envs se 0) q (wdb w) = Inr (rs, db')" "wdb w' = db'" "waof w' = waof w"
    using dispatch_plain [OF c q(1) True, where se = se and n = n] d by (auto split: sum.splits prod.splits)
  then show thesis using command True by blast
next
  case False
  then obtain h where h: "lookup server_table q = Inr h" "\<And>f. h \<noteq> Db f"
    by (fastforce simp: plain_def split: sum.splits handler.splits)
  obtain run where r: "dispatch n server_table = dispatch_with run server_table" by (cases n) auto
  have dw: "call_handler run server_table h se fd q w = Inr w'" using d h q(1) by (simp add: r dispatch_with_def)
  show thesis
  proof (cases "h = BgRewriteAof")
    case True
    then show ?thesis using dw rewrite [OF False] untouched_reply by (auto simp: cmdBgRewriteAof_def untouched_def)
  next
    case hb: False
    have "untouched w w'"
    proof (cases h)
      case Publish
      then obtain n cs where "reply_to fd [Integer (int n)] (w\<lparr>conns := cs\<rparr>) = Inr w'"
        using dw by (auto simp: cmdPublish_def split: option.splits prod.splits)
      from untouched_reply [OF this] show ?thesis by (simp add: untouched_def)
    qed (use dw h q(2) hb c in \<open>auto simp: cmdMulti_def cmdDiscard_def cmdSubscribe_def cmdUnsubscribe_def
      split: if_splits dest!: untouched_reply untouched_update untouched_ps_loop\<close>)
    then show ?thesis by (rule other [OF False])
  qed
qed

section \<open>Conditions on the environment\<close>

definition calm_event :: "(sysenv \<Rightarrow> bool) \<Rightarrow> event \<Rightarrow> bool" where
  "calm_event C e = (case e of Listen rs \<Rightarrow> True | Client fd ev \<Rightarrow> \<forall>i. C (cmd_envs ev i))"

definition calm_iteration :: "(sysenv \<Rightarrow> bool) \<Rightarrow> (tick_env \<Rightarrow> world \<Rightarrow> bool) \<Rightarrow> iteration \<Rightarrow> world \<Rightarrow> bool" where
  "calm_iteration C S it w = (S (tick it) w \<and> (\<forall>evs. poll_res it = Ready evs \<longrightarrow> (\<forall>e \<in> set evs. calm_event C e)))"

text \<open>The condition on the environment of every command, and that on the timer in the state in which an
  iteration starts.\<close>

fun calm_run :: "(sysenv \<Rightarrow> bool) \<Rightarrow> (tick_env \<Rightarrow> world \<Rightarrow> bool) \<Rightarrow> iteration list \<Rightarrow> world \<Rightarrow> bool" where
  "calm_run C S [] w = True"
| "calm_run C S (it # its) w =
     (calm_iteration C S it w \<and> (\<forall>w'. iterate it w = Some (Inr (True, w')) \<longrightarrow> calm_run C S its w'))"

lemma calm_polled: "calm_iteration C S it w \<Longrightarrow> polled (poll_res it) = Some evs \<Longrightarrow> \<forall>e \<in> set evs. calm_event C e"
  by (auto simp: calm_iteration_def polled_def split: wait_result.splits dest: in_set_takeD)

section \<open>Lifting\<close>

locale world_invariant =
  fixes Inv :: "int \<Rightarrow> world \<Rightarrow> bool" and calm :: "sysenv \<Rightarrow> bool" and steady :: "tick_env \<Rightarrow> world \<Rightarrow> bool"
  assumes later: "Inv now w \<Longrightarrow> now \<le> now' \<Longrightarrow> Inv now' w"
    and same: "Inv now w \<Longrightarrow> untouched w w' \<Longrightarrow> Inv now w'"
    and steady_same: "steady te w \<Longrightarrow> untouched w w' \<Longrightarrow> steady te w'"
    and command: "Inv now w \<Longrightarrow> good_db (wdb w) \<Longrightarrow> calm se \<Longrightarrow> on_time now (envs se i) now' \<Longrightarrow> q \<noteq> [] \<Longrightarrow> plain q \<Longrightarrow> tame q \<Longrightarrow>
      run_one (envs se i) q (wdb w) = Inr (rs, wdb w') \<Longrightarrow> waof w' = waof w \<Longrightarrow> Inv now' (log_write server_table (envs se i) q w')"
    and rewrite: "Inv now w \<Longrightarrow> good_db (wdb w) \<Longrightarrow> calm se \<Longrightarrow> wdb w' = wdb w \<Longrightarrow>
      waof w' = triggerRewrite (fork_ok se) (child_envs se) (child_writes se) (wdb w) (waof w) \<Longrightarrow> Inv now w'"
    and timer: "Inv now w \<Longrightarrow> good_db (wdb w) \<Longrightarrow> steady te w \<Longrightarrow> now \<le> tick_ms te \<Longrightarrow> Inv (tick_ms te) (timer_callback te w)"
    and rehash: "Inv now w \<Longrightarrow> good_db (wdb w) \<Longrightarrow> Inv now (w\<lparr>wdb := db_rehashStep (wdb w)\<rparr>)"
begin

text \<open>One command with its log entry.\<close>

lemma dispatched:
  assumes w: "world_ok w" and c: "conns w fd = Some c" and v: "Inv now w" and C: "calm se" and t: "on_time now (envs se i) now'"
    and q: "q \<noteq> []" "tame q" "lookup server_table q \<noteq> Inr Exec"
    and d: "dispatch n server_table (se\<lparr>envs := \<lambda>j. envs se (i + j)\<rparr>) fd q w = Inr w1" and u: "untouched w1 w2"
  shows "Inv now' (log_write server_table (envs se i) q w2)"
proof -
  note g = world_okD(1) [OF w]
  have silent: "log_write server_table (envs se i) q w2 = w2" if "\<not> plain q" using that write_plain by (auto simp: log_write_def)
  from d show ?thesis
  proof (cases rule: dispatch_effect [OF _ c world_okD(4) [OF w c] q(1,3), consumes 1, case_names database rewriting other])
    case (database rs)
    then show ?thesis using command [OF v g C t q(1) _ q(2), where w' = w2] u by (simp add: untouched_def)
  next
    case rewriting
    then have "Inv now w1" using rewrite [OF v g C, of w1] by simp
    then show ?thesis using silent [OF rewriting(1)] same [OF _ u] later [OF _ on_time_le [OF t]] by simp
  next
    case other
    then show ?thesis using silent [OF other(1)] same [OF same [OF v other(2)] u] later [OF _ on_time_le [OF t]] by simp
  qed
qed

lemma exec_looped:
  assumes "world_ok w" "fd \<in> dom (conns w)" "\<forall>q \<in> set qs. queueable q" "Inv (T i) w" and T: "clocked T (envs se)" and C: "calm se"
    and "exec_loop (dispatch 0 server_table) server_table se i fd qs w = Inr w'"
  shows "Inv (T (i + length qs)) w'"
  using assms(1-4,7)
proof (induction qs arbitrary: i w)
  case (Cons q qs)
  obtain c where c: "conns w fd = Some c" using Cons.prems(2) by auto
  have q: "queueable q" "q \<noteq> []" "tame q" "upper (q ! 0) \<noteq> ''EXEC''" using Cons.prems(3) by (auto simp: queueable_def)
  let ?se = "se\<lparr>envs := \<lambda>j. envs se (i + j)\<rparr>"
  obtain w1 where w1: "dispatch 0 server_table ?se fd q w = Inr w1"
    "exec_loop (dispatch 0 server_table) server_table se (i + 1) fd qs (log_write server_table (envs se i) q w1) = Inr w'"
    using Cons.prems(5) by (auto simp: and_then_def split: sum.splits)
  have st: "step_ok {} w (dispatch 0 server_table ?se fd q w)"
    unfolding dispatch.simps by (rule step_dispatch_with [OF Cons.prems(1) c q(3) server_table_in]) (simp_all add: q(4))
  let ?w2 = "log_write server_table (envs se i) q w1"
  have "world_ok w1" "keeps {} w w1" using st w1(1) by simp_all
  then have "world_ok ?w2" "fd \<in> dom (conns ?w2)" using step_log [of w1] keeps_dom Cons.prems(2) by blast+
  moreover have "Inv (T (i + 1)) ?w2"
    by (rule dispatched [OF Cons.prems(1) c Cons.prems(4) C clocked_on_time [OF T] q(2,3) queueable_lookup [OF q(1)] w1(1) untouched_refl])
  ultimately show ?case using Cons.IH [of ?w2 "i + 1"] Cons.prems(3) w1(2) by simp
qed simp

lemma executed:
  assumes w: "world_ok w" and c: "conns w fd = Some c" and v: "Inv now w" and t: "ticking now se now'" and C: "calm se"
    and d: "cmdExec (dispatch 0 server_table) server_table se fd w = Inr w'"
  shows "Inv now' w'"
proof (cases "txn c")
  case None
  then show ?thesis using d c same [OF later [OF v ticking_le [OF t]] untouched_reply] by (simp add: cmdExec_def)
next
  case (Some qs)
  obtain T where T: "clocked T (envs se)" "now \<le> T 0" "\<And>j. T j \<le> now'" using t by (auto simp: ticking_def)
  have T1: "now \<le> T 1" using T(1,2) clocked_on_time [OF T(1), of 0] on_time_le by fastforce
  obtain w1 w2 where w1: "reply_to fd [ArrayHeader (int (length qs))] w = Inr w1"
    "exec_loop (dispatch 0 server_table) server_table se 1 fd qs w1 = Inr w2" "update_conn fd (\<lambda>c. Some (c\<lparr>txn := None\<rparr>)) w2 = Inr w'"
    using d c Some by (auto simp: cmdExec_def and_then_def split: sum.splits)
  have "step_ok {} w (reply_to fd [ArrayHeader (int (length qs))] w)" by (rule step_reply [OF w c])
  then have "world_ok w1" "fd \<in> dom (conns w1)" using w1(1) keeps_dom [of "{}" w w1] c by auto
  moreover have "\<forall>q \<in> set qs. queueable q" using world_okD(4) [OF w c] Some by (simp add: conn_ok_def)
  ultimately have "Inv (T (1 + length qs)) w2"
    using exec_looped [OF _ _ _ later [OF same [OF v untouched_reply [OF w1(1)]] T1] T(1) C w1(2)] by blast
  then show ?thesis using later [OF same [OF _ untouched_update [OF w1(3)]] T(3)] by blast
qed

lemma processed:
  assumes w: "world_ok w" and c: "conns w fd = Some c" and v: "Inv now w" and t: "ticking now se now'" and C: "calm se" and tm: "tame args"
    and p: "process_command se fd args w = Inr w'"
  shows "Inv now' w'"
proof -
  note v' = later [OF v ticking_le [OF t]]
  let ?X = "{''EXEC'', ''DISCARD'', ''MULTI''}"
  consider "untouched w w'"
    | w1 where "args \<noteq> []" "dispatch 1 server_table se fd args w = Inr w1"
      "w' = (let w2 = w1\<lparr>wmetrics := recordCommand (envs se 0) args (wmetrics w1)\<rparr>
        in if upper (args ! 0) \<noteq> ''EXEC'' then log_write server_table (envs se 0) args w2 else w2)"
    using p c unfolding process_command_def
    by (auto simp: and_then_def Let_def simp del: insert_iff dispatch.simps One_nat_def
      split: if_split_asm option.splits sum.splits dest!: untouched_reply untouched_update)
  then show ?thesis
  proof cases
    case 1
    then show ?thesis by (rule same [OF v'])
  next
    case 2
    let ?w2 = "w1\<lparr>wmetrics := recordCommand (envs se 0) args (wmetrics w1)\<rparr>"
    have u: "untouched w1 ?w2" by (simp add: untouched_def)
    show ?thesis
    proof (cases "lookup server_table args = Inr Exec")
      case True
      have "cmdExec (dispatch 0 server_table) server_table se fd w = Inr w1"
        using True 2(1,2) by (simp only: dispatch_one dispatch_with_def if_False sum.case call_handler.simps)
      from same [OF executed [OF w c v t C this] u] show ?thesis using 2(3) exec_name [OF True] by simp
    next
      case False
      have "dispatch 1 server_table (se\<lparr>envs := \<lambda>j. envs se (0 + j)\<rparr>) fd args w = Inr w1" using 2(2) by simp
      note i = dispatched [OF w c v C ticking_on_time [OF t] 2(1) tm False this u]
      show ?thesis
      proof (cases "upper (args ! 0) = ''EXEC''")
        case True
        have "\<not> isWriteCommand server_table (args ! 0)"
          using True exec_entry server_table_in by (metis handler.distinct(9) write_handler)
        then show ?thesis using i 2(3) True by (simp add: log_write_def)
      qed (use i 2(3) in simp)
    qed
  qed
qed

lemma served:
  assumes "serves ses fd rest i cmds w r" "world_ok w" "conns w fd = Some c" "\<forall>q \<in> set cmds. tame q" "Inv (T i) w"
    and T: "\<And>i. ticking (T i) (ses i) (T (i + 1))" and C: "\<And>i. calm (ses i)" and "r = Inr w'"
  shows "Inv (T (i + length cmds)) w'"
  using assms(1-5,8)
proof (induction i cmds w r arbitrary: c rule: serves.induct)
  case (served b i w)
  then show ?case using same [OF _ untouched_with_input] by auto
next
  case (ran b i args w w1 cmds r)
  let ?w = "with_input fd b w"
  note wi = with_input_ok [OF ran.prems(1,2) ran.hyps(1), of "{fd}"]
  have "step_ok {} ?w (process_command (ses i) fd args ?w)"
    using ran.prems(3) by (intro step_process_command [OF wi(1,3)]) simp_all
  then have w1: "world_ok w1" "keeps {} ?w w1" using ran.hyps(2) by simp_all
  obtain c1 where c1: "conns w1 fd = Some c1" using keepsD [OF w1(2) wi(3)] by auto
  have "Inv (T (i + 1)) w1"
    using processed [OF wi(1,3) same [OF ran.prems(4) untouched_with_input] T C _ ran.hyps(2)] ran.prems(3) by simp
  then show ?case using ran.IH [OF w1(1) c1] ran.prems(3,5) by simp
qed simp

lemma client_handled:
  assumes l: "loop_ok lfd {} w" and t: "client_tame fd ev w" and v: "Inv now w" and e: "event_time now ev now'"
    and C: "\<And>i. calm (cmd_envs ev i)" and h: "handle_client fd ev w = Some (Inr w')"
  shows "Inv now' w'"
proof (cases "conns w fd")
  case None
  then show ?thesis using h later [OF v event_time_le [OF e]] by (simp add: handle_client_def)
next
  case (Some c)
  note v' = later [OF v event_time_le [OF e]]
  have "untouched w w'" if "epollErr ev" using h Some that by (auto simp: handle_client_def set_conn_def untouched_def)
  moreover have "Inv now' w'" if n: "\<not> epollErr ev"
  proof -
    obtain w1 where w1: "(if epollIn ev then read_phase fd ev c w else Some (Inr w)) = Some (Inr w1)"
      "and_then (update_conn fd (write_phase ev) w1) (\<lambda>w2. Inr (register fd (set_conn fd close_phase w2))) = Inr w'"
      using h Some n by (auto simp: handle_client_def simp del: if_split split: option.splits sum.splits)
    have "Inv now' w1"
    proof (cases "epollIn ev")
      case True
      have tm: "\<forall>args \<in> set (fst (rf.decode_all (input_of ev c))). tame args" using t Some n True by (simp add: client_tame_def)
      obtain c2 cmds rest r where r: "\<forall>args \<in> set cmds. tame args" "loop_ok lfd {fd} (w\<lparr>conns := (conns w)(fd \<mapsto> c2)\<rparr>)"
        "serves (cmd_envs ev) fd rest 0 cmds (w\<lparr>conns := (conns w)(fd \<mapsto> c2)\<rparr>) r"
        "read_phase fd ev c w = Some (and_then r (\<lambda>w1. Inr (set_conn fd (\<lambda>c. if readableBytes (outb c) > 0 then c\<lparr>wantWrite := True\<rparr> else c) w1)))"
        by (rule read_phase_serves [OF l Some tm])
      obtain w0 where w0: "r = Inr w0" "untouched w0 w1"
        using w1(1) r(4) True by (auto simp: and_then_def untouched_def set_conn_def split: sum.splits)
      obtain T where T: "\<And>i. ticking (T i) (cmd_envs ev i) (T (i + 1))" "now \<le> T 0" "\<And>i. T i \<le> now'"
        using e by (auto simp: event_time_def)
      have u: "untouched w (w\<lparr>conns := (conns w)(fd \<mapsto> c2)\<rparr>)" by (simp add: untouched_def)
      have "Inv (T (0 + length cmds)) w0"
        using served [OF r(3) loop_okD(1) [OF r(2)] _ r(1) later [OF same [OF v u] T(2)] T(1) C w0(1)] by simp
      then show ?thesis using later [OF same [OF _ w0(2)] T(3)] by blast
    qed (use w1(1) v' in simp)
    from same [OF this untouched_finish [OF w1(2)]] show ?thesis .
  qed
  ultimately show ?thesis using same [OF v'] by blast
qed

lemma events_handled:
  assumes "loop_ok lfd {} w" "inputs_ok lfd evs w" "Inv now w" "events_time now evs now'" "\<forall>e \<in> set evs. calm_event calm e"
    and "handle_events evs w = Some (Inr w')"
  shows "Inv now' w'"
  using assms
proof (induction evs w arbitrary: now rule: handle_events.induct)
  case (1 w)
  then show ?case using later by auto
next
  case (2 rs evs w)
  have "Inv now (fold accept_client (accept_loop rs) w)" by (rule same [OF "2.prems"(3) untouched_accepts])
  moreover have "loop_ok lfd {} (fold accept_client (accept_loop rs) w)"
    using accepts_ok [OF "2.prems"(1)] "2.prems"(2) by (simp add: Let_def)
  ultimately show ?case using "2.IH" [of now] "2.prems"(2,4-6) by (simp add: Let_def)
next
  case (3 fd ev evs w)
  obtain t where t: "event_time now ev t" "events_time t evs now'" using "3.prems"(4) by auto
  obtain w1 where w1: "handle_client fd ev w = Some (Inr w1)" "handle_events evs w1 = Some (Inr w')"
    using "3.prems"(6) by (auto split: option.splits sum.splits)
  have ct: "client_tame fd ev w" "inputs_ok lfd evs w1" "\<And>i. calm (cmd_envs ev i)"
    using "3.prems"(2,5) w1(1) by (simp_all add: calm_event_def)
  have "loop_ok lfd {} w1" using handle_client_ok [OF "3.prems"(1) ct(1)] w1(1) by (simp add: loop_result_def)
  from "3.IH" [OF w1(1) refl this ct(2) client_handled [OF "3.prems"(1) ct(1) "3.prems"(3) t(1) ct(3) w1(1)] t(2)]
  show ?case using "3.prems"(5) w1(2) by simp
qed

lemma iterated:
  assumes b: "between lfd w" and i: "iteration_ok lfd it w" and v: "Inv now w" and t: "iteration_time now it now'"
    and C: "calm_iteration calm steady it w" and d: "iterate it w = Some (Inr (go_on, w'))"
  shows "Inv now' w'"
proof -
  let ?w0 = "w\<lparr>wmetrics := (wmetrics w)\<lparr>connectedClients := length (fds w)\<rparr>\<rparr>" and ?t = "tick_ms (tick it)"
  have l0: "loop_ok lfd {} ?w0" using b by (simp add: between_def loop_ok_def world_ok_def metrics_inv_def)
  have u0: "untouched w ?w0" by (simp add: untouched_def)
  note v0 = same [OF v u0]
  obtain oevs el w1 where p: "poll (timer_callback (tick it)) (poll_ns it) (poll_res it) (eloop ?w0, ?w0) = (oevs, el, w1)"
    by (metis prod_cases3)
  have le: "now \<le> ?t" and S: "steady (tick it) ?w0"
    using t C steady_same [OF _ u0] by (simp_all add: iteration_time_def calm_iteration_def)
  have "Inv ?t w1"
    using poll_polled(2) [OF p] later [OF v0 le] timer [OF v0 world_okD(1) [OF loop_okD(1) [OF l0]] S le] by metis
  moreover have "untouched w1 (w1\<lparr>eloop := el\<rparr>)" by (simp add: untouched_def)
  ultimately have v1: "Inv ?t (w1\<lparr>eloop := el\<rparr>)" by (rule same)
  have l1: "loop_ok lfd {} (w1\<lparr>eloop := el\<rparr>)" by (rule loop_polled [OF l0 p])
  show ?thesis
  proof (cases oevs)
    case None
    then have "?t \<le> now'" using t poll_polled(1) [OF p] by (simp add: iteration_time_def)
    then show ?thesis using d p None later [OF v1] by (simp add: iterate_def Let_def)
  next
    case (Some evs)
    then have e: "polled (poll_res it) = Some evs" using poll_polled(1) [OF p] by simp
    have io: "inputs_ok lfd evs (w1\<lparr>eloop := el\<rparr>)" using i p Some by (simp add: iteration_ok_def Let_def)
    obtain w2 where w2: "handle_events evs (w1\<lparr>eloop := el\<rparr>) = Some (Inr w2)" "w' = cleanup (sweep (w2\<lparr>wdb := db_rehashStep (wdb w2)\<rparr>))"
      using d p Some by (auto simp: iterate_def Let_def split: option.splits sum.splits)
    have l2: "loop_ok lfd {} w2" using handle_events_ok [OF l1 io] w2(1) by simp
    have "Inv now' w2"
      using events_handled [OF l1 io v1 _ calm_polled [OF C e] w2(1)] t e by (simp add: iteration_time_def)
    from same [OF rehash [OF this world_okD(1) [OF loop_okD(1) [OF l2]]] untouched_cleanup] show ?thesis unfolding w2(2) .
  qed
qed

lemma looped:
  assumes "between lfd w" "run_ok lfd its now w" "Inv now w" "calm_run calm steady its w" "main_loop its w = Some (Inr w')"
  shows "\<exists>now'. Inv now' w'"
  using assms
proof (induction its arbitrary: now w)
  case (Cons it its)
  obtain now' where t: "iteration_time now it now'" "\<And>w'. iterate it w = Some (Inr (True, w')) \<Longrightarrow> run_ok lfd its now' w'"
    using Cons.prems(2) by auto
  have i: "iteration_ok lfd it w" "calm_iteration calm steady it w" using Cons.prems(2,4) by simp_all
  obtain go_on w1 where w1: "iterate it w = Some (Inr (go_on, w1))" "if go_on then main_loop its w1 = Some (Inr w') else w1 = w'"
    using Cons.prems(5) by (auto split: option.splits sum.splits prod.splits if_splits)
  note v1 = iterated [OF Cons.prems(1) i(1) Cons.prems(3) t(1) i(2) w1(1)]
  show ?case
  proof (cases go_on)
    case True
    have "between lfd w1" using iterate_ok [OF Cons.prems(1) i(1)] w1(1) True by auto
    then show ?thesis using Cons.IH [OF _ t(2) v1] Cons.prems(4) w1 True by simp
  qed (use v1 w1(2) in auto)
qed auto

end

end
