(* ===== verification/Snapshot.thy ===== *)
theory Snapshot
  imports Recovery
begin

text \<open>
  What the log says. \<open>leads\<close> reads a list of commands as a change of the store. The stores that write
  commands without expiry times build hold no empty container, and the commands that the rewriting
  child writes for a database that shows such a store lead from the empty store back to it: a rewritten
  log means the same as the old one.
\<close>

section \<open>Commands as changes of the store\<close>

fun leads :: "bytes list list \<Rightarrow> store \<Rightarrow> store \<Rightarrow> bool" where
  "leads [] s s' = (s' = s)"
| "leads (q # qs) s s' = (\<exists>R s1. spec_one (\<lambda>_. 0) q s = Inr (R, s1) \<and> leads qs s1 s')"

lemma leads_append: "leads (xs @ ys) s s' \<longleftrightarrow> (\<exists>s1. leads xs s s1 \<and> leads ys s1 s')"
  by (induction xs arbitrary: s) (simp, simp, blast)

lemma leads_take: "leads qs s s' \<Longrightarrow> \<exists>s1. leads (take k qs) s s1"
  using leads_append [of "take k qs" "drop k qs" s s'] by auto

lemma leads_unique: "leads qs s s1 \<Longrightarrow> leads qs s s2 \<Longrightarrow> s1 = s2"
  by (induction qs arbitrary: s) auto

lemma leads_bounded: "leads qs s s' \<Longrightarrow> bounded n s \<Longrightarrow> bounded (n + sum_list (map length qs)) s'"
proof (induction qs arbitrary: s n)
  case (Cons q qs)
  obtain R s1 where s1: "spec_one (\<lambda>_. 0) q s = Inr (R, s1)" "leads qs s1 s'" using Cons.prems(1) by auto
  have "bounded (n + length q) s1"
    using effectD [OF spec_one_grows s1(1)] Cons.prems(2) by (simp add: grows_def)
  from Cons.IH [OF s1(2) this] show ?case by (simp add: add.assoc)
qed simp

lemma length_format: "length q \<le> length (formatRespCommand q)"
proof -
  have "length q \<le> length (concat (map f q))" if "\<And>x. f x \<noteq> []" for f :: "bytes \<Rightarrow> bytes"
    using that by (induction q) (auto simp: Suc_le_eq add_strict_increasing)
  from this [of formatBulk] show ?thesis unfolding formatRespCommand_def by (simp add: formatBulk_def)
qed

lemma arguments_bytes: "sum_list (map length qs) \<le> length (concat (map formatRespCommand qs))"
  by (induction qs) (auto intro: add_mono length_format)

text \<open>A log: the encodings of commands that the table knows as writes.\<close>

definition log_commands :: "bytes \<Rightarrow> bytes list list \<Rightarrow> bool" where
  "log_commands f ms = (f = concat (map formatRespCommand ms) \<and> (\<forall>q \<in> set ms. q \<noteq> [] \<and> is_write q))"

lemma log_commands_append: "log_commands f ms \<Longrightarrow> q \<noteq> [] \<Longrightarrow> is_write q \<Longrightarrow> log_commands (f @ formatRespCommand q) (ms @ [q])"
  by (auto simp: log_commands_def)

lemma log_commands_decoded:
  assumes "log_commands f ms" "length f < 2147483648"
  shows "rf.decode_all f = (ms, [])"
  using rf.decode_all_enc [of ms "[]"] rf.decode_all_None [of "[]"] assms by (simp add: log_commands_def)

section \<open>Stores that can be rebuilt\<close>

definition small_score :: "dbl \<Rightarrow> bool" where
  "small_score d = (\<exists>i. \<bar>i\<bar> \<le> 2 ^ 53 \<and> d = dint i)"

fun storable :: "content \<Rightarrow> bool" where
  "storable (Str v) = (canonical v = v)"
| "storable (Lst xs) = (xs \<noteq> [])"
| "storable (Hsh h) = (h \<noteq> Map.empty)"
| "storable (Mem m) = (m \<noteq> {})"
| "storable (Scores f) = (f \<noteq> Map.empty \<and> (\<forall>d \<in> ran f. small_score d))"

definition rebuildable :: "store \<Rightarrow> bool" where
  "rebuildable s = (\<forall>k c x. s k = Some (c, x) \<longrightarrow> storable c \<and> x = - 1)"

text \<open>The commands that keep it so: no expiry times, and scores that are printed exactly.\<close>

definition keepable :: "bytes list \<Rightarrow> bool" where
  "keepable q = (\<not> sets_expiry q \<and> (upper (q ! 0) = ''ZADD'' \<longrightarrow> (\<forall>d \<in> snd ` set (zpairs (drop 2 q)). small_score d)))"

lemma rebuildable_permanent: "rebuildable s \<Longrightarrow> permanent s"
  by (fastforce simp: rebuildable_def permanent_def)

lemma rebuildable_empty: "rebuildable Map.empty"
  by (simp add: rebuildable_def)

definition sound :: "store \<Rightarrow> store \<Rightarrow> bool" where
  "sound s s' = (rebuildable s \<longrightarrow> rebuildable s')"

lemma sound_simps [simp]: "sound s s" "sound s (s(k := None))" "sound s (s |` K)" "sound s Map.empty"
  by (auto simp: sound_def rebuildable_def restrict_map_def split: if_splits)

lemma sound_upd:
  assumes "rebuildable s \<Longrightarrow> storable c" "x = - 1 \<or> (\<exists>c0. s k = Some (c0, x))"
  shows "sound s (s(k \<mapsto> (c, x)))"
  using assms by (auto simp: sound_def rebuildable_def split: if_splits)

lemma sound_put:
  assumes "rebuildable s \<Longrightarrow> \<not> gone \<Longrightarrow> storable c" "x = - 1 \<or> (\<exists>c0. s k = Some (c0, x))"
  shows "sound s (put k c x gone s)"
  using sound_upd [of s c x k] assms by (auto simp: put_def)

lemma ran_zput: "ran (foldl zput f ps) \<subseteq> ran f \<union> snd ` set ps"
proof (induction ps arbitrary: f)
  case (Cons p ps)
  have "ran (zput f p) \<subseteq> insert (snd p) (ran f)" by (auto simp: zput_def ran_def split: option.split if_splits)
  with Cons.IH [of "zput f p"] show ?case by auto
qed simp

lemma zput_nonempty: "f \<noteq> Map.empty \<or> ps \<noteq> [] \<Longrightarrow> foldl zput f ps \<noteq> Map.empty"
proof (induction ps arbitrary: f)
  case (Cons p ps)
  have "zput f p (fst p) \<noteq> None" by (auto simp: zput_def split: option.split)
  then have "zput f p \<noteq> Map.empty" by auto
  then show ?case using Cons.IH [of "zput f p"] by simp
qed simp

lemma pairs_nonempty: "2 \<le> length xs \<Longrightarrow> pairs_of xs \<noteq> []" "2 \<le> length xs \<Longrightarrow> zpairs xs \<noteq> []"
  by (cases xs rule: pairs_of.cases; simp add: zpairs_def)+

lemma sel_storable:
  "sel_hsh c = Some h \<Longrightarrow> c = Hsh h" "sel_mem c = Some m \<Longrightarrow> c = Mem m" "sel_scores c = Some f \<Longrightarrow> c = Scores f"
  by (cases c; simp)+

lemma write_sound:
  "effect sound s (specSet tm args s)" "effect sound s (specDel tm args s)" "effect sound s (specFlushdb tm args s)"
  "effect sound s (specLPop tm args s)" "effect sound s (specRPop tm args s)"
  "3 \<le> length args \<Longrightarrow> effect sound s (specLPush tm args s)" "3 \<le> length args \<Longrightarrow> effect sound s (specRPush tm args s)"
  "3 \<le> length args \<Longrightarrow> effect sound s (specSAdd tm args s)" "effect sound s (specSRem tm args s)"
  unfolding spec_string_defs spec_list_defs spec_set_defs Let_def
  by (intro effect_on_key effect_Inr effect_if sound_upd sound_put sound_simps; force simp: canonical_idem)+

lemma hash_sound:
  "4 \<le> length args \<Longrightarrow> effect sound s (specHSet tm args s)" "effect sound s (specHDel tm args s)"
proof -
  have n: "h ++ map_of (rev (pairs_of (drop 2 args))) \<noteq> Map.empty" if "4 \<le> length args" for h
    using pairs_nonempty(1) [of "drop 2 args"] that by (auto simp: map_of_eq_empty_iff)
  show "4 \<le> length args \<Longrightarrow> effect sound s (specHSet tm args s)"
    unfolding specHSet_def Let_def
    using n [of Map.empty] n by (intro effect_on_key effect_Inr effect_if sound_upd sound_simps; force)
  have r: "h |` (- F) \<noteq> Map.empty" if "\<not> dom h \<subseteq> F" for h :: "bytes \<rightharpoonup> bytes" and F using that by (auto simp: restrict_map_def fun_eq_iff)
  show "effect sound s (specHDel tm args s)"
    unfolding specHDel_def Let_def using r by (intro effect_on_key effect_Inr effect_if sound_put sound_simps; force)
qed

lemma zset_sound:
  "4 \<le> length args \<Longrightarrow> \<forall>d \<in> snd ` set (zpairs (drop 2 args)). small_score d \<Longrightarrow> effect sound s (specZAdd tm args s)"
  "effect sound s (specZRem tm args s)"
proof -
  show "effect sound s (specZAdd tm args s)" if a: "4 \<le> length args" "\<forall>d \<in> snd ` set (zpairs (drop 2 args)). small_score d"
  proof -
    have st: "storable (Scores (foldl zput f (zpairs (drop 2 args))))" if "\<forall>d \<in> ran f. small_score d" for f
      using zput_nonempty [of f "zpairs (drop 2 args)"] pairs_nonempty(2) [of "drop 2 args"] ran_zput [of f "zpairs (drop 2 args)"] a that
      by auto
    have old: "\<forall>d \<in> ran f. small_score d" if "rebuildable s" "s k = Some (c, x)" "sel_scores c = Some f" for k c x f
      using that sel_storable(3) by (fastforce simp: rebuildable_def)
    show ?thesis unfolding specZAdd_def Let_def
      using st [of Map.empty] st [OF old] by (intro effect_on_key effect_Inr effect_if sound_upd sound_simps; force)
  qed
  have r: "f |` (- M) \<noteq> Map.empty" if "\<not> dom f \<subseteq> M" for f :: "bytes \<rightharpoonup> dbl" and M using that by (auto simp: restrict_map_def fun_eq_iff)
  have "storable (Scores (f |` (- M)))" if "rebuildable s" "s k = Some (c, x)" "sel_scores c = Some f" "\<not> dom f \<subseteq> M" for k c x f M
  proof -
    have "\<forall>d \<in> ran f. small_score d" using that sel_storable(3) by (fastforce simp: rebuildable_def)
    moreover have "ran (f |` (- M)) \<subseteq> ran f" by (auto simp: ran_def restrict_map_def split: if_splits)
    ultimately show ?thesis using r [OF that(4)] by auto
  qed
  then show "effect sound s (specZRem tm args s)"
    unfolding specZRem_def Let_def by (intro effect_on_key effect_Inr effect_if sound_put sound_simps; blast?; force)
qed

lemma read_sound: "sp \<in> read_specs \<Longrightarrow> effect sound s (sp tm args s)"
  using read_effects [of sp s tm args] by (auto simp: effect_def split: sum.splits)

lemma spec_one_sound:
  assumes "plain q" "keepable q" "length q < 2147483648"
  shows "effect sound s (spec_one tm q s)"
proof (cases "lookup server_table q")
  case (Inr h)
  obtain e where e: "e \<in> set all_commands" "chandler e = h" "arity_ok (arity e) q" "upper (q ! 0) = cname e" by (rule lookup_entry [OF Inr])
  obtain f where f: "h = Db f" using assms(1) Inr by (cases h) (simp_all add: plain_def)
  have len: "nat (- arity e) \<le> length q" if "arity e < 0" using e(3) that assms(3) by (simp add: arity_ok_def wrap32_id)
  have x: "cname e \<notin> {''EXPIRE'', ''PEXPIRE''}" "cname e = ''ZADD'' \<Longrightarrow> \<forall>d \<in> snd ` set (zpairs (drop 2 q)). small_score d"
    using assms(2) e(4) by (simp_all add: keepable_def sets_expiry_def)
  have r: "\<And>sp. sp \<in> read_specs \<Longrightarrow> effect sound s (sp tm q s)" by (rule read_sound)
  have "\<exists>sp. map_of spec_table (cname e) = Some sp \<and> effect sound s (sp tm q s)"
    using e(1,2) f len x unfolding entry_defs append.simps list.set
    by (elim insertE emptyE; simp add: spec_lookup write_sound hash_sound zset_sound r read_specs_def)
  then show ?thesis using Inr e(4) by (auto simp: spec_one_def)
qed (simp add: spec_one_def)

lemma leads_rebuildable:
  assumes "leads qs s s'" "rebuildable s" "\<forall>q \<in> set qs. is_write q \<and> keepable q" "length (concat (map formatRespCommand qs)) < 2147483648"
  shows "rebuildable s'"
  using assms
proof (induction qs arbitrary: s)
  case (Cons q qs)
  obtain R s1 where s1: "spec_one (\<lambda>_. 0) q s = Inr (R, s1)" "leads qs s1 s'" using Cons.prems(1) by auto
  have "rebuildable s1"
    using effectD [OF spec_one_sound s1(1)] write_plain Cons.prems(2-4) length_format [of q] by (simp add: sound_def)
  then show ?case using Cons.IH [OF s1(2)] Cons.prems(3,4) by simp
qed simp

text \<open>Write commands never throw.\<close>

lemma write_total: "sp \<in> write_specs \<Longrightarrow> \<exists>R s'. sp tm args s = Inr (R, s')"
  unfolding write_specs_def
  by (elim insertE emptyE; hypsubst; unfold spec_defs on_key_def Let_def; simp split: option.split)

lemma spec_one_total:
  assumes "is_write q" "\<not> sets_expiry q"
  shows "\<exists>R s'. spec_one tm q s = Inr (R, s')"
proof (cases "lookup server_table q")
  case (Inr h)
  then obtain sp where "map_of spec_table (upper (q ! 0)) = Some sp" "sp \<in> write_specs"
    using plain_spec [OF write_plain [OF assms(1)] Inr] assms by blast
  then show ?thesis using Inr write_total by (simp add: spec_one_def)
qed (simp add: spec_one_def)

lemma leads_total: "\<forall>q \<in> set qs. is_write q \<and> keepable q \<Longrightarrow> \<exists>s'. leads qs s s'"
proof (induction qs arbitrary: s)
  case (Cons q qs)
  obtain R s1 where "spec_one (\<lambda>_. 0) q s = Inr (R, s1)" using spec_one_total Cons.prems by (meson keepable_def list.set_intros(1))
  moreover obtain s' where "leads qs s1 s'" using Cons by auto
  ultimately show ?case by auto
qed (rule exI, simp)

lemma leads_spec_run:
  assumes "leads qs s s'" "rebuildable s" "\<forall>q \<in> set qs. is_write q \<and> keepable q" "length (concat (map formatRespCommand qs)) < 2147483648"
  shows "\<exists>R. spec_run tms i qs s = Inr (R, s')"
  using assms
proof (induction qs arbitrary: i s)
  case (Cons q qs)
  obtain R s1 where s1: "spec_one (\<lambda>_. 0) q s = Inr (R, s1)" "leads qs s1 s'" using Cons.prems(1) by auto
  have "rebuildable s1" using leads_rebuildable [of "[q]" s s1] s1(1) Cons.prems(2-4) by auto
  then obtain R' where "spec_run tms (i + 1) qs s1 = Inr (R', s')" using Cons.IH [OF s1(2)] Cons.prems(3,4) by auto
  moreover have "spec_one (tms i) q s = Inr (R, s1)"
    using spec_one_plain(3) [OF _ _ rebuildable_permanent [OF Cons.prems(2)], of q "tms i" "\<lambda>_. 0"] write_plain Cons.prems(3) s1(1)
    by (simp add: keepable_def)
  ultimately show ?case by auto
qed simp

lemma keepable_tame: "keepable q \<Longrightarrow> length q < 2147483648 \<Longrightarrow> tame q"
  by (auto simp: keepable_def tame_def small_score_def dint_def)

lemma run_queue_leads:
  assumes "good_db db" "reflects (T i) db s" "rebuildable s" "bounded 0 s" "clocked T es" "leads qs s s'"
    and "\<forall>q \<in> set qs. q \<noteq> [] \<and> is_write q \<and> keepable q" "length (concat (map formatRespCommand qs)) < 2147483648"
  shows "\<exists>rs db'. run_queue es i qs db = Inr (rs, db') \<and> reflects (T (i + length qs)) db' s'"
proof -
  have n: "sum_list (map length qs) < 2147483648" using arguments_bytes [of qs] assms(8) by simp
  then have "length q < 2147483648" if "q \<in> set qs" for q using member_le_sum_list [of "length q" "map length qs"] that by simp
  then have "\<forall>q \<in> set qs. q \<noteq> [] \<and> plain q \<and> (\<forall>tm. admissible tm q)"
    using assms(7) write_plain keepable_tame by (auto simp: admissible_def tame_def keepable_def sets_expiry_def)
  then have "requests es i qs" unfolding requests_def by (blast intro: nth_mem)
  then have "agrees (T (i + length qs)) (run_queue es i qs db) (spec_run (\<lambda>i. clk (es i)) i qs s)"
    using run_queue_agrees [OF assms(1,2,4) _ assms(5)] n by simp
  moreover obtain R where "spec_run (\<lambda>i. clk (es i)) i qs s = Inr (R, s')"
    using leads_spec_run [OF assms(6,3) _ assms(8), of "\<lambda>i. clk (es i)" i] assms(7) by blast
  ultimately show ?thesis by (auto simp: agrees_def)
qed

section \<open>The commands of a rewritten log\<close>

lemma rewrite_entries:
  "server_table ''SET'' = Some (cmd ''SET'' 3 True (Db cmdSet))" "server_table ''RPUSH'' = Some (cmd ''RPUSH'' (- 3) True (Db cmdRPush))"
  "server_table ''HSET'' = Some (cmd ''HSET'' (- 4) True (Db cmdHSet))" "server_table ''SADD'' = Some (cmd ''SADD'' (- 3) True (Db cmdSAdd))"
  "server_table ''ZADD'' = Some (cmd ''ZADD'' (- 4) True (Db cmdZAdd))"
  by (simp_all add: server_table_map entry_defs)

text \<open>A command that stores a content under a fresh key.\<close>

definition rebuilding :: "bytes \<Rightarrow> content \<Rightarrow> bytes list \<Rightarrow> bool" where
  "rebuilding k c q = (q \<noteq> [] \<and> is_write q \<and> keepable q \<and>
     (length q < 2147483648 \<longrightarrow> (\<forall>s. s k = None \<longrightarrow> (\<exists>R. spec_one (\<lambda>_. 0) q s = Inr (R, s(k \<mapsto> (c, - 1)))))))"

lemma rebuildingI:
  assumes "server_table n = Some (cmd n a True h)" "upper n = n" "n \<notin> {''EXPIRE'', ''PEXPIRE''}" "map_of spec_table n = Some sp"
    and "length (n # args) < 2147483648 \<Longrightarrow> arity_ok a (n # args)"
    and "\<And>s. s k = None \<Longrightarrow> \<exists>R. sp (\<lambda>_. 0) (n # args) s = Inr (R, s(k \<mapsto> (c, - 1)))"
    and "n = ''ZADD'' \<Longrightarrow> \<forall>d \<in> snd ` set (zpairs (drop 1 args)). small_score d"
  shows "rebuilding k c (n # args)"
  using assms by (auto simp: rebuilding_def keepable_def sets_expiry_def isWriteCommand_def spec_one_def lookup_def Let_def drop_Suc)

lemma rebuilding_string: "canonical v = v \<Longrightarrow> rebuilding k (Str v) [''SET'', k, v]"
  by (rule rebuildingI [OF rewrite_entries(1) load_uppers(1) _ spec_lookup(2)]) (simp_all add: arity_ok_def wrap32_def specSet_def)

lemma rebuilding_list: "xs \<noteq> [] \<Longrightarrow> rebuilding k (Lst xs) ([''RPUSH'', k] @ xs)"
  unfolding append.simps
  by (rule rebuildingI [OF rewrite_entries(2) load_uppers(2) _ spec_lookup(15)])
    (use arity_atleast [of "''RPUSH'' # k # xs" 3] in \<open>cases xs; simp add: specRPush_def on_key_def view_def\<close>)+

lemma rebuilding_set: "m \<noteq> {} \<Longrightarrow> set ms = m \<Longrightarrow> rebuilding k (Mem m) ([''SADD'', k] @ ms)"
  unfolding append.simps
  by (rule rebuildingI [OF rewrite_entries(4) load_uppers(4) _ spec_lookup(25)])
    (use arity_atleast [of "''SADD'' # k # ms" 3] in \<open>cases ms; auto simp: specSAdd_def on_key_def view_def\<close>)+

lemma rebuilding_hash:
  assumes "h \<noteq> []" "distinct (map fst h)" "mset fs = mset (map fst h)"
  shows "rebuilding k (Hsh (map_of h)) ([''HSET'', k] @ concat (map (\<lambda>f. [f, the (map_of h f)]) fs))" (is "rebuilding _ _ ([_, _] @ ?fvs)")
  unfolding append.simps
proof (rule rebuildingI [OF rewrite_entries(3) load_uppers(3) _ spec_lookup(20)])
  have "pairs_of ?fvs = map (\<lambda>f. (f, the (map_of h f))) fs" by (rule pairs_of_concat)
  then have "map_of (rev (pairs_of ?fvs)) = map_of h" using perm_map_of [OF assms(2,3)] by simp
  then show "\<exists>R. specHSet (\<lambda>_. 0) (''HSET'' # k # ?fvs) s = Inr (R, s(k \<mapsto> (Hsh (map_of h), - 1)))" if "s k = None" for s
    using that even_concat [of "\<lambda>f. f" "\<lambda>f. the (map_of h f)" fs] by (simp add: specHSet_def on_key_def view_def Let_def)
  have "fs \<noteq> []" using assms(1,3) by auto
  then show "arity_ok (- 4) (''HSET'' # k # ?fvs)" if "length (''HSET'' # k # ?fvs) < 2147483648"
    using that arity_atleast [of "''HSET'' # k # ?fvs" 4] by (cases fs) simp_all
qed simp_all

lemma rebuilding_zset:
  assumes z: "zset_ok z" "zdict z \<noteq> []" and i: "\<forall>d \<in> ran (map_of (zdict z)). small_score d"
  shows "rebuilding k (Scores (map_of (zdict z))) ([''ZADD'', k] @ concat (map (\<lambda>(m, s). [printf_17g s, m]) (zsorted z)))"
    (is "rebuilding _ _ ([_, _] @ ?sms)")
  unfolding append.simps
proof (rule rebuildingI [OF rewrite_entries(5) load_uppers(5) _ spec_lookup(30)])
  note o = zset_ok_rel [OF z(1)]
  have sms: "?sms = concat (map (\<lambda>e. [printf_17g (snd e), fst e]) (zsorted z))" unfolding case_prod_beta' ..
  have d: "distinct (map fst (zsorted z))" using o(5) by (simp add: zsorted_def distinct_map)
  have e: "small_score (snd e)" if "e \<in> set (zsorted z)" for e
    using that i o(4,5) by (metis map_of_eq_Some_iff prod.collapse ranI)
  then have st: "strtod (printf_17g (snd e)) = snd e" if "e \<in> set (zsorted z)" for e
    using that printf_dint strtod_to_string by (fastforce simp: small_score_def)
  have p: "zpairs ?sms = zsorted z"
    unfolding zpairs_def sms pairs_of_concat by (simp add: case_prod_beta comp_def st cong: map_cong)
  have "map_of (zsorted z) = map_of (zdict z)" using d o(4,5) by (intro map_of_inject_set [THEN iffD2]) simp_all
  then have "foldl zput Map.empty (zpairs ?sms) = map_of (zdict z)" unfolding p using foldl_zput [OF d, of Map.empty] by simp
  then show "\<exists>R. specZAdd (\<lambda>_. 0) (''ZADD'' # k # ?sms) s = Inr (R, s(k \<mapsto> (Scores (map_of (zdict z)), - 1)))" if "s k = None" for s
    using that even_concat [of "\<lambda>e. printf_17g (snd e)" fst "zsorted z"] unfolding sms
    by (simp add: specZAdd_def on_key_def view_def Let_def)
  have "zsorted z \<noteq> []" using z(2) o(3) by auto
  then show "arity_ok (- 4) (''ZADD'' # k # ?sms)" if "length (''ZADD'' # k # ?sms) < 2147483648"
    using that arity_atleast [of "''ZADD'' # k # ?sms" 4] by (cases "zsorted z") (simp_all add: case_prod_beta)
  show "\<forall>d \<in> snd ` set (zpairs (drop 1 (k # ?sms))). small_score d" using e by (simp add: p)
qed simp_all

text \<open>The child writes one such command for a value.\<close>

lemma rewrite_value_rebuilding:
  assumes v: "value_ok v" "storable (content_of v)" "ranks (content_of v) < 2147483648" and u: "\<And>xs. mset (uorder env xs) = mset xs"
  shows "\<exists>q. rewrite_value env k v = Inr [q] \<and> rebuilding k (content_of v) q"
proof -
  have o: "obj_ok v" using v(1) by (simp add: value_ok_def)
  show ?thesis
  proof (cases "otype v")
    case STRING
    then have "content_of v = Str (asString v)" using o by (auto simp: obj_ok_def content_of_def split: RedisData.splits)
    then show ?thesis using STRING v(2) rebuilding_string [of "asString v" k] by (simp add: rewrite_value_def)
  next
    case LIST
    obtain xs where x: "odata v = DDeque xs" by (rule obj_ok_LIST [OF o LIST])
    then have "content_of v = Lst xs" by (simp add: content_of_def)
    then show ?thesis using LIST x v(2) rebuilding_list [of xs k] by (simp add: rewrite_value_def)
  next
    case HASH
    obtain h where h: "odata v = DMap h" "distinct (map fst h)" by (rule obj_ok_HASH [OF o HASH])
    then have "content_of v = Hsh (map_of h)" "h \<noteq> []" using v(2) by (auto simp: content_of_def)
    then show ?thesis using HASH h rebuilding_hash [OF _ h(2) u, of k] by (simp add: rewrite_value_def)
  next
    case SET
    obtain m where m: "odata v = DSet m" by (rule obj_ok_SET [OF o SET])
    then have "content_of v = Mem (set m)" "m \<noteq> []" using v(2) by (auto simp: content_of_def)
    then show ?thesis using SET m rebuilding_set [of "set m" "uorder env m" k] mset_eq_setD [OF u [of m]] by (simp add: rewrite_value_def)
  next
    case ZSET
    obtain z where z: "odata v = DZSet z" "distinct (map fst (zdict z))" by (rule obj_ok_ZSET [OF o ZSET])
    then have c: "content_of v = Scores (map_of (zdict z))" by (simp add: content_of_def)
    have ne: "zdict z \<noteq> []" "\<forall>d \<in> ran (map_of (zdict z)). small_score d" using v(2) c by auto
    have zo: "zset_ok z" using v(1) z(1) by (simp add: value_ok_def)
    have "length (zdict z) < 2147483648"
      using v(3) c distinct_card [OF z(2)] by (simp add: dom_map_of_conv_image_fst)
    from zset_elems [OF zo ne(1) this] show ?thesis
      using ZSET z(1) ne c rebuilding_zset [OF zo ne] by (simp add: rewrite_value_def)
  qed
qed

lemma rewrite_key_rebuilding:
  assumes g: "good_db db" and e: "entry_of db k = Some e" "expireAt e < 0" "storable (content_of (evalue e))" "ranks (content_of (evalue e)) < 2147483648"
    and u: "\<And>xs. mset (uorder env xs) = mset xs"
  shows "\<exists>q db'. rewrite_key env k db = Inr ([q], db') \<and> rebuilding k (content_of (evalue e)) q \<and> same_data db db'"
proof -
  note inv = good_db_inv [OF g]
  have a: "alive db t k = Some (evalue e, expireAt e)" for t using e(1,2) by (simp add: alive_def alive_map_def expired_def)
  obtain db1 where d: "db_findEntry (mm env) (clk env 0) db k = (Some (mk_entry k (evalue e) (expireAt e)), db1)" "same_data db db1"
    using findEntry_alive [OF inv a] by blast
  have e1: "entry_of db1 k = Some e" and inv1: "db_inv db1" using d(2) e(1) by (simp_all add: same_data_def)
  obtain r db2 where t: "db_ttl (clk env 1) (clk env 2) db1 k = (r, db2)" by fastforce
  note tt = db_ttl_ok [OF inv1 t]
  have "r = - 1" using tt(2) e1 e(2) by (simp add: alive_def alive_map_def expired_def)
  moreover have "same_data db1 db2"
    using tt(1) e1 e(2) by (simp add: reaped_def expired_def)
  moreover have "value_ok (evalue e)" using g e(1) by (simp add: good_db_def)
  from rewrite_value_rebuilding [OF this e(3,4) u] obtain q where "rewrite_value env k (evalue e) = Inr [q]" "rebuilding k (content_of (evalue e)) q" by blast
  ultimately show ?thesis using d t by (simp add: rewrite_key_def mk_entry_def same_data_def)
qed

lemma rewrite_keys_leads:
  assumes "good_db db" "distinct ks" "set ks \<subseteq> dom (entry_of db)" "reflects now db s" and s: "rebuildable s" "bounded 2147483647 s"
    and u: "\<And>i xs. mset (uorder (es i) xs) = mset xs"
  shows "\<exists>cmds. rewrite_keys es i ks db = Inr cmds \<and> (\<forall>q \<in> set cmds. q \<noteq> [] \<and> is_write q \<and> keepable q) \<and>
    ((\<forall>q \<in> set cmds. length q < 2147483648) \<longrightarrow> (\<forall>s0. (\<forall>k \<in> set ks. s0 k = None) \<longrightarrow> leads cmds s0 (s0 ++ s |` set ks)))"
  using assms(1-4)
proof (induction ks arbitrary: i db)
  case Nil
  then show ?case by simp
next
  case (Cons k ks)
  obtain e where e: "entry_of db k = Some e" using Cons.prems(3) by auto
  then have sk: "s k = Some (content_of (evalue e), expireAt e)" using Cons.prems(4) by (simp add: reflects_def)
  then have c: "storable (content_of (evalue e))" "expireAt e = - 1" "ranks (content_of (evalue e)) < 2147483648"
    using s boundedD [OF s(2)] by (fastforce simp: rebuildable_def)+
  obtain q db1 where q: "rewrite_key (es i) k db = Inr ([q], db1)" "rebuilding k (content_of (evalue e)) q" "same_data db db1"
    using rewrite_key_rebuilding [OF Cons.prems(1) e _ c(1,3) u, of i] c(2) by auto
  have "good_db db1" "reflects now db1 s"
    using good_fewer [OF Cons.prems(1) fewer_same [OF q(3)]] reflects_pruned [OF Cons.prems(4) pruned_same [OF q(3)]] by auto
  then obtain cmds where cmds: "rewrite_keys es (i + 1) ks db1 = Inr cmds" "\<forall>q \<in> set cmds. q \<noteq> [] \<and> is_write q \<and> keepable q"
    "(\<forall>q \<in> set cmds. length q < 2147483648) \<Longrightarrow> (\<forall>k \<in> set ks. s0 k = None) \<Longrightarrow> leads cmds s0 (s0 ++ s |` set ks)" for s0
    using Cons.IH [of db1 "i + 1"] Cons.prems(2,3) q(3) by (auto simp: same_data_def)
  have "leads (q # cmds) s0 (s0 ++ s |` set (k # ks))"
    if l: "\<forall>q \<in> set (q # cmds). length q < 2147483648" and n: "\<forall>k \<in> set (k # ks). s0 k = None" for s0
  proof -
    obtain R where R: "spec_one (\<lambda>_. 0) q s0 = Inr (R, s0(k \<mapsto> (content_of (evalue e), - 1)))"
      using q(2) l n unfolding rebuilding_def by (metis list.set_intros(1))
    have "\<forall>j \<in> set ks. (s0(k \<mapsto> (content_of (evalue e), - 1))) j = None" using n Cons.prems(2) by auto
    then have "leads cmds (s0(k \<mapsto> (content_of (evalue e), - 1))) (s0(k \<mapsto> (content_of (evalue e), - 1)) ++ s |` set ks)"
      using cmds(3) l by simp
    moreover have "s0(k \<mapsto> (content_of (evalue e), - 1)) ++ s |` set ks = s0 ++ s |` set (k # ks)"
      using sk c(2) Cons.prems(2) by (auto simp: map_add_def restrict_map_def fun_eq_iff split: option.split)
    ultimately show ?thesis using R by auto
  qed
  moreover have "rewrite_keys es i (k # ks) db = Inr (q # cmds)" using q(1) cmds(1) by simp
  ultimately show ?case using q(2) cmds(2) by (auto simp: rebuilding_def simp del: leads.simps)
qed

lemma snapshot_leads:
  assumes "good_db db" "reflects now db s" "rebuildable s" "bounded 2147483647 s" "\<And>i xs. mset (uorder (es i) xs) = mset xs"
  shows "\<exists>cmds. rewrite_snapshot es db = Inr cmds \<and> (\<forall>q \<in> set cmds. q \<noteq> [] \<and> is_write q \<and> keepable q) \<and>
    (length (concat (map formatRespCommand cmds)) < 2147483648 \<longrightarrow> leads cmds Map.empty s)"
proof -
  let ?db1 = "db\<lparr>dtable := rehashStep (dtable db) kRehashBatchSize\<rparr>"
  have d: "same_data db ?db1" by (rule same_data_rehash [OF good_db_inv [OF assms(1)]])
  let ?ks = "ht_keys (dtable ?db1)"
  have ks: "distinct ?ks" "set ?ks = dom (entry_of db)"
    using ht_keys_ok [OF db_invD(1) [OF same_data_inv [OF d]]] d by (simp_all add: same_data_def)
  have db1: "good_db ?db1" "reflects now ?db1 s" "set ?ks \<subseteq> dom (entry_of ?db1)"
    using good_fewer [OF assms(1) fewer_same [OF d]] reflects_pruned [OF assms(2) pruned_same [OF d]] ks(2) d by (auto simp: same_data_def)
  obtain cmds where cmds: "rewrite_keys es 0 ?ks ?db1 = Inr cmds" "\<forall>q \<in> set cmds. q \<noteq> [] \<and> is_write q \<and> keepable q"
    "(\<forall>q \<in> set cmds. length q < 2147483648) \<Longrightarrow> leads cmds Map.empty (Map.empty ++ s |` set ?ks)"
    using rewrite_keys_leads [where i = 0 and es = es, OF db1(1) ks(1) db1(3,2) assms(3-5)] by auto
  have "s k = None" if "entry_of db k = None" for k
    using that assms(2,3) by (cases "s k") (fastforce simp: reflects_def rebuildable_def)+
  then have "s |` set ?ks = s" unfolding ks(2) by (auto simp: restrict_map_def fun_eq_iff) (metis not_None_eq)
  moreover have "length q < 2147483648" if "length (concat (map formatRespCommand cmds)) < 2147483648" "q \<in> set cmds" for q
    using that member_le_sum_list [of "length q" "map length cmds"] arguments_bytes [of cmds] by simp
  ultimately show ?thesis using cmds by (auto simp: rewrite_snapshot_def db_keys_def Let_def)
qed

end
