(* ===== verification/Durability.thy ===== *)
theory Durability
  imports World_Invariants Snapshot
begin

text \<open>
  The persistence of the whole server. While the disk takes what is written, the log is at every moment
  the record of the store: the commands in it lead from the empty store to the one a client sees, and
  so do, during a background rewrite, the snapshot and the commands buffered since. \<open>recorded\<close> is this
  invariant; the locale \<open>world_invariant\<close> lifts it to the main loop with any clients, transactions and
  rewrites. A server that is started again with the log shows the same store.
\<close>

section \<open>The invariant\<close>

text \<open>The disk takes every write, and the rewriting child visits containers completely.\<close>

definition disk_ok :: "sysenv \<Rightarrow> bool" where
  "disk_ok se = ((\<forall>i. WriteError \<notin> set (writes (envs se i))) \<and> (\<forall>i. WriteError \<notin> set (child_writes se i)) \<and>
     (\<forall>i xs. mset (uorder (child_envs se i) xs) = mset xs))"

text \<open>A log of less than 2^31 bytes whose commands set no expiry times and no scores that are not printed
  exactly.\<close>

definition mild_log :: "world \<Rightarrow> bool" where
  "mild_log w = (length (aof_file (waof w)) < 2147483648 \<and> (\<forall>q \<in> set (fst (rf.decode_all (aof_file (waof w)))). keepable q))"

definition steady_log :: "tick_env \<Rightarrow> world \<Rightarrow> bool" where
  "steady_log te w = (mild_log w \<and> (\<forall>i. WriteError \<notin> set (tick_writes te i)) \<and> reopen_ok te)"

definition rewritten :: "aof \<Rightarrow> bytes" where
  "rewritten a = temp_file a @ concat (rewriteBuffer a)"

definition records :: "aof \<Rightarrow> bytes list list \<Rightarrow> store \<Rightarrow> bool" where
  "records a ms s = (leads ms Map.empty s \<and> rebuildable s \<and>
     (isRewriting a \<longrightarrow> (\<exists>ns. log_commands (rewritten a) ns \<and> (\<forall>q \<in> set ns. keepable q) \<and>
        (length (rewritten a) < 2147483648 \<longrightarrow> leads ns Map.empty s))))"

definition recorded :: "int \<Rightarrow> world \<Rightarrow> bool" where
  "recorded now w = (aof_open (waof w) \<and> child_running (waof w) = isRewriting (waof w) \<and>
     (\<exists>ms. log_commands (aof_file (waof w)) ms \<and>
       (length (aof_file (waof w)) < 2147483648 \<and> (\<forall>q \<in> set ms. keepable q) \<longrightarrow>
          (\<exists>s. records (waof w) ms s \<and> reflects now (wdb w) s))))"

lemma recorded_mild:
  assumes "recorded now w" "mild_log w"
  obtains ms s where "log_commands (aof_file (waof w)) ms" "\<forall>q \<in> set ms. keepable q" "records (waof w) ms s" "reflects now (wdb w) s"
proof -
  obtain ms where ms: "log_commands (aof_file (waof w)) ms" "length (aof_file (waof w)) < 2147483648 \<and> (\<forall>q \<in> set ms. keepable q) \<longrightarrow>
      (\<exists>s. records (waof w) ms s \<and> reflects now (wdb w) s)" using assms(1) unfolding recorded_def by blast
  have "\<forall>q \<in> set ms. keepable q" using log_commands_decoded [OF ms(1)] assms(2) by (simp add: mild_log_def)
  then show thesis using that ms assms(2) by (auto simp: mild_log_def)
qed

lemma leads_small:
  assumes "leads ms Map.empty s" "log_commands f ms" "length f < 2147483648"
  shows "bounded 2147483647 s"
proof -
  have "bounded (0 + sum_list (map length ms)) s" by (rule leads_bounded [OF assms(1)]) (simp add: bounded_def)
  then show ?thesis using bounded_mono arguments_bytes [of ms] assms(2,3) by (auto simp: log_commands_def)
qed

section \<open>One command\<close>

lemma expiry_writes: "sets_expiry q \<Longrightarrow> is_write q"
  by (auto simp: sets_expiry_def isWriteCommand_def server_table_map entry_defs)

lemma command_agrees:
  assumes g: "good_db db" and r: "reflects now db s" and s: "rebuildable s" "bounded 2147483647 s" and t: "on_time now env now'"
    and q: "plain q" "tame q" "\<not> sets_expiry q" and o: "run_one env q db = Inr (rs, db')"
  shows "\<exists>R s1. spec_one (\<lambda>_. 0) q s = Inr (R, s1) \<and> reflects now' db' s1 \<and> (\<not> is_write q \<longrightarrow> s1 = s)"
proof -
  have "ready now now' env db s" using g r t by (simp add: ready_def on_time_def)
  moreover have "admissible (clk env) q" using q(2,3) by (auto simp: admissible_def tame_def sets_expiry_def)
  ultimately have "agrees now' (Inr (rs, db')) (spec_one (clk env) q s)" using run_one_agrees(1) [OF _ s(2) q(1)] o by metis
  then obtain R s1 where s1: "spec_one (clk env) q s = Inr (R, s1)" "reflects now' db' s1"
    by (auto simp: agrees_def split: sum.splits prod.splits)
  moreover have "spec_one (\<lambda>_. 0) q s = spec_one (clk env) q s"
    by (rule spec_one_plain(3) [OF q(1,3) rebuildable_permanent [OF s(1)]])
  moreover have "s1 = s" if "\<not> is_write q" using effectD [OF spec_one_plain(1) [OF q(1,3) that] s1(1)] by simp
  ultimately show ?thesis by auto
qed

lemma records_log:
  assumes "records a ms s" "spec_one (\<lambda>_. 0) q s = Inr (R, s1)" "q \<noteq> []" "is_write q" "keepable q" "tame q" "WriteError \<notin> set os" "aof_open a"
  shows "records (aof_log os q a) (ms @ [q]) s1"
proof -
  have "rebuildable s1" 
    using effectD [OF spec_one_sound [OF write_plain [OF assms(4)] assms(5)] assms(2)] assms(1,6) by (simp add: sound_def records_def tame_def)
  moreover have "leads (ms @ [q]) Map.empty s1" using assms(1,2) by (auto simp: records_def leads_append)
  moreover have "\<exists>ns. log_commands (rewritten (aof_log os q a)) ns \<and> (\<forall>q \<in> set ns. keepable q) \<and>
      (length (rewritten (aof_log os q a)) < 2147483648 \<longrightarrow> leads ns Map.empty s1)" if rw: "isRewriting a"
  proof -
    obtain ns where ns: "log_commands (rewritten a) ns" "\<forall>q \<in> set ns. keepable q" "length (rewritten a) < 2147483648 \<longrightarrow> leads ns Map.empty s"
      using assms(1) rw by (auto simp: records_def)
    have "rewritten (aof_log os q a) = rewritten a @ formatRespCommand q"
      using rw assms(8) by (simp add: aof_log_def Let_def rewritten_def fsync_def)
    then show ?thesis using ns log_commands_append [OF ns(1) assms(3,4)] assms(2,5)
      by (intro exI [of _ "ns @ [q]"]) (auto simp: leads_append)
  qed
  moreover have "isRewriting (aof_log os q a) = isRewriting a" by (simp add: aof_log_def Let_def fsync_def)
  ultimately show ?thesis by (simp add: records_def)
qed

lemma recorded_command:
  assumes v: "recorded now w" and g: "good_db (wdb w)" and d: "disk_ok se" and t: "on_time now (envs se i) now'"
    and q: "q \<noteq> []" "plain q" "tame q" and o: "run_one (envs se i) q (wdb w) = Inr (rs, wdb w')" "waof w' = waof w"
  shows "recorded now' (log_write server_table (envs se i) q w')"
proof -
  let ?a = "waof w" and ?w = "log_write server_table (envs se i) q w'"
  obtain ms where ms: "aof_open ?a" "child_running ?a = isRewriting ?a" "log_commands (aof_file ?a) ms"
    "length (aof_file ?a) < 2147483648 \<Longrightarrow> \<forall>q \<in> set ms. keepable q \<Longrightarrow> \<exists>s. records ?a ms s \<and> reflects now (wdb w) s"
    using v unfolding recorded_def by blast
  have step: "\<exists>s R s1. records ?a ms s \<and> spec_one (\<lambda>_. 0) q s = Inr (R, s1) \<and> reflects now' (wdb w') s1 \<and> (\<not> is_write q \<longrightarrow> s1 = s)"
    if m: "length (aof_file ?a) < 2147483648" "\<forall>q \<in> set ms. keepable q" "\<not> sets_expiry q"
  proof -
    obtain s where s: "records ?a ms s" "reflects now (wdb w) s" using ms(4) [OF m(1,2)] by blast
    then have "rebuildable s" "bounded 2147483647 s" using leads_small [OF _ ms(3) m(1)] by (simp_all add: records_def)
    from command_agrees [OF g s(2) this t q(2,3) m(3) o(1)] s(1) show ?thesis by blast
  qed
  show ?thesis
  proof (cases "is_write q")
    case False
    then have w: "?w = w'" by (simp add: log_write_def)
    have "\<not> sets_expiry q" using False expiry_writes by blast
    then show ?thesis unfolding w recorded_def o(2) using ms step False by blast
  next
    case True
    have we: "WriteError \<notin> set (writes (envs se i))" using d by (simp add: disk_ok_def)
    have w: "waof ?w = aof_log (writes (envs se i)) q ?a" "wdb ?w = wdb w'" using True ms(1) o(2) by (simp_all add: log_write_def isEnabled_def)
    have f: "aof_file (waof ?w) = aof_file ?a @ formatRespCommand q" "aof_open (waof ?w)" "child_running (waof ?w) = isRewriting (waof ?w)"
      unfolding w using ms(1,2) writeAll_complete [OF we] by (simp_all add: aof_log_def Let_def fsync_def)
    have "\<exists>s. records (waof ?w) (ms @ [q]) s \<and> reflects now' (wdb ?w) s"
      if "length (aof_file (waof ?w)) < 2147483648 \<and> (\<forall>q \<in> set (ms @ [q]). keepable q)"
    proof -
      have k: "keepable q" "\<not> sets_expiry q" "\<forall>q \<in> set ms. keepable q" "length (aof_file ?a) < 2147483648"
        using that f(1) by (simp_all add: keepable_def)
      obtain s R s1 where "records ?a ms s" "spec_one (\<lambda>_. 0) q s = Inr (R, s1)" "reflects now' (wdb w') s1" using step [OF k(4,3,2)] by blast
      then show ?thesis unfolding w using records_log [OF _ _ q(1) True k(1) q(3) we ms(1)] by blast
    qed
    then show ?thesis unfolding recorded_def using f log_commands_append [OF ms(3) q(1) True] by auto
  qed
qed

section \<open>Rewrites and housekeeping\<close>

lemma recorded_rewrite:
  assumes v: "recorded now w" and g: "good_db (wdb w)" and d: "disk_ok se" and w: "wdb w' = wdb w"
    "waof w' = triggerRewrite (fork_ok se) (child_envs se) (child_writes se) (wdb w) (waof w)"
  shows "recorded now w'"
proof -
  let ?a = "waof w"
  have f: "aof_file (waof w') = aof_file ?a" "aof_open (waof w') = aof_open ?a"
    "child_running ?a = isRewriting ?a \<Longrightarrow> child_running (waof w') = isRewriting (waof w')"
    unfolding w(2) by (simp_all add: triggerRewrite_def)
  have "records (waof w') ms s"
    if r: "records ?a ms s" "reflects now (wdb w) s" "log_commands (aof_file ?a) ms" "length (aof_file ?a) < 2147483648" for ms s
  proof (cases "isRewriting ?a \<or> \<not> fork_ok se")
    case True
    then have "records (waof w') ms s \<longleftrightarrow> records ?a ms s" unfolding w(2) by (auto simp: triggerRewrite_def records_def)
    then show ?thesis using r(1) by simp
  next
    case False
    have s: "leads ms Map.empty s" "rebuildable s" using r(1) by (simp_all add: records_def)
    obtain cmds where c: "rewrite_snapshot (child_envs se) (wdb w) = Inr cmds" "\<forall>q \<in> set cmds. q \<noteq> [] \<and> is_write q \<and> keepable q"
      "length (concat (map formatRespCommand cmds)) < 2147483648 \<longrightarrow> leads cmds Map.empty s"
      using snapshot_leads [OF g r(2) s(2) leads_small [OF s(1) r(3,4)], of "child_envs se"] d by (auto simp: disk_ok_def)
    have "rewritten (waof w') = concat (map formatRespCommand cmds)" "isRewriting (waof w')"
      using False c(1) d rewrite_file_complete [of "child_writes se" cmds]
      by (simp_all add: w(2) triggerRewrite_def rewritten_def disk_ok_def)
    then show ?thesis unfolding records_def using s c by (auto simp: log_commands_def)
  qed
  then show ?thesis using v unfolding recorded_def f w(1) using f(3) by blast
qed

lemma concat_nth: "concat (map (\<lambda>i. xs ! i) [0..<length xs]) = concat xs"
  by (simp add: map_nth)

lemma recorded_tick:
  assumes v: "recorded now w" and g: "good_db (wdb w)" and st: "steady_log te w" and le: "now \<le> tick_ms te"
  shows "recorded (tick_ms te) (timer_callback te w)"
proof -
  let ?a = "aof_tick (tick_ns te) (waof w)" and ?w = "timer_callback te w"
  let ?b = "checkRewriteComplete (child te) (tmp_ok te) (rename_ok te) (reopen_ok te) (tick_writes te) ?a"
  have ok: "mild_log w" "\<And>i. WriteError \<notin> set (tick_writes te i)" "reopen_ok te" using st by (simp_all add: steady_log_def)
  obtain ms s where s: "log_commands (aof_file (waof w)) ms" "\<forall>q \<in> set ms. keepable q" "records (waof w) ms s" "reflects now (wdb w) s"
    by (rule recorded_mild [OF v ok(1)])
  have r: "reflects (tick_ms te) (wdb ?w) s" using reflects_expire [OF s(4) g le] by (simp add: timer_callback_def)
  have a: "aof_open ?a" "child_running ?a = isRewriting ?a" "aof_file ?a = aof_file (waof w)" "records ?a ms s"
    using v s(3) by (auto simp: aof_tick_def fsync_def recorded_def records_def rewritten_def)
  have all: "writeAll (tick_writes te i) x = x" for i x by (rule writeAll_complete [OF ok(2)])
  have keep: "recorded (tick_ms te) ?w"
    if "aof_open ?b" "\<not> isRewriting ?b \<and> \<not> child_running ?b" "log_commands (aof_file ?b) ns"
      "length (aof_file ?b) < 2147483648 \<longrightarrow> leads ns Map.empty s" for ns
  proof -
    have "waof ?w = ?b" by (simp add: timer_callback_def)
    then show ?thesis unfolding recorded_def using that r s(3) by (auto simp: records_def)
  qed
  consider "\<not> child_running ?a \<or> child te = Running"
    | "child_running ?a" "child te = ChildFailed \<or> child te = ExitedOk \<and> \<not> (tmp_ok te \<and> rename_ok te)"
    | "child_running ?a" "child te = ExitedOk" "tmp_ok te \<and> rename_ok te" by (cases "child te") auto
  then show ?thesis
  proof cases
    case 1
    then have "?b = ?a" by (auto simp: checkRewriteComplete_def)
    then have "waof ?w = ?a" by (simp add: timer_callback_def)
    then show ?thesis unfolding recorded_def using a s(1) r by auto
  next
    case 2
    then have "aof_open ?b" "\<not> isRewriting ?b \<and> \<not> child_running ?b" "aof_file ?b = aof_file (waof w)"
      using a(1,3) by (auto simp: checkRewriteComplete_def Let_def)
    then show ?thesis using keep [of ms] s(1,3) by (simp add: records_def)
  next
    case 3
    then have b: "aof_open ?b" "\<not> isRewriting ?b \<and> \<not> child_running ?b" "aof_file ?b = rewritten ?a"
      using ok(3) by (simp_all add: checkRewriteComplete_def Let_def rewritten_def all concat_nth)
    obtain ns where "log_commands (rewritten ?a) ns" "length (rewritten ?a) < 2147483648 \<longrightarrow> leads ns Map.empty s"
      using a(2,4) 3(1) by (auto simp: records_def)
    then show ?thesis using keep [OF b(1,2), of ns] b(3) by simp
  qed
qed

interpretation rec: world_invariant recorded disk_ok steady_log
proof
  show "recorded now' w" if "recorded now w" "now \<le> now'" for now now' w
    using that reflects_later unfolding recorded_def by blast
  show "recorded now w'" if "recorded now w" "untouched w w'" for now w w'
    using that by (simp add: recorded_def untouched_def)
  show "steady_log te w'" if "steady_log te w" "untouched w w'" for te w w'
    using that by (simp add: steady_log_def mild_log_def untouched_def)
  show "recorded now (w\<lparr>wdb := db_rehashStep (wdb w)\<rparr>)" if "recorded now w" "good_db (wdb w)" for now w
    using that(1) reflects_rehash [OF _ that(2)] unfolding recorded_def by simp blast
qed (rule recorded_command recorded_rewrite recorded_tick; assumption)+

section \<open>Starting again\<close>

lemma startup_file:
  assumes ms: "\<forall>q \<in> set ms. q \<noteq> [] \<and> is_write q \<and> keepable q" "leads ms Map.empty s" "length p < 2147483648"
    and p: "rf.decode_all p = (ms, r)" "p = concat (map formatRespCommand ms) @ r" and T: "clocked T (\<lambda>i. envs (ses i) 0)"
  shows "\<exists>w. startup now (File (length p) [ReadBytes p]) (Some fd) ses (initial_world port lfd True t0 p) = Some (Inr w) \<and>
    waof w = new_aof True EVERYSEC t0 p \<and> (\<forall>t. reflects t (wdb w) s)"
proof -
  let ?w = "initial_world port lfd True t0 p" and ?es = "\<lambda>i. envs (ses i) 0"
  have any: "reflects t db s" if "reflects t' db s" for t t' db
    using that rebuildable_permanent [OF leads_rebuildable [OF ms(2) rebuildable_empty]] ms(1,3) p(2)
    by (fastforce simp: reflects_def permanent_def)
  obtain rs db where q: "run_queue ?es 0 ms new_database = Inr (rs, db)" "reflects (T (0 + length ms)) db s"
    using run_queue_leads [where i = 0, OF good_db_new reflects_new rebuildable_empty _ T ms(2)] ms(1,3) p(2) by (auto simp: bounded_def)
  show ?thesis
  proof (cases "p = []")
    case True
    then have "ms = []" using p(1) rf.decode_all_None [of "[]"] by simp
    then show ?thesis using True ms(2) reflects_new by (simp add: startup_def load_def initial_world_def)
  next
    case False
    let ?v = "?w\<lparr>conns := (conns ?w)(fd \<mapsto> new_connection)\<rparr>"
    have "wdb ?v = new_database" by (simp add: initial_world_def)
    then obtain w' where w': "replay ses fd 0 ms ?v = Inr (0 + length ms, w')" "wdb w' = db" "waof w' = waof ?v"
      using replay_run [of ?v fd new_connection ms ses 0 rs db] new_conn_ok ms(1) write_plain q(1) by auto
    have "load (File (length p) [ReadBytes p]) (Some fd) ses ?w = Some (Inr (Some (0 + length ms), w'\<lparr>conns := (conns w')(fd := None)\<rparr>))"
      using load_file [of "length p" "[ReadBytes p]" fd ses ?w] False file_bytes_once [of p] p(1) w'(1) by simp
    then show ?thesis using w'(2,3) any [OF q(2)] by (simp add: startup_def initial_world_def)
  qed
qed

lemma log_prefix:
  assumes "log_commands f ms" "length f < 2147483648" "prefix p f"
  obtains k r where "rf.decode_all p = (take k ms, r)" "p = concat (map formatRespCommand (take k ms)) @ r"
    "r = [] \<or> k < length ms \<and> strict_prefix r (formatRespCommand (ms ! k))" "p = f \<longrightarrow> take k ms = ms"
proof -
  have f: "f = concat (map formatRespCommand ms)" using assms(1) by (simp add: log_commands_def)
  obtain k r where k: "rf.decode_all p = (take k ms, r)" "p = concat (map formatRespCommand (take k ms)) @ r"
    "r = [] \<or> k < length ms \<and> strict_prefix r (formatRespCommand (ms ! k))"
    using rf.decode_all_prefix [of ms p] assms(2,3) f by auto
  moreover have "take k ms = ms" if "p = f" using log_commands_decoded [OF assms(1,2)] k(1) that by simp
  ultimately show thesis using that by blast
qed

text \<open>C4 (equivalence). Durability of the server. A server is started with a log of write commands that set no expiry time,
  and runs: any number of clients, their commands interleaved in any way, transactions, background
  rewrites of the log. As long as the disk takes what is written and the log stays below 2^31 bytes and
  gets no command that sets an expiry time or a score that is not a 53-bit integer, the log is a record
  of the store. Whatever part p of it survives a crash, the server that is started with p comes up and
  shows at all times what the commands of the log that p holds completely build; when all of the log has
  survived, exactly what a client could see before.\<close>
theorem server_durable:
  assumes "log_commands f ms" and "length f < 2147483648" and "\<forall>q \<in> set ms. keepable q"
    and "startup now0 (File (length f) [ReadBytes f]) (Some pfd) ses (initial_world port lfd True t0 f) = Some (Inr w)"
    and "clocked T (\<lambda>i. envs (ses i) 0)"
    and "run_ok lfd its now w" and "calm_run disk_ok steady_log its w" and "main_loop its w = Some (Inr w')" and "mild_log w'"
    and "prefix p (aof_file (waof w'))" and "clocked T' (\<lambda>i. envs (ses' i) 0)"
  shows "\<exists>ns k r s w2. log_commands (aof_file (waof w')) ns \<and> p = concat (map formatRespCommand (take k ns)) @ r \<and>
    (r = [] \<or> k < length ns \<and> strict_prefix r (formatRespCommand (ns ! k))) \<and> leads (take k ns) Map.empty s \<and>
    startup now1 (File (length p) [ReadBytes p]) (Some pfd') ses' (initial_world port' lfd' True t1 p) = Some (Inr w2) \<and>
    (\<forall>t. visible (wdb w2) t = s) \<and> (p = aof_file (waof w') \<longrightarrow> (\<forall>t. visible (wdb w') t = s))"
proof -
  have dec: "rf.decode_all f = (ms, [])" by (rule log_commands_decoded [OF assms(1,2)])
  have ms: "\<forall>q \<in> set ms. q \<noteq> [] \<and> is_write q \<and> keepable q" "f = concat (map formatRespCommand ms) @ []" using assms(1,3) by (auto simp: log_commands_def)
  obtain s0 where s0: "leads ms Map.empty s0" using leads_total ms(1) by blast
  have w: "waof w = new_aof True EVERYSEC t0 f" "reflects now (wdb w) s0"
    using startup_file [OF ms(1) s0 assms(2) dec ms(2) assms(5), of now0 pfd port lfd t0] assms(4) by auto
  have "rebuildable s0" using leads_rebuildable [OF s0 rebuildable_empty] ms assms(2) by simp
  then have "recorded now w" using w s0 assms(1) by (auto simp: recorded_def records_def new_aof_def)
  moreover have "length q < 2147483648" if "q \<in> set ms" for q
    using member_le_sum_list [of "length q" "map length ms"] arguments_bytes [of ms] that assms(2) ms(2) by simp
  then have "\<forall>q \<in> set ms. tame q" using keepable_tame assms(3) by blast
  then have "between lfd w"
    using reachable_between [OF reachable.booted [OF assms(4)]] file_bytes_once [of f] dec by simp
  ultimately obtain now' where "recorded now' w'" using rec.looped [OF _ assms(6) _ assms(7,8)] by blast
  then obtain ns s1 where ns: "log_commands (aof_file (waof w')) ns" "\<forall>q \<in> set ns. keepable q" "records (waof w') ns s1" "reflects now' (wdb w') s1"
    by (rule recorded_mild [OF _ assms(9)])
  have small: "length (aof_file (waof w')) < 2147483648" using assms(9) by (simp add: mild_log_def)
  obtain k r where k: "rf.decode_all p = (take k ns, r)" "p = concat (map formatRespCommand (take k ns)) @ r"
    "r = [] \<or> k < length ns \<and> strict_prefix r (formatRespCommand (ns ! k))" "p = aof_file (waof w') \<longrightarrow> take k ns = ns"
    by (rule log_prefix [OF ns(1) small assms(10)])
  obtain s where s: "leads (take k ns) Map.empty s" using leads_take ns(3) unfolding records_def by blast
  have tk: "\<forall>q \<in> set (take k ns). q \<noteq> [] \<and> is_write q \<and> keepable q" using ns(1,2) unfolding log_commands_def by (meson in_set_takeD)
  have lp: "length p < 2147483648" using prefix_length_le [OF assms(10)] small by simp
  obtain w2 where w2: "startup now1 (File (length p) [ReadBytes p]) (Some pfd') ses' (initial_world port' lfd' True t1 p) = Some (Inr w2)"
    "\<And>t. reflects t (wdb w2) s" using startup_file [OF tk s lp k(1,2) assms(11)] by blast
  have "permanent s" using rebuildable_permanent [OF leads_rebuildable [OF s rebuildable_empty]] tk lp k(2) by simp
  then have "visible (wdb w2) t = s" for t using reflects_permanent w2(2) by blast
  moreover have "visible (wdb w') t = s" if "p = aof_file (waof w')" for t
  proof -
    have "s1 = s" using leads_unique s ns(3) k(4) that unfolding records_def by metis
    then show ?thesis using reflects_permanent [OF ns(4)] \<open>permanent s\<close> by blast
  qed
  ultimately show ?thesis using ns(1) k(2,3) s w2(1) by blast
qed

text \<open>A client connects and sets a key; the server is started again.\<close>

lemma logged_command:
  assumes w: "world_ok w" and c: "conns w fd = Some c" "txn c = None" "subscribedChannels c = []" and q: "q \<noteq> []" "is_write q" "aof_open (waof w)"
    and o: "run_one (envs se 0) q (wdb w) = Inr (rs, db')"
  shows "\<exists>w1. process_command se fd q w = Inr w1 \<and> waof w1 = aof_log (writes (envs se 0)) q (waof w)"
proof -
  have "upper (q ! 0) \<noteq> ''EXEC''" using exec_entry server_table_in q(2) by (metis handler.distinct(9) write_handler)
  moreover obtain c' where "dispatch 1 server_table se fd q w = Inr (w\<lparr>wdb := db', conns := (conns w)(fd \<mapsto> c')\<rparr>)"
    using dispatch_plain [OF c(1) world_okD(4) [OF w c(1)] q(1) write_plain [OF q(2)], where se = se and n = 1] o by auto
  ultimately show ?thesis using c q unfolding process_command_def
    by (simp add: and_then_def Let_def inSubscribeMode_def log_write_def isEnabled_def del: dispatch.simps One_nat_def)
qed

lemma send_logged:
  assumes q: "q \<noteq> []" "is_write q" "tame q" "length (formatRespCommand q) \<le> 4096" and o: "\<And>db. \<exists>rs db'. run_one (demo_env 0) q db = Inr (rs, db')"
  shows "\<exists>w'. main_loop [demo_iteration, send_iteration q] booted_world = Some (Inr w') \<and> aof_file (waof w') = formatRespCommand q"
proof -
  let ?w = "accepted_world\<lparr>wmetrics := (wmetrics accepted_world)\<lparr>connectedClients := length (fds accepted_world)\<rparr>\<rparr>" and ?ev = "send_event q"
  have "reachable 3 accepted_world" by (rule reachable.iterated [OF booted_reachable demo_iteration_ok demo_iterate])
  then have l: "loop_ok 3 {} ?w" using reachable_between by (simp add: between_def loop_ok_def world_ok_def metrics_inv_def)
  have c: "conns ?w 7 = Some new_connection" using accepted_conns by simp
  have ct: "client_tame 7 ?ev ?w" using send_run_ok(1) [OF q(4,3)] by (simp add: iteration_ok_def send_iteration_def poll_accepted Let_def)
  then have t: "\<forall>args \<in> set (fst (rf.decode_all (input_of ?ev new_connection))). tame args" using c by (simp add: client_tame_def send_event_def)
  obtain c2 bs cmds rest r where r: "delivers (read_res ?ev) bs" "rf.decode_all (received new_connection @ bs) = (cmds, rest)"
    "client_of c2 = (client_of new_connection)\<lparr>ain := received new_connection @ bs,
       areading := (wantRead new_connection \<and> read_res ?ev \<notin> {ReadEof, ReadError})\<rparr>"
    "loop_ok 3 {7} (?w\<lparr>conns := (conns ?w)(7 \<mapsto> c2)\<rparr>)" "serves (cmd_envs ?ev) 7 rest 0 cmds (?w\<lparr>conns := (conns ?w)(7 \<mapsto> c2)\<rparr>) r"
    "read_phase 7 ?ev new_connection ?w =
       Some (and_then r (\<lambda>w1. Inr (set_conn 7 (\<lambda>c. if readableBytes (outb c) > 0 then c\<lparr>wantWrite := True\<rparr> else c) w1)))"
    by (rule read_phase_serves [OF l c t])
  let ?v = "?w\<lparr>conns := (conns ?w)(7 \<mapsto> c2)\<rparr>"
  have "bs = formatRespCommand q" using r(1) sent_delivered q(4) by (simp add: send_event_def)
  then have "cmds = [q]" "rest = []" using r(2) sent_decoded [OF q(4)] by (simp_all add: new_connection_def)
  then obtain b where b: "buf_inv b" "\<And>w1. process_command demo_sysenv 7 q (with_input 7 b ?v) = Inr w1 \<Longrightarrow> \<exists>w2. r = Inr w2 \<and> untouched w1 w2"
    using r(5) untouched_with_input by (fastforce simp: serves_Cons serves_Nil send_event_def)
  have c2': "conns ?v 7 = Some c2" by simp
  note wi = with_input_ok [OF loop_okD(1) [OF r(4)] c2' b(1), of "{7}"]
  have c2: "txn c2 = None" "subscribedChannels c2 = []" using r(3) by (simp_all add: client_of_def new_connection_def)
  have a: "waof (with_input 7 b ?v) = new_aof True EVERYSEC 0 []"
    using untouched_with_input [of ?v 7 b] by (simp add: untouched_def accepted_world_def accept_client_def booted_world_def initial_world_def)
  obtain w1 where w1: "process_command demo_sysenv 7 q (with_input 7 b ?v) = Inr w1" "waof w1 = aof_log [] q (new_aof True EVERYSEC 0 [])"
    using logged_command [OF wi(1,3), of q demo_sysenv] c2 q(1,2) a o [of "wdb (with_input 7 b ?v)"]
    by (auto simp: new_aof_def demo_sysenv_def demo_env_def)
  then obtain w2 where w2: "r = Inr w2" "untouched w1 w2" using b(2) by blast
  let ?w3 = "set_conn 7 (\<lambda>c. if readableBytes (outb c) > 0 then c\<lparr>wantWrite := True\<rparr> else c) w2"
  let ?r = "and_then (update_conn 7 (write_phase ?ev) ?w3) (\<lambda>w2. Inr (register 7 (set_conn 7 close_phase w2)))"
  have h: "handle_client 7 ?ev ?w = Some ?r" using c r(6) w2(1) by (simp add: handle_client_def send_event_def and_then_def)
  have "write_phase ?ev c = Some c" for c by (simp add: write_phase_def send_event_def)
  then obtain w4 where w4: "?r = Inr w4"
    using handle_client_ok [OF l ct] h
    by (auto simp: loop_result_def update_conn_def and_then_def stoi_error_def split: option.splits)
  let ?w5 = "cleanup (sweep (w4\<lparr>wdb := db_rehashStep (wdb w4)\<rparr>))"
  have "untouched w2 ?w3" by (simp add: untouched_def set_conn_def)
  then have "waof w4 = waof w1" using untouched_finish [OF w4] w2(2) by (simp add: untouched_def)
  then have "waof ?w5 = waof w1" using untouched_cleanup [of "w4\<lparr>wdb := db_rehashStep (wdb w4)\<rparr>"] by (simp add: untouched_def)
  moreover have "iterate (send_iteration q) accepted_world = Some (Inr (True, ?w5))"
    using h w4 by (simp add: iterate_def send_iteration_def Let_def poll_accepted)
  ultimately show ?thesis using demo_iterate w1(2) by (simp add: aof_log_def Let_def new_aof_def fsync_def)
qed

lemma set_facts:
  "is_write [''SET'', ''k'', ''v'']" "keepable [''SET'', ''k'', ''v'']" "tame [''SET'', ''k'', ''v'']" "length (formatRespCommand [''SET'', ''k'', ''v'']) = 27"
  "spec_one (\<lambda>_. 0) [''SET'', ''k'', ''v''] s = Inr ({[SimpleString ''OK'']}, s(''k'' \<mapsto> (Str ''v'', - 1)))"
  "\<exists>rs db'. run_one env [''SET'', ''k'', ''v''] db = Inr (rs, db')"
proof -
  have p: "upper ''SET'' = ''SET''" "canonical ''v'' = ''v''" by code_simp+
  have l: "lookup server_table [''SET'', ''k'', ''v''] = Inr (Db cmdSet)" by (simp add: lookup_def p rewrite_entries(1) arity_ok_def wrap32_def)
  show "is_write [''SET'', ''k'', ''v'']" by (simp add: isWriteCommand_def p rewrite_entries(1))
  show "keepable [''SET'', ''k'', ''v'']" "tame [''SET'', ''k'', ''v'']" by (simp_all add: keepable_def tame_def sets_expiry_def p)
  show "length (formatRespCommand [''SET'', ''k'', ''v'']) = 27" by code_simp
  show "spec_one (\<lambda>_. 0) [''SET'', ''k'', ''v''] s = Inr ({[SimpleString ''OK'']}, s(''k'' \<mapsto> (Str ''v'', - 1)))"
    by (simp add: spec_one_def l p spec_lookup specSet_def)
  show "\<exists>rs db'. run_one env [''SET'', ''k'', ''v''] db = Inr (rs, db')" by (simp add: run_one_def l cmdSet_def)
qed

theorem server_durable_witness:
  "\<exists>w' w2. main_loop [demo_iteration, send_iteration [''SET'', ''k'', ''v'']] booted_world = Some (Inr w') \<and>
    startup 9 (File 27 [ReadBytes (aof_file (waof w'))]) (Some 8) (\<lambda>i. demo_sysenv) (initial_world 6379 3 True 9 (aof_file (waof w'))) = Some (Inr w2) \<and>
    visible (wdb w2) 10 ''k'' = Some (Str ''v'', - 1) \<and> visible (wdb w') 10 ''k'' = Some (Str ''v'', - 1)"
proof -
  let ?q = "[''SET'', ''k'', ''v'']" and ?its = "[demo_iteration, send_iteration [''SET'', ''k'', ''v'']]"
  have n: "length (formatRespCommand ?q) \<le> 4096" using set_facts(4) by simp
  obtain w' where w': "main_loop ?its booted_world = Some (Inr w')" "aof_file (waof w') = formatRespCommand ?q"
    using send_logged [OF _ set_facts(1,3) n set_facts(6)] by blast
  have m: "mild_log w'" using w'(2) set_facts(2,4) sent_decoded [OF n] by (simp add: mild_log_def)
  have "mild_log booted_world" "mild_log accepted_world"
    by (simp_all add: mild_log_def accepted_world_def accept_client_def booted_world_def initial_world_def new_aof_def rf.decode_all_None)
  moreover have "disk_ok demo_sysenv" by (simp add: disk_ok_def demo_sysenv_def demo_env_def)
  ultimately have cr: "calm_run disk_ok steady_log ?its booted_world"
    using demo_iterate by (simp add: calm_iteration_def steady_log_def demo_iteration_def send_iteration_def demo_tick_def calm_event_def send_event_def)
  have b: "startup 0 (File (length []) [ReadBytes []]) (Some 8) (\<lambda>i. demo_sysenv) (initial_world 6379 3 True 0 []) = Some (Inr booted_world)"
    by (simp add: startup_def load_def booted_world_def)
  have ck: "clocked (\<lambda>_. 0) (\<lambda>i. envs ((\<lambda>i. demo_sysenv) i) 0)" by (simp add: clocked_def demo_sysenv_def demo_env_def mono_def)
  have l: "log_commands [] []" "length ([] :: bytes) < 2147483648" "\<forall>q \<in> set ([] :: bytes list list). keepable q" by (simp_all add: log_commands_def)
  obtain ns k r s w2 where x: "log_commands (formatRespCommand ?q) ns" "formatRespCommand ?q = concat (map formatRespCommand (take k ns)) @ r"
    "r = [] \<or> k < length ns \<and> strict_prefix r (formatRespCommand (ns ! k))" "leads (take k ns) Map.empty s"
    "startup 9 (File 27 [ReadBytes (formatRespCommand ?q)]) (Some 8) (\<lambda>i. demo_sysenv) (initial_world 6379 3 True 9 (formatRespCommand ?q)) = Some (Inr w2)"
    "\<And>t. visible (wdb w2) t = s" "\<And>t. visible (wdb w') t = s"
    using server_durable [OF l b ck send_run_ok(2) [OF n set_facts(3)] cr w'(1) m prefix_order.refl ck, of 9 8 6379 3 9]
    unfolding w'(2) set_facts(4) by blast
  have "ns = [?q]" using log_commands_decoded [OF x(1)] sent_decoded [OF n] set_facts(4) by simp
  moreover from this have "k \<noteq> 0" using x(2,3) set_facts(4) by (intro notI) (auto simp: strict_prefix_def)
  ultimately have "s = [''k'' \<mapsto> (Str ''v'', - 1)]" using x(4) set_facts(5) by (cases k) simp_all
  then show ?thesis using w' x(5-7) by auto
qed

section \<open>Torn commands\<close>

text \<open>A command of which only the first \<open>j\<close> arguments have reached the disk.\<close>

definition torn :: "bytes list \<Rightarrow> nat \<Rightarrow> bytes" where
  "torn q j = CHR ''*'' # to_string (int (length q)) @ CRLF @ concat (map formatBulk (take j q))"

lemma torn_prefix:
  assumes "j < length q"
  shows "strict_prefix (torn q j) (formatRespCommand q)"
proof -
  have "formatRespCommand q = torn q j @ concat (map formatBulk (drop j q))"
    unfolding formatRespCommand_def torn_def by (simp flip: concat_append map_append)
  moreover have "concat (map formatBulk (drop j q)) \<noteq> []"
    using assms by (simp add: Cons_nth_drop_Suc [symmetric] formatBulk_def)
  ultimately show ?thesis by (simp add: strict_prefix_def)
qed

lemma parseBulks_torn:
  assumes "d = ys @ concat (map formatBulk xs) @ post" "length d < 2147483648" "post = [] \<or> hd post \<noteq> CHR ''$''" "length xs < n"
  shows "parseBulks d (length d) n (length ys) acc = None"
  using assms(1,4)
proof (induction xs arbitrary: ys acc n)
  case Nil
  then have "parseBulk d (length d) (length ys) = None" using assms(3) by (cases post) (auto simp: parseBulk_def nth_append)
  then show ?case using Nil.prems(2) by (cases n) simp_all
next
  case (Cons a xs)
  obtain m where m: "n = Suc m" "length xs < m" using Cons.prems(2) by (cases n) simp_all
  have "parseBulk d (length d) (length ys) = Some (a, length ys + length (formatBulk a))"
    using Cons.prems(1) assms(2) by (intro parseBulk_formatBulk) auto
  moreover have "parseBulks d (length d) m (length (ys @ formatBulk a)) (acc @ [a]) = None"
    using Cons.prems(1) m(2) by (intro Cons.IH) simp_all
  ultimately show ?case using m(1) by simp
qed

lemma torn_undecodable:
  assumes "j < length q" "length (torn q j @ post) < 2147483648" "length q < 2147483648" "post = [] \<or> hd post \<noteq> CHR ''$''"
  shows "rf.decode_all (torn q j @ post) = ([], torn q j @ post)"
proof -
  let ?d = "torn q j @ post" and ?ds = "to_string (int (length q))"
  have d: "?d = CHR ''*'' # ?ds @ CRLF @ (concat (map formatBulk (take j q)) @ post)" by (simp add: torn_def)
  note hdr = array_header [OF d assms(2)]
  have "parseBulks ?d (length ?d) (length q) (length (CHR ''*'' # ?ds @ CRLF)) [] = None"
    using assms d by (intro parseBulks_torn) auto
  then have "parseFrame ?d = None"
    using hdr assms(3) by (simp add: parseFrame_def parseArray_def Let_def nat_add_distrib torn_def)
  then show ?thesis using rf.decode_all_None [of ?d] by simp
qed

text \<open>C30 (error). A torn command. The loader drops the part of a command at the end of the log that a crash has cut
  off, but leaves it in the file, and the writer appends to the file. If the crash has cut a command
  after one of its arguments, then at the next start everything that was logged after it is lost,
  however much it was: the server comes up with what the commands before the torn one build.\<close>
theorem torn_log:
  assumes "log_commands f old" and "\<forall>q \<in> set old. keepable q" and "j < length q" and "log_commands g new"
    and "length q < 2147483648" and "length (f @ torn q j @ g) < 2147483648" and "clocked T (\<lambda>i. envs (ses i) 0)"
  shows "\<exists>s w. strict_prefix (torn q j) (formatRespCommand q) \<and> leads old Map.empty s \<and>
    startup now (File (length (f @ torn q j @ g)) [ReadBytes (f @ torn q j @ g)]) (Some fd) ses
      (initial_world port lfd True t0 (f @ torn q j @ g)) = Some (Inr w) \<and> (\<forall>t. visible (wdb w) t = s)"
proof -
  have old: "\<forall>q \<in> set old. q \<noteq> [] \<and> is_write q \<and> keepable q" "f = concat (map formatRespCommand old)"
    using assms(1,2) by (simp_all add: log_commands_def)
  have "g = [] \<or> hd g \<noteq> CHR ''$''" using assms(4) by (cases new) (simp_all add: log_commands_def formatRespCommand_def)
  from torn_undecodable [OF assms(3) _ assms(5) this] have "rf.decode_all (torn q j @ g) = ([], torn q j @ g)" using assms(6) by simp
  then have d: "rf.decode_all (f @ torn q j @ g) = (old, torn q j @ g)"
    using rf.decode_all_enc [of old "torn q j @ g"] assms(6) old(2) by simp
  obtain s where s: "leads old Map.empty s" using leads_total old(1) by blast
  have p: "permanent s" using rebuildable_permanent [OF leads_rebuildable [OF s rebuildable_empty]] old assms(6) by simp
  obtain w where "startup now (File (length (f @ torn q j @ g)) [ReadBytes (f @ torn q j @ g)]) (Some fd) ses
      (initial_world port lfd True t0 (f @ torn q j @ g)) = Some (Inr w)" "\<And>t. reflects t (wdb w) s"
    using startup_file [OF old(1) s assms(6) d _ assms(7)] old(2) by blast
  then show ?thesis using s torn_prefix [OF assms(3)] reflects_permanent [OF _ p] by blast
qed

theorem torn_log_witness:
  "\<exists>w. startup 9 (File (length (torn [''SET'', ''a'', ''1''] 2 @ formatRespCommand [''SET'', ''k'', ''v'']))
      [ReadBytes (torn [''SET'', ''a'', ''1''] 2 @ formatRespCommand [''SET'', ''k'', ''v''])]) (Some 8) (\<lambda>i. demo_sysenv)
      (initial_world 6379 3 True 9 (torn [''SET'', ''a'', ''1''] 2 @ formatRespCommand [''SET'', ''k'', ''v''])) = Some (Inr w) \<and>
    visible (wdb w) 10 ''k'' = None"
proof -
  have l: "log_commands [] []" "log_commands (formatRespCommand [''SET'', ''k'', ''v'']) [[''SET'', ''k'', ''v'']]"
    using set_facts(1) by (simp_all add: log_commands_def)
  have ck: "clocked (\<lambda>_. 0) (\<lambda>i. envs ((\<lambda>i. demo_sysenv) i) 0)" by (simp add: clocked_def demo_sysenv_def demo_env_def mono_def)
  have n: "length ([] @ torn [''SET'', ''a'', ''1''] 2 @ formatRespCommand [''SET'', ''k'', ''v'']) < 2147483648"
  proof -
    have "length (torn [''SET'', ''a'', ''1''] 2) = 20" by code_simp
    then show ?thesis using set_facts(4) by simp
  qed
  show ?thesis using torn_log [OF l(1) _ _ l(2) _ n ck, where now = 9 and fd = 8 and port = 6379 and lfd = 3 and ?t0.0 = 9] by auto
qed

end
