(* ===== verification/Descriptors.thy ===== *)
theory Descriptors
  imports Server_Properties "HOL-Library.Word"
begin

text \<open>
  \<^verbatim>\<open>net/Listener\<close>, the constructors and destructors that own file descriptors, and the first and last
  lines of \<^verbatim>\<open>main\<close>. What the kernel returns is an argument. The descriptors a piece of code opens and closes
  are a list of operations; running them on the table of open descriptors fails (\<open>None\<close>) where a
  descriptor is closed that is not open. The descriptor of the log, which a rewrite replaces, is not
  followed.
\<close>

section \<open>Operations on descriptors\<close>

datatype fd_op = Open nat | Close nat

fun run_ops :: "fd_op list \<Rightarrow> nat set \<Rightarrow> nat set option" where
  "run_ops [] K = Some K"
| "run_ops (Open fd # ops) K = (if fd \<in> K then None else run_ops ops (insert fd K))"
| "run_ops (Close fd # ops) K = (if fd \<in> K then run_ops ops (K - {fd}) else None)"

section \<open>The listener\<close>

text \<open>The results of \<^verbatim>\<open>socket\<close>, \<^verbatim>\<open>inet_pton\<close>, \<^verbatim>\<open>bind\<close> and \<^verbatim>\<open>listen\<close>, and the text for \<^verbatim>\<open>errno\<close>.\<close>

record listen_env =
  socket_res :: "nat option"
  inet_pton :: "bytes \<Rightarrow> nat option"
  bind_ok :: "nat \<Rightarrow> nat \<Rightarrow> bool"
  listen_ok :: bool
  strerror :: bytes

record listener =
  listen_fd :: nat
  listen_port :: nat

text \<open>\<^verbatim>\<open>static_cast<uint16_t>(port)\<close>\<close>

definition uint16 :: "int \<Rightarrow> nat" where
  "uint16 port = unat (word_of_int port :: 16 word)"

definition listener_ctor :: "listen_env \<Rightarrow> bytes \<Rightarrow> int \<Rightarrow> (bytes + listener) \<times> fd_op list" where
  "listener_ctor le addr port =
     (case socket_res le of
        None \<Rightarrow> (Inl (''socket() failed: '' @ strerror le), [])
      | Some fd \<Rightarrow>
          (case inet_pton le addr of
             None \<Rightarrow> (Inl (''Invalid address: '' @ addr), [Open fd, Close fd])
           | Some ip \<Rightarrow>
               if \<not> bind_ok le ip (uint16 port) then (Inl (''bind() failed: '' @ strerror le), [Open fd, Close fd])
               else if \<not> listen_ok le then (Inl (''listen() failed: '' @ strerror le), [Open fd, Close fd])
               else (Inr \<lparr>listen_fd = fd, listen_port = uint16 port\<rparr>, [Open fd])))"

definition listener_dtor :: "listener \<Rightarrow> fd_op list" where
  "listener_dtor l = [Close (listen_fd l)]"

section \<open>Event loop and connections\<close>

definition event_loop_ctor :: "int \<Rightarrow> nat option \<Rightarrow> (bytes + nat \<times> event_loop) \<times> fd_op list" where
  "event_loop_ctor now epollFd =
     (case epollFd of
        None \<Rightarrow> (Inl ''epoll_create1() failed'', [])
      | Some fd \<Rightarrow> (Inr (fd, new_event_loop now), [Open fd]))"

definition event_loop_dtor :: "nat \<Rightarrow> fd_op list" where
  "event_loop_dtor epollFd = [Close epollFd]"

definition connection_dtor :: "nat \<Rightarrow> fd_op" where
  "connection_dtor fd = Close fd"

section \<open>The limit on descriptors\<close>

text \<open>A limit is a pair of a soft and a hard limit; only a privileged process may raise the hard one.\<close>

definition setrlimit :: "bool \<Rightarrow> nat \<times> nat \<Rightarrow> nat \<times> nat \<Rightarrow> (nat \<times> nat) option" where
  "setrlimit privileged new old =
     (if fst new \<le> snd new \<and> (privileged \<or> snd new \<le> snd old) then Some new else None)"

definition raise_fd_limit :: "bool \<Rightarrow> nat \<times> nat \<Rightarrow> nat \<times> nat" where
  "raise_fd_limit privileged rl =
     (case setrlimit privileged (65536, 65536) rl of
        Some rl' \<Rightarrow> rl'
      | None \<Rightarrow> (case setrlimit privileged (snd rl, snd rl) rl of Some rl' \<Rightarrow> rl' | None \<Rightarrow> rl))"

text \<open>The soft limit becomes 65536 or the hard limit, whichever is smaller, unless the process is privileged.
  A higher limit is lowered, and an unprivileged process cannot raise it again.\<close>

lemma fd_limit: "fst (raise_fd_limit privileged rl) = (if privileged then 65536 else min 65536 (snd rl))"
  by (simp add: raise_fd_limit_def setrlimit_def)

lemma fd_limit_lowered: "raise_fd_limit False (1048576, 1048576) = (65536, 65536)"
  by (simp add: raise_fd_limit_def setrlimit_def)

section \<open>The descriptors of the program\<close>

record boot_env =
  lenv :: listen_env
  epoll_res :: "nat option"
  boot_ns :: int
  log_opened :: bool
  log_content :: bytes

definition parse_port :: "bytes list \<Rightarrow> int" where
  "parse_port argv = (if 1 < length argv then atoi (argv ! 1) else 6379)"

definition boot :: "boot_env \<Rightarrow> bytes list \<Rightarrow> (bytes + listener \<times> nat \<times> world) \<times> fd_op list" where
  "boot be argv =
     (let port = parse_port argv in
      case listener_ctor (lenv be) ''0.0.0.0'' port of
        (Inl msg, ops) \<Rightarrow> (Inl msg, ops)
      | (Inr l, ops) \<Rightarrow>
          (case event_loop_ctor (boot_ns be) (epoll_res be) of
             (Inl msg, ops') \<Rightarrow> (Inl msg, ops @ ops')
           | (Inr (epollFd, el), ops') \<Rightarrow>
               (Inr (l, epollFd, initial_world (uint16 port) (listen_fd l) (log_opened be) (boot_ns be) (log_content be)), ops @ ops')))"

text \<open>The loader closes the file on every path, the read end of its pipe at once, and the write end with the
  dummy connection.\<close>

definition load_ops :: "aof_source \<Rightarrow> nat \<Rightarrow> (nat \<times> nat) option \<Rightarrow> fd_op list" where
  "load_ops src fd pipe =
     (case src of
        NotFound \<Rightarrow> []
      | OpenFailed \<Rightarrow> []
      | StatFailed \<Rightarrow> [Open fd, Close fd]
      | File fileSize rs \<Rightarrow>
          [Open fd, Close fd] @
          (if fileSize = 0 then []
           else case read_file fileSize rs 0 (ensureWritableBytes new_buffer fileSize) of
             Inr (Some b) \<Rightarrow> (case pipe of None \<Rightarrow> [] | Some (p0, p1) \<Rightarrow> [Open p0, Open p1, Close p0, connection_dtor p1])
           | _ \<Rightarrow> []))"

definition accepted :: "event list \<Rightarrow> nat list" where
  "accepted evs = concat (map (\<lambda>e. case e of Listen rs \<Rightarrow> accept_loop rs | Client fd ev \<Rightarrow> []) evs)"

text \<open>An iteration of the main loop opens what it accepts and destroys the connections that are to be closed.\<close>

definition iterate_ops :: "iteration \<Rightarrow> world \<Rightarrow> fd_op list" where
  "iterate_ops it w =
     (let w0 = w\<lparr>wmetrics := (wmetrics w)\<lparr>connectedClients := length (fds w)\<rparr>\<rparr> in
      case poll (timer_callback (tick it)) (poll_ns it) (poll_res it) (eloop w0, w0) of
        (None, el, w1) \<Rightarrow> []
      | (Some evs, el, w1) \<Rightarrow>
          map Open (accepted evs) @
          (case handle_events evs (w1\<lparr>eloop := el\<rparr>) of
             Some (Inr w2) \<Rightarrow> map connection_dtor (toClose (sweep (w2\<lparr>wdb := db_rehashStep (wdb w2)\<rparr>)))
           | _ \<Rightarrow> []))"

fun loop_ops :: "iteration list \<Rightarrow> world \<Rightarrow> fd_op list" where
  "loop_ops [] w = []"
| "loop_ops (it # its) w =
     iterate_ops it w @ (case iterate it w of Some (Inr (True, w')) \<Rightarrow> loop_ops its w' | _ \<Rightarrow> [])"

text \<open>\<^verbatim>\<open>connections.clear()\<close>, then the destructors of the event loop and of the listener.\<close>

definition exit_ops :: "listener \<Rightarrow> nat \<Rightarrow> world \<Rightarrow> fd_op list" where
  "exit_ops l epollFd w = map connection_dtor (fds w) @ event_loop_dtor epollFd @ listener_dtor l"

section \<open>Properties\<close>

lemma uint16_mod: "int (uint16 port) = port mod 65536"
  unfolding uint16_def unat_eq_nat_uint by (simp add: uint_word_of_int)

lemma run_ops_append: "run_ops (xs @ ys) K = (case run_ops xs K of None \<Rightarrow> None | Some K' \<Rightarrow> run_ops ys K')"
  by (induction xs K rule: run_ops.induct) simp_all

lemma run_ops_open: "distinct xs \<Longrightarrow> set xs \<inter> K = {} \<Longrightarrow> run_ops (map Open xs) K = Some (set xs \<union> K)"
proof (induction xs arbitrary: K)
  case (Cons x xs)
  then have "run_ops (map Open xs) (insert x K) = Some (set xs \<union> insert x K)" by (intro Cons.IH) simp_all
  then show ?case using Cons.prems(2) by simp
qed simp

lemma run_ops_close: "distinct xs \<Longrightarrow> set xs \<subseteq> K \<Longrightarrow> run_ops (map connection_dtor xs) K = Some (K - set xs)"
proof (induction xs arbitrary: K)
  case (Cons x xs)
  have "run_ops (map connection_dtor xs) (K - {x}) = Some (K - {x} - set xs)" using Cons.prems by (intro Cons.IH) auto
  moreover have "K - {x} - set xs = K - set (x # xs)" by auto
  ultimately show ?case using Cons.prems(2) by (simp add: connection_dtor_def [of x])
qed simp

lemma accepted_Cons: "accepted (Listen rs # evs) = accept_loop rs @ accepted evs" "accepted (Client fd ev # evs) = accepted evs" "accepted [] = []"
  by (simp_all add: accepted_def)

lemma fold_accept_fds: "set (fds (fold accept_client cfds w)) = set cfds \<union> set (fds w)"
  by (induction cfds arbitrary: w) (auto simp: accept_client_def)

text \<open>What the events of an iteration accept is new, and nothing else joins or leaves the connections.\<close>

lemma events_accepted:
  assumes "loop_ok lfd {} w" "inputs_ok lfd evs w" "handle_events evs w = Some (Inr w')"
  shows "set (fds w') = set (accepted evs) \<union> set (fds w) \<and> distinct (accepted evs) \<and> set (accepted evs) \<inter> set (fds w) = {}"
  using assms
proof (induction evs w rule: handle_events.induct)
  case (1 w)
  then show ?case by (simp add: accepted_Cons)
next
  case (2 rs evs w)
  let ?cfds = "accept_loop rs"
  have i: "distinct ?cfds" "set ?cfds \<inter> set (fds w) = {}" "inputs_ok lfd evs (fold accept_client ?cfds w)"
    using "2.prems"(2) by (auto simp: Let_def)
  have "loop_ok lfd {} (fold accept_client ?cfds w)" using accepts_ok [OF "2.prems"(1) i(1)] "2.prems"(2) by (simp add: Let_def)
  from "2.IH" [OF this i(3)] "2.prems"(3)
  show ?case using i(1,2) by (auto simp: accepted_Cons fold_accept_fds)
next
  case (3 fd ev evs w)
  have ct: "client_tame fd ev w" using "3.prems"(2) by simp
  obtain w1 where w1: "handle_client fd ev w = Some (Inr w1)" "handle_events evs w1 = Some (Inr w')"
    using "3.prems"(3) by (auto split: option.splits sum.splits)
  have l: "loop_ok lfd {} w1" "fds w1 = fds w" using handle_client_ok [OF "3.prems"(1) ct] w1(1) by (auto simp: loop_result_def)
  have "inputs_ok lfd evs w1" using "3.prems"(2) w1(1) by simp
  from "3.IH" [OF w1(1) refl l(1) this w1(2)] l(2) show ?case by (simp add: accepted_Cons)
qed

text \<open>The descriptors in \<open>X\<close> are not clients' and stay open.\<close>

lemma iterate_descriptors:
  assumes b: "between lfd w" and i: "iteration_ok lfd it w" and r: "iterate it w = Some (Inr (go_on, w'))"
    and X: "X \<inter> dom (conns w) = {}" "\<And>evs. poll_res it = Ready evs \<Longrightarrow> X \<inter> set (accepted evs) = {}"
  shows "run_ops (iterate_ops it w) (X \<union> dom (conns w)) = Some (X \<union> dom (conns w')) \<and> X \<inter> dom (conns w') = {}"
proof -
  let ?w0 = "w\<lparr>wmetrics := (wmetrics w)\<lparr>connectedClients := length (fds w)\<rparr>\<rparr>"
  have l0: "loop_ok lfd {} ?w0" using b by (simp add: between_def loop_ok_def world_ok_def metrics_inv_def)
  obtain oevs el w1 where p: "poll (timer_callback (tick it)) (poll_ns it) (poll_res it) (eloop ?w0, ?w0) = (oevs, el, w1)"
    by (metis prod_cases3)
  note l1 = loop_polled [OF l0 p]
  have c1: "conns w1 = conns w" "fds w1 = fds w"
    using p by (auto simp: poll_def timer_callback_def split: wait_result.splits if_splits)
  show ?thesis
  proof (cases oevs)
    case None
    then show ?thesis using p r X(1) c1 by (auto simp: iterate_def iterate_ops_def Let_def)
  next
    case (Some evs)
    have io: "inputs_ok lfd evs (w1\<lparr>eloop := el\<rparr>)" using i p Some by (simp add: iteration_ok_def Let_def)
    obtain w2 where w2: "handle_events evs (w1\<lparr>eloop := el\<rparr>) = Some (Inr w2)" "w' = cleanup (sweep (w2\<lparr>wdb := db_rehashStep (wdb w2)\<rparr>))"
      using r p Some by (auto simp: iterate_def Let_def split: option.splits sum.splits)
    have l2: "loop_ok lfd {} w2" using handle_events_ok [OF l1 io] w2(1) by simp
    let ?s = "sweep (w2\<lparr>wdb := db_rehashStep (wdb w2)\<rparr>)"
    have l3: "loop_ok lfd {} ?s" "fds ?s = fds w2"
      using sweep_ok(1,2) [OF loop_ok_db [OF l2 good_rehash [OF world_okD(1) [OF loop_okD(1) [OF l2]]]]] by simp_all
    have a: "set (fds w2) = set (accepted evs) \<union> set (fds w)" "distinct (accepted evs)" "set (accepted evs) \<inter> set (fds w) = {}"
      using events_accepted [OF l1 io w2(1)] c1(2) by simp_all
    have d: "dom (conns w) = set (fds w)" "dom (conns ?s) = set (fds w2)"
      using loop_okD(3) [OF l0] loop_okD(3) [OF l3(1)] l3(2) by simp_all
    have xa: "X \<inter> set (accepted evs) = {}"
      using X(2) p Some by (auto simp: poll_def accepted_def split: wait_result.splits if_splits dest!: in_set_takeD)
    have tc: "set (toClose ?s) \<subseteq> set (fds w2)" "distinct (toClose ?s)"
      using loop_okD(2) [OF l3(1)] l3(2) by (auto simp: toClose_def)
    have w': "dom (conns w') = set (fds w2) - set (toClose ?s)"
      using cleanup_ok(2) [OF l3(1)] w2(2) d(2) by (auto simp: dom_def split: if_splits)
    have ops: "iterate_ops it w = map Open (accepted evs) @ map connection_dtor (toClose ?s)"
      using p Some w2(1) by (simp add: iterate_ops_def Let_def)
    have o: "run_ops (map Open (accepted evs)) (X \<union> dom (conns w)) = Some (X \<union> set (fds w2))"
      using run_ops_open [OF a(2), of "X \<union> dom (conns w)"] xa a(1,3) d(1) by (simp add: Int_Un_distrib inf_commute Un_left_commute)
    have c: "run_ops (map connection_dtor (toClose ?s)) (X \<union> set (fds w2)) = Some (X \<union> set (fds w2) - set (toClose ?s))"
      using tc by (intro run_ops_close) auto
    have x: "X \<inter> set (fds w2) = {}" using X(1) xa a(1) d(1) by auto
    then have "X \<union> set (fds w2) - set (toClose ?s) = X \<union> dom (conns w')" using w' tc(1) by auto
    then show ?thesis using o c x w' by (auto simp: ops run_ops_append)
  qed
qed

text \<open>The kernel returns descriptors that are not in use by the program.\<close>

fun loop_fresh :: "nat \<Rightarrow> nat set \<Rightarrow> iteration list \<Rightarrow> world \<Rightarrow> bool" where
  "loop_fresh lfd X [] w = True"
| "loop_fresh lfd X (it # its) w =
     (iteration_ok lfd it w \<and> (\<forall>evs. poll_res it = Ready evs \<longrightarrow> X \<inter> set (accepted evs) = {}) \<and>
      (\<forall>w'. iterate it w = Some (Inr (True, w')) \<longrightarrow> loop_fresh lfd X its w'))"

lemma loop_descriptors:
  assumes "between lfd w" "loop_fresh lfd X its w" "main_loop its w = Some (Inr w')" "X \<inter> dom (conns w) = {}"
  shows "run_ops (loop_ops its w) (X \<union> dom (conns w)) = Some (X \<union> dom (conns w')) \<and> X \<inter> dom (conns w') = {} \<and>
    distinct (fds w') \<and> set (fds w') = dom (conns w')"
  using assms
proof (induction its arbitrary: w)
  case Nil
  then show ?case by (simp add: between_def loop_ok_def)
next
  case (Cons it its)
  have i: "iteration_ok lfd it w" using Cons.prems(2) by simp
  obtain go_on w1 where w1: "iterate it w = Some (Inr (go_on, w1))" "(if go_on then main_loop its w1 else Some (Inr w1)) = Some (Inr w')"
    using Cons.prems(3) by (auto split: option.splits sum.splits prod.splits)
  have d: "run_ops (iterate_ops it w) (X \<union> dom (conns w)) = Some (X \<union> dom (conns w1))" "X \<inter> dom (conns w1) = {}"
    using iterate_descriptors [OF Cons.prems(1) i w1(1) Cons.prems(4)] Cons.prems(2) by auto
  show ?case
  proof (cases go_on)
    case True
    have "between lfd w1" using iterate_ok [OF Cons.prems(1) i] w1(1) True by auto
    from Cons.IH [OF this _ _ d(2)] show ?thesis
      using Cons.prems(2) w1 True d(1) by (simp add: run_ops_append)
  next
    case False
    have "fds w1 = fds w \<and> dom (conns w1) = dom (conns w)"
      using w1(1) False by (auto simp: iterate_def Let_def poll_def timer_callback_def split: wait_result.splits if_splits prod.splits option.splits sum.splits)
    then show ?thesis using Cons.prems(1) w1 False d by (simp add: run_ops_append between_def loop_ok_def)
  qed
qed

text \<open>C31 (error). The listener. Whatever system call fails, the constructor reports which, and the descriptor it had
  obtained is closed again: the table of open descriptors is as before. When all succeed exactly one
  descriptor more is open, the socket is bound to the port number reduced modulo 65536, and the
  destructor restores the table.\<close>
theorem listener_errors:
  assumes "\<forall>fd. socket_res le = Some fd \<longrightarrow> fd \<notin> K"
  shows "case listener_ctor le addr port of
      (Inl msg, ops) \<Rightarrow> run_ops ops K = Some K \<and>
        (msg = ''socket() failed: '' @ strerror le \<and> socket_res le = None \<or>
         msg = ''Invalid address: '' @ addr \<and> inet_pton le addr = None \<or>
         msg = ''bind() failed: '' @ strerror le \<and> (\<exists>ip. inet_pton le addr = Some ip \<and> \<not> bind_ok le ip (nat (port mod 65536))) \<or>
         msg = ''listen() failed: '' @ strerror le \<and> \<not> listen_ok le)
    | (Inr l, ops) \<Rightarrow> run_ops ops K = Some (insert (listen_fd l) K) \<and> socket_res le = Some (listen_fd l) \<and>
        int (listen_port l) = port mod 65536 \<and> run_ops (ops @ listener_dtor l) K = Some K"
proof -
  have "uint16 port = nat (port mod 65536)" using uint16_mod [of port] by simp
  then show ?thesis using assms uint16_mod [of port]
    by (auto simp: listener_ctor_def listener_dtor_def split: option.split)
qed

definition demo_listen :: "bool \<Rightarrow> listen_env" where
  "demo_listen free = \<lparr>socket_res = Some 3, inet_pton = (\<lambda>a. if a = ''0.0.0.0'' then Some 0 else None),
     bind_ok = (\<lambda>ip port. free), listen_ok = True, strerror = ''Address already in use''\<rparr>"

theorem listener_errors_witness:
  "run_ops (snd (listener_ctor (demo_listen False) ''0.0.0.0'' 6379)) {0, 1, 2} = Some {0, 1, 2} \<and>
   (\<exists>l ops. listener_ctor (demo_listen True) ''0.0.0.0'' 70000 = (Inr l, ops) \<and> int (listen_port l) = 4464)"
proof -
  have f: "\<forall>fd. socket_res (demo_listen b) = Some fd \<longrightarrow> fd \<notin> {0, 1, 2}" for b by (simp add: demo_listen_def)
  have "\<exists>msg ops. listener_ctor (demo_listen False) ''0.0.0.0'' 6379 = (Inl msg, ops)"
    "\<exists>l ops. listener_ctor (demo_listen True) ''0.0.0.0'' 70000 = (Inr l, ops)"
    by (simp_all add: listener_ctor_def demo_listen_def)
  then show ?thesis
    using listener_errors [OF f, of False "''0.0.0.0''" 6379] listener_errors [OF f, of True "''0.0.0.0''" 70000] by auto
qed

lemma startup_no_clients:
  assumes "\<forall>args \<in> set (fst (rf.decode_all (source_bytes src))). tame args"
    and "startup now src pipe ses (initial_world port lfd opened t content) = Some (Inr w)"
  shows "conns w = Map.empty"
proof -
  let ?w = "initial_world port lfd opened t content"
  have w: "world_ok ?w" "conns ?w = Map.empty"
    using good_db_new ps_inv_new metrics_inv_new by (simp_all add: world_ok_def initial_world_def)
  obtain x where "load src pipe ses ?w = Some x" "case x of Inl e \<Rightarrow> stoi_error e
     | Inr (n, w') \<Rightarrow> world_ok w' \<and> conns w' = Map.empty \<and> fds w' = fds ?w \<and> eloop w' = eloop ?w"
    using load_safe [OF w assms(1), of pipe ses] by blast
  then show ?thesis using assms(2) by (auto simp: startup_def split: sum.splits prod.splits)
qed

lemma boot_descriptors:
  assumes "boot be argv = (Inr (l, ep, w0), ops)" "run_ops ops K = Some K0"
  shows "K0 = insert ep (insert (listen_fd l) K)" "listen_fd l \<notin> K" "ep \<notin> insert (listen_fd l) K"
    "w0 = initial_world (uint16 (parse_port argv)) (listen_fd l) (log_opened be) (boot_ns be) (log_content be)"
    "listen_port l = uint16 (parse_port argv)"
  using assms
  by (auto simp: boot_def listener_ctor_def event_loop_ctor_def Let_def split: option.splits if_splits prod.splits sum.splits)

lemma load_descriptors:
  assumes "fd \<notin> K" "\<forall>p0 p1. pipe = Some (p0, p1) \<longrightarrow> p0 \<noteq> p1 \<and> p0 \<notin> K \<and> p1 \<notin> K"
  shows "run_ops (load_ops src fd pipe) K = Some K"
proof -
  have "insert p1 (insert p0 K) - {p0} - {p1} = K" if "pipe = Some (p0, p1)" for p0 p1 using that assms(2) by auto
  then show ?thesis using assms
    by (auto simp: load_ops_def connection_dtor_def split: aof_source.split sum.split option.split)
qed

text \<open>C21 (safety). No descriptor leaks. From the start of the program to its end - through the loading of the log, any
  iterations of the loop with any clients, and the destructors - every descriptor of a socket, of the
  event loop and of the loader is closed exactly once and none is closed that is not open: at the end
  the table is what it was before the start, and in between it holds the listener, the event loop
  and the clients.\<close>
theorem descriptors_balanced:
  assumes "boot be argv = (Inr (l, ep, w0), ops)" and "run_ops ops K = Some K0"
    and "startup now src (map_option snd pipe) ses w0 = Some (Inr w1)"
    and "\<forall>args \<in> set (fst (rf.decode_all (source_bytes src))). tame args"
    and "fd \<notin> K0" and "\<forall>p0 p1. pipe = Some (p0, p1) \<longrightarrow> p0 \<noteq> p1 \<and> p0 \<notin> K0 \<and> p1 \<notin> K0"
    and "loop_fresh (listen_fd l) K0 its w1" and "main_loop its w1 = Some (Inr w2)"
  shows "K0 = insert ep (insert (listen_fd l) K) \<and>
    run_ops (ops @ load_ops src fd pipe @ loop_ops its w1) K = Some (K0 \<union> dom (conns w2)) \<and>
    run_ops (ops @ load_ops src fd pipe @ loop_ops its w1 @ exit_ops l ep w2) K = Some K"
proof -
  note b = boot_descriptors [OF assms(1,2)]
  have s1: "conns w1 = Map.empty" by (rule startup_no_clients [OF assms(4) assms(3) [unfolded b(4)]])
  have s: "between (listen_fd l) w1"
    using startup_ok [OF assms(4), of now "map_option snd pipe" ses] assms(3) unfolding b(4) by (metis option.inject sum.case(2))
  have lp: "run_ops (loop_ops its w1) K0 = Some (K0 \<union> dom (conns w2))" "K0 \<inter> dom (conns w2) = {}" "distinct (fds w2)"
    "set (fds w2) = dom (conns w2)"
    using loop_descriptors [OF s assms(7,8)] s1 by simp_all
  have "run_ops (map connection_dtor (fds w2)) (K0 \<union> dom (conns w2)) = Some (K0 \<union> dom (conns w2) - set (fds w2))"
    using lp(3,4) by (intro run_ops_close) auto
  moreover have "K0 \<union> dom (conns w2) - set (fds w2) = K0" using lp(2,4) by auto
  moreover have "K0 - {ep} - {listen_fd l} = K" "ep \<in> K0" "listen_fd l \<in> K0 - {ep}" using b(1-3) by auto
  ultimately show ?thesis
    using assms(2) load_descriptors [OF assms(5,6)] lp(1) b(1)
    by (simp add: run_ops_append exit_ops_def event_loop_dtor_def listener_dtor_def)
qed

theorem descriptors_balanced_witness:
  "\<exists>l ops w2. boot \<lparr>lenv = demo_listen True, epoll_res = Some 4, boot_ns = 0, log_opened = True, log_content = []\<rparr> [''simple-redis''] =
      (Inr (l, 4, initial_world 6379 3 True 0 []), ops) \<and>
    main_loop [demo_iteration] booted_world = Some (Inr w2) \<and>
    run_ops (ops @ load_ops NotFound 5 None @ loop_ops [demo_iteration] booted_world) {0, 1, 2} = Some {0, 1, 2, 3, 4, 7} \<and>
    run_ops (ops @ load_ops NotFound 5 None @ loop_ops [demo_iteration] booted_world @ exit_ops l 4 w2) {0, 1, 2} = Some {0, 1, 2}"
proof -
  let ?be = "\<lparr>lenv = demo_listen True, epoll_res = Some 4, boot_ns = 0, log_opened = True, log_content = []\<rparr>"
  let ?l = "\<lparr>listen_fd = 3, listen_port = 6379\<rparr>" and ?w = "initial_world 6379 3 True 0 []"
  have "uint16 6379 = 6379" using uint16_mod [of 6379] by simp
  then have b: "boot ?be [''simple-redis''] = (Inr (?l, 4, ?w), [Open 3, Open 4])"
    by (simp add: boot_def parse_port_def listener_ctor_def demo_listen_def event_loop_ctor_def)
  have r: "run_ops [Open 3, Open 4] {0, 1, 2} = Some {0, 1, 2, 3, 4}" by (auto simp: insert_commute)
  have st: "startup 0 NotFound (map_option snd None) ses ?w = Some (Inr booted_world)" for ses
    using demo_booted by (simp add: booted_world_def)
  have t: "\<forall>args \<in> set (fst (rf.decode_all (source_bytes NotFound))). tame args" by (simp add: rf.decode_all_None)
  have f: "loop_fresh (listen_fd ?l) {0, 1, 2, 3, 4} [demo_iteration] booted_world"
    using demo_iteration_ok by (simp add: demo_iteration_def accepted_def)
  have m: "main_loop [demo_iteration] booted_world = Some (Inr accepted_world)" using demo_iterate by simp
  have "{0, 1, 2, 3, 4 :: nat} \<union> dom (conns accepted_world) = {0, 1, 2, 3, 4, 7}" by (auto simp: accepted_conns)
  then show ?thesis
    using descriptors_balanced [where fd = 5 and pipe = None, OF b r st t _ _ f m] b m by auto
qed

end
