(* ===== verification/Skiplist_Memory.thy ===== *)
theory Skiplist_Memory
  imports Skiplist
begin

text \<open>
  The memory of a skip list: the destructor, move construction and move assignment. An object whose
  nodes have been moved away has a null header; it is \<open>None\<close> here. Deleting a node removes it from the
  store of nodes; reading a node that has been deleted is \<open>None\<close>, as everywhere in \<open>Skiplist\<close>.
\<close>

section \<open>Operations\<close>

text \<open>The loop of \<^verbatim>\<open>deleteAllNodes\<close>: the successor is read before the node is deleted.\<close>

partial_function (option) delete_nodes :: "(addr \<rightharpoonup> node) \<Rightarrow> addr option \<Rightarrow> (addr \<rightharpoonup> node) option" where
  [code]: "delete_nodes h x =
     (case x of
        None \<Rightarrow> Some h
      | Some a \<Rightarrow> (case fwd h a 0 of None \<Rightarrow> None | Some nxt \<Rightarrow> delete_nodes (h(a := None)) nxt))"

text \<open>What is left in the store of nodes; nothing happens to an object without nodes.\<close>

definition deleteAllNodes :: "skiplist option \<Rightarrow> (addr \<rightharpoonup> node) option" where
  "deleteAllNodes obj =
     (case obj of
        None \<Rightarrow> Some Map.empty
      | Some sl \<Rightarrow> do {
          x \<leftarrow> fwd (nodes sl) (header sl) 0;
          h \<leftarrow> delete_nodes (nodes sl) x;
          Some (h(header sl := None)) })"

text \<open>The new object and what becomes of the old one.\<close>

definition move_construct :: "skiplist option \<Rightarrow> skiplist option \<times> skiplist option" where
  "move_construct other = (other, None)"

text \<open>Assignment first deletes the nodes the target had; assigning an object to itself does nothing. The
  results are the target, the source, and what is left of the target's old nodes.\<close>

definition move_assign :: "bool \<Rightarrow> skiplist option \<Rightarrow> skiplist option \<Rightarrow>
    (skiplist option \<times> skiplist option \<times> (addr \<rightharpoonup> node)) option" where
  "move_assign same target source =
     (if same then Some (target, source, Map.empty)
      else do { left \<leftarrow> deleteAllNodes target; Some (source, None, left) })"

definition sl_length :: "skiplist option \<Rightarrow> nat" where
  "sl_length obj = (case obj of None \<Rightarrow> 0 | Some sl \<Rightarrow> sl_size sl)"

section \<open>Properties\<close>

lemma restrict_UNIV: "m |` UNIV = m"
  by (simp add: restrict_map_def)

lemma linked_first: "linked F i x ps \<Longrightarrow> F x i = Some (first ps) \<and> (ps \<noteq> [] \<longrightarrow> linked F i (hd ps) (tl ps))"
  by (cases ps) (simp_all add: linked_def first_def)

lemma delete_nodes_chain:
  "ps \<noteq> [] \<Longrightarrow> linked (fwd h) 0 (hd ps) (tl ps) \<Longrightarrow> distinct ps \<Longrightarrow> delete_nodes h (first ps) = Some (h |` (- set ps))"
proof (induction ps arbitrary: h)
  case (Cons p ps)
  let ?h = "h(p := None)"
  note l = linked_first [OF Cons.prems(2) [simplified]]
  have "delete_nodes ?h (first ps) = Some (?h |` (- set ps))"
  proof (cases "ps = []")
    case True
    then show ?thesis by (simp add: delete_nodes.simps first_def restrict_UNIV)
  next
    case False
    have "linked (fwd h) 0 (hd ps) (tl ps)" using l False by blast
    moreover have "fwd ?h q 0 = fwd h q 0" if "q \<in> set (hd ps # tl ps)" for q
      using that False Cons.prems(3) by (auto simp: fwd_def)
    ultimately have "linked (fwd ?h) 0 (hd ps) (tl ps)" using linked_cong [of "hd ps" "tl ps" "fwd ?h" 0 "fwd h"] by blast
    then show ?thesis using Cons.IH False Cons.prems(3) by simp
  qed
  moreover have "delete_nodes h (first (p # ps)) = delete_nodes ?h (first ps)"
    using l by (simp add: delete_nodes.simps [of h "Some p"] first_def)
  moreover have "?h |` (- set ps) = h |` (- set (p # ps))" by (auto simp: restrict_map_def)
  ultimately show ?case by (simp only:)
qed simp

lemma deleteAllNodes_inv:
  assumes "sl_inv sl ps"
  shows "deleteAllNodes (Some sl) = Some Map.empty"
proof -
  have "filter (\<lambda>p. 0 < height (nodes sl) p) ps = ps" using inv_height(1) [OF assms] by (intro filter_True) fastforce
  then have l: "linked (fwd (nodes sl)) 0 (header sl) ps" using inv_links [OF assms, of 0] by (simp add: kMaxLevel_def)
  have d: "distinct ps" "header sl \<notin> set ps" using inv_distinct [OF assms] by simp_all
  note f = linked_first [OF l]
  have dl: "delete_nodes (nodes sl) (first ps) = Some (nodes sl |` (- set ps))"
  proof (cases "ps = []")
    case True
    then show ?thesis by (simp add: delete_nodes.simps first_def restrict_UNIV)
  qed (use delete_nodes_chain f d in blast)
  have "((nodes sl |` (- set ps))(header sl := None)) q = None" for q
    using inv_dom [OF assms] by (auto simp: restrict_map_def)
  then have "(nodes sl |` (- set ps))(header sl := None) = Map.empty" by (rule ext)
  then show ?thesis using f dl by (simp add: deleteAllNodes_def)
qed



end
